(* ===== verification/XC_Prelude.thy ===== *)
theory XC_Prelude
  imports Complex_Main
begin

text \<open>
  Shared vocabulary of the development.

  \<^item> Rust's \<open>Result<T, E>\<close> is the sum \<open>E + T\<close>: \<open>Inl\<close> is \<open>Err\<close>, \<open>Inr\<close> is \<open>Ok\<close>;
    \<open>bind_result\<close> is the \<open>?\<close> operator, \<open>map_err\<close> is \<open>Result::map_err\<close> and
    \<open>collect_results\<close> is \<open>collect::<Result<Vec<_>, _>>()\<close>.
  \<^item> \<open>usize\<close>, \<open>u32\<close> and \<open>u64\<close> values are \<open>nat\<close>; where the source saturates or checks, the
    operations \<open>saturating_mul\<close>, \<open>saturating_add\<close>, \<open>checked_add\<close> write the bound out.
    \<open>fits_slice\<close> is the fact that a slice of sized elements has at most \<open>isize::MAX\<close> elements.
  \<^item> \<open>rug::Rational\<close> is \<open>rat\<close> and \<open>rug::Integer\<close> is \<open>int\<close>: exact unbounded arithmetic.
  \<^item> \<open>trim\<close>, \<open>show_nat\<close> and \<open>show_int\<close> are the parts of Rust's \<open>str\<close> and \<open>Display\<close> that the
    code uses; strings are lists of ASCII characters.
  \<^item> The theorem collections \<open>enclosure_intros\<close> (membership of a real or complex number in the result
    of an interval operation), \<open>wf_intros\<close> (the interval type invariant) and \<open>result_simps\<close>
    carry most component proofs.
\<close>

named_theorems enclosure_intros \<open>a number lies in the result of an enclosure operation\<close>
named_theorems wf_intros \<open>operations keep the type invariant of their component\<close>
named_theorems result_simps \<open>inversion of successful result computations\<close>

section \<open>Results\<close>

fun bind_result :: "'e + 'a \<Rightarrow> ('a \<Rightarrow> 'e + 'b) \<Rightarrow> 'e + 'b" where
  "bind_result (Inl e) f = Inl e"
| "bind_result (Inr x) f = f x"

fun map_err :: "('e \<Rightarrow> 'f) \<Rightarrow> 'e + 'a \<Rightarrow> 'f + 'a" where
  "map_err f (Inl e) = Inl (f e)"
| "map_err f (Inr x) = Inr x"

fun map_ok :: "('a \<Rightarrow> 'b) \<Rightarrow> 'e + 'a \<Rightarrow> 'e + 'b" where
  "map_ok f (Inl e) = Inl e"
| "map_ok f (Inr x) = Inr (f x)"

fun is_ok :: "'e + 'a \<Rightarrow> bool" where
  "is_ok (Inl e) = False"
| "is_ok (Inr x) = True"

fun ok_option :: "'e + 'a \<Rightarrow> 'a option" where
  "ok_option (Inl e) = None"
| "ok_option (Inr x) = Some x"

fun collect_results :: "('a \<Rightarrow> 'e + 'b) \<Rightarrow> 'a list \<Rightarrow> 'e + 'b list" where
  "collect_results f [] = Inr []"
| "collect_results f (x # xs) =
     bind_result (f x) (\<lambda>y. bind_result (collect_results f xs) (\<lambda>ys. Inr (y # ys)))"

fun fold_result :: "('a \<Rightarrow> 's \<Rightarrow> 'e + 's) \<Rightarrow> 'a list \<Rightarrow> 's \<Rightarrow> 'e + 's" where
  "fold_result f [] s = Inr s"
| "fold_result f (x # xs) s = bind_result (f x s) (fold_result f xs)"

text \<open>A computation that may also panic (\<open>expect\<close>, an index out of range, a division by zero, an
  underflow) fails with a \<open>fault\<close>: \<open>Raised e\<close> is the returned \<open>Err(e)\<close>, \<open>Panicked\<close> the panic.\<close>

datatype 'e fault = Raised 'e | Panicked string

fun panics :: "'e fault + 'a \<Rightarrow> bool" where
  "panics (Inl (Panicked _)) = True"
| "panics _ = False"

lemma panics_bind: "panics (bind_result r f) \<longleftrightarrow> panics r \<or> (\<exists>x. r = Inr x \<and> panics (f x))"
proof (cases r)
  case (Inl e)
  then show ?thesis by (cases e) auto
qed auto

lemma panics_map_err [simp]: "\<not> panics (map_err Raised r)"
  by (cases r) auto

text \<open>Inversion of the combinators: what a successful computation says of its parts.\<close>

lemma bind_result_eq_Inr [result_simps]:
  "bind_result r f = Inr y \<longleftrightarrow> (\<exists>x. r = Inr x \<and> f x = Inr y)"
  by (cases r) auto

lemma bind_result_cong:
  "r = r' \<Longrightarrow> (\<And>x. r' = Inr x \<Longrightarrow> f x = g x) \<Longrightarrow> bind_result r f = bind_result r' g"
  by (cases r') auto

lemma bind_result_eq_Inl:
  "bind_result r f = Inl e \<longleftrightarrow> r = Inl e \<or> (\<exists>x. r = Inr x \<and> f x = Inl e)"
  by (cases r) auto

lemma map_err_eq_Inr [result_simps]: "map_err f r = Inr y \<longleftrightarrow> r = Inr y"
  by (cases r) auto

lemma map_ok_eq_Inr [result_simps]: "map_ok f r = Inr y \<longleftrightarrow> (\<exists>x. r = Inr x \<and> y = f x)"
  by (cases r) auto

lemma is_ok_iff: "is_ok r \<longleftrightarrow> (\<exists>x. r = Inr x)"
  by (cases r) auto

lemma collect_results_Inr:
  "collect_results f xs = Inr ys \<Longrightarrow>
     length ys = length xs \<and> (\<forall>i < length xs. f (xs ! i) = Inr (ys ! i))"
proof (induction xs arbitrary: ys)
  case (Cons x xs)
  then show ?case
    by (auto simp: result_simps less_Suc_eq_0_disj)
qed simp

lemma collect_results_map:
  assumes "\<And>x. x \<in> set xs \<Longrightarrow> f x = Inr (g x)"
  shows "collect_results f xs = Inr (map g xs)"
  using assms by (induction xs) auto

lemma fold_result_append:
  "fold_result f (xs @ ys) s = bind_result (fold_result f xs s) (fold_result f ys)"
proof (induction xs arbitrary: s)
  case (Cons x xs)
  then show ?case by (cases "f x s") auto
qed simp

lemma fold_result_fold:
  assumes "\<And>x s. x \<in> set xs \<Longrightarrow> P s \<Longrightarrow> f x s = Inr (g x s) \<and> P (g x s)" and "P s"
  shows "fold_result f xs s = Inr (fold g xs s) \<and> P (fold g xs s)"
  using assms by (induction xs arbitrary: s) (auto simp: result_simps)

text \<open>Loop invariants: what holds of the state before the iteration for \<open>k\<close>, for loops that returned and
  for loops that are to be shown to return.\<close>

lemma fold_result_upt_inv:
  assumes "fold_result f [a..<b] s = Inr s'" "a \<le> b" "Q a s"
    "\<And>k t t'. a \<le> k \<Longrightarrow> k < b \<Longrightarrow> Q k t \<Longrightarrow> f k t = Inr t' \<Longrightarrow> Q (Suc k) t'"
  shows "Q b s'"
  using assms
proof (induction "b - a" arbitrary: a s)
  case (Suc n)
  then obtain t where "f a s = Inr t" "fold_result f [Suc a..<b] t = Inr s'"
    by (auto simp: upt_conv_Cons result_simps)
  with Suc show ?case by (intro Suc.hyps(1)[of "Suc a" t]) auto
qed auto

lemma fold_result_upt_ok:
  assumes "a \<le> b" "Q a s"
    "\<And>k t. a \<le> k \<Longrightarrow> k < b \<Longrightarrow> Q k t \<Longrightarrow> \<exists>t'. f k t = Inr t' \<and> Q (Suc k) t'"
  shows "\<exists>s'. fold_result f [a..<b] s = Inr s' \<and> Q b s'"
  using assms
proof (induction "b - a" arbitrary: a s)
  case (Suc n)
  then have "a < b" by simp
  then obtain t where t: "f a s = Inr t" "Q (Suc a) t" using Suc.prems by blast
  have "\<exists>s'. fold_result f [Suc a..<b] t = Inr s' \<and> Q b s'"
    using Suc t(2) by (intro Suc.hyps(1)) auto
  then show ?case using t(1) Suc.hyps(2) by (auto simp: upt_conv_Cons)
qed auto

section \<open>Row-major indices\<close>

lemma row_major_less: "i < n \<Longrightarrow> j < n \<Longrightarrow> i * n + j < n * (n :: nat)"
  using mult_le_mono1[of "Suc i" n n] by simp

lemma row_major_eq [simp]:
  assumes "j < n" "j' < (n :: nat)"
  shows "i * n + j = i' * n + j' \<longleftrightarrow> i = i' \<and> j = j'"
proof
  assume eq: "i * n + j = i' * n + j'"
  have "(i * n + j) div n = i" "(i' * n + j') div n = i'" using assms by auto
  then have "i = i'" using eq by metis
  then show "i = i' \<and> j = j'" using eq by simp
qed simp

section \<open>Machine sizes\<close>

definition usize_max :: nat where
  "usize_max = 18446744073709551615"

definition isize_max :: nat where
  "isize_max = 9223372036854775807"

definition u32_max :: nat where
  "u32_max = 4294967295"

definition saturating_mul :: "nat \<Rightarrow> nat \<Rightarrow> nat" where
  "saturating_mul a b = min (a * b) usize_max"

definition saturating_add_u32 :: "nat \<Rightarrow> nat \<Rightarrow> nat" where
  "saturating_add_u32 a b = min (a + b) u32_max"

definition saturating_add :: "nat \<Rightarrow> nat \<Rightarrow> nat" where
  "saturating_add a b = min (a + b) usize_max"

definition checked_add :: "nat \<Rightarrow> nat \<Rightarrow> nat option" where
  "checked_add a b = (if a + b \<le> usize_max then Some (a + b) else None)"

definition checked_mul :: "nat \<Rightarrow> nat \<Rightarrow> nat option" where
  "checked_mul a b = (if a * b \<le> usize_max then Some (a * b) else None)"

definition checked_sub :: "nat \<Rightarrow> nat \<Rightarrow> nat option" where
  "checked_sub a b = (if b \<le> a then Some (a - b) else None)"

definition fits_slice :: "'a list \<Rightarrow> bool" where
  "fits_slice xs \<longleftrightarrow> length xs \<le> isize_max"

lemma saturating_mul_slice:
  assumes "fits_slice xs" and "length xs = saturating_mul a b"
  shows "length xs = a * b"
  using assms by (auto simp: fits_slice_def saturating_mul_def isize_max_def usize_max_def min_def
      split: if_splits)

lemma checked_mul_Some [simp]: "checked_mul a b = Some c \<longleftrightarrow> c = a * b \<and> a * b \<le> usize_max"
  by (auto simp: checked_mul_def)

lemma checked_add_Some [simp]: "checked_add a b = Some c \<longleftrightarrow> c = a + b \<and> a + b \<le> usize_max"
  by (auto simp: checked_add_def)

lemma checked_sub_Some [simp]: "checked_sub a b = Some c \<longleftrightarrow> b \<le> a \<and> c = a - b"
  by (auto simp: checked_sub_def)

text \<open>Division of \<open>rug::Integer\<close> truncates towards zero.\<close>

definition integer_div :: "int \<Rightarrow> int \<Rightarrow> int" where
  "integer_div a b =
     (if (a < 0) = (b < 0) then \<bar>a\<bar> div \<bar>b\<bar> else - (\<bar>a\<bar> div \<bar>b\<bar>))"

lemma integer_div_nonneg: "0 \<le> a \<Longrightarrow> 0 < b \<Longrightarrow> integer_div a b = a div b"
  by (simp add: integer_div_def)

text \<open>\<open>Integer::significant_bits\<close>: the number of bits of the absolute value.\<close>

fun significant_bits_nat :: "nat \<Rightarrow> nat" where
  "significant_bits_nat n = (if n = 0 then 0 else Suc (significant_bits_nat (n div 2)))"

declare significant_bits_nat.simps [simp del]

definition significant_bits :: "int \<Rightarrow> nat" where
  "significant_bits z = significant_bits_nat (nat \<bar>z\<bar>)"

lemma int_div_bounds:
  fixes m d :: int
  assumes "0 < d"
  shows "m div d * d \<le> m" and "m < (m div d + 1) * d"
proof -
  have "m = m div d * d + m mod d" by simp
  moreover have "0 \<le> m mod d" "m mod d < d" using assms by simp_all
  moreover have "(m div d + 1) * d = m div d * d + d" by (simp add: algebra_simps)
  ultimately show "m div d * d \<le> m" and "m < (m div d + 1) * d" by linarith+
qed

lemma scaled_bounds:
  fixes x k p :: real
  assumes "0 < p"
  shows "k \<le> x * p \<Longrightarrow> k / p \<le> x" and "x * p < k + 1 \<Longrightarrow> x - 1 / p < k / p"
    and "x * p \<le> k \<Longrightarrow> x \<le> k / p" and "k < x * p + 1 \<Longrightarrow> k / p < x + 1 / p"
  using assms pos_less_divide_eq[OF assms, of x "k + 1"] pos_divide_less_eq[OF assms, of "k - 1" x]
  by (simp_all add: pos_le_divide_eq pos_divide_le_eq add_divide_distrib diff_divide_distrib)

lemma int_ratio_le: "0 < d \<Longrightarrow> (k :: int) * d \<le> m \<longleftrightarrow> real_of_int k \<le> real_of_int m / real_of_int d"
  by (simp add: pos_le_divide_eq flip: of_int_mult)

lemma int_ratio_less: "0 < d \<Longrightarrow> (m :: int) < k * d \<longleftrightarrow> real_of_int m / real_of_int d < real_of_int k"
  by (simp add: pos_divide_less_eq flip: of_int_mult)

section \<open>Text\<close>

text \<open>ASCII part of \<open>char::is_whitespace\<close>: tab, line feed, vertical tab, form feed, carriage
  return and space.\<close>

definition is_whitespace :: "char \<Rightarrow> bool" where
  "is_whitespace c \<longleftrightarrow> of_char c \<in> {9, 10, 11, 12, 13, 32 :: nat}"

definition is_ascii_digit :: "char \<Rightarrow> bool" where
  "is_ascii_digit c \<longleftrightarrow> 48 \<le> (of_char c :: nat) \<and> (of_char c :: nat) \<le> 57"

definition trim_start :: "string \<Rightarrow> string" where
  "trim_start s = dropWhile is_whitespace s"

definition trim :: "string \<Rightarrow> string" where
  "trim s = rev (dropWhile is_whitespace (rev (dropWhile is_whitespace s)))"

definition blank :: "string \<Rightarrow> bool" where
  "blank s \<longleftrightarrow> trim s = []"

lemma blank_iff: "blank s \<longleftrightarrow> (\<forall>c \<in> set s. is_whitespace c)"
proof -
  have "(dropWhile is_whitespace (rev (dropWhile is_whitespace s)) = []) \<longleftrightarrow>
    (\<forall>c \<in> set (dropWhile is_whitespace s). is_whitespace c)"
    by (metis dropWhile_eq_Nil_conv set_rev)
  also have "\<dots> \<longleftrightarrow> (\<forall>c \<in> set s. is_whitespace c)"
    by (metis dropWhile_eq_Nil_conv hd_dropWhile hd_in_set empty_iff list.set(1))
  finally show ?thesis by (simp add: blank_def trim_def)
qed

definition digit_char :: "nat \<Rightarrow> char" where
  "digit_char d = char_of (48 + d)"

definition char_digit :: "char \<Rightarrow> nat" where
  "char_digit c = of_char c - 48"

fun show_nat :: "nat \<Rightarrow> string" where
  "show_nat n = (if n < 10 then [digit_char n] else show_nat (n div 10) @ [digit_char (n mod 10)])"

declare show_nat.simps [simp del]

definition show_int :: "int \<Rightarrow> string" where
  "show_int z = (if z < 0 then CHR ''-'' # show_nat (nat (- z)) else show_nat (nat z))"

text \<open>The value of a digit string, most significant digit first.\<close>

definition digits_value :: "string \<Rightarrow> nat" where
  "digits_value s = foldl (\<lambda>acc c. 10 * acc + char_digit c) 0 s"

lemma of_char_digit_char: "d < 10 \<Longrightarrow> of_char (digit_char d) = (48 + d :: nat)"
  by (simp add: digit_char_def)

lemma char_digit_digit_char [simp]: "d < 10 \<Longrightarrow> char_digit (digit_char d) = d"
  by (simp add: char_digit_def of_char_digit_char)

lemma is_ascii_digit_digit_char [simp]: "d < 10 \<Longrightarrow> is_ascii_digit (digit_char d)"
  by (simp add: is_ascii_digit_def of_char_digit_char)

lemma digits_value_snoc [simp]: "digits_value (s @ [c]) = 10 * digits_value s + char_digit c"
  by (simp add: digits_value_def)

lemma digits_value_Nil [simp]: "digits_value [] = 0"
  by (simp add: digits_value_def)

lemma digits_value_show_nat [simp]: "digits_value (show_nat n) = n"
proof (induction n rule: show_nat.induct)
  case (1 n)
  show ?case
  proof (cases "n < 10")
    case True
    then show ?thesis by (subst show_nat.simps) (simp add: digits_value_def)
  next
    case False
    then show ?thesis using 1 by (subst show_nat.simps) simp
  qed
qed

lemma show_nat_digits: "\<forall>c \<in> set (show_nat n). is_ascii_digit c"
proof (induction n rule: show_nat.induct)
  case (1 n)
  then show ?case by (subst show_nat.simps) auto
qed

lemma show_nat_not_Nil [simp]: "show_nat n \<noteq> []"
  by (subst show_nat.simps) simp

section \<open>Reals and rationals\<close>

lemma of_rat_le_iff_real [simp]: "(real_of_rat a \<le> real_of_rat b) \<longleftrightarrow> a \<le> b"
  by (rule of_rat_less_eq)

lemma max4_le: "max a (max b (max c d)) \<le> x \<longleftrightarrow> a \<le> x \<and> b \<le> x \<and> c \<le> x \<and> d \<le> (x :: 'a :: linorder)"
  by auto

lemma mult_between:
  fixes x y :: real
  assumes "a \<le> x" "x \<le> b" "c \<le> y" "y \<le> d"
  shows "min (min (a * c) (a * d)) (min (b * c) (b * d)) \<le> x * y"
    and "x * y \<le> max (max (a * c) (a * d)) (max (b * c) (b * d))"
proof -
  have step: "min (u * c) (u * d) \<le> u * y \<and> u * y \<le> max (u * c) (u * d)" for u :: real
  proof (cases "0 \<le> u")
    case True
    then show ?thesis using assms(3,4) mult_left_mono[of c y u] mult_left_mono[of y d u] by auto
  next
    case False
    then show ?thesis using assms(3,4) mult_left_mono_neg[of c y u] mult_left_mono_neg[of y d u]
      by auto
  qed
  have outer: "min (a * y) (b * y) \<le> x * y \<and> x * y \<le> max (a * y) (b * y)"
  proof (cases "0 \<le> y")
    case True
    then show ?thesis using assms(1,2) mult_right_mono[of a x y] mult_right_mono[of x b y] by auto
  next
    case False
    then show ?thesis using assms(1,2) mult_right_mono_neg[of a x y] mult_right_mono_neg[of x b y]
      by auto
  qed
  show "min (min (a * c) (a * d)) (min (b * c) (b * d)) \<le> x * y"
    using step[of a] step[of b] outer by linarith
  show "x * y \<le> max (max (a * c) (a * d)) (max (b * c) (b * d))"
    using step[of a] step[of b] outer by linarith
qed

end
