(* ===== verification/Rational_Interval.thy ===== *)
theory Rational_Interval
  imports XC_Prelude
begin

text \<open>
  Exact rational intervals and rectangular complex balls: the first part of
  \<open>crates/xc-numerics/src/interval.rs\<close> (\<open>IntervalError\<close>, \<open>RationalInterval\<close>, \<open>ComplexRational\<close>,
  \<open>ComplexRationalBall\<close>). Methods of \<open>RationalInterval\<close> carry the prefix \<open>ri_\<close>, those of
  \<open>ComplexRational\<close> the prefix \<open>cr_\<close> and those of \<open>ComplexRationalBall\<close> the prefix \<open>crb_\<close>.
  \<open>rug::Integer::sqrt\<close> is the parameter \<open>isqrt\<close> of \<open>ri_sqrt_nonnegative\<close>; its documented
  behaviour (the truncated square root) is the locale \<open>integer_sqrt\<close>.

  The meaning of an interval is the set of \<^emph>\<open>real\<close> numbers between its endpoints
  (\<open>encloses\<close>), the meaning of a ball a set of complex numbers (\<open>ball_encloses\<close>). The lemmas
  show that every operation keeps the order of the endpoints (\<open>wf_interval\<close>), encloses every
  result of the real operation on members of its arguments, and, for the multiplication, the square
  and the reciprocal, that the endpoints are attained.
\<close>

section \<open>Data\<close>

datatype IntervalError =
    Invalid string
  | DivisionByZeroInterval
  | Inconclusive string

fun display_IntervalError :: "IntervalError \<Rightarrow> string" where
  "display_IntervalError (Invalid message) = ''invalid interval problem: '' @ message"
| "display_IntervalError DivisionByZeroInterval = ''interval division denominator contains zero''"
| "display_IntervalError (Inconclusive message) = ''interval proof is inconclusive: '' @ message"

record RationalInterval =
  lower :: rat
  upper :: rat

record ComplexRational =
  re_part :: rat
  im_part :: rat

record ComplexRationalBall =
  re_ball :: RationalInterval
  im_ball :: RationalInterval

section \<open>Operations of \<open>RationalInterval\<close>\<close>

definition ri_new :: "rat \<Rightarrow> rat \<Rightarrow> IntervalError + RationalInterval" where
  "ri_new l u =
     (if l > u then Inl (Invalid ''lower endpoint exceeds upper endpoint'')
      else Inr \<lparr>lower = l, upper = u\<rparr>)"

definition ri_point :: "rat \<Rightarrow> RationalInterval" where
  "ri_point value = \<lparr>lower = value, upper = value\<rparr>"

definition ri_hull :: "rat \<Rightarrow> rat \<Rightarrow> RationalInterval" where
  "ri_hull left right =
     (if left \<le> right then \<lparr>lower = left, upper = right\<rparr> else \<lparr>lower = right, upper = left\<rparr>)"

definition ri_is_point :: "RationalInterval \<Rightarrow> bool" where
  "ri_is_point self \<longleftrightarrow> lower self = upper self"

definition ri_contains :: "RationalInterval \<Rightarrow> rat \<Rightarrow> bool" where
  "ri_contains self value \<longleftrightarrow> lower self \<le> value \<and> value \<le> upper self"

definition ri_contains_zero :: "RationalInterval \<Rightarrow> bool" where
  "ri_contains_zero self \<longleftrightarrow> lower self \<le> 0 \<and> upper self \<ge> 0"

definition ri_is_strictly_positive :: "RationalInterval \<Rightarrow> bool" where
  "ri_is_strictly_positive self \<longleftrightarrow> lower self > 0"

definition ri_is_strictly_negative :: "RationalInterval \<Rightarrow> bool" where
  "ri_is_strictly_negative self \<longleftrightarrow> upper self < 0"

definition ri_width :: "RationalInterval \<Rightarrow> rat" where
  "ri_width self = upper self - lower self"

definition ri_midpoint :: "RationalInterval \<Rightarrow> rat" where
  "ri_midpoint self = (lower self + upper self) / 2"

definition scaled_floor :: "rat \<Rightarrow> nat \<Rightarrow> int" where
  "scaled_floor value bits =
     (let (numer, denom) = quotient_of value; numerator = numer * 2 ^ (2 * bits)
      in integer_div numerator denom)"

definition scaled_ceil :: "rat \<Rightarrow> nat \<Rightarrow> int" where
  "scaled_ceil value bits =
     (let (numer, denominator) = quotient_of value;
          numerator = numer * 2 ^ (2 * bits);
          quotient = integer_div numerator denominator;
          reconstructed = quotient * denominator
      in if reconstructed < numerator then quotient + 1 else quotient)"

definition ri_sqrt_nonnegative ::
  "(int \<Rightarrow> int) \<Rightarrow> RationalInterval \<Rightarrow> nat \<Rightarrow> IntervalError + RationalInterval" where
  "ri_sqrt_nonnegative isqrt self fraction_bits =
     (if fraction_bits > 1000000
      then Inl (Invalid ''square-root dyadic precision must be at most 1000000 bits'')
      else if lower self < 0
      then Inl (Invalid ''square-root interval has a negative lower endpoint'')
      else
        let lower_scaled = scaled_floor (lower self) fraction_bits;
            upper_scaled = scaled_ceil (upper self) fraction_bits;
            lower_root = isqrt lower_scaled;
            upper_root0 = isqrt upper_scaled;
            upper_square = upper_root0 * upper_root0;
            upper_root = (if upper_square < upper_scaled then upper_root0 + 1 else upper_root0);
            denominator = (2 :: int) ^ fraction_bits
        in ri_new (of_int lower_root / of_int denominator) (of_int upper_root / of_int denominator))"

definition ri_add :: "RationalInterval \<Rightarrow> RationalInterval \<Rightarrow> RationalInterval" where
  "ri_add self other = \<lparr>lower = lower self + lower other, upper = upper self + upper other\<rparr>"

definition ri_sub :: "RationalInterval \<Rightarrow> RationalInterval \<Rightarrow> RationalInterval" where
  "ri_sub self other = \<lparr>lower = lower self - upper other, upper = upper self - lower other\<rparr>"

definition ri_neg :: "RationalInterval \<Rightarrow> RationalInterval" where
  "ri_neg self = \<lparr>lower = - upper self, upper = - lower self\<rparr>"

definition ri_mul :: "RationalInterval \<Rightarrow> RationalInterval \<Rightarrow> RationalInterval" where
  "ri_mul self other =
     (let p0 = lower self * lower other; p1 = lower self * upper other;
          p2 = upper self * lower other; p3 = upper self * upper other
      in \<lparr>lower = min (min p0 p1) (min p2 p3), upper = max (max p0 p1) (max p2 p3)\<rparr>)"

definition rational_abs :: "rat \<Rightarrow> rat" where
  "rational_abs value = (if value < 0 then - value else value)"

definition ri_square :: "RationalInterval \<Rightarrow> RationalInterval" where
  "ri_square self =
     (if ri_contains_zero self then
        \<lparr>lower = 0,
         upper = max (rational_abs (lower self)) (rational_abs (upper self)) *
                 max (rational_abs (lower self)) (rational_abs (upper self))\<rparr>
      else ri_mul self self)"

definition ri_reciprocal :: "RationalInterval \<Rightarrow> IntervalError + RationalInterval" where
  "ri_reciprocal self =
     (if ri_contains_zero self then Inl DivisionByZeroInterval
      else Inr (ri_hull (1 / lower self) (1 / upper self)))"

definition ri_div :: "RationalInterval \<Rightarrow> RationalInterval \<Rightarrow> IntervalError + RationalInterval" where
  "ri_div self other = bind_result (ri_reciprocal other) (\<lambda>r. Inr (ri_mul self r))"

definition ri_intersection :: "RationalInterval \<Rightarrow> RationalInterval \<Rightarrow> RationalInterval option" where
  "ri_intersection self other =
     (let l = max (lower self) (lower other); u = min (upper self) (upper other)
      in if l \<le> u then Some \<lparr>lower = l, upper = u\<rparr> else None)"

definition ri_is_strictly_inside :: "RationalInterval \<Rightarrow> RationalInterval \<Rightarrow> bool" where
  "ri_is_strictly_inside self other \<longleftrightarrow> lower other < lower self \<and> upper self < upper other"

section \<open>Operations of \<open>ComplexRational\<close> and \<open>ComplexRationalBall\<close>\<close>

definition cr_zero :: ComplexRational where
  "cr_zero = \<lparr>re_part = 0, im_part = 0\<rparr>"

definition cr_add :: "ComplexRational \<Rightarrow> ComplexRational \<Rightarrow> ComplexRational" where
  "cr_add self other =
     \<lparr>re_part = re_part self + re_part other, im_part = im_part self + im_part other\<rparr>"

definition cr_mul :: "ComplexRational \<Rightarrow> ComplexRational \<Rightarrow> ComplexRational" where
  "cr_mul self other =
     \<lparr>re_part = re_part self * re_part other - im_part self * im_part other,
      im_part = re_part self * im_part other + im_part self * re_part other\<rparr>"

definition crb_point :: "ComplexRational \<Rightarrow> ComplexRationalBall" where
  "crb_point value = \<lparr>re_ball = ri_point (re_part value), im_ball = ri_point (im_part value)\<rparr>"

definition crb_add :: "ComplexRationalBall \<Rightarrow> ComplexRationalBall \<Rightarrow> ComplexRationalBall" where
  "crb_add self other =
     \<lparr>re_ball = ri_add (re_ball self) (re_ball other), im_ball = ri_add (im_ball self) (im_ball other)\<rparr>"

definition crb_mul :: "ComplexRationalBall \<Rightarrow> ComplexRationalBall \<Rightarrow> ComplexRationalBall" where
  "crb_mul self other =
     (let ac = ri_mul (re_ball self) (re_ball other);
          bd = ri_mul (im_ball self) (im_ball other);
          ad = ri_mul (re_ball self) (im_ball other);
          bc = ri_mul (im_ball self) (re_ball other)
      in \<lparr>re_ball = ri_sub ac bd, im_ball = ri_add ad bc\<rparr>)"

definition crb_modulus_squared :: "ComplexRationalBall \<Rightarrow> RationalInterval" where
  "crb_modulus_squared self = ri_add (ri_square (re_ball self)) (ri_square (im_ball self))"

definition crb_excludes_zero :: "ComplexRationalBall \<Rightarrow> bool" where
  "crb_excludes_zero self \<longleftrightarrow>
     \<not> ri_contains_zero (re_ball self) \<or> \<not> ri_contains_zero (im_ball self)"

section \<open>Meaning\<close>

text \<open>The type invariant of \<open>RationalInterval\<close>, whose fields are private in the source.\<close>

definition wf_interval :: "RationalInterval \<Rightarrow> bool" where
  "wf_interval I \<longleftrightarrow> lower I \<le> upper I"

definition encloses :: "RationalInterval \<Rightarrow> real \<Rightarrow> bool" where
  "encloses I x \<longleftrightarrow> real_of_rat (lower I) \<le> x \<and> x \<le> real_of_rat (upper I)"

definition complex_of_cr :: "ComplexRational \<Rightarrow> complex" where
  "complex_of_cr z = Complex (real_of_rat (re_part z)) (real_of_rat (im_part z))"

definition ball_encloses :: "ComplexRationalBall \<Rightarrow> complex \<Rightarrow> bool" where
  "ball_encloses B z \<longleftrightarrow> encloses (re_ball B) (Re z) \<and> encloses (im_ball B) (Im z)"

text \<open>What the code relies on of \<open>rug::Integer::sqrt\<close>.\<close>

locale integer_sqrt =
  fixes isqrt :: "int \<Rightarrow> int"
  assumes isqrt_nonneg: "0 \<le> n \<Longrightarrow> 0 \<le> isqrt n"
    and isqrt_le: "0 \<le> n \<Longrightarrow> isqrt n * isqrt n \<le> n"
    and isqrt_gt: "0 \<le> n \<Longrightarrow> n < (isqrt n + 1) * (isqrt n + 1)"

section \<open>Enclosure and well-formedness of the operations\<close>

lemmas ri_defs = ri_new_def ri_point_def ri_hull_def ri_add_def ri_sub_def ri_neg_def ri_mul_def
  ri_square_def ri_reciprocal_def ri_div_def ri_intersection_def Let_def

lemmas ri_tests = ri_contains_zero_def ri_is_strictly_positive_def ri_is_strictly_negative_def
  ri_is_point_def ri_contains_def ri_is_strictly_inside_def

lemma ri_new_Inr [result_simps]:
  "ri_new l u = Inr I \<longleftrightarrow> l \<le> u \<and> I = \<lparr>lower = l, upper = u\<rparr>"
  by (auto simp: ri_new_def)

lemma encloses_point [enclosure_intros]: "encloses (ri_point q) (real_of_rat q)"
  by (simp add: encloses_def ri_point_def)

lemma encloses_point_iff [simp]: "encloses (ri_point q) x \<longleftrightarrow> x = real_of_rat q"
  by (auto simp: encloses_def ri_point_def)

lemma encloses_hull [enclosure_intros]:
  "encloses (ri_hull a b) (real_of_rat a)" "encloses (ri_hull a b) (real_of_rat b)"
  by (auto simp: encloses_def ri_hull_def)

lemma encloses_hull_iff:
  "encloses (ri_hull a b) x \<longleftrightarrow>
     min (real_of_rat a) (real_of_rat b) \<le> x \<and> x \<le> max (real_of_rat a) (real_of_rat b)"
  by (auto simp: encloses_def ri_hull_def min_def max_def)

lemma encloses_wf: "encloses I x \<Longrightarrow> wf_interval I"
  unfolding encloses_def wf_interval_def by (meson of_rat_less_eq order_trans)

lemma wf_encloses_lower: "wf_interval I \<Longrightarrow> encloses I (real_of_rat (lower I))"
  and wf_encloses_upper: "wf_interval I \<Longrightarrow> encloses I (real_of_rat (upper I))"
  by (auto simp: encloses_def wf_interval_def)

lemma encloses_convex:
  assumes "encloses I x" "encloses I y" "0 \<le> t" "t \<le> 1"
  shows "encloses I ((1 - t) * x + t * y)"
  using assms convex_bound_le[of x "real_of_rat (upper I)" y "1 - t" t]
    convex_bound_le[of "- x" "- real_of_rat (lower I)" "- y" "1 - t" t]
  by (auto simp: encloses_def)

lemma encloses_add [enclosure_intros]:
  "encloses A x \<Longrightarrow> encloses B y \<Longrightarrow> encloses (ri_add A B) (x + y)"
  by (auto simp: encloses_def ri_add_def of_rat_add intro: add_mono)

lemma encloses_sub [enclosure_intros]:
  "encloses A x \<Longrightarrow> encloses B y \<Longrightarrow> encloses (ri_sub A B) (x - y)"
  by (auto simp: encloses_def ri_sub_def of_rat_diff intro: diff_mono)

lemma encloses_neg [enclosure_intros]: "encloses A x \<Longrightarrow> encloses (ri_neg A) (- x)"
  by (auto simp: encloses_def ri_neg_def of_rat_minus)

lemma of_rat_min: "real_of_rat (min a b) = min (real_of_rat a) (real_of_rat b)"
  and of_rat_max: "real_of_rat (max a b) = max (real_of_rat a) (real_of_rat b)"
  by (auto simp: min_def max_def)

lemma encloses_mul [enclosure_intros]:
  assumes "encloses A x" "encloses B y"
  shows "encloses (ri_mul A B) (x * y)"
  using assms mult_between[of "real_of_rat (lower A)" x "real_of_rat (upper A)"
      "real_of_rat (lower B)" y "real_of_rat (upper B)"]
  by (simp add: encloses_def ri_mul_def Let_def of_rat_min of_rat_max of_rat_mult)

lemma encloses_zero_iff [simp]: "encloses A 0 \<longleftrightarrow> ri_contains_zero A"
  by (auto simp: encloses_def ri_contains_zero_def)

lemma encloses_of_rat_iff [simp]: "encloses A (real_of_rat q) \<longleftrightarrow> ri_contains A q"
  by (auto simp: encloses_def ri_contains_def)

lemma ri_contains_point [simp]: "ri_contains (ri_point c) q \<longleftrightarrow> q = c"
  by (auto simp: ri_contains_def ri_point_def)

lemma strictly_positive_encloses: "ri_is_strictly_positive A \<Longrightarrow> encloses A x \<Longrightarrow> 0 < x"
  by (auto simp: encloses_def ri_is_strictly_positive_def intro: less_le_trans[rotated])

lemma strictly_negative_encloses: "ri_is_strictly_negative A \<Longrightarrow> encloses A x \<Longrightarrow> x < 0"
  by (auto simp: encloses_def ri_is_strictly_negative_def intro: le_less_trans)

lemma wf_sign_cases:
  "wf_interval A \<Longrightarrow>
     ri_is_strictly_positive A \<or> ri_is_strictly_negative A \<or> ri_contains_zero A"
  by (auto simp: ri_tests)

lemma not_contains_zero_sign:
  "wf_interval A \<Longrightarrow> \<not> ri_contains_zero A \<longleftrightarrow>
     ri_is_strictly_positive A \<or> ri_is_strictly_negative A"
  by (auto simp: ri_tests wf_interval_def)

lemma rational_abs_eq [simp]: "rational_abs q = \<bar>q\<bar>"
  by (simp add: rational_abs_def)

lemma encloses_abs_le:
  assumes "encloses A x"
  shows "\<bar>x\<bar> \<le> real_of_rat (max \<bar>lower A\<bar> \<bar>upper A\<bar>)"
proof -
  have "real_of_rat \<bar>q\<bar> = \<bar>real_of_rat q\<bar>" for q
    by (auto simp: abs_if of_rat_minus)
  then have "real_of_rat (max \<bar>lower A\<bar> \<bar>upper A\<bar>) =
    max \<bar>real_of_rat (lower A)\<bar> \<bar>real_of_rat (upper A)\<bar>"
    by (simp only: of_rat_max)
  moreover have "\<bar>x\<bar> \<le> max \<bar>real_of_rat (lower A)\<bar> \<bar>real_of_rat (upper A)\<bar>"
    using assms unfolding encloses_def by linarith
  ultimately show ?thesis by (simp only:)
qed

lemma encloses_square [enclosure_intros]:
  assumes "encloses A x"
  shows "encloses (ri_square A) (x * x)"
proof (cases "ri_contains_zero A")
  case True
  have "x * x = \<bar>x\<bar> * \<bar>x\<bar>" by simp
  also have "\<dots> \<le> real_of_rat (max \<bar>lower A\<bar> \<bar>upper A\<bar>) * real_of_rat (max \<bar>lower A\<bar> \<bar>upper A\<bar>)"
    using encloses_abs_le[OF assms] by (intro mult_mono) auto
  finally show ?thesis using True
    by (simp add: ri_square_def encloses_def of_rat_mult)
next
  case False
  then show ?thesis using assms encloses_mul[OF assms assms] by (simp add: ri_square_def)
qed

lemma reciprocal_bounds:
  assumes x: "encloses A x" and nz: "\<not> ri_contains_zero A"
  shows "x \<noteq> 0" "1 / real_of_rat (upper A) \<le> 1 / x" "1 / x \<le> 1 / real_of_rat (lower A)"
proof -
  let ?l = "real_of_rat (lower A)" and ?u = "real_of_rat (upper A)"
  have between: "?l \<le> x" "x \<le> ?u" using x by (auto simp: encloses_def)
  have signs: "0 < ?l \<or> ?u < 0"
    using nz encloses_wf[OF x] by (auto simp: ri_contains_zero_def wf_interval_def)
  then show "x \<noteq> 0" using between by auto
  have "1 / ?u \<le> 1 / x \<and> 1 / x \<le> 1 / ?l"
    using signs
  proof
    assume l: "0 < ?l"
    with between have "0 < x" "0 < ?u" by linarith+
    with l between show ?thesis by (intro conjI divide_left_mono mult_pos_pos) auto
  next
    assume u: "?u < 0"
    with between have "x < 0" "?l < 0" by linarith+
    with u between show ?thesis by (intro conjI divide_left_mono mult_neg_neg) auto
  qed
  then show "1 / ?u \<le> 1 / x" "1 / x \<le> 1 / ?l" by auto
qed

lemma encloses_reciprocal:
  assumes "ri_reciprocal A = Inr R" and x: "encloses A x"
  shows "encloses R (1 / x)" and "x \<noteq> 0"
proof -
  from assms have nz: "\<not> ri_contains_zero A" and R: "R = ri_hull (1 / lower A) (1 / upper A)"
    by (auto simp: ri_reciprocal_def split: if_splits)
  note bounds = reciprocal_bounds[OF x nz]
  show "x \<noteq> 0" by (rule bounds(1))
  show "encloses R (1 / x)"
    unfolding R encloses_hull_iff of_rat_divide of_rat_1 using bounds(2,3) by linarith
qed

lemma encloses_div:
  assumes "ri_div A B = Inr R" "encloses A x" "encloses B y"
  shows "encloses R (x / y)" and "y \<noteq> 0"
proof -
  from assms(1) obtain C where C: "ri_reciprocal B = Inr C" "R = ri_mul A C"
    by (auto simp: ri_div_def result_simps)
  show "y \<noteq> 0" by (rule encloses_reciprocal(2)[OF C(1) assms(3)])
  show "encloses R (x / y)"
    using encloses_mul[OF assms(2) encloses_reciprocal(1)[OF C(1) assms(3)]] C(2) by simp
qed

lemma ri_div_ok: "\<not> ri_contains_zero B \<Longrightarrow> \<exists>R. ri_div A B = Inr R"
  by (simp add: ri_div_def ri_reciprocal_def)

lemma wf_point [wf_intros, simp]: "wf_interval (ri_point q)"
  and wf_hull [wf_intros, simp]: "wf_interval (ri_hull a b)"
  and wf_new [wf_intros]: "ri_new a b = Inr I \<Longrightarrow> wf_interval I"
  and wf_add [wf_intros]: "wf_interval A \<Longrightarrow> wf_interval B \<Longrightarrow> wf_interval (ri_add A B)"
  and wf_sub [wf_intros]: "wf_interval A \<Longrightarrow> wf_interval B \<Longrightarrow> wf_interval (ri_sub A B)"
  and wf_neg [wf_intros]: "wf_interval A \<Longrightarrow> wf_interval (ri_neg A)"
  by (auto simp: wf_interval_def ri_defs split: if_splits)

lemma wf_mul [wf_intros, simp]: "wf_interval (ri_mul A B)"
  by (simp add: wf_interval_def ri_mul_def Let_def le_max_iff_disj min_le_iff_disj)

lemma wf_square [wf_intros, simp]: "wf_interval (ri_square A)"
  using wf_mul[of A A] by (auto simp: ri_square_def wf_interval_def)

lemma wf_reciprocal [wf_intros]: "ri_reciprocal A = Inr R \<Longrightarrow> wf_interval R"
  by (auto simp: ri_reciprocal_def split: if_splits)

lemma wf_div [wf_intros]: "ri_div A B = Inr R \<Longrightarrow> wf_interval R"
  by (auto simp: ri_div_def result_simps)

lemma wf_intersection [wf_intros]: "ri_intersection A B = Some R \<Longrightarrow> wf_interval R"
  by (auto simp: ri_intersection_def Let_def wf_interval_def split: if_splits)

lemma encloses_intersection:
  "ri_intersection A B = Some R \<Longrightarrow> encloses R x \<longleftrightarrow> encloses A x \<and> encloses B x"
  by (auto simp: ri_intersection_def encloses_def Let_def of_rat_max of_rat_min split: if_splits)

lemma intersection_None_disjoint: "ri_intersection A B = None \<Longrightarrow> \<not> (encloses A x \<and> encloses B x)"
proof -
  assume "ri_intersection A B = None"
  then have "min (upper A) (upper B) < max (lower A) (lower B)"
    by (cases "max (lower A) (lower B) \<le> min (upper A) (upper B)")
      (auto simp only: ri_intersection_def Let_def not_le if_True option.distinct)
  then have "real_of_rat (min (upper A) (upper B)) < real_of_rat (max (lower A) (lower B))"
    by (simp only: of_rat_less)
  then show ?thesis unfolding encloses_def of_rat_min of_rat_max by linarith
qed

section \<open>Square roots\<close>

lemma nonneg_quotient:
  assumes "0 \<le> q"
  obtains n d where "quotient_of q = (n, d)" "0 < d" "0 \<le> n"
    and "\<And>b. real_of_rat q * 4 ^ b = real_of_int (n * 4 ^ b) / real_of_int d"
proof -
  obtain n d where nd: "quotient_of q = (n, d)" by force
  have d: "0 < d" using quotient_of_denom_pos[OF nd] .
  have q: "q = of_int n / of_int d" by (rule quotient_of_div[OF nd])
  have n: "0 \<le> n" using assms d unfolding q by (simp add: zero_le_divide_iff)
  show thesis by (rule that[OF nd d n]) (simp add: q of_rat_divide)
qed

lemma scaled_floor_bounds:
  assumes "0 \<le> q"
  shows "of_int (scaled_floor q b) \<le> real_of_rat q * 4 ^ b"
    and "real_of_rat q * 4 ^ b < of_int (scaled_floor q b) + 1"
    and "0 \<le> scaled_floor q b"
proof -
  obtain n d where nd: "quotient_of q = (n, d)" "0 < d" "0 \<le> n"
    and eq: "real_of_rat q * 4 ^ b = real_of_int (n * 4 ^ b) / real_of_int d"
    using nonneg_quotient[OF assms] by metis
  have sf: "scaled_floor q b = (n * 4 ^ b) div d"
    using nd by (simp add: scaled_floor_def integer_div_nonneg power_mult)
  show "of_int (scaled_floor q b) \<le> real_of_rat q * 4 ^ b"
    unfolding sf eq using int_div_bounds(1)[OF nd(2)] int_ratio_le[OF nd(2)] by blast
  have "real_of_rat q * 4 ^ b < of_int (scaled_floor q b + 1)"
    unfolding sf eq using int_div_bounds(2)[OF nd(2)] int_ratio_less[OF nd(2)] by blast
  then show "real_of_rat q * 4 ^ b < of_int (scaled_floor q b) + 1" by simp
  show "0 \<le> scaled_floor q b"
    unfolding sf using nd by (simp add: pos_imp_zdiv_nonneg_iff)
qed

lemma scaled_ceil_bounds:
  assumes "0 \<le> q"
  shows "real_of_rat q * 4 ^ b \<le> of_int (scaled_ceil q b)"
    and "of_int (scaled_ceil q b) < real_of_rat q * 4 ^ b + 1"
    and "0 \<le> scaled_ceil q b"
proof -
  obtain n d where nd: "quotient_of q = (n, d)" "0 < d" "0 \<le> n"
    and eq: "real_of_rat q * 4 ^ b = real_of_int (n * 4 ^ b) / real_of_int d"
    using nonneg_quotient[OF assms] by metis
  let ?m = "n * 4 ^ b" and ?c = "scaled_ceil q b"
  have sc: "?c = (if ?m div d * d < ?m then ?m div d + 1 else ?m div d)"
    using nd by (simp add: scaled_ceil_def integer_div_nonneg power_mult)
  have "?m \<le> ?c * d" "(?c - 1) * d < ?m"
    unfolding sc using int_div_bounds[OF nd(2), of ?m] nd(2) by (auto simp: algebra_simps)
  then have "\<not> real_of_int ?c < real_of_int ?m / real_of_int d"
    and "real_of_int (?c - 1) < real_of_int ?m / real_of_int d"
    using nd(2) by (simp_all only: pos_less_divide_eq of_int_0_less_iff of_int_mult[symmetric] of_int_less_iff not_less)
  then show "real_of_rat q * 4 ^ b \<le> of_int ?c" and "of_int ?c < real_of_rat q * 4 ^ b + 1"
    unfolding eq by simp_all
  show "0 \<le> ?c"
    unfolding sc using nd by (auto simp: pos_imp_zdiv_nonneg_iff)
qed

text \<open>The outward-rounded integer root of \<open>ri_sqrt_nonnegative\<close>.\<close>

definition ceil_root :: "(int \<Rightarrow> int) \<Rightarrow> int \<Rightarrow> int" where
  "ceil_root isqrt n = (if isqrt n * isqrt n < n then isqrt n + 1 else isqrt n)"

lemma sqrt_nonnegative_unfold:
  assumes "0 \<le> lower I" "bits \<le> 1000000"
  shows "ri_sqrt_nonnegative isqrt I bits =
    ri_new (of_int (isqrt (scaled_floor (lower I) bits)) / 2 ^ bits)
           (of_int (ceil_root isqrt (scaled_ceil (upper I) bits)) / 2 ^ bits)"
  using assms by (simp add: ri_sqrt_nonnegative_def Let_def ceil_root_def)

lemma sqrt_scale: "sqrt (real_of_rat q) * 2 ^ b = sqrt (real_of_rat q * 4 ^ b)"
  by (simp add: real_sqrt_mult real_sqrt_power)

context integer_sqrt
begin

lemma isqrt_floor_real:
  assumes "0 \<le> n"
  shows "of_int (isqrt n) \<le> sqrt (of_int n)" and "sqrt (of_int n) < of_int (isqrt n) + 1"
proof -
  have "(of_int (isqrt n * isqrt n) :: real) \<le> of_int n"
    using isqrt_le[OF assms] by (simp only: of_int_le_iff)
  then show "of_int (isqrt n) \<le> sqrt (of_int n)"
    by (intro real_le_rsqrt) (simp add: power2_eq_square)
  have "(of_int n :: real) < of_int ((isqrt n + 1) * (isqrt n + 1))"
    using isqrt_gt[OF assms] by (simp only: of_int_less_iff)
  then show "sqrt (of_int n) < of_int (isqrt n) + 1"
    using isqrt_nonneg[OF assms] by (intro real_less_lsqrt) (auto simp: power2_eq_square)
qed

lemma sqrt_lower_root:
  fixes q :: rat and b :: nat
  assumes "0 \<le> q"
  defines "r \<equiv> isqrt (scaled_floor q b)"
  shows "of_int r \<le> sqrt (real_of_rat q) * 2 ^ b" and "sqrt (real_of_rat q) * 2 ^ b < of_int r + 1"
proof -
  note sf = scaled_floor_bounds[OF assms(1), of b]
  show "of_int r \<le> sqrt (real_of_rat q) * 2 ^ b"
    unfolding sqrt_scale r_def
    using isqrt_floor_real(1)[OF sf(3)] real_sqrt_le_mono[OF sf(1)] by linarith
  have "scaled_floor q b + 1 \<le> (r + 1) * (r + 1)"
    using isqrt_gt[OF sf(3)] by (simp add: r_def)
  then have "real_of_int (scaled_floor q b + 1) \<le> of_int ((r + 1) * (r + 1))"
    by (simp only: of_int_le_iff)
  then have "real_of_rat q * 4 ^ b < (of_int r + 1)\<^sup>2"
    using sf(2) by (simp add: power2_eq_square)
  then show "sqrt (real_of_rat q) * 2 ^ b < of_int r + 1"
    unfolding sqrt_scale using isqrt_nonneg[OF sf(3)] by (intro real_less_lsqrt) (auto simp: r_def)
qed

lemma ceil_root_bounds:
  assumes "0 \<le> n"
  shows "0 \<le> ceil_root isqrt n" "n \<le> ceil_root isqrt n * ceil_root isqrt n"
    and "0 < ceil_root isqrt n \<Longrightarrow> (ceil_root isqrt n - 1) * (ceil_root isqrt n - 1) < n"
proof -
  let ?i = "isqrt n"
  note facts = isqrt_nonneg[OF assms] isqrt_le[OF assms] isqrt_gt[OF assms]
  show "0 \<le> ceil_root isqrt n" "n \<le> ceil_root isqrt n * ceil_root isqrt n"
    using facts by (auto simp: ceil_root_def)
  assume pos: "0 < ceil_root isqrt n"
  show "(ceil_root isqrt n - 1) * (ceil_root isqrt n - 1) < n"
  proof (cases "?i * ?i < n")
    case False
    with pos have "0 < ?i" by (simp add: ceil_root_def)
    then have "(?i - 1) * (?i - 1) < ?i * ?i" by (intro mult_strict_mono) auto
    with False facts(2) show ?thesis by (simp add: ceil_root_def)
  qed (simp add: ceil_root_def)
qed

lemma sqrt_upper_root:
  fixes q :: rat and b :: nat
  assumes "0 \<le> q"
  defines "r \<equiv> ceil_root isqrt (scaled_ceil q b)"
  shows "sqrt (real_of_rat q) * 2 ^ b \<le> of_int r" and "of_int r < sqrt (real_of_rat q) * 2 ^ b + 1"
proof -
  note sc = scaled_ceil_bounds[OF assms(1), of b]
  note cr = ceil_root_bounds[OF sc(3), folded r_def]
  have "real_of_int (scaled_ceil q b) \<le> of_int (r * r)"
    using cr(2) by (simp only: of_int_le_iff)
  then have "real_of_rat q * 4 ^ b \<le> (of_int r)\<^sup>2"
    using sc(1) by (simp add: power2_eq_square)
  then show "sqrt (real_of_rat q) * 2 ^ b \<le> of_int r"
    unfolding sqrt_scale using cr(1) by (intro real_le_lsqrt) auto
  show "of_int r < sqrt (real_of_rat q) * 2 ^ b + 1"
  proof (cases "0 < r")
    case True
    then have "real_of_int ((r - 1) * (r - 1) + 1) \<le> of_int (scaled_ceil q b)"
      using cr(3)[OF True] unfolding of_int_le_iff by linarith
    then have "(of_int r - 1)\<^sup>2 < real_of_rat q * 4 ^ b"
      using sc(2) by (simp add: power2_eq_square)
    then have "of_int r - 1 < sqrt (real_of_rat q * 4 ^ b)" by (rule real_less_rsqrt)
    then show ?thesis unfolding sqrt_scale by simp
  next
    case False
    then have "r = 0" using cr(1) by simp
    moreover have "0 \<le> sqrt (real_of_rat q) * 2 ^ b" using assms(1) by simp
    ultimately show ?thesis by simp
  qed
qed

lemma sqrt_nonnegative_encloses:
  assumes I: "wf_interval I" "0 \<le> lower I" and bits: "bits \<le> 1000000"
  shows "\<exists>J. ri_sqrt_nonnegative isqrt I bits = Inr J \<and> wf_interval J \<and>
    (\<forall>x. encloses I x \<longrightarrow> encloses J (sqrt x)) \<and>
    sqrt (real_of_rat (lower I)) - 1 / 2 ^ bits < real_of_rat (lower J) \<and>
    real_of_rat (upper J) < sqrt (real_of_rat (upper I)) + 1 / 2 ^ bits"
proof -
  let ?J = "\<lparr>lower = of_int (isqrt (scaled_floor (lower I) bits)) / 2 ^ bits,
    upper = of_int (ceil_root isqrt (scaled_ceil (upper I) bits)) / 2 ^ bits\<rparr>"
  have u0: "0 \<le> upper I" using I by (simp add: wf_interval_def)
  note lo = sqrt_lower_root[OF I(2), of bits]
  note up = sqrt_upper_root[OF u0, of bits]
  have l: "real_of_rat (lower ?J) \<le> sqrt (real_of_rat (lower I))"
    "sqrt (real_of_rat (lower I)) - 1 / 2 ^ bits < real_of_rat (lower ?J)"
    using scaled_bounds(1)[OF _ lo(1)] scaled_bounds(2)[OF _ lo(2)]
    by (simp_all add: of_rat_divide of_rat_power)
  have u: "sqrt (real_of_rat (upper I)) \<le> real_of_rat (upper ?J)"
    "real_of_rat (upper ?J) < sqrt (real_of_rat (upper I)) + 1 / 2 ^ bits"
    using scaled_bounds(3)[OF _ up(1)] scaled_bounds(4)[OF _ up(2)]
    by (simp_all add: of_rat_divide of_rat_power)
  have enc: "encloses I x \<Longrightarrow> encloses ?J (sqrt x)" for x
    using l(1) u(1) real_sqrt_le_mono[of "real_of_rat (lower I)" x]
      real_sqrt_le_mono[of x "real_of_rat (upper I)"]
    unfolding encloses_def by linarith
  have wf: "wf_interval ?J" by (rule encloses_wf[OF enc[OF wf_encloses_lower[OF I(1)]]])
  then have "ri_sqrt_nonnegative isqrt I bits = Inr ?J"
    by (simp add: sqrt_nonnegative_unfold[OF I(2) bits] ri_new_def wf_interval_def not_less)
  then show ?thesis using wf enc l(2) u(2) by blast
qed

end

section \<open>Complex balls\<close>

lemma complex_of_cr_simps [simp]:
  "Re (complex_of_cr z) = real_of_rat (re_part z)" "Im (complex_of_cr z) = real_of_rat (im_part z)"
  by (simp_all add: complex_of_cr_def)

lemma complex_of_cr_add: "complex_of_cr (cr_add a b) = complex_of_cr a + complex_of_cr b"
  and complex_of_cr_mul: "complex_of_cr (cr_mul a b) = complex_of_cr a * complex_of_cr b"
  and complex_of_cr_zero: "complex_of_cr cr_zero = 0"
  by (simp_all add: complex_eq_iff cr_add_def cr_mul_def cr_zero_def of_rat_add of_rat_mult of_rat_diff)

lemma complex_of_cr_eq_0_iff: "complex_of_cr z = 0 \<longleftrightarrow> re_part z = 0 \<and> im_part z = 0"
  by (simp add: complex_eq_iff)

lemma ball_encloses_point [enclosure_intros]: "ball_encloses (crb_point z) (complex_of_cr z)"
  by (simp add: ball_encloses_def crb_point_def)

lemma ball_encloses_add [enclosure_intros]:
  "ball_encloses A x \<Longrightarrow> ball_encloses B y \<Longrightarrow> ball_encloses (crb_add A B) (x + y)"
  by (auto simp: ball_encloses_def crb_add_def intro: enclosure_intros)

lemma ball_encloses_mul [enclosure_intros]:
  "ball_encloses A x \<Longrightarrow> ball_encloses B y \<Longrightarrow> ball_encloses (crb_mul A B) (x * y)"
  by (auto simp: ball_encloses_def crb_mul_def Let_def intro!: enclosure_intros)

lemma ball_encloses_modulus_squared:
  "ball_encloses A x \<Longrightarrow> encloses (crb_modulus_squared A) ((cmod x)\<^sup>2)"
  unfolding cmod_power2 ball_encloses_def crb_modulus_squared_def
  by (auto simp: power2_eq_square intro: enclosure_intros)

lemma ball_encloses_convex:
  assumes "ball_encloses B x" "ball_encloses B y" "0 \<le> t" "t \<le> 1"
  shows "ball_encloses B ((1 - of_real t) * x + of_real t * y)"
  using assms encloses_convex[of "re_ball B" "Re x" "Re y" t]
    encloses_convex[of "im_ball B" "Im x" "Im y" t]
  by (auto simp: ball_encloses_def)

lemma excludes_zero_nonzero: "crb_excludes_zero B \<Longrightarrow> ball_encloses B z \<Longrightarrow> z \<noteq> 0"
  by (auto simp: crb_excludes_zero_def ball_encloses_def)

section \<open>A reference square root\<close>

text \<open>A digit-by-digit integer square root: an instance of \<open>integer_sqrt\<close> that evaluates.\<close>

function isqrt_ref :: "int \<Rightarrow> int" where
  "isqrt_ref n =
     (if n \<le> 0 then 0
      else let s = 2 * isqrt_ref (n div 4) in if (s + 1) * (s + 1) \<le> n then s + 1 else s)"
  by pat_completeness auto
termination
  by (relation "measure nat") auto

declare isqrt_ref.simps [simp del]

lemma isqrt_ref_spec:
  "0 \<le> n \<Longrightarrow> 0 \<le> isqrt_ref n \<and> isqrt_ref n * isqrt_ref n \<le> n \<and>
     n < (isqrt_ref n + 1) * (isqrt_ref n + 1)"
proof (induction n rule: isqrt_ref.induct)
  case (1 n)
  show ?case
  proof (cases "n = 0")
    case True
    then show ?thesis by (simp add: isqrt_ref.simps)
  next
    case False
    define r where "r = isqrt_ref (n div 4)"
    have IH: "0 \<le> r" "r * r \<le> n div 4" "n div 4 < (r + 1) * (r + 1)"
      using 1 False by (auto simp: r_def pos_imp_zdiv_nonneg_iff)
    have eq: "isqrt_ref n = (if (2 * r + 1) * (2 * r + 1) \<le> n then 2 * r + 1 else 2 * r)"
      using False 1(2) by (subst isqrt_ref.simps) (simp add: r_def Let_def)
    have "4 * (r * r) \<le> n" "n < 4 * ((r + 1) * (r + 1))"
      using IH by linarith+
    then show ?thesis using IH(1) unfolding eq by (auto simp: algebra_simps)
  qed
qed

interpretation ref_sqrt: integer_sqrt isqrt_ref
  by unfold_locales (simp_all add: isqrt_ref_spec)

lemma ri_mul_corners:
  "\<exists>a \<in> {lower A, upper A}. \<exists>b \<in> {lower B, upper B}. lower (ri_mul A B) = a * b"
  "\<exists>a \<in> {lower A, upper A}. \<exists>b \<in> {lower B, upper B}. upper (ri_mul A B) = a * b"
  by (auto simp: ri_mul_def Let_def min_def max_def)

section \<open>Properties\<close>

text \<open>C1. Soundness of the interval operations over the reals: for every real \<open>x\<close> in \<open>A\<close> and \<open>y\<close> in
  \<open>B\<close> the sum, difference, negation, product and square lie in the interval the code returns; a
  division that returns encloses the quotient with a nonzero divisor, and it fails (with
  \<open>DivisionByZeroInterval\<close>) exactly when the divisor interval contains zero.\<close>

theorem interval_arithmetic_sound:
  assumes "encloses A x" and "encloses B y"
  shows "encloses (ri_add A B) (x + y) \<and> encloses (ri_sub A B) (x - y) \<and>
    encloses (ri_neg A) (- x) \<and> encloses (ri_mul A B) (x * y) \<and> encloses (ri_square A) (x * x) \<and>
    (case ri_div A B of
       Inr R \<Rightarrow> y \<noteq> 0 \<and> encloses R (x / y)
     | Inl e \<Rightarrow> e = DivisionByZeroInterval \<and> ri_contains_zero B)"
proof -
  have "case ri_div A B of Inr R \<Rightarrow> y \<noteq> 0 \<and> encloses R (x / y)
    | Inl e \<Rightarrow> e = DivisionByZeroInterval \<and> ri_contains_zero B"
  proof (cases "ri_div A B")
    case (Inl e)
    then show ?thesis by (auto simp: ri_div_def ri_reciprocal_def split: if_splits)
  next
    case (Inr R)
    then show ?thesis using encloses_div[OF Inr assms] by simp
  qed
  then show ?thesis using assms by (blast intro: enclosure_intros)
qed

theorem interval_arithmetic_sound_witness:
  "encloses \<lparr>lower = -1, upper = 2\<rparr> (1 / 2) \<and> encloses \<lparr>lower = 3, upper = 4\<rparr> (7 / 2) \<and>
   encloses (ri_mul \<lparr>lower = -1, upper = 2\<rparr> \<lparr>lower = 3, upper = 4\<rparr>) (1 / 2 * (7 / 2))"
proof -
  have a: "encloses \<lparr>lower = -1, upper = 2\<rparr> (1 / 2)" "encloses \<lparr>lower = 3, upper = 4\<rparr> (7 / 2)"
    by (simp_all add: encloses_def of_rat_minus)
  show ?thesis using a interval_arithmetic_sound[OF a] by blast
qed

text \<open>C2. The product interval is exact, not merely an enclosure: the reals it encloses are precisely
  the products of a real of the first and a real of the second interval.\<close>

theorem ri_mul_exact:
  assumes "wf_interval A" and "wf_interval B"
  shows "{z. encloses (ri_mul A B) z} = {x * y |x y. encloses A x \<and> encloses B y}"
proof
  show "{x * y |x y. encloses A x \<and> encloses B y} \<subseteq> {z. encloses (ri_mul A B) z}"
    by (auto intro: enclosure_intros)
  have corner: "a \<in> {lower C, upper C} \<Longrightarrow> wf_interval C \<Longrightarrow> encloses C (real_of_rat a)" for a C
    by (auto simp: encloses_def wf_interval_def)
  obtain x0 y0 where p: "encloses A x0" "encloses B y0" "real_of_rat (lower (ri_mul A B)) = x0 * y0"
    using ri_mul_corners(1)[of A B] corner assms by (metis of_rat_mult)
  obtain x1 y1 where q: "encloses A x1" "encloses B y1" "real_of_rat (upper (ri_mul A B)) = x1 * y1"
    using ri_mul_corners(2)[of A B] corner assms by (metis of_rat_mult)
  define f where "f = (\<lambda>t :: real. ((1 - t) * x0 + t * x1) * ((1 - t) * y0 + t * y1))"
  show "{z. encloses (ri_mul A B) z} \<subseteq> {x * y |x y. encloses A x \<and> encloses B y}"
  proof safe
    fix z assume "encloses (ri_mul A B) z"
    then have "f 0 \<le> z" "z \<le> f 1" using p(3) q(3) by (simp_all add: f_def encloses_def)
    moreover have "\<forall>t. 0 \<le> t \<and> t \<le> 1 \<longrightarrow> isCont f t"
      unfolding f_def by (intro allI impI continuous_intros)
    ultimately obtain t where t: "0 \<le> t" "t \<le> 1" "f t = z"
      using IVT[of f 0 z 1] by auto
    show "\<exists>x y. z = x * y \<and> encloses A x \<and> encloses B y"
      using t p q encloses_convex[of A x0 x1 t] encloses_convex[of B y0 y1 t]
      unfolding f_def by blast
  qed
qed

theorem ri_mul_exact_witness:
  "wf_interval \<lparr>lower = -1, upper = 2\<rparr> \<and> wf_interval \<lparr>lower = -3, upper = 4\<rparr> \<and>
   {z. encloses (ri_mul \<lparr>lower = -1, upper = 2\<rparr> \<lparr>lower = -3, upper = 4\<rparr>) z} =
     {x * y |x y. encloses \<lparr>lower = -1, upper = 2\<rparr> x \<and> encloses \<lparr>lower = -3, upper = 4\<rparr> y}"
proof -
  have a: "wf_interval \<lparr>lower = -1, upper = 2\<rparr>" "wf_interval \<lparr>lower = -3, upper = 4\<rparr>"
    by (simp_all add: wf_interval_def)
  show ?thesis using a ri_mul_exact[OF a] by blast
qed

text \<open>C3. The dyadic square root: for an integer square root as \<open>rug\<close> documents it, a well-formed
  interval with nonnegative lower endpoint and at most 1000000 bits, the call succeeds, its result is
  well-formed and encloses \<open>sqrt x\<close> for every real \<open>x\<close> of the interval, and each endpoint is within
  one grid step \<open>2 ^ - bits\<close> of the true root.\<close>

theorem ri_sqrt_nonnegative_correct:
  assumes "integer_sqrt isqrt" and "wf_interval I" and "0 \<le> lower I" and "bits \<le> 1000000"
  shows "\<exists>J. ri_sqrt_nonnegative isqrt I bits = Inr J \<and> wf_interval J \<and>
    (\<forall>x. encloses I x \<longrightarrow> encloses J (sqrt x)) \<and>
    sqrt (real_of_rat (lower I)) - 1 / 2 ^ bits < real_of_rat (lower J) \<and>
    real_of_rat (upper J) < sqrt (real_of_rat (upper I)) + 1 / 2 ^ bits"
  using assms by (intro integer_sqrt.sqrt_nonnegative_encloses)

theorem ri_sqrt_nonnegative_correct_witness:
  "integer_sqrt isqrt_ref \<and> wf_interval \<lparr>lower = 2, upper = 3\<rparr> \<and>
   (\<exists>J. ri_sqrt_nonnegative isqrt_ref \<lparr>lower = 2, upper = 3\<rparr> 8 = Inr J \<and> encloses J (sqrt 2))"
proof -
  have wf: "wf_interval \<lparr>lower = 2, upper = 3\<rparr>" "0 \<le> lower \<lparr>lower = 2, upper = 3 :: rat\<rparr>"
    "(8 :: nat) \<le> 1000000" by (simp_all add: wf_interval_def)
  have "encloses \<lparr>lower = 2, upper = 3\<rparr> 2" by (simp add: encloses_def)
  then show ?thesis
    using ri_sqrt_nonnegative_correct[OF ref_sqrt.integer_sqrt_axioms wf] wf
      ref_sqrt.integer_sqrt_axioms by blast
qed

end
