(* ===== verification/Interval_Polynomial.thy ===== *)
theory Interval_Polynomial
  imports Rational_Interval
begin

text \<open>
  Polynomials over exact rationals in \<open>crates/xc-numerics/src/interval.rs\<close>: the four Horner
  evaluators (\<open>evaluate_real_polynomial_interval\<close>, \<open>evaluate_real_polynomial_exact\<close>,
  \<open>evaluate_complex_polynomial_ball\<close>, \<open>evaluate_complex_polynomial_exact\<close>), the complex derivative,
  \<open>certify_simple_polynomial_root\<close> and the one-term dominance test
  \<open>certify_polynomial_zero_count_on_circle\<close>.

  The four evaluators are one algorithm over four number representations. The locale \<open>horner\<close> states
  what the algorithm needs of a representation (a relation between represented value and number that
  constants, addition and multiplication respect) and proves the evaluation once; it is
  interpreted on the rational interval, the exact rational, the complex ball and the exact complex
  rational of the code. The certified root is then a theorem about the real polynomial function: it has
  exactly one zero in the interval, strictly inside it, and that zero is simple.
\<close>

section \<open>The code\<close>

definition evaluate_real_polynomial_interval ::
  "rat list \<Rightarrow> RationalInterval \<Rightarrow> IntervalError + RationalInterval" where
  "evaluate_real_polynomial_interval coefficients_ascending argument =
     (if coefficients_ascending = []
      then Inl (Invalid ''polynomial must contain at least one coefficient'')
      else Inr (foldl (\<lambda>value coefficient. ri_add (ri_mul value argument) (ri_point coefficient))
                  (ri_point (last coefficients_ascending)) (tl (rev coefficients_ascending))))"

definition evaluate_real_polynomial_exact :: "rat list \<Rightarrow> rat \<Rightarrow> IntervalError + rat" where
  "evaluate_real_polynomial_exact coefficients_ascending argument =
     (if coefficients_ascending = []
      then Inl (Invalid ''polynomial must contain at least one coefficient'')
      else Inr (foldl (\<lambda>value coefficient. value * argument + coefficient)
                  (last coefficients_ascending) (tl (rev coefficients_ascending))))"

definition evaluate_complex_polynomial_ball ::
  "ComplexRational list \<Rightarrow> ComplexRationalBall \<Rightarrow> IntervalError + ComplexRationalBall" where
  "evaluate_complex_polynomial_ball coefficients_ascending argument =
     (if coefficients_ascending = []
      then Inl (Invalid ''complex polynomial must contain at least one coefficient'')
      else Inr (foldl (\<lambda>value coefficient. crb_add (crb_mul value argument) (crb_point coefficient))
                  (crb_point (last coefficients_ascending)) (tl (rev coefficients_ascending))))"

definition evaluate_complex_polynomial_exact ::
  "ComplexRational list \<Rightarrow> ComplexRational \<Rightarrow> IntervalError + ComplexRational" where
  "evaluate_complex_polynomial_exact coefficients_ascending argument =
     (if coefficients_ascending = []
      then Inl (Invalid ''complex polynomial must contain at least one coefficient'')
      else Inr (foldl (\<lambda>value coefficient. cr_add (cr_mul value argument) coefficient)
                  (last coefficients_ascending) (tl (rev coefficients_ascending))))"

definition differentiate_complex_polynomial ::
  "ComplexRational list \<Rightarrow> IntervalError + ComplexRational list" where
  "differentiate_complex_polynomial coefficients_ascending =
     (if coefficients_ascending = []
      then Inl (Invalid ''complex polynomial must contain at least one coefficient'')
      else if length coefficients_ascending = 1 then Inr [cr_zero]
      else Inr (map (\<lambda>(idx, coefficient).
                   let factor = of_nat idx :: rat
                   in \<lparr>re_part = re_part coefficient * factor, im_part = im_part coefficient * factor\<rparr>)
                 (tl (enumerate 0 coefficients_ascending))))"

record PolynomialRootIsolation =
  pri_interval :: RationalInterval
  derivative_enclosure :: RationalInterval
  value_at_lower :: rat
  value_at_upper :: rat
  unique :: bool

text \<open>The coefficient list of the derivative, as both \<open>certify_simple_polynomial_root\<close> and
  \<open>polynomial_derivative\<close> build it.\<close>

definition derivative_coefficients :: "rat list \<Rightarrow> rat list" where
  "derivative_coefficients coefficients =
     map (\<lambda>(idx, coefficient). coefficient * of_nat idx) (tl (enumerate 0 coefficients))"

definition certify_simple_polynomial_root ::
  "rat list \<Rightarrow> RationalInterval \<Rightarrow> IntervalError + PolynomialRootIsolation" where
  "certify_simple_polynomial_root coefficients_ascending interval =
     (if length coefficients_ascending < 2 \<or> ri_is_point interval
      then Inl (Invalid
        ''root isolation requires a nonconstant polynomial and nonzero-width interval'')
      else
        bind_result
          (evaluate_real_polynomial_interval (derivative_coefficients coefficients_ascending) interval)
          (\<lambda>derivative_enclosure.
        if ri_contains_zero derivative_enclosure
        then Inl (Inconclusive ''derivative enclosure contains zero'')
        else
        bind_result (evaluate_real_polynomial_exact coefficients_ascending (lower interval))
          (\<lambda>value_at_lower.
        bind_result (evaluate_real_polynomial_exact coefficients_ascending (upper interval))
          (\<lambda>value_at_upper.
        if value_at_lower = 0 \<or> value_at_upper = 0
        then Inl (Inconclusive
          ''a root lies on an interval endpoint; submit a strict isolating interval'')
        else if (value_at_lower > 0) = (value_at_upper > 0)
        then Inl (Inconclusive ''endpoint signs do not prove existence'')
        else Inr \<lparr>pri_interval = interval, derivative_enclosure = derivative_enclosure,
                  value_at_lower = value_at_lower, value_at_upper = value_at_upper,
                  unique = True\<rparr>))))"

record RoucheCircleCount =
  rcc_radius :: rat
  rcc_zero_count :: nat
  dominant_power :: nat
  dominant_lower_bound :: rat
  remainder_upper_bound :: rat
  rcc_rigorous :: bool

fun radius_powers :: "rat \<Rightarrow> rat \<Rightarrow> 'a list \<Rightarrow> rat list" where
  "radius_powers radius current [] = []"
| "radius_powers radius current (_ # cs) = current # radius_powers radius (current * radius) cs"

definition dominance_bounds :: "ComplexRational list \<Rightarrow> rat list \<Rightarrow> nat \<Rightarrow> rat \<times> rat" where
  "dominance_bounds coefficients powers dominant =
     (let coefficient = coefficients ! dominant;
          lower_abs = max (rational_abs (re_part coefficient)) (rational_abs (im_part coefficient))
      in (lower_abs * powers ! dominant,
          foldl (\<lambda>bound (power_index, other).
              if power_index = dominant then bound
              else bound + (rational_abs (re_part other) + rational_abs (im_part other))
                             * powers ! power_index)
            0 (enumerate 0 coefficients)))"

definition certify_polynomial_zero_count_on_circle ::
  "ComplexRational list \<Rightarrow> rat \<Rightarrow> IntervalError + RoucheCircleCount" where
  "certify_polynomial_zero_count_on_circle coefficients_ascending radius =
     (if coefficients_ascending = [] \<or> radius \<le> 0
      then Inl (Invalid ''Rouche count requires coefficients and a positive radius'')
      else
        let powers = radius_powers radius 1 coefficients_ascending in
        case find (\<lambda>k. snd (dominance_bounds coefficients_ascending powers k)
                         < fst (dominance_bounds coefficients_ascending powers k))
               [0..<length coefficients_ascending] of
          Some k \<Rightarrow>
            Inr \<lparr>rcc_radius = radius, rcc_zero_count = k, dominant_power = k,
                 dominant_lower_bound = fst (dominance_bounds coefficients_ascending powers k),
                 remainder_upper_bound = snd (dominance_bounds coefficients_ascending powers k),
                 rcc_rigorous = True\<rparr>
        | None \<Rightarrow> Inl (Inconclusive ''no single polynomial term rigorously dominates on the contour''))"

section \<open>Polynomial functions\<close>

text \<open>The function a coefficient list denotes, and its value as a power sum.\<close>

definition pval :: "'a :: comm_ring_1 list \<Rightarrow> 'a \<Rightarrow> 'a" where
  "pval cs x = foldr (\<lambda>c v. c + x * v) cs 0"

lemma pval_Nil [simp]: "pval [] x = 0"
  and pval_Cons [simp]: "pval (c # cs) x = c + x * pval cs x"
  by (simp_all add: pval_def)

lemma pval_append: "pval (xs @ ys) x = pval xs x + x ^ length xs * pval ys x"
  by (induction xs) (auto simp: algebra_simps)

lemma pval_sum: "pval cs x = (\<Sum>i < length cs. cs ! i * x ^ i)"
proof (induction cs)
  case (Cons c cs)
  have "(\<Sum>i < length (c # cs). (c # cs) ! i * x ^ i) = c + (\<Sum>i < length cs. cs ! i * x ^ Suc i)"
    by (simp add: sum.lessThan_Suc_shift del: sum.lessThan_Suc)
  also have "(\<Sum>i < length cs. cs ! i * x ^ Suc i) = x * pval cs x"
    by (simp add: Cons sum_distrib_left algebra_simps)
  finally show ?case by simp
qed simp

abbreviation rpoly :: "rat list \<Rightarrow> real \<Rightarrow> real" where
  "rpoly cs \<equiv> pval (map real_of_rat cs)"

abbreviation cpoly :: "ComplexRational list \<Rightarrow> complex \<Rightarrow> complex" where
  "cpoly cs \<equiv> pval (map complex_of_cr cs)"

lemma rpoly_of_rat: "rpoly cs (real_of_rat q) = real_of_rat (pval cs q)"
  by (induction cs) (simp_all add: of_rat_add of_rat_mult)

lemma continuous_pval: "isCont (pval cs) (x :: real)"
proof -
  have "pval cs = (\<lambda>y :: real. \<Sum>i < length cs. cs ! i * y ^ i)" by (simp add: fun_eq_iff pval_sum)
  then show ?thesis by (simp add: continuous_intros)
qed

lemma derivative_coefficients_sum:
  "rpoly (derivative_coefficients cs) x =
     (\<Sum>i < length cs. real_of_rat (cs ! i) * (real i * x ^ (i - Suc 0)))"
proof (cases cs)
  case (Cons c ds)
  have nth: "derivative_coefficients cs ! i = cs ! Suc i * of_nat (Suc i)" if "i < length ds" for i
    using that by (simp add: derivative_coefficients_def Cons nth_tl nth_enumerate_eq)
  have len: "length (derivative_coefficients cs) = length ds"
    by (simp add: derivative_coefficients_def Cons)
  have "rpoly (derivative_coefficients cs) x =
    (\<Sum>i < length ds. real_of_rat (cs ! Suc i) * (real (Suc i) * x ^ i))"
    by (simp add: pval_sum len nth of_rat_mult of_rat_add algebra_simps)
  also have "\<dots> = (\<Sum>i < length cs. real_of_rat (cs ! i) * (real i * x ^ (i - Suc 0)))"
    by (simp add: Cons sum.lessThan_Suc_shift del: of_nat_Suc sum.lessThan_Suc)
  finally show ?thesis .
qed (simp add: derivative_coefficients_def)

lemma DERIV_rpoly: "DERIV (rpoly cs) x :> rpoly (derivative_coefficients cs) x"
proof -
  have "rpoly cs = (\<lambda>y. \<Sum>i < length cs. real_of_rat (cs ! i) * y ^ i)"
    by (simp add: fun_eq_iff pval_sum)
  then show ?thesis
    unfolding derivative_coefficients_sum
    by (auto intro!: DERIV_sum derivative_eq_intros)
qed

section \<open>One Horner lemma for the four evaluators\<close>

locale horner =
  fixes rel :: "'v \<Rightarrow> 'r :: comm_ring_1 \<Rightarrow> bool"
    and embed :: "'c \<Rightarrow> 'v" and num :: "'c \<Rightarrow> 'r"
    and add :: "'v \<Rightarrow> 'v \<Rightarrow> 'v" and mul :: "'v \<Rightarrow> 'v \<Rightarrow> 'v"
  assumes rel_embed: "rel (embed c) (num c)"
    and rel_add: "rel v x \<Longrightarrow> rel w y \<Longrightarrow> rel (add v w) (x + y)"
    and rel_mul: "rel v x \<Longrightarrow> rel w y \<Longrightarrow> rel (mul v w) (x * y)"
begin

lemma horner_foldr:
  assumes "cs \<noteq> []" "rel X x"
  shows "rel (foldr (\<lambda>c v. add (mul v X) (embed c)) (butlast cs) (embed (last cs))) (pval (map num cs) x)"
  using assms(1)
proof (induction cs rule: list_nonempty_induct)
  case (single c)
  then show ?case by (simp add: rel_embed)
next
  case (cons c cs)
  have "rel (add (mul (foldr (\<lambda>c v. add (mul v X) (embed c)) (butlast cs) (embed (last cs))) X) (embed c))
          (pval (map num cs) x * x + num c)"
    by (intro rel_add rel_mul rel_embed cons.IH assms(2))
  then show ?case using cons.hyps by (simp add: algebra_simps)
qed

lemma horner_loop:
  assumes "cs \<noteq> []" "rel X x"
  shows "rel (foldl (\<lambda>v c. add (mul v X) (embed c)) (embed (last cs)) (tl (rev cs))) (pval (map num cs) x)"
proof -
  have "tl (rev cs) = rev (butlast cs)" by (metis butlast_rev rev_rev_ident)
  then show ?thesis using horner_foldr[OF assms] by (simp add: foldl_conv_foldr)
qed

end

interpretation interval_horner: horner encloses ri_point real_of_rat ri_add ri_mul
  by unfold_locales (auto intro: enclosure_intros)

interpretation exact_horner: horner "\<lambda>v x. real_of_rat v = x" "\<lambda>c. c" real_of_rat "(+)" "(*)"
  by unfold_locales (auto simp: of_rat_add of_rat_mult)

interpretation ball_horner: horner ball_encloses crb_point complex_of_cr crb_add crb_mul
  by unfold_locales (auto intro: enclosure_intros)

interpretation exact_complex_horner: horner "\<lambda>v x. complex_of_cr v = x" "\<lambda>c. c" complex_of_cr cr_add cr_mul
  by unfold_locales (auto simp: complex_of_cr_add complex_of_cr_mul)

lemma real_interval_evaluation:
  "evaluate_real_polynomial_interval cs X = Inr Y \<Longrightarrow> encloses X x \<Longrightarrow> encloses Y (rpoly cs x)"
  using interval_horner.horner_loop[of cs X x]
  by (auto simp: evaluate_real_polynomial_interval_def split: if_splits)

lemma real_exact_evaluation:
  "cs \<noteq> [] \<Longrightarrow> evaluate_real_polynomial_exact cs q = Inr (pval cs q)"
  using exact_horner.horner_loop[of cs q "real_of_rat q"]
  by (simp add: evaluate_real_polynomial_exact_def rpoly_of_rat)

lemma complex_ball_evaluation:
  "evaluate_complex_polynomial_ball cs X = Inr Y \<Longrightarrow> ball_encloses X z \<Longrightarrow> ball_encloses Y (cpoly cs z)"
  using ball_horner.horner_loop[of cs X z]
  by (auto simp: evaluate_complex_polynomial_ball_def split: if_splits)

lemma complex_exact_evaluation:
  "evaluate_complex_polynomial_exact cs q = Inr v \<Longrightarrow> complex_of_cr v = cpoly cs (complex_of_cr q)"
  using exact_complex_horner.horner_loop[of cs q "complex_of_cr q"]
  by (auto simp: evaluate_complex_polynomial_exact_def split: if_splits)

section \<open>Certified simple roots\<close>

lemma simple_root_Inr:
  assumes "certify_simple_polynomial_root cs I = Inr res"
  obtains D where "2 \<le> length cs" "\<not> ri_is_point I"
    and "evaluate_real_polynomial_interval (derivative_coefficients cs) I = Inr D"
    and "\<not> ri_contains_zero D"
    and "pval cs (lower I) \<noteq> 0" "pval cs (upper I) \<noteq> 0"
    and "(pval cs (lower I) > 0) \<noteq> (pval cs (upper I) > 0)"
    and "res = \<lparr>pri_interval = I, derivative_enclosure = D, value_at_lower = pval cs (lower I),
                value_at_upper = pval cs (upper I), unique = True\<rparr>"
proof -
  have "cs \<noteq> []" using assms by (auto simp: certify_simple_polynomial_root_def)
  then show thesis
    using assms that
    by (auto simp: certify_simple_polynomial_root_def real_exact_evaluation result_simps
        split: if_splits)
qed

lemma sign_change_root:
  fixes a b :: real and f :: "real \<Rightarrow> real"
  assumes "a < b" "f a * f b < 0" "\<And>x. isCont f x"
  obtains r where "a < r" "r < b" "f r = 0"
proof -
  from assms(2) have ne: "f a \<noteq> 0" "f b \<noteq> 0" by auto
  have "\<exists>r. a \<le> r \<and> r \<le> b \<and> f r = 0"
    using assms IVT[of f a 0 b] IVT2[of f b 0 a] by (auto simp: mult_less_0_iff)
  then obtain r where "a \<le> r" "r \<le> b" "f r = 0" by blast
  with ne that[of r] show thesis by (metis order_le_imp_less_or_eq)
qed

lemma at_most_one_root:
  assumes "\<And>x. a \<le> x \<Longrightarrow> x \<le> b \<Longrightarrow> rpoly (derivative_coefficients cs) x \<noteq> 0"
    and "a \<le> x" "x \<le> b" "a \<le> y" "y \<le> b" "rpoly cs x = 0" "rpoly cs y = 0"
  shows "x = y"
proof (rule ccontr)
  have absurd: False if h: "u < v" "a \<le> u" "v \<le> b" "rpoly cs u = 0" "rpoly cs v = 0" for u v
  proof -
    obtain z where "u < z" "z < v" "rpoly (derivative_coefficients cs) z = 0"
      using MVT2[OF h(1), of "rpoly cs" "rpoly (derivative_coefficients cs)"] h(1,4,5)
        DERIV_rpoly by auto
    with assms(1)[of z] h show False by auto
  qed
  assume "x \<noteq> y"
  then show False using absurd[of x y] absurd[of y x] assms by force
qed

lemma simple_root_unique_inside:
  assumes "wf_interval I" and "certify_simple_polynomial_root cs I = Inr res"
  shows "\<exists>!r. encloses I r \<and> rpoly cs r = 0"
    and "\<forall>r. encloses I r \<and> rpoly cs r = 0 \<longrightarrow>
      real_of_rat (lower I) < r \<and> r < real_of_rat (upper I) \<and>
      rpoly (derivative_coefficients cs) r \<noteq> 0"
proof -
  let ?l = "real_of_rat (lower I)" and ?u = "real_of_rat (upper I)"
  obtain D where r: "\<not> ri_is_point I" "\<not> ri_contains_zero D"
    "evaluate_real_polynomial_interval (derivative_coefficients cs) I = Inr D"
    and v: "pval cs (lower I) \<noteq> 0" "pval cs (upper I) \<noteq> 0"
    "(pval cs (lower I) > 0) \<noteq> (pval cs (upper I) > 0)"
    using simple_root_Inr[OF assms(2)] by metis
  have deriv: "rpoly (derivative_coefficients cs) x \<noteq> 0" if "encloses I x" for x
    using real_interval_evaluation[OF r(3) that] r(2) by auto
  have lu: "?l < ?u" using assms(1) r(1) by (auto simp: wf_interval_def ri_is_point_def of_rat_less)
  have "rpoly cs ?l * rpoly cs ?u < 0"
    using v by (auto simp: rpoly_of_rat mult_less_0_iff not_less)
  then obtain x where x: "?l < x" "x < ?u" "rpoly cs x = 0"
    using sign_change_root[OF lu _ continuous_pval] by blast
  show "\<exists>!r. encloses I r \<and> rpoly cs r = 0"
    using x deriv at_most_one_root[of ?l ?u cs] unfolding encloses_def
    by (intro ex1I[of _ x]) (auto simp: less_imp_le)
  show "\<forall>r. encloses I r \<and> rpoly cs r = 0 \<longrightarrow> ?l < r \<and> r < ?u \<and>
      rpoly (derivative_coefficients cs) r \<noteq> 0"
  proof safe
    fix y assume y: "encloses I y" "rpoly cs y = 0"
    with x deriv at_most_one_root[of ?l ?u cs x y] have "y = x"
      unfolding encloses_def by (auto simp: less_imp_le)
    with x show "?l < y" "y < ?u" by simp_all
    show "rpoly (derivative_coefficients cs) y = 0 \<Longrightarrow> False" using deriv[OF y(1)] by simp
  qed
qed

section \<open>One-term dominance on a circle\<close>

lemma radius_powers_nth: "i < length cs \<Longrightarrow> radius_powers radius c cs ! i = c * radius ^ i"
proof (induction cs arbitrary: c i)
  case (Cons a cs)
  then show ?case by (cases i) (simp_all add: algebra_simps)
qed simp

lemma foldl_enumerate_skip:
  "foldl (\<lambda>acc (i, c). if i = k then acc else acc + f i c) acc (enumerate n cs) =
     acc + (\<Sum>i < length cs. if n + i = k then 0 else f (n + i) (cs ! i) :: rat)"
proof (induction cs arbitrary: acc n)
  case (Cons c cs)
  have "(\<Sum>i < length (c # cs). if n + i = k then 0 else f (n + i) ((c # cs) ! i)) =
    (if n = k then 0 else f n c) + (\<Sum>i < length cs. if Suc n + i = k then 0 else f (Suc n + i) (cs ! i))"
    by (simp add: sum.lessThan_Suc_shift del: sum.lessThan_Suc cong: if_cong)
  then show ?case by (auto simp: Cons)
qed simp

lemma cmod_bounds:
  "real_of_rat (max \<bar>re_part c\<bar> \<bar>im_part c\<bar>) \<le> cmod (complex_of_cr c)"
  "cmod (complex_of_cr c) \<le> real_of_rat (\<bar>re_part c\<bar> + \<bar>im_part c\<bar>)"
proof -
  have abs: "real_of_rat \<bar>q\<bar> = \<bar>real_of_rat q\<bar>" for q by (auto simp: abs_if of_rat_minus)
  show "real_of_rat (max \<bar>re_part c\<bar> \<bar>im_part c\<bar>) \<le> cmod (complex_of_cr c)"
    using abs_Re_le_cmod[of "complex_of_cr c"] abs_Im_le_cmod[of "complex_of_cr c"]
    unfolding of_rat_max abs by simp
  show "cmod (complex_of_cr c) \<le> real_of_rat (\<bar>re_part c\<bar> + \<bar>im_part c\<bar>)"
    using cmod_le[of "complex_of_cr c"] unfolding of_rat_add abs by simp
qed

lemma dominance_bounds_real:
  assumes "k < length cs" "0 \<le> radius"
  defines "B \<equiv> dominance_bounds cs (radius_powers radius 1 cs) k" and "R \<equiv> real_of_rat radius"
  shows "real_of_rat (fst B) \<le> cmod (complex_of_cr (cs ! k)) * R ^ k"
    and "(\<Sum>i \<in> {..<length cs} - {k}. cmod (complex_of_cr (cs ! i)) * R ^ i) \<le> real_of_rat (snd B)"
proof -
  let ?c = "\<lambda>i. cs ! i"
  have R: "0 \<le> R" using assms by simp
  have "fst B = max \<bar>re_part (?c k)\<bar> \<bar>im_part (?c k)\<bar> * radius ^ k"
    using assms(1) by (simp add: B_def dominance_bounds_def radius_powers_nth Let_def)
  then show "real_of_rat (fst B) \<le> cmod (complex_of_cr (?c k)) * R ^ k"
    using cmod_bounds(1)[of "?c k"] R by (simp add: of_rat_mult of_rat_power R_def mult_right_mono)
  have "snd B = (\<Sum>i < length cs. if i = k then 0
      else (\<bar>re_part (?c i)\<bar> + \<bar>im_part (?c i)\<bar>) * radius ^ i)"
    unfolding B_def dominance_bounds_def Let_def snd_conv rational_abs_eq
    using foldl_enumerate_skip[of k "\<lambda>i c. (\<bar>re_part c\<bar> + \<bar>im_part c\<bar>) * radius_powers radius 1 cs ! i" 0 0 cs]
    by (auto simp: radius_powers_nth intro!: sum.cong)
  also have "\<dots> = (\<Sum>i \<in> {..<length cs} - {k}. (\<bar>re_part (?c i)\<bar> + \<bar>im_part (?c i)\<bar>) * radius ^ i)"
    using assms(1) by (simp add: sum.remove[of _ k])
  finally have "real_of_rat (snd B) =
    (\<Sum>i \<in> {..<length cs} - {k}. real_of_rat (\<bar>re_part (?c i)\<bar> + \<bar>im_part (?c i)\<bar>) * R ^ i)"
    by (simp only: of_rat_sum of_rat_mult of_rat_power R_def)
  then show "(\<Sum>i \<in> {..<length cs} - {k}. cmod (complex_of_cr (?c i)) * R ^ i) \<le> real_of_rat (snd B)"
    using R by (auto intro!: sum_mono mult_right_mono cmod_bounds(2))
qed

lemma dominated_nonzero:
  fixes a :: "nat \<Rightarrow> complex"
  assumes "k < n" "(\<Sum>i \<in> {..<n} - {k}. cmod (a i) * cmod z ^ i) < cmod (a k) * cmod z ^ k"
  shows "(\<Sum>i < n. a i * z ^ i) \<noteq> 0"
proof
  assume "(\<Sum>i < n. a i * z ^ i) = 0"
  then have "a k * z ^ k = - (\<Sum>i \<in> {..<n} - {k}. a i * z ^ i)"
    using assms(1) by (simp add: sum.remove[of _ k] eq_neg_iff_add_eq_0)
  then have "cmod (a k) * cmod z ^ k = cmod (\<Sum>i \<in> {..<n} - {k}. a i * z ^ i)"
    by (metis norm_minus_cancel norm_mult norm_power)
  also have "\<dots> \<le> (\<Sum>i \<in> {..<n} - {k}. cmod (a i) * cmod z ^ i)"
    by (rule order_trans[OF norm_sum]) (simp add: norm_mult norm_power)
  finally show False using assms(2) by simp
qed

lemma circle_count_Inr:
  assumes "certify_polynomial_zero_count_on_circle cs radius = Inr res"
  defines "R \<equiv> real_of_rat radius"
  shows "0 < R" and "rcc_zero_count res < length cs"
    and "(\<Sum>i \<in> {..<length cs} - {rcc_zero_count res}. cmod (complex_of_cr (cs ! i)) * R ^ i)
           < cmod (complex_of_cr (cs ! rcc_zero_count res)) * R ^ rcc_zero_count res"
proof -
  let ?B = "dominance_bounds cs (radius_powers radius 1 cs)"
  obtain k where k: "find (\<lambda>k. snd (?B k) < fst (?B k)) [0..<length cs] = Some k"
    and res: "rcc_zero_count res = k" and radius: "0 < radius"
    using assms(1)
    by (auto simp: certify_polynomial_zero_count_on_circle_def Let_def split: if_splits option.splits)
  then show "0 < R" by (simp add: R_def)
  from k have k: "k < length cs" "snd (?B k) < fst (?B k)" by (auto simp: find_Some_iff)
  then show "rcc_zero_count res < length cs" using res by simp
  have "real_of_rat (snd (?B k)) < real_of_rat (fst (?B k))" using k(2) by (simp add: of_rat_less)
  with dominance_bounds_real[OF k(1), of radius] radius
  show "(\<Sum>i \<in> {..<length cs} - {rcc_zero_count res}. cmod (complex_of_cr (cs ! i)) * R ^ i)
           < cmod (complex_of_cr (cs ! rcc_zero_count res)) * R ^ rcc_zero_count res"
    unfolding res R_def by linarith
qed

lemma cpoly_sum: "cpoly cs z = (\<Sum>i < length cs. complex_of_cr (cs ! i) * z ^ i)"
  by (simp add: pval_sum)

lemma scaled_sum_mono:
  fixes a :: "nat \<Rightarrow> real"
  assumes "\<And>i. i \<in> S \<Longrightarrow> 0 \<le> a i" "0 \<le> c" "\<And>i. i \<in> S \<Longrightarrow> r ^ i \<le> c * R ^ i"
  shows "(\<Sum>i \<in> S. a i * r ^ i) \<le> c * (\<Sum>i \<in> S. a i * R ^ i)"
proof -
  have "(\<Sum>i \<in> S. a i * r ^ i) \<le> (\<Sum>i \<in> S. a i * (c * R ^ i))"
    using assms by (intro sum_mono mult_left_mono) auto
  also have "\<dots> = c * (\<Sum>i \<in> S. a i * R ^ i)" by (simp add: sum_distrib_left algebra_simps)
  finally show ?thesis .
qed

section \<open>Properties\<close>

text \<open>C4. A certified simple root is what it claims: when \<open>certify_simple_polynomial_root\<close> returns for a
  well-formed interval, the real polynomial has exactly one real zero in the closed interval; that
  zero lies strictly inside it and is simple (the derivative does not vanish there).\<close>

theorem certify_simple_polynomial_root_correct:
  assumes "wf_interval I" and "certify_simple_polynomial_root cs I = Inr res"
  shows "(\<exists>!r. encloses I r \<and> rpoly cs r = 0) \<and>
    (\<forall>r. encloses I r \<and> rpoly cs r = 0 \<longrightarrow>
      real_of_rat (lower I) < r \<and> r < real_of_rat (upper I) \<and>
      rpoly (derivative_coefficients cs) r \<noteq> 0)"
  using simple_root_unique_inside[OF assms] by blast

theorem certify_simple_polynomial_root_correct_witness:
  "wf_interval \<lparr>lower = 1, upper = 2\<rparr> \<and>
   (\<exists>!r. encloses \<lparr>lower = 1, upper = 2\<rparr> r \<and> rpoly [-2, 0, 1] r = 0)"
proof -
  have wf: "wf_interval \<lparr>lower = 1, upper = 2\<rparr>" by (simp add: wf_interval_def)
  have "\<exists>res. certify_simple_polynomial_root [-2, 0, 1] \<lparr>lower = 1, upper = 2\<rparr> = Inr res"
    by (simp add: certify_simple_polynomial_root_def ri_is_point_def derivative_coefficients_def
        evaluate_real_polynomial_interval_def evaluate_real_polynomial_exact_def ri_defs ri_tests)
  then obtain res where
    "certify_simple_polynomial_root [-2, 0, 1] \<lparr>lower = 1, upper = 2\<rparr> = Inr res" by blast
  from certify_simple_polynomial_root_correct[OF wf this] wf show ?thesis by blast
qed

text \<open>C5. The one-term dominance test on a circle: when it returns a count \<open>k\<close> for radius \<open>r\<close>, the
  \<open>k\<close>-th term strictly dominates the sum of the moduli of all others on \<open>|z| = r\<close> (the hypothesis of
  Rouche's theorem), so the polynomial has no zero on the circle; for \<open>k = 0\<close> it has none in the closed
  disc, and when the leading term dominates every zero lies inside the open disc.\<close>

theorem zero_count_on_circle_dominance:
  assumes "certify_polynomial_zero_count_on_circle cs radius = Inr res"
  defines "R \<equiv> real_of_rat radius" and "k \<equiv> rcc_zero_count res"
  shows "0 < R \<and> k < length cs \<and>
    (\<Sum>i \<in> {..<length cs} - {k}. cmod (complex_of_cr (cs ! i)) * R ^ i)
      < cmod (complex_of_cr (cs ! k)) * R ^ k \<and>
    (\<forall>z. cmod z = R \<longrightarrow> cpoly cs z \<noteq> 0) \<and>
    (k = 0 \<longrightarrow> (\<forall>z. cmod z \<le> R \<longrightarrow> cpoly cs z \<noteq> 0)) \<and>
    (Suc k = length cs \<longrightarrow> (\<forall>z. cpoly cs z = 0 \<longrightarrow> cmod z < R))"
proof -
  let ?a = "\<lambda>i. cmod (complex_of_cr (cs ! i))" and ?S = "{..<length cs} - {k}"
  note c = circle_count_Inr[OF assms(1), folded R_def k_def]
  have on: "cpoly cs z \<noteq> 0" if "cmod z = R" for z
    unfolding cpoly_sum by (rule dominated_nonzero[OF c(2)]) (use c(3) that in simp)
  have zero: "cpoly cs z \<noteq> 0" if "k = 0" "cmod z \<le> R" for z
  proof -
    have "(\<Sum>i \<in> ?S. ?a i * cmod z ^ i) \<le> 1 * (\<Sum>i \<in> ?S. ?a i * R ^ i)"
      using that(2) by (intro scaled_sum_mono) (auto intro: power_mono)
    then have "(\<Sum>i \<in> ?S. ?a i * cmod z ^ i) < ?a k * cmod z ^ k" using c(3) that(1) by simp
    then show ?thesis unfolding cpoly_sum by (rule dominated_nonzero[OF c(2)])
  qed
  have lead: "cpoly cs z \<noteq> 0" if "Suc k = length cs" "R \<le> cmod z" for z
  proof -
    let ?q = "cmod z / R"
    have q: "1 \<le> ?q" using c(1) that(2) by simp
    have "(\<Sum>i \<in> ?S. ?a i * cmod z ^ i) \<le> ?q ^ k * (\<Sum>i \<in> ?S. ?a i * R ^ i)"
    proof (rule scaled_sum_mono)
      fix i assume "i \<in> ?S"
      then have "?q ^ i \<le> ?q ^ k" using that(1) q by (intro power_increasing) auto
      then show "cmod z ^ i \<le> ?q ^ k * R ^ i"
        using c(1) by (simp add: power_divide field_simps)
    qed (use q in auto)
    also have "\<dots> < ?q ^ k * (?a k * R ^ k)"
      using c(3) q by (intro mult_strict_left_mono zero_less_power) linarith+
    also have "\<dots> = ?a k * cmod z ^ k" using c(1) by (simp add: power_divide)
    finally show ?thesis unfolding cpoly_sum by (rule dominated_nonzero[OF c(2)])
  qed
  show ?thesis using c on zero lead not_less by blast
qed

theorem zero_count_on_circle_dominance_witness:
  "\<exists>res. certify_polynomial_zero_count_on_circle
       [\<lparr>re_part = 1, im_part = 0\<rparr>, \<lparr>re_part = 0, im_part = 5\<rparr>, \<lparr>re_part = 1, im_part = 1\<rparr>] 1 = Inr res \<and>
     rcc_zero_count res = 1 \<and>
     (\<forall>z. cmod z = 1 \<longrightarrow>
       cpoly [\<lparr>re_part = 1, im_part = 0\<rparr>, \<lparr>re_part = 0, im_part = 5\<rparr>, \<lparr>re_part = 1, im_part = 1\<rparr>] z \<noteq> 0)"
proof -
  let ?cs = "[\<lparr>re_part = 1, im_part = 0\<rparr>, \<lparr>re_part = 0, im_part = 5\<rparr>, \<lparr>re_part = 1, im_part = 1\<rparr>]"
  obtain res where res: "certify_polynomial_zero_count_on_circle ?cs 1 = Inr res" "rcc_zero_count res = 1"
    by (simp add: certify_polynomial_zero_count_on_circle_def dominance_bounds_def Let_def numeral_2_eq_2)
  have "\<forall>z. cmod z = real_of_rat 1 \<longrightarrow> cpoly ?cs z \<noteq> 0"
    using zero_count_on_circle_dominance[OF res(1)] by blast
  then have "\<forall>z. cmod z = 1 \<longrightarrow> cpoly ?cs z \<noteq> 0" unfolding of_rat_1 .
  with res show ?thesis by blast
qed

end
