(* ===== verification/Contour_Count.thy ===== *)
theory Contour_Count
  imports Interval_Polynomial
begin

text \<open>
  Exact contour subdivision of \<open>crates/xc-numerics/src/interval.rs\<close>: the rectangle, the work budget, the
  explicit-stack subdivision \<open>enclose_polynomial_contour_segment\<close>, the ray-crossing winding of a rational
  polygon, and the two certificates \<open>certify_polynomial_zero_count_on_rectangle\<close> (with and without
  explicit budget) and \<open>certify_rational_function_argument_count_on_rectangle\<close>.

  The subdivision loop pops a segment per iteration and spends one unit of
  \<open>maximum_segment_evaluations\<close>, which is the termination measure of \<open>contour_loop\<close>. A stack is a list
  with its top first; \<open>push\<close> on a result vector appends.

  The lemmas show that the accepted cells tile every pending segment in order, that each cell records the
  exact images of its end points, and that on each cell the straight-line homotopy from the image
  of the segment to its chord avoids zero. Hence a returned certificate excludes zeros from the whole
  boundary, and the counted polygon has the same winding as the image of the boundary. The ray-crossing
  count is shown to be the total principal argument increment of the polygon divided by \<open>2 * pi\<close>.
\<close>

section \<open>The code\<close>

record RationalContourRectangle =
  real_lower :: rat
  real_upper :: rat
  imaginary_lower :: rat
  imaginary_upper :: rat

record PolynomialContourCell =
  domain_start :: ComplexRational
  domain_end :: ComplexRational
  image_start :: ComplexRational
  image_end :: ComplexRational
  image_enclosure :: ComplexRationalBall

record PolynomialContourCount =
  rectangle :: RationalContourRectangle
  zero_count :: nat
  winding_number :: int
  accepted_contour_cells :: nat
  maximum_subdivision_depth :: nat
  boundary_excludes_zero :: bool
  rigorous :: bool
  cells :: "PolynomialContourCell list"

record RationalFunctionContourCount =
  numerator :: PolynomialContourCount
  denominator :: PolynomialContourCount
  zeros_minus_poles :: int
  rf_rigorous :: bool

record ContourWorkBudget =
  maximum_accepted_cells :: nat
  maximum_segment_evaluations :: nat
  maximum_depth :: nat

definition default_budget :: ContourWorkBudget where
  "default_budget =
     \<lparr>maximum_accepted_cells = 16384, maximum_segment_evaluations = 65536, maximum_depth = 4096\<rparr>"

definition rectangle_new ::
  "rat \<Rightarrow> rat \<Rightarrow> rat \<Rightarrow> rat \<Rightarrow> IntervalError + RationalContourRectangle" where
  "rectangle_new rl ru il iu =
     (if rl \<ge> ru \<or> il \<ge> iu
      then Inl (Invalid ''contour rectangle must have strictly ordered real and imaginary bounds'')
      else Inr \<lparr>real_lower = rl, real_upper = ru, imaginary_lower = il, imaginary_upper = iu\<rparr>)"

definition counterclockwise_vertices :: "RationalContourRectangle \<Rightarrow> ComplexRational list" where
  "counterclockwise_vertices r =
     [\<lparr>re_part = real_lower r, im_part = imaginary_lower r\<rparr>,
      \<lparr>re_part = real_upper r, im_part = imaginary_lower r\<rparr>,
      \<lparr>re_part = real_upper r, im_part = imaginary_upper r\<rparr>,
      \<lparr>re_part = real_lower r, im_part = imaginary_upper r\<rparr>,
      \<lparr>re_part = real_lower r, im_part = imaginary_lower r\<rparr>]"

definition complex_segment_ball :: "ComplexRational \<Rightarrow> ComplexRational \<Rightarrow> ComplexRationalBall" where
  "complex_segment_ball start end' =
     \<lparr>re_ball = ri_hull (re_part start) (re_part end'), im_ball = ri_hull (im_part start) (im_part end')\<rparr>"

definition complex_midpoint :: "ComplexRational \<Rightarrow> ComplexRational \<Rightarrow> ComplexRational" where
  "complex_midpoint start end' =
     \<lparr>re_part = (re_part start + re_part end') / 2, im_part = (im_part start + im_part end') / 2\<rparr>"

definition cr_is_zero :: "ComplexRational \<Rightarrow> bool" where
  "cr_is_zero z \<longleftrightarrow> re_part z = 0 \<and> im_part z = 0"

type_synonym pending_segment = "ComplexRational \<times> ComplexRational \<times> nat"

function contour_loop ::
  "ComplexRational list \<Rightarrow> nat \<Rightarrow> ContourWorkBudget \<Rightarrow> pending_segment list \<Rightarrow>
   PolynomialContourCell list \<Rightarrow> ComplexRational list \<Rightarrow> nat \<Rightarrow>
   IntervalError + PolynomialContourCell list \<times> ComplexRational list \<times> nat" where
  "contour_loop cs max_depth budget [] accepted vertices evaluations = Inr (accepted, vertices, evaluations)"
| "contour_loop cs max_depth budget ((start, end', cell_depth) # pending) accepted vertices evaluations =
     (if evaluations \<ge> maximum_segment_evaluations budget
         \<or> length accepted \<ge> maximum_accepted_cells budget
         \<or> cell_depth > maximum_depth budget
      then Inl (Inconclusive ''exact contour work budget exhausted'')
      else
        bind_result (evaluate_complex_polynomial_ball cs (complex_segment_ball start end'))
          (\<lambda>enclosure.
        bind_result (evaluate_complex_polynomial_exact cs start) (\<lambda>image_start.
        bind_result (evaluate_complex_polynomial_exact cs end') (\<lambda>image_end.
        if cr_is_zero image_start \<or> cr_is_zero image_end
        then Inl (Inconclusive ''polynomial has a zero on a contour subdivision vertex'')
        else if crb_excludes_zero enclosure
        then contour_loop cs max_depth budget pending
               (accepted @ [\<lparr>domain_start = start, domain_end = end', image_start = image_start,
                          image_end = image_end, image_enclosure = enclosure\<rparr>])
               (vertices @ [end']) (evaluations + 1)
        else if cell_depth \<ge> max_depth
        then Inl (Inconclusive ''contour image could not exclude zero within subdivision budget'')
        else
          let midpoint = complex_midpoint start end'
          in contour_loop cs max_depth budget
               ((start, midpoint, cell_depth + 1) # (midpoint, end', cell_depth + 1) # pending)
               accepted vertices (evaluations + 1)))))"
  by pat_completeness auto
termination
  by (relation "measures [\<lambda>(cs, d, b, p, c, v, e). maximum_segment_evaluations b - e]") auto

definition enclose_polynomial_contour_segment ::
  "ComplexRational list \<Rightarrow> ComplexRational \<Rightarrow> ComplexRational \<Rightarrow> nat \<Rightarrow> nat \<Rightarrow>
   PolynomialContourCell list \<Rightarrow> ComplexRational list \<Rightarrow> ContourWorkBudget \<Rightarrow> nat \<Rightarrow>
   IntervalError + PolynomialContourCell list \<times> ComplexRational list \<times> nat" where
  "enclose_polynomial_contour_segment cs start end' depth max_depth accepted vertices budget evaluations =
     contour_loop cs max_depth budget [(start, end', depth)] accepted vertices evaluations"

definition edge_crossing :: "ComplexRational \<Rightarrow> ComplexRational \<Rightarrow> int" where
  "edge_crossing start end' =
     (let cross = re_part start * im_part end' - re_part end' * im_part start
      in if im_part start \<le> 0 \<and> im_part end' > 0 \<and> cross > 0 then 1
         else if im_part start > 0 \<and> im_part end' \<le> 0 \<and> cross < 0 then - 1
         else 0)"

fun winding_edges :: "ComplexRational list \<Rightarrow> int \<Rightarrow> IntervalError + int" where
  "winding_edges (start # end' # rest) winding =
     (if cr_is_zero start \<or> cr_is_zero end'
      then Inl (Inconclusive ''polynomial has a zero at a contour subdivision vertex'')
      else winding_edges (end' # rest) (winding + edge_crossing start end'))"
| "winding_edges _ winding = Inr winding"

definition exact_polygon_winding_about_zero :: "ComplexRational list \<Rightarrow> IntervalError + int" where
  "exact_polygon_winding_about_zero vertices =
     (if length vertices < 2 \<or> hd vertices \<noteq> last vertices
      then Inl (Invalid ''winding polygon must be nonempty and closed'')
      else winding_edges vertices 0)"

text \<open>The four edges of the contour: cells, image vertices and evaluations are threaded through.\<close>

fun contour_edges ::
  "ComplexRational list \<Rightarrow> nat \<Rightarrow> ContourWorkBudget \<Rightarrow> ComplexRational list \<Rightarrow>
   PolynomialContourCell list \<Rightarrow> ComplexRational list \<Rightarrow> nat \<Rightarrow>
   IntervalError + PolynomialContourCell list \<times> ComplexRational list" where
  "contour_edges cs max_depth budget (start # end' # rest) accepted argument_vertices evaluations =
     bind_result
       (enclose_polynomial_contour_segment cs start end' 0 max_depth accepted [] budget evaluations)
       (\<lambda>(accepted', domain_vertices, evaluations').
     bind_result (collect_results (evaluate_complex_polynomial_exact cs) domain_vertices)
       (\<lambda>images.
     contour_edges cs max_depth budget (end' # rest) accepted' (argument_vertices @ images) evaluations'))"
| "contour_edges cs max_depth budget _ accepted argument_vertices evaluations =
     Inr (accepted, argument_vertices)"

definition certify_polynomial_zero_count_on_rectangle_with_budget ::
  "ComplexRational list \<Rightarrow> RationalContourRectangle \<Rightarrow> nat \<Rightarrow> ContourWorkBudget \<Rightarrow>
   IntervalError + PolynomialContourCount" where
  "certify_polynomial_zero_count_on_rectangle_with_budget cs rect max_depth budget =
     (if max_depth > maximum_depth budget \<or> maximum_depth budget > 1000000
         \<or> maximum_accepted_cells budget = 0 \<or> maximum_segment_evaluations budget = 0
      then Inl (Inconclusive ''contour request exceeds explicit resource limits'')
      else if cs = [] \<or> list_all cr_is_zero cs \<or> max_depth = 0
      then Inl (Invalid
        ''contour count requires a nonzero polynomial and positive subdivision depth'')
      else
        bind_result (rectangle_new (real_lower rect) (real_upper rect)
                       (imaginary_lower rect) (imaginary_upper rect)) (\<lambda>rectangle.
        let contour = counterclockwise_vertices rectangle in
        bind_result (evaluate_complex_polynomial_exact cs (contour ! 0)) (\<lambda>first_image.
        bind_result (contour_edges cs max_depth budget contour [] [first_image] 0)
          (\<lambda>(accepted, argument_vertices).
        bind_result (exact_polygon_winding_about_zero argument_vertices) (\<lambda>winding.
        if winding < 0
        then Inl (Invalid ''counterclockwise polynomial contour produced a negative winding'')
        else Inr \<lparr>rectangle = rectangle, zero_count = nat winding, winding_number = winding,
                  accepted_contour_cells = length accepted, maximum_subdivision_depth = max_depth,
                  boundary_excludes_zero = True, rigorous = True, cells = accepted\<rparr>)))))"

definition certify_polynomial_zero_count_on_rectangle ::
  "ComplexRational list \<Rightarrow> RationalContourRectangle \<Rightarrow> nat \<Rightarrow> IntervalError + PolynomialContourCount" where
  "certify_polynomial_zero_count_on_rectangle cs rect max_depth =
     certify_polynomial_zero_count_on_rectangle_with_budget cs rect max_depth default_budget"

definition certify_rational_function_argument_count_on_rectangle ::
  "ComplexRational list \<Rightarrow> ComplexRational list \<Rightarrow> RationalContourRectangle \<Rightarrow> nat \<Rightarrow>
   IntervalError + RationalFunctionContourCount" where
  "certify_rational_function_argument_count_on_rectangle numerator_ascending denominator_ascending
      rect max_depth =
     bind_result (certify_polynomial_zero_count_on_rectangle numerator_ascending rect max_depth) (\<lambda>num.
     bind_result (certify_polynomial_zero_count_on_rectangle denominator_ascending rect max_depth) (\<lambda>den.
     Inr \<lparr>numerator = num, denominator = den,
          zeros_minus_poles = winding_number num - winding_number den, rf_rigorous = True\<rparr>))"

section \<open>Segments\<close>

definition seg :: "ComplexRational \<Rightarrow> ComplexRational \<Rightarrow> complex set" where
  "seg a b = {(1 - of_real t) * complex_of_cr a + of_real t * complex_of_cr b |t. 0 \<le> t \<and> t \<le> (1 :: real)}"

lemma segment_ball_ends:
  "ball_encloses (complex_segment_ball a b) (complex_of_cr a)"
  "ball_encloses (complex_segment_ball a b) (complex_of_cr b)"
  unfolding ball_encloses_def complex_segment_ball_def by (simp_all add: ri_contains_def ri_hull_def)

lemma seg_in_ball: "z \<in> seg a b \<Longrightarrow> ball_encloses (complex_segment_ball a b) z"
  unfolding seg_def by (blast intro: ball_encloses_convex segment_ball_ends)

lemma complex_of_cr_midpoint:
  "complex_of_cr (complex_midpoint a b) = (complex_of_cr a + complex_of_cr b) / 2"
  by (simp add: complex_midpoint_def complex_eq_iff of_rat_divide of_rat_add)

lemma seg_halves: "seg a (complex_midpoint a b) \<subseteq> seg a b" "seg (complex_midpoint a b) b \<subseteq> seg a b"
proof -
  let ?at = "\<lambda>t a b. (1 - of_real t) * complex_of_cr a + of_real t * complex_of_cr b"
  have "?at t a (complex_midpoint a b) = ?at (t / 2) a b" "?at t (complex_midpoint a b) b = ?at ((1 + t) / 2) a b" for t :: real
    by (simp_all add: complex_of_cr_midpoint field_simps)
  moreover have "0 \<le> t / 2 \<and> t / 2 \<le> 1" "0 \<le> (1 + t) / 2 \<and> (1 + t) / 2 \<le> 1" if "0 \<le> t \<and> t \<le> 1" for t :: real
    using that by auto
  ultimately show "seg a (complex_midpoint a b) \<subseteq> seg a b" "seg (complex_midpoint a b) b \<subseteq> seg a b"
    unfolding seg_def by blast+
qed

lemma seg_split: "seg a b = seg a (complex_midpoint a b) \<union> seg (complex_midpoint a b) b"
proof (rule equalityI[OF subsetI Un_least[OF seg_halves]])
  fix z assume "z \<in> seg a b"
  then obtain t :: real where t: "0 \<le> t" "t \<le> 1"
    "z = (1 - of_real t) * complex_of_cr a + of_real t * complex_of_cr b" by (auto simp: seg_def)
  show "z \<in> seg a (complex_midpoint a b) \<union> seg (complex_midpoint a b) b"
  proof (cases "t \<le> 1 / 2")
    case True
    have "z = (1 - of_real (2 * t)) * complex_of_cr a + of_real (2 * t) * complex_of_cr (complex_midpoint a b)"
      by (simp add: t(3) complex_of_cr_midpoint field_simps)
    moreover have "0 \<le> 2 * t" "2 * t \<le> 1" using t(1) True by auto
    ultimately have "z \<in> seg a (complex_midpoint a b)" unfolding seg_def by blast
    then show ?thesis ..
  next
    case False
    have "z = (1 - of_real (2 * t - 1)) * complex_of_cr (complex_midpoint a b) + of_real (2 * t - 1) * complex_of_cr b"
      by (simp add: t(3) complex_of_cr_midpoint field_simps)
    moreover have "0 \<le> 2 * t - 1" "2 * t - 1 \<le> 1" using t(2) False by auto
    ultimately have "z \<in> seg (complex_midpoint a b) b" unfolding seg_def by blast
    then show ?thesis ..
  qed
qed

section \<open>Cells\<close>

text \<open>What one accepted cell certifies.\<close>

definition good_cell :: "ComplexRational list \<Rightarrow> PolynomialContourCell \<Rightarrow> bool" where
  "good_cell cs c \<longleftrightarrow>
     evaluate_complex_polynomial_exact cs (domain_start c) = Inr (image_start c) \<and>
     evaluate_complex_polynomial_exact cs (domain_end c) = Inr (image_end c) \<and>
     crb_excludes_zero (image_enclosure c) \<and>
     (\<forall>z \<in> seg (domain_start c) (domain_end c). ball_encloses (image_enclosure c) (cpoly cs z))"

lemma seg_ends: "complex_of_cr a \<in> seg a b" "complex_of_cr b \<in> seg a b"
proof -
  have "\<exists>t. z = (1 - of_real t) * complex_of_cr a + of_real t * complex_of_cr b \<and> 0 \<le> t \<and> t \<le> 1"
    if "z = complex_of_cr a \<or> z = complex_of_cr b" for z
    using that by (auto intro: exI[of _ "0 :: real"] exI[of _ "1 :: real"])
  then show "complex_of_cr a \<in> seg a b" "complex_of_cr b \<in> seg a b" by (auto simp: seg_def)
qed

lemma good_cell_homotopy:
  assumes "good_cell cs c" "z \<in> seg (domain_start c) (domain_end c)"
    and "w = (1 - of_real t) * complex_of_cr (image_start c) + of_real t * complex_of_cr (image_end c)"
    and "0 \<le> t" "t \<le> 1" "0 \<le> s" "s \<le> 1"
  shows "(1 - of_real s) * cpoly cs z + of_real s * w \<noteq> 0"
proof -
  let ?B = "image_enclosure c"
  have ends: "ball_encloses ?B (complex_of_cr (image_start c))" "ball_encloses ?B (complex_of_cr (image_end c))"
    using assms(1) seg_ends complex_exact_evaluation by (auto simp: good_cell_def)
  have "ball_encloses ?B (cpoly cs z)" using assms(1,2) by (auto simp: good_cell_def)
  moreover have "ball_encloses ?B w" unfolding assms(3) by (intro ball_encloses_convex ends assms)
  ultimately have "ball_encloses ?B ((1 - of_real s) * cpoly cs z + of_real s * w)"
    by (intro ball_encloses_convex assms)
  then show ?thesis using excludes_zero_nonzero assms(1) by (auto simp: good_cell_def)
qed


text \<open>Segments, and cells, that follow one another from a point to a point.\<close>

fun chained :: "('a \<times> 'a) list \<Rightarrow> 'a \<Rightarrow> 'a \<Rightarrow> bool" where
  "chained [] a b \<longleftrightarrow> a = b"
| "chained ((s, e) # xs) a b \<longleftrightarrow> s = a \<and> chained xs e b"

definition cell_points :: "PolynomialContourCell list \<Rightarrow> complex set" where
  "cell_points xs = (\<Union>c \<in> set xs. seg (domain_start c) (domain_end c))"

lemma cell_points_simps [simp]:
  "cell_points [] = {}" "cell_points (c # xs) = seg (domain_start c) (domain_end c) \<union> cell_points xs"
  "cell_points (xs @ ys) = cell_points xs \<union> cell_points ys"
  by (auto simp: cell_points_def)

abbreviation cell_span :: "PolynomialContourCell \<Rightarrow> ComplexRational \<times> ComplexRational" where
  "cell_span c \<equiv> (domain_start c, domain_end c)"

lemma chained_append: "chained (xs @ ys) a b \<longleftrightarrow> (\<exists>m. chained xs a m \<and> chained ys m b)"
  by (induction xs a b rule: chained.induct) auto

text \<open>The loop appends good cells that tile the pending segments in order.\<close>

lemma contour_loop_tiles:
  assumes "contour_loop cs d budget pending cs0 vs0 e = Inr (cells', vs', e')"
    and "chained (map (\<lambda>(s, t, k). (s, t)) pending) a b"
  shows "\<exists>new. cells' = cs0 @ new \<and> vs' = vs0 @ map domain_end new \<and> list_all (good_cell cs) new \<and>
    chained (map cell_span new) a b \<and> cell_points new = (\<Union>(s, t, k) \<in> set pending. seg s t)"
  using assms
proof (induction cs d budget pending cs0 vs0 e arbitrary: a rule: contour_loop.induct)
  case (2 cs d budget s t k pending cs0 vs0 e)
  let ?mid = "complex_midpoint s t"
  obtain enc v0 v1 where
    ev: "evaluate_complex_polynomial_ball cs (complex_segment_ball s t) = Inr enc"
      "evaluate_complex_polynomial_exact cs s = Inr v0" "evaluate_complex_polynomial_exact cs t = Inr v1"
    and nz: "\<not> (cr_is_zero v0 \<or> cr_is_zero v1)"
    and go: "\<not> (e \<ge> maximum_segment_evaluations budget \<or> length cs0 \<ge> maximum_accepted_cells budget
         \<or> k > maximum_depth budget)"
    using "2.prems"(1) by (auto simp: result_simps split: if_splits)
  from "2.prems"(2) have a: "a = s" and rest: "chained (map (\<lambda>(s, t, k). (s, t)) pending) t b" by auto
  show ?case
  proof (cases "crb_excludes_zero enc")
    case True
    let ?c = "\<lparr>domain_start = s, domain_end = t, image_start = v0, image_end = v1, image_enclosure = enc\<rparr>"
    have good: "good_cell cs ?c"
      using True ev complex_ball_evaluation[OF ev(1) seg_in_ball]
      by (auto simp: good_cell_def)
    have "contour_loop cs d budget pending (cs0 @ [?c]) (vs0 @ [t]) (e + 1) = Inr (cells', vs', e')"
      using "2.prems"(1) ev nz go True by simp
    from "2.IH"(1)[OF go nz True this rest]
    obtain new where "cells' = (cs0 @ [?c]) @ new" "vs' = (vs0 @ [t]) @ map domain_end new"
      "list_all (good_cell cs) new" "chained (map cell_span new) t b"
      "cell_points new = (\<Union>(s, t, k) \<in> set pending. seg s t)"
      by blast
    with good a show ?thesis by (intro exI[of _ "?c # new"]) auto
  next
    case False
    have deep: "\<not> k \<ge> d"
      using "2.prems"(1) ev nz go False by (auto split: if_splits)
    have "contour_loop cs d budget ((s, ?mid, k + 1) # (?mid, t, k + 1) # pending) cs0 vs0 (e + 1)
      = Inr (cells', vs', e')"
      using "2.prems"(1) ev nz go False deep by (simp add: Let_def)
    from "2.IH"(2)[OF go nz False deep refl this, of s] rest
    obtain new where new: "cells' = cs0 @ new" "vs' = vs0 @ map domain_end new"
      "list_all (good_cell cs) new" "chained (map cell_span new) s b"
      and cover: "cell_points new = (\<Union>(s', t', k') \<in> set ((s, ?mid, k + 1) # (?mid, t, k + 1) # pending). seg s' t')"
      by auto
    have "cell_points new = (\<Union>(s', t', k') \<in> set ((s, t, k) # pending). seg s' t')"
      using cover seg_split[of s t] by (simp add: Un_assoc)
    with new a show ?thesis by (intro exI[of _ new]) auto
  qed
qed auto

lemma segment_tiles:
  assumes "enclose_polynomial_contour_segment cs a b 0 d acc [] budget e = Inr (cells', vs', e')"
  shows "\<exists>new. cells' = acc @ new \<and> vs' = map domain_end new \<and> list_all (good_cell cs) new \<and>
    chained (map cell_span new) a b \<and> cell_points new = seg a b"
  using contour_loop_tiles[OF assms[unfolded enclose_polynomial_contour_segment_def], of a b] by auto

fun on_path :: "ComplexRational list \<Rightarrow> complex \<Rightarrow> bool" where
  "on_path (a # b # rest) z \<longleftrightarrow> z \<in> seg a b \<or> on_path (b # rest) z"
| "on_path _ z \<longleftrightarrow> False"

lemma good_cells_images:
  "list_all (good_cell cs) new \<Longrightarrow>
     collect_results (evaluate_complex_polynomial_exact cs) (map domain_end new) = Inr (map image_end new)"
  by (induction new) (auto simp: good_cell_def)

lemma contour_edges_tile:
  assumes "contour_edges cs d budget path acc args e = Inr (cells', args')" and "path \<noteq> []"
  shows "\<exists>new. cells' = acc @ new \<and> args' = args @ map image_end new \<and>
    list_all (good_cell cs) new \<and> chained (map cell_span new) (hd path) (last path) \<and>
    cell_points new = {z. on_path path z}"
  using assms
proof (induction cs d budget path acc args e rule: contour_edges.induct)
  case (1 cs d budget a b rest acc args e)
  obtain c1 v1 e1 images where
    step: "enclose_polynomial_contour_segment cs a b 0 d acc [] budget e = Inr (c1, v1, e1)"
      "collect_results (evaluate_complex_polynomial_exact cs) v1 = Inr images"
    and rest: "contour_edges cs d budget (b # rest) c1 (args @ images) e1 = Inr (cells', args')"
    using "1.prems"(1) by (auto simp: result_simps)
  obtain new1 where n1: "c1 = acc @ new1" "v1 = map domain_end new1" "list_all (good_cell cs) new1"
    "chained (map cell_span new1) a b"
    "cell_points new1 = seg a b"
    using segment_tiles[OF step(1)] by blast
  have images: "images = map image_end new1" using step(2) n1(2) good_cells_images[OF n1(3)] by simp
  from "1.IH"[OF rest] obtain new2 where n2: "cells' = c1 @ new2"
    "args' = (args @ images) @ map image_end new2" "list_all (good_cell cs) new2"
    "chained (map cell_span new2) b (last (b # rest))"
    "cell_points new2 = {z. on_path (b # rest) z}"
    by auto
  have "chained (map cell_span (new1 @ new2)) a (last (a # b # rest))"
    using n1(4) n2(4) by (auto simp: chained_append)
  then show ?case using n1 n2 images by (intro exI[of _ "new1 @ new2"]) auto
qed auto

section \<open>Ray crossings and arguments\<close>

text \<open>The argument in \<open>(0, 2 * pi]\<close>: the branch cut lies just above the positive real axis, which the
  ray-crossing rule counts with the lower half plane.\<close>

definition arg2 :: "complex \<Rightarrow> real" where
  "arg2 z = (if Arg z > 0 then Arg z else Arg z + 2 * pi)"

lemma cis_arg2: "z \<noteq> 0 \<Longrightarrow> cis (arg2 z) = sgn z"
  by (simp add: arg2_def cis_Arg cis_mult[symmetric])

lemma arg2_upper: "0 < Im z \<Longrightarrow> 0 < arg2 z \<and> arg2 z < pi"
proof -
  assume im: "0 < Im z"
  then have z: "z \<noteq> 0" by auto
  then have s: "0 < sin (Arg z)" using im by (simp add: sin_Arg)
  have "0 < Arg z" using s Arg_bounded[of z] sin_gt_zero[of "- Arg z"]
    by (smt (verit) sin_minus sin_zero)
  moreover have "Arg z \<noteq> pi" using s by auto
  ultimately show ?thesis using Arg_bounded[of z] by (auto simp: arg2_def)
qed

lemma arg2_lower: "Im z \<le> 0 \<Longrightarrow> z \<noteq> 0 \<Longrightarrow> pi \<le> arg2 z \<and> arg2 z \<le> 2 * pi"
proof -
  assume im: "Im z \<le> 0" and z: "z \<noteq> 0"
  then have s: "sin (Arg z) \<le> 0" by (simp add: sin_Arg divide_nonpos_nonneg)
  have "0 < Arg z \<Longrightarrow> Arg z = pi"
    using s sin_gt_zero[of "Arg z"] Arg_bounded[of z] by force
  then show ?thesis using Arg_bounded[of z] by (auto simp: arg2_def)
qed

lemma Arg_quotient:
  assumes "u \<noteq> 0" "v \<noteq> 0" "- pi < arg2 v - arg2 u + 2 * pi * of_int k"
    "arg2 v - arg2 u + 2 * pi * of_int k < pi"
  shows "Arg (v / u) = arg2 v - arg2 u + 2 * pi * of_int k"
proof (rule cis_Arg_unique)
  have "cis (arg2 v - arg2 u + 2 * pi * of_int k) = cis (arg2 v) / cis (arg2 u)"
    by (simp add: cis_divide[symmetric] cis_mult[symmetric] cis_multiple_2pi)
  then show "sgn (v / u) = cis (arg2 v - arg2 u + 2 * pi * of_int k)"
    using assms(1,2) by (simp add: cis_arg2 sgn_divide)
qed (use assms in auto)

text \<open>The signed area spanned by two vectors has the sign of the sine of the angle between them.\<close>

lemma cross_sin:
  assumes "u \<noteq> 0" "v \<noteq> 0"
  shows "Re u * Im v - Re v * Im u = cmod u * cmod v * sin (arg2 v - arg2 u)"
proof -
  have polar: "Re z = cmod z * cos (arg2 z) \<and> Im z = cmod z * sin (arg2 z)" if "z \<noteq> 0" for z
    using cis_arg2[OF that] that by (simp add: complex_eq_iff sgn_eq)
  show ?thesis using polar[OF assms(1)] polar[OF assms(2)]
    by (simp add: sin_diff algebra_simps)
qed

lemma avoiding_segment_angle:
  assumes "u \<noteq> 0" "v \<noteq> 0"
    and avoid: "\<And>t :: real. 0 \<le> t \<Longrightarrow> t \<le> 1 \<Longrightarrow> (1 - of_real t) * u + of_real t * v \<noteq> 0"
  shows "\<bar>arg2 v - arg2 u\<bar> \<noteq> pi"
proof
  assume "\<bar>arg2 v - arg2 u\<bar> = pi"
  then have "arg2 v = arg2 u + pi \<or> arg2 u = arg2 v + pi" by linarith
  then have "cis (arg2 v) = - cis (arg2 u)" by (auto simp: cis_mult[symmetric] cis_pi)
  then have opposite: "sgn v = - sgn u" using assms(1,2) by (simp add: cis_arg2)
  let ?n = "cmod u + cmod v" and ?t = "cmod u / (cmod u + cmod v)"
  have pos: "0 < ?n" using assms(1,2) by (simp add: add_pos_pos)
  have polar: "z = of_real (cmod z) * sgn z" for z :: complex by (simp add: sgn_eq)
  have "(1 - of_real ?t) * u + of_real ?t * v =
    of_real (1 - ?t) * (of_real (cmod u) * sgn u) + of_real ?t * (of_real (cmod v) * sgn v)"
    using polar[of u] polar[of v] by simp
  also have "\<dots> = of_real ((1 - ?t) * cmod u - ?t * cmod v) * sgn u"
    unfolding opposite by (simp add: algebra_simps)
  also have "(1 - ?t) * cmod u - ?t * cmod v = 0" using pos by (simp add: field_simps)
  finally have "(1 - of_real ?t) * u + of_real ?t * v = 0" by simp
  moreover have "0 \<le> ?t" "?t \<le> 1" using pos by auto
  ultimately show False using avoid by blast
qed

lemma edge_crossing_argument:
  assumes nz: "complex_of_cr a \<noteq> 0" "complex_of_cr b \<noteq> 0"
    and avoid: "\<And>t :: real. 0 \<le> t \<Longrightarrow> t \<le> 1 \<Longrightarrow>
      (1 - of_real t) * complex_of_cr a + of_real t * complex_of_cr b \<noteq> 0"
  shows "Arg (complex_of_cr b / complex_of_cr a) =
    arg2 (complex_of_cr b) - arg2 (complex_of_cr a) + 2 * pi * of_int (edge_crossing a b)"
proof -
  let ?u = "complex_of_cr a" and ?v = "complex_of_cr b"
  define \<delta> where "\<delta> = arg2 ?v - arg2 ?u"
  define cross where "cross = re_part a * im_part b - re_part b * im_part a"
  have "real_of_rat cross = cmod ?u * cmod ?v * sin \<delta>"
    using cross_sin[OF nz] by (simp add: cross_def \<delta>_def of_rat_diff of_rat_mult)
  then have sign: "0 < cross \<longleftrightarrow> 0 < sin \<delta>" "cross < 0 \<longleftrightarrow> sin \<delta> < 0"
    using nz by (auto simp: zero_less_mult_iff mult_less_0_iff
        simp flip: zero_less_of_rat_iff[where 'a = real] of_rat_less_0_iff[where 'a = real])
  have ne: "\<delta> \<noteq> pi" "\<delta> \<noteq> - pi" using avoiding_segment_angle[OF nz avoid] by (auto simp: \<delta>_def)
  have up: "0 < im_part z \<Longrightarrow> 0 < arg2 (complex_of_cr z) \<and> arg2 (complex_of_cr z) < pi" for z
    by (rule arg2_upper) simp
  have low: "im_part z \<le> 0 \<Longrightarrow> complex_of_cr z \<noteq> 0 \<Longrightarrow>
      pi \<le> arg2 (complex_of_cr z) \<and> arg2 (complex_of_cr z) \<le> 2 * pi" for z
    by (rule arg2_lower) simp
  have crossing: "edge_crossing a b =
      (if im_part a \<le> 0 \<and> im_part b > 0 \<and> sin \<delta> > 0 then 1
       else if im_part a > 0 \<and> im_part b \<le> 0 \<and> sin \<delta> < 0 then - 1 else 0)"
    unfolding edge_crossing_def Let_def cross_def[symmetric] by (simp only: sign)
  have turn: "- pi < \<delta> + 2 * pi * of_int (edge_crossing a b) \<and>
    \<delta> + 2 * pi * of_int (edge_crossing a b) < pi"
  proof (cases "im_part a \<le> 0"; cases "im_part b \<le> 0")
    assume ab: "im_part a \<le> 0" "\<not> im_part b \<le> 0"
    then have "- 2 * pi < \<delta>" "\<delta> < 0" using low[of a] up[of b] nz by (auto simp: \<delta>_def)
    then show ?thesis using ab ne sin_gt_zero[of "\<delta> + 2 * pi"] sin_gt_zero[of "- \<delta>"]
      by (cases "\<delta> < - pi") (auto simp: crossing)
  next
    assume ab: "\<not> im_part a \<le> 0" "im_part b \<le> 0"
    then have "0 < \<delta>" "\<delta> < 2 * pi" using low[of b] up[of a] nz by (auto simp: \<delta>_def)
    then show ?thesis using ab ne sin_gt_zero[of "2 * pi - \<delta>"] sin_gt_zero[of \<delta>]
      by (cases "\<delta> < pi") (auto simp: crossing sin_diff)
  next
    assume ab: "im_part a \<le> 0" "im_part b \<le> 0"
    then show ?thesis using low[of a] low[of b] nz ne by (auto simp: crossing \<delta>_def)
  next
    assume ab: "\<not> im_part a \<le> 0" "\<not> im_part b \<le> 0"
    then show ?thesis using up[of a] up[of b] by (auto simp: crossing \<delta>_def)
  qed
  then show ?thesis unfolding \<delta>_def using Arg_quotient[OF nz] by blast
qed

lemma winding_edges_arguments:
  assumes "winding_edges (v # map image_end xs) w = Inr w'" "list_all (good_cell cs) xs"
    and "chained (map cell_span xs) x y" "evaluate_complex_polynomial_exact cs x = Inr v"
  shows "(\<Sum>c \<leftarrow> xs. Arg (complex_of_cr (image_end c) / complex_of_cr (image_start c))) =
    arg2 (complex_of_cr (last (v # map image_end xs))) - arg2 (complex_of_cr v) +
      2 * pi * of_int (w' - w)"
  using assms
proof (induction xs arbitrary: v w x)
  case (Cons c xs)
  have good: "good_cell cs c" using Cons.prems(2) by simp
  have start: "image_start c = v" using good Cons.prems(3,4) by (auto simp: good_cell_def)
  have next': "evaluate_complex_polynomial_exact cs (domain_end c) = Inr (image_end c)"
    using good by (simp add: good_cell_def)
  have nz: "complex_of_cr v \<noteq> 0" "complex_of_cr (image_end c) \<noteq> 0"
    and step: "winding_edges (image_end c # map image_end xs) (w + edge_crossing v (image_end c)) = Inr w'"
    using Cons.prems(1) by (auto simp: cr_is_zero_def complex_of_cr_eq_0_iff split: if_splits)
  have avoid: "(1 - of_real t) * complex_of_cr v + of_real t * complex_of_cr (image_end c) \<noteq> 0"
    if "0 \<le> t" "t \<le> 1" for t
    using good_cell_homotopy[OF good seg_ends(1) refl that, of 1] start by simp
  have "Arg (complex_of_cr (image_end c) / complex_of_cr (image_start c)) =
    arg2 (complex_of_cr (image_end c)) - arg2 (complex_of_cr v) + 2 * pi * of_int (edge_crossing v (image_end c))"
    unfolding start by (rule edge_crossing_argument[OF nz avoid])
  moreover have "(\<Sum>c \<leftarrow> xs. Arg (complex_of_cr (image_end c) / complex_of_cr (image_start c))) =
    arg2 (complex_of_cr (last (image_end c # map image_end xs))) - arg2 (complex_of_cr (image_end c)) +
      2 * pi * of_int (w' - (w + edge_crossing v (image_end c)))"
    using Cons.IH[OF step _ _ next'] Cons.prems(2,3) by auto
  ultimately show ?case by (simp add: algebra_simps)
qed simp

section \<open>The certificate\<close>

lemma rectangle_eta [simp]:
  "\<lparr>real_lower = real_lower r, real_upper = real_upper r,
    imaginary_lower = imaginary_lower r, imaginary_upper = imaginary_upper r\<rparr> =
   (r :: RationalContourRectangle)"
  by simp

lemma zero_count_Inr:
  assumes "certify_polynomial_zero_count_on_rectangle_with_budget cs rect d budget = Inr res"
  defines "path \<equiv> counterclockwise_vertices rect"
  obtains v where "evaluate_complex_polynomial_exact cs (hd path) = Inr v"
    and "rectangle res = rect" "real_lower rect < real_upper rect" "imaginary_lower rect < imaginary_upper rect"
    and "contour_edges cs d budget path [] [v] 0 = Inr (cells res, v # map image_end (cells res))"
    and "list_all (good_cell cs) (cells res)" "chained (map cell_span (cells res)) (hd path) (hd path)"
    and "cell_points (cells res) = {z. on_path path z}" "accepted_contour_cells res = length (cells res)"
    and "exact_polygon_winding_about_zero (v # map image_end (cells res)) = Inr (winding_number res)"
    and "zero_count res = nat (winding_number res)" "0 \<le> winding_number res"
proof -
  obtain v acc args w where
    v: "evaluate_complex_polynomial_exact cs (path ! 0) = Inr v"
    and e: "contour_edges cs d budget path [] [v] 0 = Inr (acc, args)"
    and w: "exact_polygon_winding_about_zero args = Inr w" "0 \<le> w"
    and order: "real_lower rect < real_upper rect" "imaginary_lower rect < imaginary_upper rect"
    and res: "res = \<lparr>rectangle = rect, zero_count = nat w, winding_number = w,
                  accepted_contour_cells = length acc, maximum_subdivision_depth = d,
                  boundary_excludes_zero = True, rigorous = True, cells = acc\<rparr>"
    using assms(1) unfolding path_def
    by (auto simp: certify_polynomial_zero_count_on_rectangle_with_budget_def rectangle_new_def
        Let_def result_simps not_le split: if_splits)
  have path: "path \<noteq> []" "path ! 0 = hd path" "last path = hd path"
    by (simp_all add: path_def counterclockwise_vertices_def)
  obtain new where new: "acc = [] @ new" "args = [v] @ map image_end new" "list_all (good_cell cs) new"
    "chained (map cell_span new) (hd path) (last path)"
    "cell_points new = {z. on_path path z}"
    using contour_edges_tile[OF e path(1)] by blast
  show thesis using that[of v] v e w order res new path by simp
qed









section \<open>Properties\<close>


text \<open>The certificate of the identity polynomial on the square with corners \<open>\<plusminus>1 \<plusminus> i\<close>: four cells,
  winding number one.\<close>

definition unit_square :: RationalContourRectangle where
  "unit_square = \<lparr>real_lower = -1, real_upper = 1, imaginary_lower = -1, imaginary_upper = 1\<rparr>"

definition identity_poly :: "ComplexRational list" where
  "identity_poly = [\<lparr>re_part = 0, im_part = 0\<rparr>, \<lparr>re_part = 1, im_part = 0\<rparr>]"

lemma unit_square_certificate:
  "\<exists>res. certify_polynomial_zero_count_on_rectangle_with_budget identity_poly unit_square 8 default_budget
     = Inr res \<and> zero_count res = 1 \<and> length (cells res) = 4"
  by (simp add: certify_polynomial_zero_count_on_rectangle_with_budget_def identity_poly_def
      unit_square_def default_budget_def rectangle_new_def counterclockwise_vertices_def
      enclose_polynomial_contour_segment_def evaluate_complex_polynomial_exact_def
      evaluate_complex_polynomial_ball_def complex_segment_ball_def crb_excludes_zero_def crb_add_def
      crb_mul_def crb_point_def cr_add_def cr_mul_def cr_is_zero_def ri_defs ri_tests
      exact_polygon_winding_about_zero_def edge_crossing_def)


text \<open>C7. The reported winding number is the total argument increment of the image polygon: the principal
  arguments of \<open>image_end / image_start\<close> over the cells sum to \<open>2 * pi\<close> times the winding number, and
  the reported zero count is that nonnegative winding number.\<close>

theorem contour_winding_is_argument_increment:
  assumes "certify_polynomial_zero_count_on_rectangle_with_budget cs rect d budget = Inr res"
  shows "(\<Sum>c \<leftarrow> cells res. Arg (complex_of_cr (image_end c) / complex_of_cr (image_start c))) =
      2 * pi * of_int (winding_number res) \<and>
    int (zero_count res) = winding_number res"
proof -
  obtain v where r: "evaluate_complex_polynomial_exact cs (hd (counterclockwise_vertices rect)) = Inr v"
    "list_all (good_cell cs) (cells res)"
    "chained (map cell_span (cells res)) (hd (counterclockwise_vertices rect))
      (hd (counterclockwise_vertices rect))"
    "exact_polygon_winding_about_zero (v # map image_end (cells res)) = Inr (winding_number res)"
    "zero_count res = nat (winding_number res)" "0 \<le> winding_number res"
    using zero_count_Inr[OF assms] by metis
  have w: "winding_edges (v # map image_end (cells res)) 0 = Inr (winding_number res)"
    and closed: "last (v # map image_end (cells res)) = v"
    using r(4) by (auto simp: exact_polygon_winding_about_zero_def split: if_splits)
  show ?thesis using winding_edges_arguments[OF w r(2,3,1)] closed r(5,6) by simp
qed

theorem contour_winding_is_argument_increment_witness:
  "\<exists>res. certify_polynomial_zero_count_on_rectangle_with_budget identity_poly unit_square 8 default_budget
     = Inr res \<and> zero_count res = 1 \<and>
     (\<Sum>c \<leftarrow> cells res. Arg (complex_of_cr (image_end c) / complex_of_cr (image_start c))) = 2 * pi"
proof -
  obtain res where res: "certify_polynomial_zero_count_on_rectangle_with_budget identity_poly unit_square 8
      default_budget = Inr res" "zero_count res = 1"
    using unit_square_certificate by blast
  from contour_winding_is_argument_increment[OF res(1)] res show ?thesis by (intro exI[of _ res]) auto
qed

end
