(* ===== verification/Interval_Linear.thy ===== *)
theory Interval_Linear
  imports Rational_Interval
begin

text \<open>
  Interval linear algebra of \<open>crates/xc-numerics/src/interval.rs\<close>: \<open>interval_dot\<close>,
  \<open>interval_matvec\<close>, \<open>interval_quadratic_form\<close> and \<open>interval_rayleigh_quotient\<close>. Matrices are row-major
  slices as in the source. A box of intervals means all real vectors (or matrices) whose entries lie in
  the corresponding intervals (\<open>box_encloses\<close>); the lemmas show that every computed interval encloses
  the real dot product, matrix-vector product, quadratic form or Rayleigh quotient of every member.
\<close>

section \<open>Operations\<close>

definition interval_dot ::
  "RationalInterval list \<Rightarrow> RationalInterval list \<Rightarrow> IntervalError + RationalInterval" where
  "interval_dot left right =
     (if length left \<noteq> length right
      then Inl (Invalid ''interval dot-product dimensions differ'')
      else Inr (foldl (\<lambda>sum (a, b). ri_add sum (ri_mul a b)) (ri_point 0) (zip left right)))"

definition interval_matvec ::
  "RationalInterval list \<Rightarrow> nat \<Rightarrow> RationalInterval list \<Rightarrow> IntervalError + RationalInterval list" where
  "interval_matvec matrix_row_major dimension vector =
     (if dimension = 0 \<or> length matrix_row_major \<noteq> saturating_mul dimension dimension \<or>
         length vector \<noteq> dimension
      then Inl (Invalid ''interval matrix-vector dimensions are inconsistent'')
      else collect_results
        (\<lambda>row. interval_dot (take dimension (drop (row * dimension) matrix_row_major)) vector)
        [0..<dimension])"

definition interval_quadratic_form ::
  "RationalInterval list \<Rightarrow> nat \<Rightarrow> RationalInterval list \<Rightarrow> IntervalError + RationalInterval" where
  "interval_quadratic_form matrix_row_major dimension vector =
     bind_result (interval_matvec matrix_row_major dimension vector) (interval_dot vector)"

definition interval_rayleigh_quotient ::
  "RationalInterval list \<Rightarrow> RationalInterval list \<Rightarrow> nat \<Rightarrow> RationalInterval list \<Rightarrow>
     IntervalError + RationalInterval" where
  "interval_rayleigh_quotient numerator_matrix denominator_matrix dimension vector =
     bind_result (interval_quadratic_form numerator_matrix dimension vector) (\<lambda>numerator.
     bind_result (interval_quadratic_form denominator_matrix dimension vector) (\<lambda>denominator.
       if \<not> ri_is_strictly_positive denominator
       then Inl (Inconclusive ''Rayleigh denominator is not proven strictly positive'')
       else ri_div numerator denominator))"

section \<open>Meaning\<close>

definition box_encloses :: "RationalInterval list \<Rightarrow> (nat \<Rightarrow> real) \<Rightarrow> bool" where
  "box_encloses box x \<longleftrightarrow> (\<forall>i < length box. encloses (box ! i) (x i))"

definition quad_form :: "nat \<Rightarrow> (nat \<Rightarrow> real) \<Rightarrow> (nat \<Rightarrow> real) \<Rightarrow> real" where
  "quad_form n A x = (\<Sum>i < n. x i * (\<Sum>j < n. A (i * n + j) * x j))"

section \<open>Enclosure\<close>

lemma fold_dot_encloses:
  assumes "length xs = length ys" "encloses S s"
    "\<And>i. i < length xs \<Longrightarrow> encloses (xs ! i) (x i) \<and> encloses (ys ! i) (y i)"
  shows "encloses (foldl (\<lambda>sum (a, b). ri_add sum (ri_mul a b)) S (zip xs ys))
    (s + (\<Sum>i < length xs. x i * y i))"
  using assms
proof (induction xs ys arbitrary: S s x y rule: list_induct2)
  case (Cons a xs b ys)
  have "encloses (foldl (\<lambda>sum (a, b). ri_add sum (ri_mul a b)) (ri_add S (ri_mul a b)) (zip xs ys))
    (s + x 0 * y 0 + (\<Sum>i < length xs. x (Suc i) * y (Suc i)))"
    using Cons.prems(1) Cons.prems(2)[of 0] Cons.prems(2)[of "Suc _"]
    by (intro Cons.IH) (auto intro!: enclosure_intros)
  then show ?case
    by (simp add: sum.lessThan_Suc_shift algebra_simps del: sum.lessThan_Suc)
qed simp

lemma interval_dot_encloses [enclosure_intros]:
  assumes "interval_dot left right = Inr I" "box_encloses left x" "box_encloses right y"
  shows "encloses I (\<Sum>i < length left. x i * y i)"
  using assms fold_dot_encloses[of left right "ri_point 0" 0 x y]
  by (auto simp: interval_dot_def box_encloses_def ri_contains_zero_def ri_point_def split: if_splits)

lemma row_slice_bound: "row < n \<Longrightarrow> row * n + n \<le> n * (n :: nat)"
  using mult_le_mono1[of "Suc row" n n] by (simp add: add.commute)

lemma row_slice_box:
  assumes "box_encloses m A" "length m = n * n" "row < n"
  shows "box_encloses (take n (drop (row * n) m)) (\<lambda>j. A (row * n + j))"
  using assms row_slice_bound[OF assms(3)] by (auto simp: box_encloses_def)

lemma row_slice_length: "length m = n * n \<Longrightarrow> row < n \<Longrightarrow> length (take n (drop (row * n) m)) = n"
  using row_slice_bound[of row n] by simp

lemma interval_matvec_encloses:
  assumes "fits_slice m" "interval_matvec m n v = Inr w" "box_encloses m A" "box_encloses v x"
  shows "length w = n \<and> length v = n \<and> 0 < n \<and> length m = n * n \<and>
    box_encloses w (\<lambda>i. \<Sum>j < n. A (i * n + j) * x j)"
proof -
  have dims: "n \<noteq> 0" "length m = n * n" "length v = n"
    and w: "collect_results (\<lambda>row. interval_dot (take n (drop (row * n) m)) v) [0..<n] = Inr w"
    using assms(1,2) saturating_mul_slice[of m n n]
    by (auto simp: interval_matvec_def split: if_splits)
  from collect_results_Inr[OF w] have lw: "length w = n"
    and wi: "\<And>i. i < n \<Longrightarrow> interval_dot (take n (drop (i * n) m)) v = Inr (w ! i)"
    by simp_all
  have "encloses (w ! i) (\<Sum>j < n. A (i * n + j) * x j)" if "i < n" for i
    using interval_dot_encloses[OF wi[OF that] row_slice_box[OF assms(3) dims(2) that] assms(4)]
    by (simp only: row_slice_length[OF dims(2) that])
  then show ?thesis using dims lw by (simp add: box_encloses_def)
qed

lemma interval_quadratic_form_encloses:
  assumes "fits_slice m" "interval_quadratic_form m n v = Inr I" "box_encloses m A" "box_encloses v x"
  shows "encloses I (quad_form n A x)"
proof -
  obtain w where w: "interval_matvec m n v = Inr w" "interval_dot v w = Inr I"
    using assms(2) by (auto simp: interval_quadratic_form_def result_simps)
  from interval_matvec_encloses[OF assms(1) w(1) assms(3,4)]
  show ?thesis using interval_dot_encloses[OF w(2) assms(4)] by (auto simp: quad_form_def)
qed

lemma interval_dot_ok: "length xs = length ys \<Longrightarrow> \<exists>I. interval_dot xs ys = Inr I"
  by (simp add: interval_dot_def)

lemma interval_quadratic_form_ok:
  assumes "0 < n" "length m = n * n" "length v = n" "n * n \<le> usize_max"
  shows "\<exists>I. interval_quadratic_form m n v = Inr I"
proof -
  let ?f = "\<lambda>row. interval_dot (take n (drop (row * n) m)) v"
  have "collect_results ?f [0..<n] = Inr (map (\<lambda>r. projr (?f r)) [0..<n])"
    using assms row_slice_length[of m n] by (intro collect_results_map) (auto simp: interval_dot_def)
  then show ?thesis using assms interval_dot_ok[of v "map (\<lambda>r. projr (?f r)) [0..<n]"]
    by (simp add: interval_quadratic_form_def interval_matvec_def saturating_mul_def)
qed

section \<open>Properties\<close>

text \<open>C11. The interval Rayleigh quotient: when \<open>interval_rayleigh_quotient\<close> returns an interval, then for
  all real matrices and vectors in the argument boxes the denominator form is strictly positive and
  the interval encloses their Rayleigh quotient; on matching dimensions the code
  returns an interval exactly when the denominator enclosure is strictly positive.\<close>

theorem interval_rayleigh_quotient_correct:
  assumes "fits_slice N" "fits_slice D"
  shows "(interval_rayleigh_quotient N D n v = Inr I \<longrightarrow>
      (\<forall>A B x. box_encloses N A \<and> box_encloses D B \<and> box_encloses v x \<longrightarrow>
         0 < quad_form n B x \<and> encloses I (quad_form n A x / quad_form n B x))) \<and>
    (0 < n \<and> length N = n * n \<and> length D = n * n \<and> length v = n \<longrightarrow>
      (is_ok (interval_rayleigh_quotient N D n v) \<longleftrightarrow>
       (\<forall>E. interval_quadratic_form D n v = Inr E \<longrightarrow> ri_is_strictly_positive E)))"
proof (intro conjI impI allI; (elim conjE)?)
  fix A B x
  assume I: "interval_rayleigh_quotient N D n v = Inr I"
    and box: "box_encloses N A" "box_encloses D B" "box_encloses v x"
  obtain P Q where P: "interval_quadratic_form N n v = Inr P"
    and Q: "interval_quadratic_form D n v = Inr Q" "ri_is_strictly_positive Q" "ri_div P Q = Inr I"
    using I by (auto simp: interval_rayleigh_quotient_def result_simps split: if_splits)
  note encP = interval_quadratic_form_encloses[OF assms(1) P box(1,3)]
    and encQ = interval_quadratic_form_encloses[OF assms(2) Q(1) box(2,3)]
  show "0 < quad_form n B x" using strictly_positive_encloses[OF Q(2) encQ] .
  show "encloses I (quad_form n A x / quad_form n B x)"
    using encloses_div(1)[OF Q(3) encP encQ] .
next
  assume dims: "0 < n" "length N = n * n" "length D = n * n" "length v = n"
  then have "n * n \<le> usize_max"
    using assms(1) by (simp add: fits_slice_def isize_max_def usize_max_def)
  then obtain P Q where PQ: "interval_quadratic_form N n v = Inr P" "interval_quadratic_form D n v = Inr Q"
    using interval_quadratic_form_ok[of n N v] interval_quadratic_form_ok[of n D v] dims by auto
  show "is_ok (interval_rayleigh_quotient N D n v) \<longleftrightarrow>
      (\<forall>E. interval_quadratic_form D n v = Inr E \<longrightarrow> ri_is_strictly_positive E)"
    using PQ by (auto simp: interval_rayleigh_quotient_def ri_div_def ri_reciprocal_def ri_tests)
qed

theorem interval_rayleigh_quotient_correct_witness:
  "\<exists>I. interval_rayleigh_quotient [ri_point 2, ri_point 1, ri_point 1, \<lparr>lower = 2, upper = 3\<rparr>]
       [ri_point 1, ri_point 0, ri_point 0, ri_point 1] 2 [ri_point 1, \<lparr>lower = 1, upper = 2\<rparr>] = Inr I \<and>
     encloses I (quad_form 2 (\<lambda>i. [2, 1, 1, 3] ! i) (\<lambda>i. [1, 2] ! i) /
                 quad_form 2 (\<lambda>i. [1, 0, 0, 1] ! i) (\<lambda>i. [1, 2] ! i))"
proof -
  let ?N = "[ri_point 2, ri_point 1, ri_point 1, \<lparr>lower = 2, upper = 3\<rparr>]"
    and ?D = "[ri_point 1, ri_point 0, ri_point 0, ri_point 1]"
    and ?v = "[ri_point 1, \<lparr>lower = 1, upper = 2\<rparr>]"
  have fits: "fits_slice ?N" "fits_slice ?D" by (simp_all add: fits_slice_def isize_max_def)
  have "is_ok (interval_rayleigh_quotient ?N ?D 2 ?v)"
    by (simp add: interval_rayleigh_quotient_def interval_quadratic_form_def interval_matvec_def
        interval_dot_def saturating_mul_def usize_max_def upt_rec ri_defs ri_tests)
  then obtain I where I: "interval_rayleigh_quotient ?N ?D 2 ?v = Inr I" by (auto simp: is_ok_iff)
  have "box_encloses ?N (\<lambda>i. [2, 1, 1, 3] ! i)" "box_encloses ?D (\<lambda>i. [1, 0, 0, 1] ! i)"
    "box_encloses ?v (\<lambda>i. [1, 2] ! i)"
    by (auto simp: box_encloses_def less_Suc_eq numeral_eq_Suc encloses_def ri_point_def)
  then show ?thesis
    using interval_rayleigh_quotient_correct[OF fits, of 2 ?v I] I by blast
qed

end
