(* ===== verification/Sturm_Chain.thy ===== *)
theory Sturm_Chain
  imports Complex_Main
begin

text \<open>
  Sturm's theorem for chains of continuous real functions, the mathematics behind the exact root
  counts of \<open>crates/xc-numerics/src/interval.rs\<close>. \<open>sign_variations\<close> is the number of sign changes of a
  list of numbers, zeros dropped. A list of functions is a chain at a point (\<open>chain_at\<close>) when its last
  member does not vanish there and the neighbours of every vanishing inner member have opposite
  signs. The variation count of a chain then drops by one across each zero of the first member at which
  its product with the second member goes from negative to positive, and changes nowhere
  else (\<open>sturm_chain_count\<close>).
\<close>

fun sign_changes :: "real list \<Rightarrow> nat" where
  "sign_changes (x # y # ys) = (if x * y < 0 then 1 else 0) + sign_changes (y # ys)"
| "sign_changes _ = 0"

definition sign_variations :: "real list \<Rightarrow> nat" where
  "sign_variations xs = sign_changes (filter (\<lambda>x. x \<noteq> 0) xs)"

fun chain_at :: "(real \<Rightarrow> real) list \<Rightarrow> real \<Rightarrow> bool" where
  "chain_at [] z \<longleftrightarrow> False"
| "chain_at [f] z \<longleftrightarrow> f z \<noteq> 0"
| "chain_at [f, g] z \<longleftrightarrow> g z \<noteq> 0"
| "chain_at (f # g # h # fs) z \<longleftrightarrow>
     chain_at (g # h # fs) z \<and> (f z = 0 \<longrightarrow> g z \<noteq> 0) \<and> (g z = 0 \<longrightarrow> f z * h z < 0)"

definition values_at :: "(real \<Rightarrow> real) list \<Rightarrow> real \<Rightarrow> nat" where
  "values_at fs x = sign_variations (map (\<lambda>f. f x) fs)"

lemma sign_variations_simps [simp]:
  "sign_variations [] = 0"
  "sign_variations [x] = 0"
  "sign_variations (0 # xs) = sign_variations xs"
  "x \<noteq> 0 \<Longrightarrow> y \<noteq> 0 \<Longrightarrow>
     sign_variations (x # y # ys) = (if x * y < 0 then 1 else 0) + sign_variations (y # ys)"
  "x \<noteq> 0 \<Longrightarrow> sign_variations (x # 0 # ys) = sign_variations (x # ys)"
  by (auto simp: sign_variations_def)

lemma sign_changes_scale: "c \<noteq> 0 \<Longrightarrow> sign_changes (map ((*) c) xs) = sign_changes xs"
proof (induction xs rule: sign_changes.induct)
  case (1 x y ys)
  have "c * x * (c * y) = (c * c) * (x * y)" by simp
  moreover have "0 < c * c" using 1 not_real_square_gt_zero by blast
  ultimately have "c * x * (c * y) < 0 \<longleftrightarrow> x * y < 0" by (metis mult_less_cancel_left_pos mult_zero_right)
  with 1 show ?case by (simp del: mult_less_0_iff)
qed auto

lemma sign_variations_scale: "c \<noteq> 0 \<Longrightarrow> sign_variations (map ((*) c) xs) = sign_variations xs"
  using sign_changes_scale[of c "filter (\<lambda>x. x \<noteq> 0) xs"]
  by (simp add: sign_variations_def filter_map o_def)

lemma sign_variations_through:
  assumes "x * y < 0"
  shows "sign_variations (x # w # y # ys) = Suc (sign_variations (y # ys))"
proof -
  have "x \<noteq> 0" "y \<noteq> 0" using assms by auto
  then show ?thesis using assms by (cases "w = 0") (auto simp: mult_less_0_iff zero_less_mult_iff)
qed

lemma eventually_sign:
  fixes f :: "real \<Rightarrow> real"
  assumes "isCont f z" "f z \<noteq> 0"
  shows "\<forall>\<^sub>F x in nhds z. 0 < f x * f z"
proof -
  have "((\<lambda>x. f x * f z) \<longlongrightarrow> f z * f z) (nhds z)"
    using assms(1) by (auto simp: isCont_def tendsto_at_iff_tendsto_nhds intro: tendsto_mult)
  moreover have "0 < f z * f z" using assms(2) not_real_square_gt_zero by blast
  ultimately show ?thesis by (rule order_tendstoD(1))
qed

lemma same_sign_product:
  fixes a b c d :: real
  assumes "0 < a * c" "0 < b * d"
  shows "a * b < 0 \<longleftrightarrow> c * d < 0"
  using assms by (auto simp: mult_less_0_iff zero_less_mult_iff)

lemma values_at_stable:
  assumes "chain_at fs z" "hd fs z \<noteq> 0" "\<forall>f \<in> set fs. isCont f z"
  shows "\<forall>\<^sub>F x in nhds z. values_at fs x = values_at fs z"
  using assms
proof (induction fs rule: length_induct)
  case (1 fs)
  note IH = 1(1)[rule_format]
  consider f where "fs = [f]" | f g fs' where "fs = f # g # fs'"
    using 1(2) by (metis chain_at.simps(1) list.exhaust)
  then show ?case
  proof cases
    case (2 f g fs')
    have f: "\<forall>\<^sub>F x in nhds z. 0 < f x * f z" using 1 2 by (intro eventually_sign) auto
    show ?thesis
    proof (cases "g z = 0")
      case False
      have g: "\<forall>\<^sub>F x in nhds z. 0 < g x * g z" using 1 2 False by (intro eventually_sign) auto
      have "chain_at (g # fs') z" using 1(2) 2 False by (cases fs') auto
      then have tail: "\<forall>\<^sub>F x in nhds z. values_at (g # fs') x = values_at (g # fs') z"
        using 1 2 False by (intro IH) auto
      from f g tail show ?thesis
      proof eventually_elim
        case (elim x)
        then have "f x \<noteq> 0" "g x \<noteq> 0" by auto
        with 1 2 False same_sign_product[of "f x" "f z" "g x" "g z"] elim
        show ?case by (simp add: values_at_def)
      qed
    next
      case True
      obtain h hs where fs': "fs' = h # hs" using True 1(2) 2 by (cases fs') auto
      have fh: "f z * h z < 0" and "chain_at (h # hs) z"
        using 1(2) True 2 fs' by (auto split: list.splits) (cases hs; simp)+
      then have h: "\<forall>\<^sub>F x in nhds z. 0 < h x * h z"
        and tail: "\<forall>\<^sub>F x in nhds z. values_at (h # hs) x = values_at (h # hs) z"
        using 1 2 fs' by (auto intro!: eventually_sign IH)
      from f h tail show ?thesis
      proof eventually_elim
        case (elim x)
        then have "f x * h x < 0" using fh same_sign_product[of "f x" "f z" "h x" "h z"] by blast
        with fh elim show ?case by (simp add: values_at_def sign_variations_through 2 fs')
      qed
    qed
  qed (simp add: values_at_def)
qed

text \<open>Where the first member vanishes, its product with the second has to change sign upwards.\<close>

definition crosses_up :: "(real \<Rightarrow> real) \<Rightarrow> (real \<Rightarrow> real) \<Rightarrow> real \<Rightarrow> bool" where
  "crosses_up f g z \<longleftrightarrow> (\<forall>\<^sub>F x in nhds z. (x < z \<longrightarrow> f x * g x < 0) \<and> (z < x \<longrightarrow> 0 < f x * g x))"

lemma values_at_step:
  assumes "chain_at (f # g # fs) z" "\<forall>h \<in> set (f # g # fs). isCont h z"
    and "f z = 0 \<Longrightarrow> crosses_up f g z"
  shows "\<forall>\<^sub>F x in nhds z. (x \<noteq> z \<longrightarrow> f x \<noteq> 0) \<and>
    values_at (f # g # fs) x = values_at (f # g # fs) z + (if f z = 0 \<and> x < z then 1 else 0)"
proof (cases "f z = 0")
  case False
  have "\<forall>\<^sub>F x in nhds z. 0 < f x * f z" using assms False by (intro eventually_sign) auto
  moreover have "\<forall>\<^sub>F x in nhds z. values_at (f # g # fs) x = values_at (f # g # fs) z"
    using assms False by (intro values_at_stable) auto
  ultimately show ?thesis by eventually_elim (use False in auto)
next
  case True
  have g: "g z \<noteq> 0" and tail: "chain_at (g # fs) z" using assms(1) True by (cases fs; simp)+
  have "\<forall>\<^sub>F x in nhds z. values_at (g # fs) x = values_at (g # fs) z"
    using assms(2) g tail by (intro values_at_stable) auto
  then show ?thesis using assms(3)[OF True] unfolding crosses_up_def
  proof eventually_elim
    case (elim x)
    have here: "values_at (f # g # fs) z = values_at (g # fs) z" using True by (simp add: values_at_def)
    consider "x = z" | "x < z" "f x * g x < 0" | "z < x" "0 < f x * g x" using elim by fastforce
    then show ?case
    proof cases
      case 2
      then have "f x \<noteq> 0" "g x \<noteq> 0" by auto
      then show ?thesis using elim here 2 True by (simp add: values_at_def)
    next
      case 3
      then have "f x \<noteq> 0" "g x \<noteq> 0" "\<not> f x * g x < 0" by auto
      then show ?thesis using elim here 3 True by (simp add: values_at_def)
    qed simp
  qed
qed

theorem sturm_chain_count:
  assumes "\<And>z. chain_at (f # g # fs) z" "\<And>h z. h \<in> set (f # g # fs) \<Longrightarrow> isCont h z"
    and "\<And>z. f z = 0 \<Longrightarrow> crosses_up f g z" and "a \<le> b"
  shows "finite {z. a < z \<and> z \<le> b \<and> f z = 0} \<and>
    values_at (f # g # fs) a = values_at (f # g # fs) b + card {z. a < z \<and> z \<le> b \<and> f z = 0}"
  using assms(4)
proof (induction rule: Bolzano)
  case (trans a b c)
  have "{z. a < z \<and> z \<le> c \<and> f z = 0} = {z. a < z \<and> z \<le> b \<and> f z = 0} \<union> {z. b < z \<and> z \<le> c \<and> f z = 0}"
    using trans by auto
  moreover have "{z. a < z \<and> z \<le> b \<and> f z = 0} \<inter> {z. b < z \<and> z \<le> c \<and> f z = 0} = {}" by auto
  ultimately show ?case using trans by (simp add: card_Un_disjoint)
next
  case (local z)
  let ?V = "values_at (f # g # fs)"
  obtain d where d: "0 < d" "\<And>x. dist x z < d \<Longrightarrow> (x \<noteq> z \<longrightarrow> f x \<noteq> 0) \<and>
      ?V x = ?V z + (if f z = 0 \<and> x < z then 1 else 0)"
    using values_at_step[of f g fs z] assms(1-3) unfolding eventually_nhds_metric by blast
  show ?case
  proof (intro exI[of _ d] conjI allI impI; (elim conjE)?)
    fix a b assume ab: "a \<le> z" "z \<le> b" "b - a < d"
    have near: "dist x z < d" if "a \<le> x" "x \<le> b" for x using that ab by (auto simp: dist_real_def)
    have only: "x = z" if "a \<le> x" "x \<le> b" "f x = 0" for x using d(2)[OF near[OF that(1,2)]] that(3) by blast
    have set: "{y. a < y \<and> y \<le> b \<and> f y = 0} = (if f z = 0 \<and> a < z then {z} else {})"
    proof (cases "f z = 0 \<and> a < z")
      case True
      then show ?thesis using only ab(2) by force
    next
      case False
      then have "f x \<noteq> 0" if "a < x" "x \<le> b" for x using only[of x] that by force
      with False show ?thesis by auto
    qed
    show "finite {y. a < y \<and> y \<le> b \<and> f y = 0}" unfolding set by simp
    show "?V a = ?V b + card {y. a < y \<and> y \<le> b \<and> f y = 0}"
      unfolding set using d(2)[OF near, of a] d(2)[OF near, of b] ab by auto
  qed (rule d(1))
qed

end
