(* ===== verification/Euclidean_Chain.thy ===== *)
theory Euclidean_Chain
  imports Interval_Polynomial Sturm_Chain
begin

text \<open>
  Real polynomial functions and Euclidean remainder chains. \<open>poly_fun\<close> are the functions with a
  coefficient list; they are closed under the ring operations, continuous, and vanish at finitely
  many points unless they vanish everywhere. \<open>remainder_chain\<close> says that every three consecutive members of
  a list satisfy a division identity with positive multipliers (the form in which the code keeps
  its remainders) and that the last member divides the one before it. Dividing such a chain by its
  last member gives a Sturm chain (\<open>remainder_chain_divides\<close>); when the second member is a positive multiple of
  the derivative of the first, the quotient of the first member has the same zeros as the first
  member itself (\<open>same_zeros_after_division\<close>), so repeated roots are counted once.
\<close>

section \<open>Polynomial functions\<close>

definition poly_fun :: "(real \<Rightarrow> real) \<Rightarrow> bool" where
  "poly_fun f \<longleftrightarrow> (\<exists>cs. f = pval cs)"

lemma poly_fun_rpoly [simp, intro]: "poly_fun (pval cs)"
  by (auto simp: poly_fun_def)

lemma poly_fun_const [intro]: "poly_fun (\<lambda>x. c)"
proof -
  have "(\<lambda>x. c) = pval [c]" by (auto simp: fun_eq_iff)
  then show ?thesis by (simp only: poly_fun_rpoly)
qed

lemma poly_fun_times_var: "poly_fun f \<Longrightarrow> poly_fun (\<lambda>x. x * f x)"
proof -
  assume "poly_fun f"
  then obtain cs where f: "f = pval cs" by (auto simp: poly_fun_def)
  have "(\<lambda>x. x * f x) = pval (0 # cs)" by (simp add: fun_eq_iff f)
  then show ?thesis by (simp only: poly_fun_rpoly)
qed

lemma poly_fun_add [intro]: "poly_fun f \<Longrightarrow> poly_fun g \<Longrightarrow> poly_fun (\<lambda>x. f x + g x)"
proof -
  have add: "\<exists>es. \<forall>x. pval es x = pval cs x + pval ds x" for cs ds :: "real list"
  proof (induction cs arbitrary: ds)
    case (Cons c cs)
    show ?case
    proof (cases ds)
      case Nil
      then show ?thesis by (intro exI[of _ "c # cs"]) simp
    next
      case (Cons d ds')
      obtain es where "\<forall>x. pval es x = pval cs x + pval ds' x" using Cons.IH by blast
      then show ?thesis using Cons by (intro exI[of _ "(c + d) # es"]) (simp add: algebra_simps)
    qed
  qed (auto intro: exI[of _ ds])
  assume "poly_fun f" "poly_fun g"
  then obtain cs ds where "f = pval cs" "g = pval ds" by (auto simp: poly_fun_def)
  moreover obtain es where "\<forall>x. pval es x = pval cs x + pval ds x" using add by blast
  ultimately have "(\<lambda>x. f x + g x) = pval es" by (simp add: fun_eq_iff)
  then show ?thesis by simp
qed

lemma poly_fun_mult [intro]: "poly_fun f \<Longrightarrow> poly_fun g \<Longrightarrow> poly_fun (\<lambda>x. f x * g x)"
proof -
  have "poly_fun (\<lambda>x. pval cs x * g x)" if g: "poly_fun g" for cs
  proof (induction cs)
    case (Cons c cs)
    have "(\<lambda>x. pval (c # cs) x * g x) = (\<lambda>x. c * g x + x * (pval cs x * g x))"
      by (simp add: fun_eq_iff algebra_simps)
    moreover have "poly_fun (\<lambda>x. c * g x)"
    proof -
      obtain ds where "g = pval ds" using g by (auto simp: poly_fun_def)
      moreover have "c * pval ds x = pval (map ((*) c) ds) x" for x
        by (induction ds) (simp_all add: algebra_simps)
      ultimately show ?thesis by simp
    qed
    ultimately show ?case using poly_fun_add poly_fun_times_var[OF Cons.IH] by simp
  qed (simp add: poly_fun_const)
  then show "poly_fun f \<Longrightarrow> poly_fun g \<Longrightarrow> ?thesis" by (auto simp: poly_fun_def)
qed

lemma poly_fun_scale [intro]: "poly_fun f \<Longrightarrow> poly_fun (\<lambda>x. c * f x)"
  using poly_fun_mult[OF poly_fun_const] .

lemma poly_fun_divide [intro]: "poly_fun f \<Longrightarrow> poly_fun (\<lambda>x. f x / c)"
  using poly_fun_scale[of f "1 / c"] by simp

lemma poly_fun_diff [intro]: "poly_fun f \<Longrightarrow> poly_fun g \<Longrightarrow> poly_fun (\<lambda>x. f x - g x)"
  using poly_fun_add[OF _ poly_fun_scale[of g "-1"], of f] by simp

lemma poly_fun_power [intro]: "poly_fun (\<lambda>x. x ^ k)"
proof (induction k)
  case (Suc k)
  then show ?case using poly_fun_times_var[of "\<lambda>x. x ^ k"] by simp
qed (simp add: poly_fun_const)

lemma poly_fun_isCont: "poly_fun f \<Longrightarrow> isCont f x"
  by (auto simp: poly_fun_def continuous_pval)

lemma poly_fun_deriv:
  assumes "poly_fun f"
  obtains f' where "poly_fun f'" "\<And>x. DERIV f x :> f' x"
proof -
  obtain cs where f: "f = pval cs" using assms by (auto simp: poly_fun_def)
  have "\<exists>f'. poly_fun f' \<and> (\<forall>x. DERIV (pval cs) x :> f' x)"
  proof (induction cs)
    case (Cons c cs)
    then obtain f' where f': "poly_fun f'" "\<And>x. DERIV (pval cs) x :> f' x" by blast
    have "DERIV (pval (c # cs)) x :> x * f' x + pval cs x" for x
    proof -
      have "pval (c # cs) = (\<lambda>x. c + x * pval cs x)" by (simp add: fun_eq_iff)
      then show ?thesis by (auto intro!: derivative_eq_intros f'(2))
    qed
    then show ?case using poly_fun_add[OF poly_fun_times_var[OF f'(1)] poly_fun_rpoly[of cs]] by blast
  qed (auto simp: fun_eq_iff intro!: exI[of _ "\<lambda>x. 0"])
  then show ?thesis using that f by blast
qed

lemma poly_fun_zeros:
  assumes "poly_fun f" "f a \<noteq> 0"
  shows "finite {x. f x = 0}"
proof -
  obtain cs where f: "f = pval cs" using assms by (auto simp: poly_fun_def)
  obtain i where i: "i < length cs" "cs ! i \<noteq> 0"
    using assms(2) unfolding f pval_sum by (metis (no_types, lifting) lessThan_iff mult_zero_left sum.neutral)
  have "pval cs x = (\<Sum>i \<le> length cs - 1. cs ! i * x ^ i)" for x
  proof -
    have "{..<length cs} = {..length cs - 1}" using i(1) by auto
    then show ?thesis by (simp add: pval_sum)
  qed
  then show ?thesis
    using i polyfun_finite_roots[of "\<lambda>i. cs ! i" "length cs - 1"] unfolding f by auto
qed

lemma poly_fun_isolated_zero:
  assumes "poly_fun f" "f a \<noteq> 0"
  shows "\<forall>\<^sub>F x in nhds z. x \<noteq> z \<longrightarrow> f x \<noteq> 0"
proof -
  have "finite ({x. f x = 0} - {z})" using poly_fun_zeros[OF assms] by simp
  then have "open (- ({x. f x = 0} - {z}))" by (intro open_Compl finite_imp_closed)
  then have "\<forall>\<^sub>F x in nhds z. x \<in> - ({x. f x = 0} - {z})"
    by (rule eventually_nhds_in_open) simp
  then show ?thesis by eventually_elim auto
qed

section \<open>A polynomial and its derivative\<close>

lemma real_square_pos: "x \<noteq> 0 \<Longrightarrow> 0 < x * (x :: real)"
  using not_real_square_gt_zero by blast

lemma positive_product_sign:
  assumes "0 < p * (q :: real)"
  shows "q < 0 \<Longrightarrow> p < 0" and "0 < q \<Longrightarrow> 0 < p"
  using assms by (auto simp: zero_less_mult_iff)

lemma square_derivative:
  assumes "\<And>x. DERIV f x :> f' x"
  shows "DERIV (\<lambda>x. f x * f x) x :> 2 * (f x * f' x)"
  by (rule derivative_eq_intros | rule assms | simp)+

lemma no_sign_change:
  fixes f :: "real \<Rightarrow> real"
  assumes "\<And>x. isCont f x" "\<And>x. a < x \<Longrightarrow> x < b \<Longrightarrow> f x \<noteq> 0" "a < u" "u < b" "a < v" "v < b"
  shows "0 < f u * f v"
proof (rule ccontr)
  assume "\<not> 0 < f u * f v"
  moreover have "f u \<noteq> 0" "f v \<noteq> 0" using assms by auto
  ultimately have neg: "f u * f v < 0" by (simp add: not_less le_less)
  then have "u \<noteq> v" by (auto simp: mult_less_0_iff)
  then consider "u < v" | "v < u" by linarith
  then show False
  proof cases
    case 1
    obtain r where "u < r" "r < v" "f r = 0" using sign_change_root[OF 1 neg assms(1)] .
    then show False using assms(2)[of r] assms(3-6) by simp
  next
    case 2
    obtain r where "v < r" "r < u" "f r = 0"
      using sign_change_root[OF 2 _ assms(1)] neg by (metis mult.commute)
    then show False using assms(2)[of r] assms(3-6) by simp
  qed
qed

lemma poly_crosses_up:
  assumes "poly_fun f" "poly_fun f'" "\<And>x. DERIV f x :> f' x" "f z = 0" "f a \<noteq> 0"
  shows "crosses_up f f' z"
proof -
  have "\<exists>w. f' w \<noteq> 0"
  proof (rule ccontr)
    assume "\<not> ?thesis"
    then have "\<forall>x. DERIV f x :> 0" using assms(3) by (metis)
    then have "f a = f z" by (rule DERIV_isconst_all)
    then show False using assms by simp
  qed
  then obtain w where w: "f' w \<noteq> 0" by blast
  have "\<forall>\<^sub>F x in nhds z. x \<noteq> z \<longrightarrow> f x * f' x \<noteq> 0"
    using poly_fun_isolated_zero[OF assms(1,5), of z] poly_fun_isolated_zero[OF assms(2) w, of z]
    by eventually_elim simp
  then obtain d where d: "0 < d" "\<And>x. dist x z < d \<Longrightarrow> x \<noteq> z \<Longrightarrow> f x * f' x \<noteq> 0"
    unfolding eventually_nhds_metric by blast
  have cont: "\<And>x. isCont (\<lambda>x. f x * f' x) x" using assms(1,2) by (intro continuous_intros poly_fun_isCont)
  note mvt = MVT2[of _ _ "\<lambda>x. f x * f x" "\<lambda>x. 2 * (f x * f' x)"]
  have "(x < z \<longrightarrow> f x * f' x < 0) \<and> (z < x \<longrightarrow> 0 < f x * f' x)" if x: "dist x z < d" for x
  proof (intro conjI impI)
    assume "x < z"
    then obtain \<xi> where xi: "x < \<xi>" "\<xi> < z" "f z * f z - f x * f x = (z - x) * (2 * (f \<xi> * f' \<xi>))"
      using mvt[of x z] square_derivative[OF assms(3)] by blast
    have "0 < f x * f x" using d(2)[OF x] \<open>x < z\<close> by (intro real_square_pos) auto
    then have "(z - x) * (2 * (f \<xi> * f' \<xi>)) < 0" by (simp add: assms(4) flip: xi(3))
    then have "f \<xi> * f' \<xi> < 0" using \<open>x < z\<close> by (simp add: mult_less_0_iff)
    moreover have "0 < (f x * f' x) * (f \<xi> * f' \<xi>)"
      using no_sign_change[of "\<lambda>x. f x * f' x" "z - d" z x \<xi>] cont d x xi
      by (auto simp: dist_real_def)
    ultimately show "f x * f' x < 0" using positive_product_sign(1) by blast
  next
    assume "z < x"
    then obtain \<xi> where xi: "z < \<xi>" "\<xi> < x" "f x * f x - f z * f z = (x - z) * (2 * (f \<xi> * f' \<xi>))"
      using mvt[of z x] square_derivative[OF assms(3)] by blast
    have "0 < f x * f x" using d(2)[OF x] \<open>z < x\<close> by (intro real_square_pos) auto
    then have "0 < (x - z) * (2 * (f \<xi> * f' \<xi>))" using xi(3) assms(4) by simp
    then have "0 < f \<xi> * f' \<xi>" using \<open>z < x\<close> by (simp add: zero_less_mult_iff)
    moreover have "0 < (f x * f' x) * (f \<xi> * f' \<xi>)"
      using no_sign_change[of "\<lambda>x. f x * f' x" z "z + d" x \<xi>] cont d x xi
      by (auto simp: dist_real_def)
    ultimately show "0 < f x * f' x" using positive_product_sign(2) by blast
  qed
  then show ?thesis unfolding crosses_up_def eventually_nhds_metric using d(1) by blast
qed

text \<open>A common factor of a polynomial and its derivative cannot hide a zero: a zero of the factor
  where the cofactor does not vanish would force the factor to vanish on a whole interval.\<close>

lemma vanishing_growth:
  fixes L L' :: "real \<Rightarrow> real"
  assumes "\<And>x. DERIV L x :> L' x" "L z = 0" "z < b"
    "\<And>x. z \<le> x \<Longrightarrow> x \<le> b \<Longrightarrow> L x * L' x \<le> M * (L x * L x)"
  shows "L b = 0"
proof -
  let ?\<phi> = "\<lambda>x. L x * L x * exp (- 2 * M * x)"
  have deriv: "DERIV ?\<phi> x :> 2 * (L x * L' x - M * (L x * L x)) * exp (- 2 * M * x)" for x
    by (rule derivative_eq_intros assms(1) refl | simp add: algebra_simps)+
  have "?\<phi> b \<le> ?\<phi> z"
  proof (rule DERIV_nonpos_imp_nonincreasing[of z b ?\<phi>])
    fix x assume "z \<le> x" "x \<le> b"
    then have "2 * (L x * L' x - M * (L x * L x)) * exp (- 2 * M * x) \<le> 0"
      using assms(4)[of x] \<open>z \<le> x\<close> \<open>x \<le> b\<close>
      by (intro mult_nonpos_nonneg mult_nonneg_nonpos exp_ge_zero) linarith+
    then show "\<exists>y. DERIV ?\<phi> x :> y \<and> y \<le> 0" using deriv by blast
  qed (use assms(3) in simp)
  then have "L b * L b * exp (- 2 * M * b) \<le> 0" using assms(2) by simp
  then have "L b * L b \<le> 0" by (simp add: mult_le_0_iff)
  then show ?thesis using not_real_square_gt_zero[of "L b"] by linarith
qed

lemma cofactor_vanishes:
  assumes polys: "poly_fun f" "poly_fun r" "poly_fun s" "poly_fun L"
    and deriv: "\<And>x. DERIV f x :> f' x"
    and factor: "\<And>x. f x = r x * L x" "\<And>x. f' x = s x * L x"
    and zero: "f z = 0" and nonzero: "f a \<noteq> 0"
  shows "r z = 0"
proof (rule ccontr)
  assume rz: "r z \<noteq> 0"
  obtain r' where r': "poly_fun r'" "\<And>x. DERIV r x :> r' x" using poly_fun_deriv[OF polys(2)] by blast
  obtain L' where L': "poly_fun L'" "\<And>x. DERIV L x :> L' x" using poly_fun_deriv[OF polys(4)] by blast
  have Lz: "L z = 0" and La: "L a \<noteq> 0" using zero nonzero rz factor(1) by auto
  have relation: "r x * L' x = (s x - r' x) * L x" for x
  proof -
    have "DERIV (\<lambda>x. r x * L x) x :> r' x * L x + r x * L' x"
      by (rule derivative_eq_intros r' L' refl | simp)+
    moreover have "f = (\<lambda>x. r x * L x)" by (simp add: fun_eq_iff factor)
    ultimately have "f' x = r' x * L x + r x * L' x" using deriv[of x] DERIV_unique by blast
    then show ?thesis using factor(2)[of x] by (simp add: algebra_simps)
  qed
  let ?h = "\<lambda>x. (s x - r' x) / r x"
  have "isCont ?h z" using rz polys r' by (intro continuous_intros poly_fun_isCont) auto
  then have "(?h \<longlongrightarrow> ?h z) (nhds z)" 
    using tendsto_at_iff_tendsto_nhds[of ?h z] by (simp add: isCont_def)
  then have "\<forall>\<^sub>F x in nhds z. ?h x < ?h z + 1" by (rule order_tendstoD(2)) simp
  moreover have "\<forall>\<^sub>F x in nhds z. 0 < r x * r z" using eventually_sign poly_fun_isCont polys(2) rz by blast
  moreover have "\<forall>\<^sub>F x in nhds z. x \<noteq> z \<longrightarrow> L x \<noteq> 0" using poly_fun_isolated_zero[OF polys(4) La] .
  ultimately have "\<forall>\<^sub>F x in nhds z. r x \<noteq> 0 \<and> ?h x < ?h z + 1 \<and> (x \<noteq> z \<longrightarrow> L x \<noteq> 0)"
    by eventually_elim auto
  then obtain d where d: "0 < d"
    "\<And>x. dist x z < d \<Longrightarrow> r x \<noteq> 0 \<and> ?h x < ?h z + 1 \<and> (x \<noteq> z \<longrightarrow> L x \<noteq> 0)"
    unfolding eventually_nhds_metric by blast
  have "L (z + d / 2) = 0"
  proof (rule vanishing_growth[of L L' z _ "?h z + 1"])
    fix x assume "z \<le> x" "x \<le> z + d / 2"
    then have "dist x z < d" using d(1) by (simp add: dist_real_def)
    then have h: "r x \<noteq> 0" "?h x \<le> ?h z + 1" using d(2) by force+
    have "L' x = ?h x * L x" using relation[of x] h(1) by (simp add: field_simps)
    then have "L x * L' x = ?h x * (L x * L x)" by simp
    also have "\<dots> \<le> (?h z + 1) * (L x * L x)" using h(2) by (intro mult_right_mono) auto
    finally show "L x * L' x \<le> (?h z + 1) * (L x * L x)" .
  qed (use L' Lz d(1) in auto)
  moreover have "dist (z + d / 2) z < d" using d(1) by (simp add: dist_real_def)
  ultimately show False using d(2)[of "z + d / 2"] d(1) by auto
qed

section \<open>Remainder chains\<close>

fun remainder_chain :: "(real \<Rightarrow> real) list \<Rightarrow> bool" where
  "remainder_chain [f, g] \<longleftrightarrow> (\<exists>c > 0. \<exists>q. poly_fun q \<and> (\<forall>x. c * f x = q x * g x))"
| "remainder_chain (f # g # h # fs) \<longleftrightarrow>
     (\<exists>c > 0. \<exists>d > 0. \<exists>q. poly_fun q \<and> (\<forall>x. c * f x = q x * g x - d * h x)) \<and>
     remainder_chain (g # h # fs)"
| "remainder_chain _ \<longleftrightarrow> False"

lemma remainder_chain_step:
  assumes "0 < c" "0 < d" "poly_fun q" "\<And>x. c * f x = q x * g x - d * h x" "remainder_chain (g # h # fs)"
  shows "remainder_chain (f # g # h # fs)"
  using assms unfolding remainder_chain.simps(2) by blast

definition quotients_of :: "(real \<Rightarrow> real) list \<Rightarrow> (real \<Rightarrow> real) \<Rightarrow> (real \<Rightarrow> real) list \<Rightarrow> bool" where
  "quotients_of fs l us \<longleftrightarrow> list_all2 (\<lambda>f u. poly_fun u \<and> (\<forall>x. f x = u x * l x)) fs us"

lemma remainder_chain_divides:
  assumes "remainder_chain (f # g # fs)"
  shows "\<exists>us. (\<forall>z. chain_at us z) \<and> quotients_of (f # g # fs) (last (g # fs)) us"
  using assms
proof (induction fs arbitrary: f g)
  case Nil
  then obtain c q where q: "c > 0" "poly_fun q" "\<forall>x. c * f x = q x * g x" by auto
  then have "f x = (1 / c * q x) * g x" for x by (simp add: field_simps)
  then show ?case using q(2)
    by (intro exI[of _ "[\<lambda>x. 1 / c * q x, \<lambda>x. 1]"]) (auto simp: quotients_of_def)
next
  case (Cons h fs)
  then obtain c d q where q: "c > 0" "d > 0" "poly_fun q" "\<forall>x. c * f x = q x * g x - d * h x" by auto
  let ?l = "last (h # fs)"
  obtain us where us: "\<And>z. chain_at us z" "quotients_of (g # h # fs) ?l us"
    using Cons.IH[of g h] Cons.prems by fastforce
  then obtain u v vs where uv: "us = u # v # vs" "poly_fun u" "poly_fun v"
    "\<And>x. g x = u x * ?l x" "\<And>x. h x = v x * ?l x"
    by (auto simp: quotients_of_def list_all2_Cons1)
  let ?r = "\<lambda>x. 1 / c * (q x * u x - d * v x)"
  have "f x = ?r x * ?l x" for x
  proof -
    have "c * f x = (q x * u x - d * v x) * ?l x"
      by (simp only: q(4)[rule_format] uv(4,5) left_diff_distrib mult.assoc)
    then show ?thesis using q(1) by (simp add: field_simps)
  qed
  then have quot: "quotients_of (f # g # h # fs) ?l (?r # us)"
    using us(2) q(3) uv(2,3)
    by (auto simp: quotients_of_def intro!: poly_fun_scale[of _ "1 / c"] poly_fun_diff)
  have "chain_at (?r # us) z" for z
  proof -
    have "?r z * v z < 0 \<and> ?r z \<noteq> 0" if "u z = 0"
    proof -
      have "v z \<noteq> 0" using us(1)[of z] uv(1) that by (cases vs) auto
      then have "0 < d / c * (v z * v z)" using q(1,2) by (intro mult_pos_pos real_square_pos) auto
      moreover have "?r z * v z = - (d / c * (v z * v z))" using that by simp
      ultimately have "?r z * v z < 0" by linarith
      then show ?thesis by auto
    qed
    then show ?thesis using us(1)[of z] uv(1) by auto
  qed
  with quot show ?case by (intro exI[of _ "?r # us"]) simp
qed

lemma values_at_quotients:
  assumes "quotients_of fs l us" "l x \<noteq> 0"
  shows "values_at fs x = values_at us x"
proof -
  have "map (\<lambda>f. f x) fs = map ((*) (l x)) (map (\<lambda>u. u x) us)"
    using assms(1) unfolding quotients_of_def by (induction rule: list_all2_induct) auto
  then show ?thesis unfolding values_at_def by (simp only: sign_variations_scale[OF assms(2)])
qed

lemma crosses_up_cancel:
  assumes "\<And>x. f x = r x * L x" "\<And>x. g x = k * (s x * L x)" "0 < k"
    "crosses_up f g z" "\<forall>\<^sub>F x in nhds z. x \<noteq> z \<longrightarrow> L x \<noteq> 0"
  shows "crosses_up r s z"
  using assms(4,5) unfolding crosses_up_def
proof eventually_elim
  case (elim x)
  have "f x * g x = (r x * s x) * (k * (L x * L x))" by (simp add: assms)
  then show ?case using elim real_square_pos[of "L x"] assms(3)
    by (auto simp: mult_less_0_iff zero_less_mult_iff)
qed

theorem sturm_remainder_count:
  assumes chain: "remainder_chain (f # g # fs)" and polys: "\<forall>h \<in> set (f # g # fs). poly_fun h"
    and deriv: "\<And>x. DERIV f x :> f' x" and g: "\<And>x. g x = k * f' x" "0 < k"
    and ends: "a < b" "f a \<noteq> 0" "f b \<noteq> 0"
  shows "finite {z. a < z \<and> z < b \<and> f z = 0} \<and>
    values_at (f # g # fs) a = values_at (f # g # fs) b + card {z. a < z \<and> z < b \<and> f z = 0}"
proof -
  let ?l = "last (g # fs)"
  have f: "poly_fun f" and pg: "poly_fun g" using polys by auto
  obtain us where us: "\<And>z. chain_at us z" "quotients_of (f # g # fs) ?l us"
    using remainder_chain_divides[OF chain] by blast
  then obtain r s vs where rs: "us = r # s # vs" "poly_fun r" "poly_fun s"
    and fr: "\<And>x. f x = r x * ?l x" and gs: "\<And>x. g x = s x * ?l x"
    by (auto simp: quotients_of_def list_all2_Cons1)
  have vs: "\<forall>v \<in> set us. poly_fun v"
    using us(2) unfolding quotients_of_def by (induction rule: list_all2_induct) auto
  have l: "poly_fun ?l" using polys last_in_set[of "g # fs"] by auto
  have la: "?l a \<noteq> 0" and lb: "?l b \<noteq> 0" using ends fr by auto
  have f': "f' x = (1 / k * s x) * ?l x" for x using g(1)[of x] gs[of x] g(2) by (simp add: field_simps)
  have pf': "poly_fun f'"
  proof -
    have "f' = (\<lambda>x. 1 / k * g x)" using g by (auto simp: fun_eq_iff)
    then show ?thesis using pg by auto
  qed
  have "poly_fun (\<lambda>x. 1 / k * s x)" using rs(3) by (rule poly_fun_scale)
  then have zeros: "r z = 0 \<longleftrightarrow> f z = 0" for z
    using cofactor_vanishes[OF f rs(2) _ l deriv fr f' _ ends(2), of z] fr[of z] by auto
  have up: "crosses_up r s z" if "r z = 0" for z
  proof -
    have "crosses_up f f' z"
      using poly_crosses_up[OF f pf' deriv _ ends(2)] that zeros by blast
    then show ?thesis
      using crosses_up_cancel[of f r ?l f' "1 / k" s z] fr f' g(2) poly_fun_isolated_zero[OF l la] by auto
  qed
  have "finite {z. a < z \<and> z \<le> b \<and> r z = 0} \<and>
    values_at us a = values_at us b + card {z. a < z \<and> z \<le> b \<and> r z = 0}"
    unfolding rs(1)
  proof (rule sturm_chain_count)
    show "\<And>h z. h \<in> set (r # s # vs) \<Longrightarrow> isCont h z" using vs rs(1) poly_fun_isCont by auto
  qed (use us(1) up ends(1) rs(1) in auto)
  moreover have "{z. a < z \<and> z \<le> b \<and> r z = 0} = {z. a < z \<and> z < b \<and> f z = 0}"
    using zeros ends(3) by (auto simp: less_le)
  ultimately show ?thesis
    using values_at_quotients[OF us(2) la] values_at_quotients[OF us(2) lb] by simp
qed

end
