(* ===== verification/Exact_Sturm.thy ===== *)
theory Exact_Sturm
  imports Euclidean_Chain
begin

text \<open>
  Exact Sturm counting and root isolation of \<open>crates/xc-numerics/src/interval.rs\<close>:
  \<open>trim_polynomial\<close>, \<open>normalize_polynomial_positive\<close>, \<open>polynomial_derivative\<close>,
  \<open>polynomial_remainder\<close>, \<open>sturm_variations\<close>, \<open>exact_sturm_root_count\<close>,
  \<open>polynomial_square_free_part\<close> and \<open>exact_sturm_isolate_roots\<close>. Coefficient vectors are lists, lowest
  power first. The \<open>while\<close> loops are recursive functions with termination proofs; \<open>expect\<close>, \<open>unwrap\<close>,
  a division by zero and an underflow are the \<open>Panicked\<close> branch of the result. The pending stack
  of the isolation has its top at the head of the list.

  The lemmas show that the remainder loop computes a positive multiple of the Euclidean remainder, that
  the sequence built by the counting loop gives, after division by its last member, a chain in the
  sense of \<open>Sturm_Chain\<close>, and hence that the reported count is the number of distinct real
  roots in the open interval, repeated factors included.
\<close>

declare bind_result_cong [fundef_cong]

section \<open>Coefficient vectors\<close>

fun trim_polynomial :: "rat list \<Rightarrow> rat list" where
  "trim_polynomial polynomial =
     (if 1 < length polynomial \<and> last polynomial = 0 then trim_polynomial (butlast polynomial)
      else polynomial)"

declare trim_polynomial.simps [simp del]

definition is_zero_polynomial :: "rat list \<Rightarrow> bool" where
  "is_zero_polynomial polynomial \<longleftrightarrow> length polynomial = 1 \<and> polynomial ! 0 = 0"

definition normalize_polynomial_positive :: "rat list \<Rightarrow> IntervalError fault + rat list" where
  "normalize_polynomial_positive p =
     (let polynomial = trim_polynomial p
      in if polynomial = [] then Inl (Panicked ''trimmed polynomial is nonempty'')
         else
           let leading = last polynomial
           in if leading = 0 then Inr polynomial
              else let scale = (if leading < 0 then - leading else leading)
                   in Inr (map (\<lambda>coefficient. coefficient / scale) polynomial))"

definition polynomial_derivative :: "rat list \<Rightarrow> rat list" where
  "polynomial_derivative polynomial =
     (if length polynomial \<le> 1 then [0] else derivative_coefficients polynomial)"

text \<open>The inner loop of both divisions: subtract \<open>factor\<close> times the divisor, shifted.\<close>

definition subtract_shifted :: "rat list \<Rightarrow> rat list \<Rightarrow> nat \<Rightarrow> rat \<Rightarrow> IntervalError fault + rat list" where
  "subtract_shifted remainder divisor shift factor =
     fold_result (\<lambda>(i, coefficient) r.
         if shift + i < length r then Inr (r[shift + i := r ! (shift + i) - coefficient * factor])
         else Inl (Panicked ''index out of bounds''))
       (enumerate 0 divisor) remainder"

text \<open>The values of the two operations where they do not panic.\<close>

definition scaled_polynomial :: "rat list \<Rightarrow> rat list" where
  "scaled_polynomial p =
     (let leading = last (trim_polynomial p)
      in if leading = 0 then trim_polynomial p else map (\<lambda>coefficient. coefficient / \<bar>leading\<bar>) (trim_polynomial p))"

definition shifted_difference :: "rat list \<Rightarrow> rat list \<Rightarrow> nat \<Rightarrow> rat \<Rightarrow> rat list" where
  "shifted_difference r d k f =
     foldl (\<lambda>r (i, coefficient). r[k + i := r ! (k + i) - coefficient * f]) r (enumerate 0 d)"

lemma trim_eq_Nil [simp]: "trim_polynomial p = [] \<longleftrightarrow> p = []"
proof (induction p rule: trim_polynomial.induct)
  case (1 p)
  show ?case
  proof (cases "1 < length p \<and> last p = 0")
    case True
    then have "butlast p \<noteq> []" "p \<noteq> []" using length_butlast[of p] by (auto simp del: length_butlast)
    then show ?thesis using 1 True by (subst trim_polynomial.simps) simp
  qed (subst trim_polynomial.simps, auto)
qed

lemma trim_Nil [simp]: "trim_polynomial [] = []"
  by simp

lemma normalize_result:
  "normalize_polynomial_positive p =
     (if p = [] then Inl (Panicked ''trimmed polynomial is nonempty'') else Inr (scaled_polynomial p))"
  by (auto simp: normalize_polynomial_positive_def scaled_polynomial_def Let_def abs_if)

lemma subtract_shifted_Inr: "subtract_shifted r d k f = Inr s \<Longrightarrow> s = shifted_difference r d k f"
proof -
  let ?new = "\<lambda>r i c. r[k + i := r ! (k + i) - c * f]"
  have "fold_result (\<lambda>(i, c) r. if k + i < length r then Inr (?new r i c) else Inl (Panicked ''index out of bounds'')) ds r =
      (Inr s :: IntervalError fault + rat list) \<Longrightarrow> s = foldl (\<lambda>r (i, c). ?new r i c) r ds" for ds
    by (induction ds arbitrary: r) (auto split: if_splits)
  then show "subtract_shifted r d k f = Inr s \<Longrightarrow> s = shifted_difference r d k f"
    by (simp add: subtract_shifted_def shifted_difference_def)
qed

lemma subtract_shifted_ok:
  assumes "k + length d \<le> length r"
  shows "subtract_shifted r d k f = Inr (shifted_difference r d k f)"
proof -
  let ?new = "\<lambda>r i c. r[k + i := r ! (k + i) - c * f]"
  have "fold_result (\<lambda>(i, c) r. if k + i < length r then Inr (?new r i c) else Inl (Panicked ''index out of bounds''))
      (enumerate n ds) r = (Inr (foldl (\<lambda>r (i, c). ?new r i c) r (enumerate n ds)) :: IntervalError fault + rat list)"
    if "k + n + length ds \<le> length r" for n ds
    using that by (induction ds arbitrary: n r) auto
  from this[of 0 d] show ?thesis using assms by (simp add: subtract_shifted_def shifted_difference_def)
qed

lemma trim_length: "length (trim_polynomial p) \<le> length p"
proof (induction p rule: trim_polynomial.induct)
  case (1 p)
  then show ?case by (subst trim_polynomial.simps) auto
qed

lemma shifted_difference_length [simp]: "length (shifted_difference r d k f) = length r"
proof -
  have "length (foldl (\<lambda>r (i, c). r[k + i := r ! (k + i) - c * f]) r ds) = length r" for ds
    by (induction ds arbitrary: r) auto
  then show ?thesis by (simp add: shifted_difference_def)
qed

lemma shifted_difference_nth:
  assumes "k + length d \<le> length r" "j < length r"
  shows "shifted_difference r d k f ! j =
    r ! j - (if k \<le> j \<and> j < k + length d then d ! (j - k) * f else 0)"
proof -
  let ?step = "\<lambda>r (i, c). r[k + i := r ! (k + i) - c * f]"
  have "foldl ?step r (enumerate n ds) ! j =
    r ! j - (if k + n \<le> j \<and> j < k + n + length ds then ds ! (j - k - n) * f else 0)"
    if "k + n + length ds \<le> length r" "j < length r" for n ds
    using that
  proof (induction ds arbitrary: n r)
    case (Cons c ds)
    then show ?case by (auto simp: nth_list_update nth_Cons' not_less_eq_eq Suc_le_eq)
  qed simp
  from this[of 0 d] show ?thesis using assms by (simp add: shifted_difference_def)
qed

lemma shifted_difference_last:
  assumes "d \<noteq> []" "length d \<le> length r" "last d \<noteq> 0"
  shows "last (shifted_difference r d (length r - length d) (last r / last d)) = 0"
proof -
  let ?m = "length r - length d" and ?j = "length r - 1"
  have len: "0 < length d" "0 < length r" using assms by auto
  then have j: "?j < length r" "?m \<le> ?j" "?j < ?m + length d" "?j - ?m = length d - 1"
    "?m + length d \<le> length r" using assms(2) by linarith+
  have "shifted_difference r d ?m (last r / last d) ! ?j = r ! ?j - d ! (length d - 1) * (last r / last d)"
    using shifted_difference_nth[OF j(5,1)] j by simp
  also have "\<dots> = 0" using assms(1,3) len by (simp add: last_conv_nth)
  finally show ?thesis using len by (simp add: last_conv_nth flip: length_greater_0_conv)
qed

text \<open>One elimination step shortens the remainder or leaves the zero polynomial.\<close>

definition division_size :: "rat list \<Rightarrow> nat" where
  "division_size r = (if is_zero_polynomial r then 0 else length r)"

lemma trim_decreases:
  assumes "r \<noteq> []" "last r = 0"
  shows "is_zero_polynomial (trim_polynomial r) \<or> length (trim_polynomial r) < length r"
proof (cases "1 < length r")
  case True
  then have "trim_polynomial r = trim_polynomial (butlast r)"
    using assms by (subst trim_polynomial.simps) simp
  then show ?thesis using trim_length[of "butlast r"] True by auto
next
  case False
  then have "length r = 1" using assms(1) by (cases r) auto
  then show ?thesis
    using assms(2) by (subst (1) trim_polynomial.simps) (auto simp: is_zero_polynomial_def length_Suc_conv)
qed

lemma normalize_length: "length (scaled_polynomial p) = length (trim_polynomial p)"
  by (simp add: scaled_polynomial_def Let_def)

lemma normalize_zero [simp]:
  "is_zero_polynomial (scaled_polynomial p) \<longleftrightarrow> is_zero_polynomial (trim_polynomial p)"
  by (auto simp: scaled_polynomial_def is_zero_polynomial_def Let_def length_Suc_conv)

lemma division_step_decreases:
  assumes "\<not> is_zero_polynomial r" "length d \<le> length r" "d \<noteq> []" "last d \<noteq> 0"
  defines "r' \<equiv> shifted_difference r d (length r - length d) (last r / last d)"
  shows "division_size (trim_polynomial r') < division_size r"
    and "division_size (scaled_polynomial r') < division_size r"
proof -
  have r: "r \<noteq> []" "length r' = length r" using assms by auto
  then have "r' \<noteq> []" by (metis length_0_conv)
  then have "is_zero_polynomial (trim_polynomial r') \<or> length (trim_polynomial r') < length r"
    using trim_decreases[of r'] shifted_difference_last[OF assms(3,2,4)] r by (simp add: r'_def)
  then show "division_size (trim_polynomial r') < division_size r"
    and "division_size (scaled_polynomial r') < division_size r"
    using assms(1) r by (auto simp: division_size_def normalize_length)
qed

section \<open>The loops\<close>

function remainder_loop :: "rat list \<Rightarrow> rat list \<Rightarrow> IntervalError fault + rat list" where
  "remainder_loop divisor remainder =
     (if \<not> is_zero_polynomial remainder \<and> length remainder \<ge> length divisor then
        if remainder = [] then Inl (Panicked ''nonempty polynomial'')
        else if divisor = [] then Inl (Panicked ''nonempty divisor'')
        else if last divisor = 0 then Inl (Panicked ''division by zero'')
        else
          let shift = length remainder - length divisor;
              factor = last remainder / last divisor
          in bind_result (subtract_shifted remainder divisor shift factor) (\<lambda>remainder.
             bind_result (normalize_polynomial_positive remainder) (\<lambda>remainder.
             remainder_loop divisor remainder))
      else Inr remainder)"
  by auto
termination
  by (relation "measure (\<lambda>(d, r). division_size r)")
    (auto simp: normalize_result split: if_splits dest!: subtract_shifted_Inr intro: division_step_decreases(2))

declare remainder_loop.simps [simp del]

definition polynomial_remainder :: "rat list \<Rightarrow> rat list \<Rightarrow> IntervalError fault + rat list" where
  "polynomial_remainder dividend divisor0 =
     (let divisor = trim_polynomial divisor0
      in if is_zero_polynomial divisor
         then Inl (Raised (Invalid ''polynomial division by zero polynomial''))
         else remainder_loop divisor (trim_polynomial dividend))"

fun variation_step ::
  "rat \<Rightarrow> rat list \<Rightarrow> bool option \<times> nat \<Rightarrow> IntervalError fault + bool option \<times> nat" where
  "variation_step point polynomial (previous_sign, variations) =
     bind_result (map_err Raised (evaluate_real_polynomial_exact polynomial point)) (\<lambda>value.
       if value = 0 then Inr (previous_sign, variations)
       else
         let sign = (value > 0)
         in Inr (Some sign,
              case previous_sign of
                None \<Rightarrow> variations
              | Some previous \<Rightarrow> if previous \<noteq> sign then variations + 1 else variations))"

definition sturm_variations :: "rat list list \<Rightarrow> rat \<Rightarrow> IntervalError fault + nat" where
  "sturm_variations sequence point =
     map_ok snd (fold_result (variation_step point) sequence (None, 0))"

record ExactSturmCount =
  sturm_lower :: rat
  sturm_upper :: rat
  distinct_real_roots :: nat
  variations_at_lower :: nat
  variations_at_upper :: nat
  square_free :: bool
  sequence_length :: nat

text \<open>A returned remainder is zero or shorter than the divisor.\<close>

lemma remainder_loop_short:
  "remainder_loop d r = Inr r' \<Longrightarrow> is_zero_polynomial r' \<or> length r' < length d"
proof (induction d r rule: remainder_loop.induct)
  case (1 d r)
  show ?case
  proof (cases "\<not> is_zero_polynomial r \<and> length d \<le> length r")
    case True
    have "r \<noteq> []" "d \<noteq> []" "last d \<noteq> 0"
      using 1(2) True by (auto simp: remainder_loop.simps[of d r] split: if_splits)
    with 1 True show ?thesis by (subst (asm) (2) remainder_loop.simps) (auto simp: bind_result_eq_Inr)
  next
    case False
    with 1(2) show ?thesis by (subst (asm) remainder_loop.simps) auto
  qed
qed

lemma polynomial_remainder_short:
  assumes "polynomial_remainder f g = Inr r" "\<not> is_zero_polynomial r"
  shows "length r < length g"
proof -
  have "length r < length (trim_polynomial g)"
    using assms remainder_loop_short by (auto simp: polynomial_remainder_def Let_def split: if_splits)
  then show ?thesis using trim_length[of g] by linarith
qed

lemma normalize_length_le: "length (scaled_polynomial p) \<le> length p"
  using normalize_length[of p] trim_length[of p] by simp

function sturm_loop :: "rat list list \<Rightarrow> IntervalError fault + rat list list" where
  "sturm_loop sequence =
     (if length sequence < 2 then Inl (Panicked ''attempt to subtract with overflow'')
      else
        bind_result (polynomial_remainder (sequence ! (length sequence - 2)) (sequence ! (length sequence - 1))) (\<lambda>remainder.
        if is_zero_polynomial remainder then Inr sequence
        else bind_result (normalize_polynomial_positive (map (\<lambda>value. - value) remainder)) (\<lambda>next_member.
             sturm_loop (sequence @ [next_member]))))"
  by auto
termination
proof (relation "measure (\<lambda>s. length (last s))"; clarsimp)
  fix s :: "rat list list" and r h
  assume s: "\<not> length s < 2" and r: "polynomial_remainder (s ! (length s - 2)) (s ! (length s - Suc 0)) = Inr r"
    "\<not> is_zero_polynomial r" and h: "normalize_polynomial_positive (map uminus r) = Inr h"
  have "s ! (length s - Suc 0) = last s" using s by (subst last_conv_nth) auto
  moreover have "h = scaled_polynomial (map uminus r)" using h by (simp add: normalize_result split: if_splits)
  ultimately show "length h < length (last s)"
    using polynomial_remainder_short[OF r] normalize_length_le[of "map uminus r"] by simp
qed

declare sturm_loop.simps [simp del]

definition exact_sturm_root_count ::
  "rat list \<Rightarrow> rat \<Rightarrow> rat \<Rightarrow> IntervalError fault + ExactSturmCount" where
  "exact_sturm_root_count coefficients_ascending l u =
     (if length coefficients_ascending < 2 \<or> l \<ge> u
      then Inl (Raised (Invalid
        ''Sturm counting requires a nonconstant polynomial and lower < upper''))
      else
        bind_result (normalize_polynomial_positive coefficients_ascending) (\<lambda>polynomial.
        if length polynomial < 2
        then Inl (Raised (Invalid ''Sturm counting polynomial becomes constant after trimming''))
        else
        bind_result (map_err Raised (evaluate_real_polynomial_exact polynomial l)) (\<lambda>at_lower.
        bind_result (if at_lower = 0 then Inr True
                     else map_ok (\<lambda>v. v = 0)
                       (map_err Raised (evaluate_real_polynomial_exact polynomial u))) (\<lambda>boundary_root.
        if boundary_root
        then Inl (Raised (Inconclusive ''Sturm counting interval has a root on its boundary''))
        else
        bind_result (normalize_polynomial_positive (polynomial_derivative polynomial)) (\<lambda>derivative.
        bind_result (sturm_loop [polynomial, derivative]) (\<lambda>sequence.
        bind_result (sturm_variations sequence l) (\<lambda>at_l.
        bind_result (sturm_variations sequence u) (\<lambda>at_u.
        if at_l < at_u
        then Inl (Raised (Invalid ''Sturm variation count increased across an ordered interval''))
        else Inr \<lparr>sturm_lower = l, sturm_upper = u, distinct_real_roots = at_l - at_u,
                  variations_at_lower = at_l, variations_at_upper = at_u,
                  square_free = (length (last sequence) = 1),
                  sequence_length = length sequence\<rparr>))))))))"

section \<open>What the coefficient operations denote\<close>

text \<open>A trimmed vector is nonempty and has a nonzero leading coefficient unless it is a constant.\<close>

definition trimmed :: "rat list \<Rightarrow> bool" where
  "trimmed p \<longleftrightarrow> p \<noteq> [] \<and> (1 < length p \<longrightarrow> last p \<noteq> 0)"

lemma trim_trimmed: "p \<noteq> [] \<Longrightarrow> trimmed (trim_polynomial p)"
proof (induction p rule: trim_polynomial.induct)
  case (1 p)
  show ?case
  proof (cases "1 < length p \<and> last p = 0")
    case True
    then have "butlast p \<noteq> []" by (cases p rule: rev_cases) auto
    with True 1 show ?thesis by (subst trim_polynomial.simps) simp
  next
    case False
    with 1 show ?thesis by (subst trim_polynomial.simps) (auto simp: trimmed_def)
  qed
qed

lemma trim_rpoly [simp]: "rpoly (trim_polynomial p) x = rpoly p x"
proof (induction p rule: trim_polynomial.induct)
  case (1 p)
  show ?case
  proof (cases "1 < length p \<and> last p = 0")
    case True
    then obtain q where "p = q @ [0]" by (cases p rule: rev_cases) auto
    then have "rpoly p x = rpoly (butlast p) x" by (simp add: pval_append)
    with True 1 show ?thesis by (subst trim_polynomial.simps) simp
  qed (subst trim_polynomial.simps, auto)
qed

lemma trimmed_last: "trimmed p \<Longrightarrow> \<not> is_zero_polynomial p \<Longrightarrow> last p \<noteq> 0"
  by (cases p) (auto simp: trimmed_def is_zero_polynomial_def)

lemma trim_idem: "trimmed p \<Longrightarrow> trim_polynomial p = p"
  by (subst trim_polynomial.simps) (auto simp: trimmed_def)

lemma map_divide_rpoly: "rpoly (map (\<lambda>c. c / k) p) x = rpoly p x / real_of_rat k"
  by (induction p) (simp_all add: of_rat_divide add_divide_distrib algebra_simps)

lemma map_uminus_rpoly: "rpoly (map uminus p) x = - rpoly p x"
  by (induction p) (simp_all add: of_rat_minus algebra_simps)

lemma normalize_rpoly:
  obtains c where "0 < c" "\<And>x. rpoly (scaled_polynomial p) x = c * rpoly p x"
proof (cases "last (trim_polynomial p) = 0")
  case True
  then show ?thesis using that[of 1] by (simp add: scaled_polynomial_def Let_def)
next
  case False
  let ?s = "\<bar>last (trim_polynomial p)\<bar>"
  have "rpoly (scaled_polynomial p) x = 1 / real_of_rat ?s * rpoly p x" for x
    using False
    by (simp add: scaled_polynomial_def Let_def map_divide_rpoly abs_if del: map_map)
  moreover have "0 < 1 / real_of_rat ?s" using False by simp
  ultimately show ?thesis using that by blast
qed

lemma normalize_trimmed: "p \<noteq> [] \<Longrightarrow> trimmed (scaled_polynomial p)"
  using trim_trimmed[of p]
  by (auto simp: scaled_polynomial_def trimmed_def Let_def last_map)

lemma shifted_difference_rpoly:
  assumes "k + length d \<le> length r"
  shows "rpoly (shifted_difference r d k f) x = rpoly r x - real_of_rat f * x ^ k * rpoly d x"
proof -
  have "rpoly (shifted_difference r d k f) x =
    (\<Sum>j < length r. real_of_rat (r ! j) * x ^ j) -
    (\<Sum>j < length r. (if k \<le> j \<and> j < k + length d then real_of_rat (d ! (j - k)) * real_of_rat f else 0) * x ^ j)"
    unfolding sum_subtractf[symmetric] pval_sum
    by (intro sum.cong) (auto simp: shifted_difference_nth[OF assms] of_rat_diff of_rat_mult algebra_simps)
  also have "(\<Sum>j < length r. (if k \<le> j \<and> j < k + length d then real_of_rat (d ! (j - k)) * real_of_rat f else 0) * x ^ j) =
    (\<Sum>j \<in> {k..<k + length d}. real_of_rat (d ! (j - k)) * real_of_rat f * x ^ j)"
    using assms by (intro sum.mono_neutral_cong_right) auto
  also have "\<dots> = (\<Sum>i < length d. real_of_rat (d ! i) * real_of_rat f * x ^ (i + k))"
    using sum.shift_bounds_nat_ivl[of "\<lambda>j. real_of_rat (d ! (j - k)) * real_of_rat f * x ^ j" 0 k "length d"]
    by (simp add: lessThan_atLeast0 add.commute)
  also have "\<dots> = real_of_rat f * x ^ k * rpoly d x"
    by (simp add: pval_sum sum_distrib_left power_add algebra_simps)
  finally show ?thesis by (simp add: pval_sum)
qed

section \<open>The remainder\<close>

lemma remainder_loop_ok:
  assumes "trimmed d" "\<not> is_zero_polynomial d" "trimmed r"
  obtains r' c q where "remainder_loop d r = Inr r'" "trimmed r'" "0 < c" "poly_fun q"
    "\<And>x. c * rpoly r x = q x * rpoly d x + rpoly r' x"
proof -
  have "\<exists>r' c q. remainder_loop d r = Inr r' \<and> trimmed r' \<and> 0 < c \<and> poly_fun q \<and>
    (\<forall>x. c * rpoly r x = q x * rpoly d x + rpoly r' x)"
    using assms
  proof (induction d r rule: remainder_loop.induct)
    case (1 d r)
    show ?case
    proof (cases "\<not> is_zero_polynomial r \<and> length d \<le> length r")
      case False
      then have "remainder_loop d r = Inr r" by (subst remainder_loop.simps) auto
      then show ?thesis using 1(4) by (intro exI[of _ r] exI[of _ 1] exI[of _ "\<lambda>x. 0"]) auto
    next
      case True
      let ?k = "length r - length d" and ?f = "last r / last d"
      let ?s = "shifted_difference r d ?k ?f"
      have ne: "r \<noteq> []" "d \<noteq> []" "last d \<noteq> 0" using 1 trimmed_last[of d] by (auto simp: trimmed_def)
      have s: "?s \<noteq> []" using ne(1) by (metis length_0_conv shifted_difference_length)
      have step: "subtract_shifted r d ?k ?f = Inr ?s" "normalize_polynomial_positive ?s = Inr (scaled_polynomial ?s)"
        using subtract_shifted_ok[of ?k d r ?f] True s by (simp_all add: normalize_result)
      have loop: "remainder_loop d r = remainder_loop d (scaled_polynomial ?s)"
        using True ne step by (subst remainder_loop.simps) (simp add: Let_def)
      obtain r' c q where IH: "remainder_loop d (scaled_polynomial ?s) = Inr r'" "trimmed r'"
        "0 < c" "poly_fun q" "\<And>x. c * rpoly (scaled_polynomial ?s) x = q x * rpoly d x + rpoly r' x"
        using 1(1)[OF True ne refl refl step 1(2,3) normalize_trimmed[OF s]] by blast
      obtain b where b: "0 < b" "\<And>x. rpoly (scaled_polynomial ?s) x = b * rpoly ?s x"
        using normalize_rpoly[of ?s] by blast
      let ?q = "\<lambda>x. q x + (c * b * real_of_rat ?f) * x ^ ?k"
      have "c * b * rpoly r x = ?q x * rpoly d x + rpoly r' x" for x
        using IH(5)[of x] b(2)[of x] shifted_difference_rpoly[of ?k d r ?f x] True
        by (simp add: algebra_simps)
      moreover have "poly_fun ?q" using IH(4) by (intro poly_fun_add poly_fun_scale poly_fun_power)
      ultimately show ?thesis using loop IH(1-3) b(1) by (intro exI[of _ r'] exI[of _ "c * b"] exI[of _ ?q]) auto
    qed
  qed
  then show thesis using that by blast
qed

lemma polynomial_remainder_ok:
  assumes "f \<noteq> []" "trimmed g" "\<not> is_zero_polynomial g"
  obtains r c q where "polynomial_remainder f g = Inr r" "trimmed r" "0 < c" "poly_fun q"
    "\<And>x. c * rpoly f x = q x * rpoly g x + rpoly r x"
  using remainder_loop_ok[OF assms(2,3) trim_trimmed[OF assms(1)]] assms(2,3)
  by (auto simp: polynomial_remainder_def Let_def trim_idem)

section \<open>The sequence and its variations\<close>

definition proper :: "rat list \<Rightarrow> bool" where
  "proper p \<longleftrightarrow> trimmed p \<and> \<not> is_zero_polynomial p"

lemma trimmed_uminus_proper:
  assumes "trimmed r" "\<not> is_zero_polynomial r"
  shows "proper (scaled_polynomial (map uminus r))"
proof -
  have "trimmed (map uminus r)" using assms(1) by (auto simp: trimmed_def last_map)
  then have "trim_polynomial (map uminus r) = map uminus r" by (rule trim_idem)
  moreover have "\<not> is_zero_polynomial (map uminus r)"
    using assms(2) by (auto simp: is_zero_polynomial_def length_Suc_conv)
  ultimately show ?thesis
    using normalize_trimmed[of "map uminus r"] assms(1) by (auto simp: proper_def trimmed_def)
qed

lemma sturm_loop_ok:
  assumes "f \<noteq> []" "proper g"
  obtains fs where "sturm_loop (xs @ [f, g]) = Inr (xs @ f # g # fs)"
    "remainder_chain (map rpoly (f # g # fs))" "\<forall>p \<in> set fs. proper p"
proof -
  have "\<exists>fs. sturm_loop (xs @ [f, g]) = Inr (xs @ f # g # fs) \<and>
    remainder_chain (map rpoly (f # g # fs)) \<and> (\<forall>p \<in> set fs. proper p)"
    using assms
  proof (induction "length g" arbitrary: f g xs rule: less_induct)
    case less
    obtain r c q where r: "polynomial_remainder f g = Inr r" "trimmed r" "0 < c" "poly_fun q"
      "\<And>x. c * rpoly f x = q x * rpoly g x + rpoly r x"
      using polynomial_remainder_ok[of f g] less.prems unfolding proper_def by blast
    have step: "sturm_loop (xs @ [f, g]) = (if is_zero_polynomial r then Inr (xs @ [f, g]) else
      sturm_loop ((xs @ [f]) @ [g, scaled_polynomial (map uminus r)]))"
      using r(1,2) by (subst sturm_loop.simps) (simp add: nth_append normalize_result trimmed_def)
    show ?case
    proof (cases "is_zero_polynomial r")
      case True
      then have "rpoly r x = 0" for x by (auto simp: is_zero_polynomial_def length_Suc_conv)
      then show ?thesis using True step r by (intro exI[of _ "[]"]) auto
    next
      case False
      let ?h = "scaled_polynomial (map uminus r)"
      have "length ?h < length g"
        using polynomial_remainder_short[OF r(1) False] normalize_length_le[of "map uminus r"] by simp
      then obtain fs where fs: "sturm_loop ((xs @ [f]) @ [g, ?h]) = Inr ((xs @ [f]) @ g # ?h # fs)"
        "remainder_chain (map rpoly (g # ?h # fs))" "\<forall>p \<in> set fs. proper p"
        using less.hyps[of ?h g "xs @ [f]"] less.prems trimmed_uminus_proper[OF r(2) False]
        by (auto simp: proper_def trimmed_def)
      obtain b where b: "0 < b" "\<And>x. rpoly ?h x = b * rpoly (map uminus r) x"
        using normalize_rpoly[of "map uminus r"] by blast
      have "c * rpoly f x = q x * rpoly g x - (1 / b) * rpoly ?h x" for x
        using r(5)[of x] b by (simp add: map_uminus_rpoly del: map_map)
      then have "remainder_chain (map rpoly (f # g # ?h # fs))"
        using fs(2) r(3,4) b(1) remainder_chain_step[of c "1 / b" q "rpoly f" "rpoly g" "rpoly ?h"]
        by simp
      then show ?thesis
        using fs step False trimmed_uminus_proper[OF r(2) False] by (intro exI[of _ "?h # fs"]) auto
    qed
  qed
  then show thesis using that by blast
qed

lemma sign_variations_sign:
  assumes "x \<noteq> 0"
  shows "sign_variations (x # ys) = sign_variations ((if 0 < x then 1 else - 1) # ys)"
proof (cases "filter (\<lambda>y. y \<noteq> 0) ys")
  case (Cons z zs)
  then have "z \<noteq> 0" by (auto dest: filter_eq_ConsD)
  then show ?thesis using assms Cons
    by (auto simp: sign_variations_def mult_less_0_iff)
qed (use assms in \<open>auto simp: sign_variations_def\<close>)

definition sign_prefix :: "bool option \<Rightarrow> real list" where
  "sign_prefix previous = (case previous of None \<Rightarrow> [] | Some s \<Rightarrow> [if s then 1 else - 1])"

lemma variation_fold:
  assumes "\<forall>p \<in> set sequence. p \<noteq> []"
  shows "\<exists>previous'. fold_result (variation_step a) sequence (previous, n) =
    Inr (previous', n + sign_variations (sign_prefix previous @ map (\<lambda>p. rpoly p (real_of_rat a)) sequence))"
  using assms
proof (induction sequence arbitrary: previous n)
  case Nil
  then show ?case by (auto simp: sign_prefix_def split: option.splits)
next
  case (Cons p sequence)
  let ?v = "pval p a" and ?vs = "map (\<lambda>p. rpoly p (real_of_rat a)) sequence"
  have p: "evaluate_real_polynomial_exact p a = Inr ?v" "rpoly p (real_of_rat a) = real_of_rat ?v"
    using Cons.prems by (simp_all add: real_exact_evaluation rpoly_of_rat)
  show ?case
  proof (cases "?v = 0")
    case True
    then have "sign_variations (sign_prefix previous @ real_of_rat ?v # ?vs) =
      sign_variations (sign_prefix previous @ ?vs)"
      by (auto simp: sign_prefix_def split: option.splits)
    then show ?thesis using Cons True p by simp
  next
    case False
    have "sign_variations (sign_prefix previous @ real_of_rat ?v # ?vs) =
      (case previous of None \<Rightarrow> 0 | Some s \<Rightarrow> if s \<noteq> (0 < ?v) then 1 else 0) +
      sign_variations (sign_prefix (Some (0 < ?v)) @ ?vs)"
      using False sign_variations_sign[of "real_of_rat ?v" ?vs]
      by (auto simp: sign_prefix_def split: option.splits)
    then show ?thesis
      using False p Cons.prems Cons.IH[of "Some (0 < ?v)" n] Cons.IH[of "Some (0 < ?v)" "Suc n"]
      by (simp add: Let_def split: option.splits)
  qed
qed

lemma sturm_variations_values:
  assumes "\<forall>p \<in> set sequence. p \<noteq> []"
  shows "sturm_variations sequence a = Inr (values_at (map rpoly sequence) (real_of_rat a))"
  using variation_fold[OF assms, of a None 0]
  by (auto simp: sturm_variations_def sign_prefix_def values_at_def o_def)

section \<open>The root count\<close>

definition real_roots_between :: "rat list \<Rightarrow> rat \<Rightarrow> rat \<Rightarrow> real set" where
  "real_roots_between p l u = {x. real_of_rat l < x \<and> x < real_of_rat u \<and> rpoly p x = 0}"

lemma derivative_last:
  assumes "2 \<le> length p"
  shows "length (derivative_coefficients p) = length p - 1"
    and "last (derivative_coefficients p) = last p * of_nat (length p - 1)"
proof -
  show len: "length (derivative_coefficients p) = length p - 1"
    by (simp add: derivative_coefficients_def)
  have ne: "derivative_coefficients p \<noteq> []" "p \<noteq> []" using assms len by auto
  have "derivative_coefficients p ! (length p - 2) = p ! (length p - 1) * of_nat (length p - 1)"
    using assms by (simp add: derivative_coefficients_def nth_tl nth_enumerate_eq Suc_diff_Suc numeral_2_eq_2)
  then show "last (derivative_coefficients p) = last p * of_nat (length p - 1)"
    using ne len by (simp add: last_conv_nth numeral_2_eq_2)
qed

lemma derivative_proper:
  assumes "trimmed p" "2 \<le> length p"
  shows "proper (scaled_polynomial (polynomial_derivative p))"
proof -
  let ?d = "derivative_coefficients p"
  have d: "polynomial_derivative p = ?d" "?d \<noteq> []"
    using assms(2) derivative_last(1)[OF assms(2)] by (auto simp: polynomial_derivative_def)
  have "last ?d \<noteq> 0"
    using assms derivative_last(2)[OF assms(2)] by (auto simp: trimmed_def)
  then have t: "trimmed ?d" "\<not> is_zero_polynomial ?d"
    using d by (auto simp: trimmed_def is_zero_polynomial_def length_Suc_conv)
  then have "proper (scaled_polynomial ?d)"
    using normalize_trimmed[OF d(2)] by (simp add: proper_def trim_idem)
  then show ?thesis by (simp add: d)
qed

text \<open>The sequence the counting loop builds, and what it says of the polynomial.\<close>

lemma sturm_sequence:
  assumes "trimmed p" "2 \<le> length p"
  obtains fs where
    "sturm_loop [p, scaled_polynomial (polynomial_derivative p)] =
       Inr (p # scaled_polynomial (polynomial_derivative p) # fs)"
    "\<And>a b. a < b \<Longrightarrow> rpoly p (real_of_rat a) \<noteq> 0 \<Longrightarrow> rpoly p (real_of_rat b) \<noteq> 0 \<Longrightarrow>
       \<exists>va vb. sturm_variations (p # scaled_polynomial (polynomial_derivative p) # fs) a = Inr va \<and>
         sturm_variations (p # scaled_polynomial (polynomial_derivative p) # fs) b = Inr vb \<and>
         finite (real_roots_between p a b) \<and> va = vb + card (real_roots_between p a b)"
    "length (last (scaled_polynomial (polynomial_derivative p) # fs)) = 1 \<Longrightarrow>
       \<forall>x. rpoly p x = 0 \<longrightarrow> rpoly (derivative_coefficients p) x \<noteq> 0"
proof -
  let ?g = "scaled_polynomial (polynomial_derivative p)"
  have g: "proper ?g" using derivative_proper[OF assms] .
  have p: "p \<noteq> []" using assms(2) by auto
  obtain fs where fs: "sturm_loop ([] @ [p, ?g]) = Inr ([] @ p # ?g # fs)"
    "remainder_chain (map rpoly (p # ?g # fs))" "\<forall>q \<in> set fs. proper q"
    using sturm_loop_ok[OF p g] by blast
  obtain k where k: "0 < k" "\<And>x. rpoly ?g x = k * rpoly (polynomial_derivative p) x"
    using normalize_rpoly[of "polynomial_derivative p"] by blast
  have deriv: "polynomial_derivative p = derivative_coefficients p"
    using assms(2) by (simp add: polynomial_derivative_def)
  have nonempty: "\<forall>q \<in> set (p # ?g # fs). q \<noteq> []"
    using p g fs(3) by (auto simp: proper_def trimmed_def)
  have count: "\<exists>va vb. sturm_variations (p # ?g # fs) a = Inr va \<and> sturm_variations (p # ?g # fs) b = Inr vb \<and>
      finite (real_roots_between p a b) \<and> va = vb + card (real_roots_between p a b)"
    if ab: "a < b" "rpoly p (real_of_rat a) \<noteq> 0" "rpoly p (real_of_rat b) \<noteq> 0" for a b
  proof -
    have "finite {z. real_of_rat a < z \<and> z < real_of_rat b \<and> rpoly p z = 0} \<and>
      values_at (rpoly p # rpoly ?g # map rpoly fs) (real_of_rat a) =
      values_at (rpoly p # rpoly ?g # map rpoly fs) (real_of_rat b) +
      card {z. real_of_rat a < z \<and> z < real_of_rat b \<and> rpoly p z = 0}"
      by (rule sturm_remainder_count[where f' = "rpoly (derivative_coefficients p)" and k = k])
        (use fs(2) k deriv ab DERIV_rpoly in \<open>auto simp: of_rat_less\<close>)
    then show ?thesis
      using sturm_variations_values[OF nonempty] by (simp add: real_roots_between_def)
  qed
  have simple: "\<forall>x. rpoly p x = 0 \<longrightarrow> rpoly (derivative_coefficients p) x \<noteq> 0"
    if const: "length (last (?g # fs)) = 1"
  proof (intro allI impI)
    fix x assume x: "rpoly p x = 0"
    obtain us where us: "\<And>z. chain_at us z"
      "quotients_of (map rpoly (p # ?g # fs)) (last (map rpoly (?g # fs))) us"
      using remainder_chain_divides[of "rpoly p" "rpoly ?g" "map rpoly fs"] fs(2) by auto
    then obtain r s vs where rs: "us = r # s # vs"
      "\<And>y. rpoly p y = r y * last (map rpoly (?g # fs)) y"
      "\<And>y. rpoly ?g y = s y * last (map rpoly (?g # fs)) y"
      by (auto simp: quotients_of_def list_all2_Cons1)
    have "proper (last (?g # fs))" using g fs(3) last_in_set[of "?g # fs"] by auto
    then obtain c where c: "last (?g # fs) = [c]" "c \<noteq> 0"
      using const by (auto simp: proper_def is_zero_polynomial_def length_Suc_conv)
    have last: "last (map rpoly (?g # fs)) y = real_of_rat c" for y
      using c(1) by (simp add: last_map split: if_splits)
    have "r x = 0" using x rs(2) last c(2) by simp
    then have "s x \<noteq> 0" using us(1)[of x] rs(1) by (cases vs) auto
    then have "rpoly ?g x \<noteq> 0" using rs(3) last c(2) by simp
    then show "rpoly (derivative_coefficients p) x \<noteq> 0" using k(2) deriv by auto
  qed
  show thesis using that[of fs] fs(1) count simple by simp
qed

lemma sturm_count_ok:
  assumes "2 \<le> length (trim_polynomial cs)" "l < u" "pval cs l \<noteq> 0" "pval cs u \<noteq> 0"
  obtains res where "exact_sturm_root_count cs l u = Inr res"
    "finite (real_roots_between cs l u)"
    "distinct_real_roots res = card (real_roots_between cs l u)"
    "square_free res \<Longrightarrow> \<forall>x. rpoly cs x = 0 \<longrightarrow> rpoly (derivative_coefficients cs) x \<noteq> 0"
proof -
  let ?p = "scaled_polynomial cs"
  have ne: "2 \<le> length cs" "cs \<noteq> []" using assms(1) trim_length[of cs] by auto
  have len: "2 \<le> length ?p" using assms(1) by (simp add: normalize_length)
  have t: "trimmed ?p" using normalize_trimmed[OF ne(2)] .
  obtain c where c: "0 < c" "\<And>x. rpoly ?p x = c * rpoly cs x" using normalize_rpoly[of cs] by blast
  have roots: "real_roots_between ?p a b = real_roots_between cs a b" for a b
    using c by (simp add: real_roots_between_def)
  have zero_iff: "pval ?p q = 0 \<longleftrightarrow> pval cs q = 0" for q
    using c(2)[of "real_of_rat q"] c(1) unfolding rpoly_of_rat
    by (metis less_irrefl mult_eq_0_iff of_rat_eq_0_iff)
  have eval: "evaluate_real_polynomial_exact ?p q = Inr (pval ?p q)" for q
    using t by (intro real_exact_evaluation) (simp add: trimmed_def)
  obtain fs where fs: "sturm_loop [?p, scaled_polynomial (polynomial_derivative ?p)] =
       Inr (?p # scaled_polynomial (polynomial_derivative ?p) # fs)"
    and v: "\<exists>va vb. sturm_variations (?p # scaled_polynomial (polynomial_derivative ?p) # fs) l = Inr va \<and>
         sturm_variations (?p # scaled_polynomial (polynomial_derivative ?p) # fs) u = Inr vb \<and>
         finite (real_roots_between ?p l u) \<and> va = vb + card (real_roots_between ?p l u)"
    and simple: "length (last (scaled_polynomial (polynomial_derivative ?p) # fs)) = 1 \<Longrightarrow>
       \<forall>x. rpoly ?p x = 0 \<longrightarrow> rpoly (derivative_coefficients ?p) x \<noteq> 0"
    using sturm_sequence[OF t len] assms(2-4) zero_iff by (simp add: rpoly_of_rat) metis
  have deriv: "rpoly (derivative_coefficients ?p) x = c * rpoly (derivative_coefficients cs) x" for x
  proof -
    have "rpoly ?p = (\<lambda>x. c * rpoly cs x)" using c(2) by (simp add: fun_eq_iff)
    moreover have "DERIV (\<lambda>x. c * rpoly cs x) x :> c * rpoly (derivative_coefficients cs) x"
      by (intro DERIV_cmult DERIV_rpoly)
    ultimately show ?thesis using DERIV_rpoly[of ?p x] DERIV_unique by metis
  qed
  have derivative: "polynomial_derivative ?p \<noteq> []"
    using len derivative_last(1)[OF len] by (auto simp: polynomial_derivative_def)
  obtain va vb where
    vv: "sturm_variations (?p # scaled_polynomial (polynomial_derivative ?p) # fs) l = Inr va"
      "sturm_variations (?p # scaled_polynomial (polynomial_derivative ?p) # fs) u = Inr vb"
      "finite (real_roots_between cs l u)" "va = vb + card (real_roots_between cs l u)"
    using v roots by auto
  show thesis
  proof (rule that)
    show "exact_sturm_root_count cs l u =
      Inr \<lparr>sturm_lower = l, sturm_upper = u, distinct_real_roots = va - vb,
           variations_at_lower = va, variations_at_upper = vb,
           square_free = (length (last (scaled_polynomial (polynomial_derivative ?p) # fs)) = 1),
           sequence_length = length (?p # scaled_polynomial (polynomial_derivative ?p) # fs)\<rparr>"
      using ne len assms eval zero_iff fs vv derivative
      by (simp add: exact_sturm_root_count_def normalize_result)
  qed (use vv simple c deriv in auto)
qed

lemma sturm_count_errors:
  assumes "\<not> (2 \<le> length (trim_polynomial cs) \<and> l < u \<and> pval cs l \<noteq> 0 \<and> pval cs u \<noteq> 0)"
  obtains e where "exact_sturm_root_count cs l u = Inl (Raised e)"
proof (cases "length cs < 2 \<or> u \<le> l \<or> length (trim_polynomial cs) < 2")
  case True
  then have "\<exists>e. exact_sturm_root_count cs l u = Inl (Raised e)"
    by (auto simp: exact_sturm_root_count_def normalize_result normalize_length)
  then show ?thesis using that by blast
next
  case False
  let ?p = "scaled_polynomial cs"
  have "trimmed ?p" using False by (intro normalize_trimmed) auto
  then have eval: "evaluate_real_polynomial_exact ?p q = Inr (pval ?p q)" for q
    by (intro real_exact_evaluation) (simp add: trimmed_def)
  obtain c where c: "0 < c" "\<And>x. rpoly ?p x = c * rpoly cs x" using normalize_rpoly[of cs] by blast
  have "pval ?p q = 0 \<longleftrightarrow> pval cs q = 0" for q
    using c(2)[of "real_of_rat q"] c(1) unfolding rpoly_of_rat
    by (metis less_irrefl mult_eq_0_iff of_rat_eq_0_iff)
  moreover have "normalize_polynomial_positive cs = Inr ?p" using False by (auto simp: normalize_result)
  ultimately have "\<exists>e. exact_sturm_root_count cs l u = Inl (Raised e)"
    using False assms by (cases "pval cs l = 0") (simp_all add: exact_sturm_root_count_def normalize_length eval)
  then show ?thesis using that by blast
qed

lemma sturm_count_Inr:
  assumes "exact_sturm_root_count cs l u = Inr res"
  shows "2 \<le> length (trim_polynomial cs)" "l < u" "pval cs l \<noteq> 0" "pval cs u \<noteq> 0"
    "finite (real_roots_between cs l u)"
    "distinct_real_roots res = card (real_roots_between cs l u)"
    "square_free res \<Longrightarrow> \<forall>x. rpoly cs x = 0 \<longrightarrow> rpoly (derivative_coefficients cs) x \<noteq> 0"
proof -
  have c: "2 \<le> length (trim_polynomial cs)" "l < u" "pval cs l \<noteq> 0" "pval cs u \<noteq> 0"
    using assms sturm_count_errors[of cs l u] by fastforce+
  then show "2 \<le> length (trim_polynomial cs)" "l < u" "pval cs l \<noteq> 0" "pval cs u \<noteq> 0" .
  show "finite (real_roots_between cs l u)" "distinct_real_roots res = card (real_roots_between cs l u)"
    "square_free res \<Longrightarrow> \<forall>x. rpoly cs x = 0 \<longrightarrow> rpoly (derivative_coefficients cs) x \<noteq> 0"
    using sturm_count_ok[OF c] assms by (metis Inr_inject)+
qed

section \<open>Properties\<close>

text \<open>C8. Exact Sturm counting is a decision procedure: \<open>exact_sturm_root_count\<close> never panics; it returns a
  count exactly when the polynomial is not constant, \<open>l < u\<close> and neither end point is a root; and
  then the reported number is the number of distinct real roots in the open interval, whatever their
  multiplicities, while a set \<open>square_free\<close> flag means that every real root is simple.\<close>

theorem exact_sturm_root_count_correct:
  "\<not> panics (exact_sturm_root_count cs l u) \<and>
   (is_ok (exact_sturm_root_count cs l u) \<longleftrightarrow>
      2 \<le> length (trim_polynomial cs) \<and> l < u \<and> pval cs l \<noteq> 0 \<and> pval cs u \<noteq> 0) \<and>
   (\<forall>res. exact_sturm_root_count cs l u = Inr res \<longrightarrow>
      finite (real_roots_between cs l u) \<and>
      distinct_real_roots res = card (real_roots_between cs l u) \<and>
      (square_free res \<longrightarrow> (\<forall>x. rpoly cs x = 0 \<longrightarrow> rpoly (derivative_coefficients cs) x \<noteq> 0)))"
proof (cases "2 \<le> length (trim_polynomial cs) \<and> l < u \<and> pval cs l \<noteq> 0 \<and> pval cs u \<noteq> 0")
  case True
  then obtain res where "exact_sturm_root_count cs l u = Inr res" using sturm_count_ok[of cs l u] by metis
  then show ?thesis using True sturm_count_Inr[of cs l u res] by auto
next
  case False
  then obtain e where "exact_sturm_root_count cs l u = Inl (Raised e)" using sturm_count_errors by blast
  then show ?thesis using False by auto
qed

theorem exact_sturm_root_count_correct_witness:
  "\<exists>res. exact_sturm_root_count [0, -1, 0, 1] (-3) 3 = Inr res \<and>
     distinct_real_roots res = card {x. -3 < x \<and> x < 3 \<and> x ^ 3 = (x :: real)}"
proof -
  have "trim_polynomial [0, -1, 0, 1] = [0, -1, 0, 1]" by (simp add: trim_polynomial.simps)
  then have "is_ok (exact_sturm_root_count [0, -1, 0, 1] (-3) 3)"
    using exact_sturm_root_count_correct[of "[0, -1, 0, 1]" "-3" 3] by simp
  then obtain res where res: "exact_sturm_root_count [0, -1, 0, 1] (-3) 3 = Inr res"
    by (auto simp: is_ok_iff)
  have "real_roots_between [0, -1, 0, 1] (-3) 3 = {x. -3 < x \<and> x < 3 \<and> x ^ 3 = (x :: real)}"
    by (auto simp: real_roots_between_def power3_eq_cube algebra_simps of_rat_minus)
  then show ?thesis
    using exact_sturm_root_count_correct[of "[0, -1, 0, 1]" "-3" 3] res by auto
qed

end
