(* ===== verification/Sturm_Isolation.thy ===== *)
theory Sturm_Isolation
  imports Exact_Sturm
begin

text \<open>
  Root isolation of \<open>crates/xc-numerics/src/interval.rs\<close>: \<open>polynomial_square_free_part\<close> and
  \<open>exact_sturm_isolate_roots\<close>. The pending stack of the isolation has its top at the head of the
  list. The lemmas show that the gcd loop and the exact division return (their panic and error branches
  are unreachable), that the square-free part has the same real roots as the polynomial, and that the
  returned intervals are sorted, narrow enough, have disjoint interiors and contain every
  root exactly once.
\<close>

section \<open>Square-free part\<close>

function gcd_loop :: "rat list \<Rightarrow> rat list \<Rightarrow> IntervalError fault + rat list" where
  "gcd_loop first second =
     (if \<not> is_zero_polynomial second
      then bind_result (polynomial_remainder first second) (\<lambda>remainder. gcd_loop second remainder)
      else Inr first)"
  by auto
termination
proof (relation "measure (\<lambda>(f, s). if is_zero_polynomial s then 0 else Suc (length s))"; clarsimp)
  fix first second r
  assume "\<not> is_zero_polynomial second" "polynomial_remainder first second = Inr r" "\<not> is_zero_polynomial r"
  then show "length r < length second" by (intro polynomial_remainder_short)
qed

declare gcd_loop.simps [simp del]

function exact_division_loop ::
  "rat list \<Rightarrow> rat list \<Rightarrow> rat list \<Rightarrow> IntervalError fault + rat list \<times> rat list" where
  "exact_division_loop divisor quo remainder =
     (if \<not> is_zero_polynomial remainder \<and> length remainder \<ge> length divisor then
        if remainder = [] \<or> divisor = [] then Inl (Panicked ''unwrap on None'')
        else if last divisor = 0 then Inl (Panicked ''division by zero'')
        else
          let shift = length remainder - length divisor;
              factor = last remainder / last divisor
          in if length quo \<le> shift then Inl (Panicked ''index out of bounds'')
             else
               bind_result (subtract_shifted remainder divisor shift factor) (\<lambda>difference.
               exact_division_loop divisor (quo[shift := quo ! shift + factor]) (trim_polynomial difference))
      else Inr (quo, remainder))"
  by auto
termination
  by (relation "measure (\<lambda>(d, q, r). division_size r)") 
    (auto dest!: subtract_shifted_Inr intro: division_step_decreases(1))

declare exact_division_loop.simps [simp del]

definition polynomial_square_free_part :: "rat list \<Rightarrow> IntervalError fault + rat list" where
  "polynomial_square_free_part coefficients =
     (let original = trim_polynomial coefficients in
      bind_result (gcd_loop original (polynomial_derivative original)) (\<lambda>first.
      bind_result (normalize_polynomial_positive first) (\<lambda>divisor.
      if length original < length divisor then Inl (Panicked ''attempt to subtract with overflow'')
      else
      bind_result
        (exact_division_loop divisor (replicate (length original - length divisor + 1) 0) original)
        (\<lambda>(quo, remainder).
      if \<exists>x \<in> set remainder. x \<noteq> 0
      then Inl (Raised (Invalid ''polynomial gcd division was not exact''))
      else normalize_polynomial_positive quo))))"

section \<open>Isolation\<close>

type_synonym pending_interval = "rat \<times> rat \<times> nat \<times> nat"

fun choose_split :: "rat list \<Rightarrow> rat \<Rightarrow> rat \<Rightarrow> nat list \<Rightarrow> IntervalError + rat option" where
  "choose_split coefficients left width [] = Inr None"
| "choose_split coefficients left width (denominator # denominators) =
     (let candidate = left + width / of_nat denominator
      in bind_result (evaluate_real_polynomial_exact coefficients candidate) (\<lambda>value.
           if value \<noteq> 0 then Inr (Some candidate)
           else choose_split coefficients left width denominators))"

definition split_denominators :: "nat list" where
  "split_denominators = [2..<20]"

definition depth_message :: "nat \<Rightarrow> nat \<Rightarrow> string" where
  "depth_message maximum_depth count =
     ''Sturm isolation reached depth '' @ show_nat maximum_depth @ '' with '' @ show_nat count @
     '' unresolved roots''"

function isolate_loop ::
  "rat list \<Rightarrow> rat \<Rightarrow> nat \<Rightarrow> pending_interval list \<Rightarrow> RationalInterval list \<Rightarrow>
     IntervalError fault + RationalInterval list" where
  "isolate_loop coefficients target_width maximum_depth [] isolated = Inr isolated"
| "isolate_loop coefficients target_width maximum_depth ((left, right, count, depth) # pending) isolated =
     (if count = 0 then isolate_loop coefficients target_width maximum_depth pending isolated
      else
        let width = right - left in
        if count = 1 \<and> width \<le> target_width
        then bind_result (map_err Raised (ri_new left right)) (\<lambda>interval.
          isolate_loop coefficients target_width maximum_depth pending (isolated @ [interval]))
        else if depth \<ge> maximum_depth
        then Inl (Raised (Inconclusive (depth_message maximum_depth count)))
        else
        bind_result (map_err Raised (choose_split coefficients left width split_denominators)) (\<lambda>choice.
        case choice of
          None \<Rightarrow> Inl (Raised (Inconclusive
            ''could not choose a non-root rational Sturm subdivision point''))
        | Some split \<Rightarrow>
            bind_result (exact_sturm_root_count coefficients left split) (\<lambda>left_result.
            bind_result (exact_sturm_root_count coefficients split right) (\<lambda>right_result.
            let left_count = distinct_real_roots left_result;
                right_count = distinct_real_roots right_result
            in if left_count + right_count \<noteq> count
               then Inl (Raised (Invalid ''Sturm subdivision count did not conserve the parent count''))
               else isolate_loop coefficients target_width maximum_depth
                 ((left, split, left_count, depth + 1) # (split, right, right_count, depth + 1) # pending)
                 isolated))))"
  by pat_completeness auto
termination
proof (relation "measure (\<lambda>(cs, w, m, pending, isolated).
    sum_list (map (\<lambda>(l, r, c, d). 3 ^ (Suc m - d)) pending))"; clarsimp)
  fix m d :: nat
  assume "\<not> m \<le> d"
  then have "(3 :: nat) ^ (Suc m - d) = 3 * 3 ^ (m - d)" by (simp add: Suc_diff_le)
  then show "(3 :: nat) ^ (m - d) + 3 ^ (m - d) < 3 ^ (Suc m - d)" by simp
qed

declare isolate_loop.simps(2) [simp del]

definition exact_sturm_isolate_roots ::
  "rat list \<Rightarrow> rat \<Rightarrow> rat \<Rightarrow> rat \<Rightarrow> nat \<Rightarrow> IntervalError fault + RationalInterval list" where
  "exact_sturm_isolate_roots coefficients_ascending l u target_width maximum_depth =
     (if target_width \<le> 0 \<or> maximum_depth = 0
      then Inl (Raised (Invalid
        ''Sturm isolation requires positive target width and subdivision depth''))
      else
        bind_result (exact_sturm_root_count coefficients_ascending l u) (\<lambda>initial.
        bind_result (if square_free initial then Inr coefficients_ascending
                     else polynomial_square_free_part coefficients_ascending) (\<lambda>coefficients.
        bind_result (isolate_loop coefficients target_width maximum_depth
                       [(l, u, distinct_real_roots initial, 0)] []) (\<lambda>isolated.
        Inr (sort_key lower isolated)))))"

section \<open>Correctness of the square-free part\<close>

lemma gcd_loop_ok:
  assumes "proper f" "trimmed s" "length s \<le> length f"
  obtains g a b where "gcd_loop f s = Inr g" "proper g" "length g \<le> length f"
    "\<not> is_zero_polynomial s \<Longrightarrow> length g \<le> length s" "poly_fun a" "poly_fun b"
    "\<And>x. rpoly f x = a x * rpoly g x" "\<And>x. rpoly s x = b x * rpoly g x"
proof -
  have "\<exists>g a b. gcd_loop f s = Inr g \<and> proper g \<and> length g \<le> length f \<and>
    (\<not> is_zero_polynomial s \<longrightarrow> length g \<le> length s) \<and> poly_fun a \<and> poly_fun b \<and>
    (\<forall>x. rpoly f x = a x * rpoly g x) \<and> (\<forall>x. rpoly s x = b x * rpoly g x)"
    using assms
  proof (induction f s rule: gcd_loop.induct)
    case (1 f s)
    show ?case
    proof (cases "is_zero_polynomial s")
      case True
      then have "gcd_loop f s = Inr f" by (subst gcd_loop.simps) simp
      moreover have "rpoly s x = 0" for x using True by (auto simp: is_zero_polynomial_def length_Suc_conv)
      ultimately show ?thesis using 1(2) True
        by - (rule exI[of _ f], rule exI[of _ "\<lambda>x. 1"], rule exI[of _ "\<lambda>x. 0"], auto)
    next
      case False
      have s: "proper s" "f \<noteq> []" using 1 False by (auto simp: proper_def trimmed_def)
      obtain r c q where r: "polynomial_remainder f s = Inr r" "trimmed r" "0 < c" "poly_fun q"
        "\<And>x. c * rpoly f x = q x * rpoly s x + rpoly r x"
        using polynomial_remainder_ok[of f s] s unfolding proper_def by blast
      have "length r \<le> length s"
      proof (cases "is_zero_polynomial r")
        case True
        then show ?thesis using s(1) by (cases s) (auto simp: is_zero_polynomial_def proper_def trimmed_def)
      qed (use polynomial_remainder_short[OF r(1)] in auto)
      then obtain g a b where g: "gcd_loop s r = Inr g" "proper g" "length g \<le> length s" "poly_fun a" "poly_fun b"
        "\<And>x. rpoly s x = a x * rpoly g x" "\<And>x. rpoly r x = b x * rpoly g x"
        using 1(1)[OF False r(1) s(1) r(2)] by blast
      have "rpoly f x = (q x * a x + b x) / c * rpoly g x" for x
        using r(3) r(5)[of x] g(6,7)[of x] by (simp add: field_simps)
      moreover have "poly_fun (\<lambda>x. (q x * a x + b x) / c)"
        using g(4,5) r(4) by (intro poly_fun_divide poly_fun_add poly_fun_mult)
      moreover have "gcd_loop f s = Inr g" using False r(1) g(1) by (subst gcd_loop.simps) simp
      ultimately show ?thesis using g 1(4)
        by - (rule exI[of _ g], rule exI[of _ "\<lambda>x. (q x * a x + b x) / c"], rule exI[of _ a], auto)
    qed
  qed
  then show thesis using that by blast
qed

lemma update_rpoly:
  "k < length q \<Longrightarrow> rpoly (q[k := q ! k + f]) x = rpoly q x + real_of_rat f * x ^ k"
proof (induction q arbitrary: k)
  case (Cons c q)
  then show ?case by (cases k) (simp_all add: of_rat_add algebra_simps)
qed simp

lemma exact_division_ok:
  assumes "proper d" "trimmed r" "length r - length d < length q"
  obtains q' r' where "exact_division_loop d q r = Inr (q', r')" "trimmed r'" "length q' = length q"
    "is_zero_polynomial r' \<or> length r' < length d"
    "\<And>x. rpoly q x * rpoly d x + rpoly r x = rpoly q' x * rpoly d x + rpoly r' x"
proof -
  have "\<exists>q' r'. exact_division_loop d q r = Inr (q', r') \<and> trimmed r' \<and> length q' = length q \<and>
    (is_zero_polynomial r' \<or> length r' < length d) \<and>
    (\<forall>x. rpoly q x * rpoly d x + rpoly r x = rpoly q' x * rpoly d x + rpoly r' x)"
    using assms
  proof (induction d q r rule: exact_division_loop.induct)
    case (1 d q r)
    show ?case
    proof (cases "\<not> is_zero_polynomial r \<and> length d \<le> length r")
      case False
      then have "exact_division_loop d q r = Inr (q, r)" by (subst exact_division_loop.simps) auto
      then show ?thesis using False 1(3) by auto
    next
      case True
      let ?k = "length r - length d" and ?f = "last r / last d"
      let ?s = "shifted_difference r d ?k ?f"
      have ne: "\<not> (r = [] \<or> d = [])" "last d \<noteq> 0"
        using 1(2,3) trimmed_last[of d] by (auto simp: trimmed_def proper_def)
      have k: "\<not> length q \<le> ?k" using 1(4) by simp
      have step: "subtract_shifted r d ?k ?f = Inr ?s" using subtract_shifted_ok[of ?k d r ?f] True by simp
      have loop: "exact_division_loop d q r = exact_division_loop d (q[?k := q ! ?k + ?f]) (trim_polynomial ?s)"
        using True ne k step by (subst exact_division_loop.simps) (simp add: Let_def)
      have s: "?s \<noteq> []" using ne(1) by (metis length_0_conv shifted_difference_length)
      have "length (trim_polynomial ?s) - length d < length (q[?k := q ! ?k + ?f])"
        using 1(4) trim_length[of ?s] by simp
      then obtain q' r' where IH: "exact_division_loop d (q[?k := q ! ?k + ?f]) (trim_polynomial ?s) = Inr (q', r')"
        "trimmed r'" "length q' = length (q[?k := q ! ?k + ?f])" "is_zero_polynomial r' \<or> length r' < length d"
        "\<And>x. rpoly (q[?k := q ! ?k + ?f]) x * rpoly d x + rpoly (trim_polynomial ?s) x =
          rpoly q' x * rpoly d x + rpoly r' x"
        using 1(1)[OF True ne refl refl k step 1(2) trim_trimmed[OF s]] by blast
      have "rpoly q x * rpoly d x + rpoly r x = rpoly q' x * rpoly d x + rpoly r' x" for x
        using IH(5)[of x] shifted_difference_rpoly[of ?k d r ?f x] True k update_rpoly[of ?k q ?f x]
        by (simp add: algebra_simps)
      then show ?thesis using loop IH by auto
    qed
  qed
  then show thesis using that by blast
qed

definition coeff_at :: "real list \<Rightarrow> nat \<Rightarrow> real" where
  "coeff_at cs i = (if i < length cs then cs ! i else 0)"

lemma pval_coeff_at:
  assumes "length cs \<le> Suc n"
  shows "pval cs x = (\<Sum>i \<le> n. coeff_at cs i * x ^ i)"
  unfolding pval_sum using assms
  by (intro sum.mono_neutral_cong_left) (auto simp: coeff_at_def)

lemma equal_functions_coeffs:
  assumes "\<And>x. pval as x = pval bs (x :: real)"
  shows "coeff_at as i = coeff_at bs i"
proof -
  let ?n = "max i (max (length as) (length bs))"
  have "\<forall>x. (\<Sum>i \<le> ?n. coeff_at as i * x ^ i) = (\<Sum>i \<le> ?n. coeff_at bs i * x ^ i)"
    using assms pval_coeff_at[of as ?n] pval_coeff_at[of bs ?n] by simp
  then show ?thesis unfolding polyfun_eq_coeffs by simp
qed

lemma pval_strip:
  obtains bs where "\<And>x :: real. pval bs x = pval as x" "bs \<noteq> [] \<Longrightarrow> last bs \<noteq> 0"
proof -
  have "\<exists>bs. (\<forall>x :: real. pval bs x = pval as x) \<and> (bs \<noteq> [] \<longrightarrow> last bs \<noteq> 0)"
  proof (induction as rule: rev_induct)
    case (snoc a as)
    show ?case
    proof (cases "a = 0")
      case True
      then show ?thesis using snoc by (simp add: pval_append)
    qed (intro exI[of _ "as @ [a]"], simp)
  qed (auto intro: exI[of _ "[]"])
  then show thesis using that by blast
qed

lemma product_top_coefficient:
  assumes "as \<noteq> []" "ds \<noteq> []" "\<And>x :: real. pval rs x = pval as x * pval ds x"
  shows "coeff_at rs (length as - 1 + (length ds - 1)) = last as * last ds"
proof -
  let ?m = "length as - 1" and ?n = "length ds - 1"
  let ?c = "\<lambda>r. \<Sum>k \<le> r. coeff_at as k * coeff_at ds (r - k)"
  let ?N = "max (?m + ?n) (length rs)"
  have "(\<Sum>i \<le> ?N. coeff_at rs i * x ^ i) = (\<Sum>i \<le> ?N. (if i \<le> ?m + ?n then ?c i else 0) * x ^ i)" for x
  proof -
    have "(\<Sum>i \<le> ?N. coeff_at rs i * x ^ i) = (\<Sum>i \<le> ?m. coeff_at as i * x ^ i) * (\<Sum>j \<le> ?n. coeff_at ds j * x ^ j)"
      using assms pval_coeff_at[of rs ?N x] pval_coeff_at[of as ?m x] pval_coeff_at[of ds ?n x] by simp
    also have "\<dots> = (\<Sum>r \<le> ?m + ?n. ?c r * x ^ r)"
      by (rule polynomial_product) (auto simp: coeff_at_def)
    also have "\<dots> = (\<Sum>i \<le> ?N. (if i \<le> ?m + ?n then ?c i else 0) * x ^ i)"
      by (intro sum.mono_neutral_cong_left) auto
    finally show ?thesis .
  qed
  then have "\<forall>i \<le> ?N. coeff_at rs i = (if i \<le> ?m + ?n then ?c i else 0)"
    by (intro iffD1[OF polyfun_eq_coeffs]) blast
  then have "coeff_at rs (?m + ?n) = ?c (?m + ?n)" by simp
  also have "\<dots> = coeff_at as ?m * coeff_at ds ?n"
  proof -
    have "k = ?m \<or> coeff_at as k * coeff_at ds (?m + ?n - k) = 0" for k
      by (cases "k < ?m") (auto simp: coeff_at_def)
    then have "?c (?m + ?n) = (\<Sum>k \<in> {?m}. coeff_at as k * coeff_at ds (?m + ?n - k))"
      by (intro sum.mono_neutral_right) auto
    then show ?thesis by simp
  qed
  also have "\<dots> = last as * last ds" using assms by (simp add: coeff_at_def last_conv_nth)
  finally show ?thesis .
qed

lemma small_multiple_zero:
  assumes "ds \<noteq> []" "last ds \<noteq> 0" "length rs < length ds" "poly_fun A"
    "\<And>x. pval rs x = A x * pval ds x"
  shows "pval rs x = 0"
proof -
  obtain as0 where "A = pval as0" using assms(4) by (auto simp: poly_fun_def)
  then obtain as where as: "\<And>x. pval as x = A x" "as \<noteq> [] \<Longrightarrow> last as \<noteq> 0"
    using pval_strip[of as0] by metis
  have "as = []"
  proof (rule ccontr)
    assume ne: "as \<noteq> []"
    then have "coeff_at rs (length as - 1 + (length ds - 1)) = last as * last ds"
      using assms as(1) by (intro product_top_coefficient) auto
    moreover have "coeff_at rs (length as - 1 + (length ds - 1)) = 0"
    proof -
      have "\<not> length as - 1 + (length ds - 1) < length rs" using assms(3) by arith
      then show ?thesis unfolding coeff_at_def by (rule if_not_P)
    qed
    ultimately show False using as(2)[OF ne] assms(2) by simp
  qed
  then show ?thesis using as(1)[of x] assms(5)[of x] by simp
qed

lemma trimmed_function_zero:
  assumes "trimmed r" "\<And>x. rpoly r x = 0"
  shows "is_zero_polynomial r"
proof -
  have zero: "r ! i = 0" if "i < length r" for i
    using equal_functions_coeffs[of "map real_of_rat r" "[]" i] assms(2) that by (simp add: coeff_at_def)
  have "last r = 0" using assms(1) zero[of "length r - 1"] by (simp add: trimmed_def last_conv_nth)
  then show ?thesis using trimmed_last[OF assms(1)] by blast
qed

lemma zero_polynomial_members: "is_zero_polynomial r \<Longrightarrow> \<not> (\<exists>x \<in> set r. x \<noteq> 0)"
  by (auto simp: is_zero_polynomial_def length_Suc_conv)

lemma map_times_rpoly: "rpoly (map ((*) k) p) x = real_of_rat k * rpoly p x"
  by (induction p) (simp_all add: of_rat_mult algebra_simps)

lemma square_free_part_ok:
  assumes "2 \<le> length (trim_polynomial cs)"
  obtains s where "polynomial_square_free_part cs = Inr s" "2 \<le> length (trim_polynomial s)"
    "\<And>x. rpoly s x = 0 \<longleftrightarrow> rpoly cs x = 0"
proof -
  let ?p = "trim_polynomial cs"
  have p: "trimmed ?p" using assms trim_length[of cs] by (intro trim_trimmed) auto
  then have pp: "proper ?p" using assms by (auto simp: proper_def is_zero_polynomial_def)
  have last_p: "last ?p \<noteq> 0" using trimmed_last pp proper_def by blast
  let ?d = "derivative_coefficients ?p"
  have d: "polynomial_derivative ?p = ?d" "length ?d = length ?p - 1" "last ?d \<noteq> 0"
    using assms derivative_last[of ?p] last_p by (auto simp: polynomial_derivative_def)
  then have td: "trimmed ?d" "\<not> is_zero_polynomial ?d"
    using assms by (auto simp: trimmed_def is_zero_polynomial_def length_Suc_conv)
  obtain g a b where g: "gcd_loop ?p ?d = Inr g" "proper g" "length g \<le> length ?d" "poly_fun a" "poly_fun b"
    "\<And>x. rpoly ?p x = a x * rpoly g x" "\<And>x. rpoly ?d x = b x * rpoly g x"
    using gcd_loop_ok[OF pp td(1)] d(2) td(2) by (metis diff_le_self)
  let ?n = "scaled_polynomial g"
  have tg: "trim_polynomial g = g" "g \<noteq> []" using g(2) trim_idem by (auto simp: proper_def trimmed_def)
  have n: "proper ?n" "length ?n < length ?p"
    using g(2,3) d(2) tg assms normalize_trimmed[OF tg(2)]
    by (auto simp: proper_def normalize_length)
  obtain c where c: "0 < c" "\<And>x. rpoly ?n x = c * rpoly g x" using normalize_rpoly[of g] by blast
  let ?q0 = "replicate (length ?p - length ?n + 1) (0 :: rat)"
  obtain q r where q: "exact_division_loop ?n ?q0 ?p = Inr (q, r)" "trimmed r" "length q = length ?q0"
    "is_zero_polynomial r \<or> length r < length ?n"
    "\<And>x. rpoly ?q0 x * rpoly ?n x + rpoly ?p x = rpoly q x * rpoly ?n x + rpoly r x"
    using exact_division_ok[OF n(1) p, of ?q0] by auto
  have "pval (replicate k (0 :: real)) x = 0" for k x by (induction k) auto
  then have q0: "rpoly ?q0 x = 0" for x by (simp only: map_replicate of_rat_0)
  have div: "rpoly ?p x = rpoly q x * rpoly ?n x + rpoly r x" for x
    using q(5)[of x] unfolding q0 by simp
  have rA: "rpoly r x = (1 / c * a x - rpoly q x) * rpoly ?n x" for x
  proof -
    have "1 / c * a x * rpoly ?n x = rpoly ?p x" using c g(6)[of x] by simp
    then show ?thesis using div[of x] by (simp add: left_diff_distrib)
  qed
  have "is_zero_polynomial r"
  proof (rule ccontr)
    assume nz: "\<not> is_zero_polynomial r"
    have "rpoly r x = 0" for x
      by (rule small_multiple_zero[of "map real_of_rat ?n" _ "\<lambda>x. 1 / c * a x - rpoly q x"])
        (use q(4) nz n(1) g(4) rA trimmed_last[of ?n] in \<open>auto simp: proper_def trimmed_def last_map\<close>)
    then show False using nz trimmed_function_zero[OF q(2)] by blast
  qed
  then have rz: "rpoly r x = 0" "\<not> (\<exists>y \<in> set r. y \<noteq> 0)" for x
    using zero_polynomial_members by (auto simp: is_zero_polynomial_def length_Suc_conv)
  have factor: "rpoly ?p x = (c * rpoly q x) * rpoly g x" for x
    using div[of x] rz(1) c(2)[of x] by simp
  obtain e where e: "0 < e" "\<And>x. rpoly (scaled_polynomial q) x = e * rpoly q x"
    using normalize_rpoly[of q] by blast
  obtain w where w: "rpoly ?p w \<noteq> 0" using trimmed_function_zero[OF p] pp by (auto simp: proper_def)
  have roots: "rpoly q z = 0 \<longleftrightarrow> rpoly ?p z = 0" for z
  proof
    assume "rpoly ?p z = 0"
    then have "c * rpoly q z = 0"
      using cofactor_vanishes[of "rpoly ?p" "\<lambda>x. c * rpoly q x" b "rpoly g" "rpoly ?d" z w] g(5,7) factor w
        DERIV_rpoly[of ?p] poly_fun_scale by blast
    then show "rpoly q z = 0" using c(1) by simp
  qed (use factor[of z] in simp)
  have "2 \<le> length (trim_polynomial q)"
  proof (rule ccontr)
    assume short: "\<not> 2 \<le> length (trim_polynomial q)"
    have "trimmed (trim_polynomial q)" using q(3) by (intro trim_trimmed) auto
    then obtain k where k: "trim_polynomial q = [k]" using short
      by (cases "trim_polynomial q") (auto simp: trimmed_def less_Suc_eq_0_disj not_le length_Suc_conv numeral_2_eq_2)
    have "rpoly ?p x = rpoly (map ((*) k) ?n) x" for x
    proof -
      have "rpoly (map ((*) k) ?n) x = real_of_rat k * rpoly ?n x" by (rule map_times_rpoly)
      moreover have "rpoly q x = real_of_rat k" using trim_rpoly[of q x] k by simp
      ultimately show ?thesis using factor[of x] c(2)[of x] by simp
    qed
    then have "coeff_at (map real_of_rat ?p) (length ?p - 1) = coeff_at (map real_of_rat (map ((*) k) ?n)) (length ?p - 1)"
      by (rule equal_functions_coeffs)
    moreover have "length ?p - 1 < length ?p" "\<not> length ?p - 1 < length ?n" "?p \<noteq> []"
      using n(2) assms by auto
    ultimately show False using last_p by (simp add: coeff_at_def last_conv_nth)
  qed
  then have len: "2 \<le> length (trim_polynomial (scaled_polynomial q))"
    using q(3) trim_idem[OF normalize_trimmed[of q]] by (force simp: normalize_length)
  show thesis
  proof (rule that)
    show "polynomial_square_free_part cs = Inr (scaled_polynomial q)"
      using g(1) n(2) q(1,3) rz(2) d(1) tg(2) by (auto simp: polynomial_square_free_part_def normalize_result)
    show "rpoly (scaled_polynomial q) x = 0 \<longleftrightarrow> rpoly cs x = 0" for x
      using e roots[of x] by simp
  qed (rule len)
qed

section \<open>Correctness of the isolation\<close>

lemma choose_split_ok:
  assumes "cs \<noteq> []"
  shows "choose_split cs left width ds =
    Inr (map_option (\<lambda>d. left + width / of_nat d) (find (\<lambda>d. pval cs (left + width / of_nat d) \<noteq> 0) ds))"
  by (induction ds) (simp_all add: real_exact_evaluation[OF assms] Let_def)

text \<open>A pending entry carries the number of roots between its two ends, which are not roots.\<close>

fun good_entry :: "rat list \<Rightarrow> pending_interval \<Rightarrow> bool" where
  "good_entry cs (l, r, c, d) \<longleftrightarrow> l < r \<and> pval cs l \<noteq> 0 \<and> pval cs r \<noteq> 0 \<and> c = card (real_roots_between cs l r)"

definition entry_span :: "pending_interval \<Rightarrow> rat \<times> rat" where
  "entry_span e = (fst e, fst (snd e))"

definition interval_span :: "RationalInterval \<Rightarrow> rat \<times> rat" where
  "interval_span I = (lower I, upper I)"

definition before :: "rat \<times> rat \<Rightarrow> rat \<times> rat \<Rightarrow> bool" where
  "before a b \<longleftrightarrow> snd a \<le> fst b"

definition span_roots :: "rat list \<Rightarrow> rat \<times> rat \<Rightarrow> real set" where
  "span_roots cs s = real_roots_between cs (fst s) (snd s)"

definition isolating :: "rat list \<Rightarrow> rat \<Rightarrow> RationalInterval \<Rightarrow> bool" where
  "isolating cs w I \<longleftrightarrow> lower I < upper I \<and> ri_width I \<le> w \<and> card (real_roots_between cs (lower I) (upper I)) = 1 \<and>
     pval cs (lower I) \<noteq> 0 \<and> pval cs (upper I) \<noteq> 0"

lemma roots_split:
  assumes "l < s" "s < r" "pval cs s \<noteq> 0"
  shows "real_roots_between cs l r = real_roots_between cs l s \<union> real_roots_between cs s r"
    and "real_roots_between cs l s \<inter> real_roots_between cs s r = {}"
proof -
  have s: "rpoly cs (real_of_rat s) \<noteq> 0" using assms(3) by (simp add: rpoly_of_rat)
  have "real_of_rat l < real_of_rat s" "real_of_rat s < real_of_rat r" using assms by (simp_all add: of_rat_less)
  then show "real_roots_between cs l r = real_roots_between cs l s \<union> real_roots_between cs s r"
    using s unfolding real_roots_between_def by (auto simp: less_le_trans) (metis linorder_neqE_linordered_idom)
  show "real_roots_between cs l s \<inter> real_roots_between cs s r = {}" by (auto simp: real_roots_between_def)
qed

lemma split_between:
  assumes "(l :: rat) < r" "2 \<le> d"
  shows "l < l + (r - l) / of_nat d" "l + (r - l) / of_nat d < r"
proof -
  have d: "(1 :: rat) < of_nat d" using assms(2) by simp
  then show "l < l + (r - l) / of_nat d" using assms(1) by (simp add: divide_pos_pos)
  have "(r - l) / of_nat d < (r - l) / 1" using assms(1) d by (intro divide_strict_left_mono) auto
  then show "l + (r - l) / of_nat d < r" by simp
qed

lemma isolate_step:
  assumes cs: "2 \<le> length (trim_polynomial cs)" and good: "good_entry cs (l, r, c, d)" and "c \<noteq> 0"
    and "\<not> (c = 1 \<and> r - l \<le> w)" "d < m"
    and ch: "find (\<lambda>k. pval cs (l + (r - l) / of_nat k) \<noteq> 0) split_denominators = Some k"
  defines "s \<equiv> l + (r - l) / of_nat k"
  shows "isolate_loop cs w m ((l, r, c, d) # pending) found =
      isolate_loop cs w m ((l, s, card (real_roots_between cs l s), d + 1) #
        (s, r, card (real_roots_between cs s r), d + 1) # pending) found"
    and "2 \<le> k" "k \<le> 19" "l < s" "s < r"
    and "good_entry cs (l, s, card (real_roots_between cs l s), d + 1)"
    and "good_entry cs (s, r, card (real_roots_between cs s r), d + 1)"
    and "real_roots_between cs l r = real_roots_between cs l s \<union> real_roots_between cs s r"
proof -
  have ne: "cs \<noteq> []" using cs trim_length[of cs] by auto
  have "k \<in> set split_denominators" and ps: "pval cs s \<noteq> 0"
    using ch unfolding find_Some_iff s_def by (metis nth_mem)+
  then show k: "2 \<le> k" "k \<le> 19" unfolding split_denominators_def set_upt by auto
  show between: "l < s" "s < r" using split_between[of l r k] good k by (auto simp: s_def)
  note split = roots_split[OF between ps]
  show "real_roots_between cs l r = real_roots_between cs l s \<union> real_roots_between cs s r" by (rule split(1))
  have lr: "pval cs l \<noteq> 0" "pval cs r \<noteq> 0" using good by auto
  obtain res1 where res1: "exact_sturm_root_count cs l s = Inr res1" "finite (real_roots_between cs l s)"
    "distinct_real_roots res1 = card (real_roots_between cs l s)"
    using sturm_count_ok[OF cs between(1) lr(1) ps] by metis
  obtain res2 where res2: "exact_sturm_root_count cs s r = Inr res2" "finite (real_roots_between cs s r)"
    "distinct_real_roots res2 = card (real_roots_between cs s r)"
    using sturm_count_ok[OF cs between(2) ps lr(2)] by metis
  have "card (real_roots_between cs l s) + card (real_roots_between cs s r) = c"
    using good split res1(2) res2(2) by (simp add: card_Un_disjoint)
  then show "isolate_loop cs w m ((l, r, c, d) # pending) found =
      isolate_loop cs w m ((l, s, card (real_roots_between cs l s), d + 1) #
        (s, r, card (real_roots_between cs s r), d + 1) # pending) found"
    using assms(3-5) ch res1 res2
    by (subst isolate_loop.simps(2)) (auto simp: choose_split_ok[OF ne] Let_def s_def)
  show "good_entry cs (l, s, card (real_roots_between cs l s), d + 1)"
    "good_entry cs (s, r, card (real_roots_between cs s r), d + 1)"
    using between lr ps by auto
qed

lemma good_entry_finite:
  assumes "2 \<le> length (trim_polynomial cs)" "good_entry cs (l, r, c, d)"
  shows "finite (real_roots_between cs l r)"
  using assms sturm_count_ok[of cs l r] by fastforce

definition pending_weight :: "nat \<Rightarrow> pending_interval list \<Rightarrow> nat" where
  "pending_weight m pending = sum_list (map (\<lambda>(l, r, c, d). 3 ^ (Suc m - d)) pending)"

lemma pending_weight_tail: "pending_weight m pending < pending_weight m (e # pending)"
  by (cases e) (simp add: pending_weight_def)

lemma pending_weight_split:
  "d < m \<Longrightarrow> pending_weight m ((l, s, a, d + 1) # (s, r, b, d + 1) # pending)
     < pending_weight m ((l, r, c, d) # pending)"
  by (simp add: pending_weight_def Suc_diff_le)

lemma isolate_head_cases:
  assumes cs: "2 \<le> length (trim_polynomial cs)" and good: "good_entry cs (l, r, c, d)"
  obtains "c = 0" "isolate_loop cs w m ((l, r, c, d) # pending) found = isolate_loop cs w m pending found"
  | "c = 1" "r - l \<le> w" "isolate_loop cs w m ((l, r, c, d) # pending) found =
       isolate_loop cs w m pending (found @ [\<lparr>lower = l, upper = r\<rparr>])"
  | "c \<noteq> 0" "\<not> (c = 1 \<and> r - l \<le> w)" "m \<le> d \<or>
       find (\<lambda>k. pval cs (l + (r - l) / of_nat k) \<noteq> 0) split_denominators = None"
     "\<exists>e. isolate_loop cs w m ((l, r, c, d) # pending) found = Inl (Raised e)"
  | k where "c \<noteq> 0" "\<not> (c = 1 \<and> r - l \<le> w)" "d < m"
     "find (\<lambda>k. pval cs (l + (r - l) / of_nat k) \<noteq> 0) split_denominators = Some k"
proof -
  have ne: "cs \<noteq> []" using cs trim_length[of cs] by auto
  have lr: "l \<le> r" using good by simp
  consider "c = 0" | "c = 1" "r - l \<le> w"
    | "c \<noteq> 0" "\<not> (c = 1 \<and> r - l \<le> w)" "m \<le> d \<or>
       find (\<lambda>k. pval cs (l + (r - l) / of_nat k) \<noteq> 0) split_denominators = None"
    | k where "c \<noteq> 0" "\<not> (c = 1 \<and> r - l \<le> w)" "d < m"
     "find (\<lambda>k. pval cs (l + (r - l) / of_nat k) \<noteq> 0) split_denominators = Some k"
    by (metis not_le option.exhaust)
  then show thesis
  proof cases
    case 1
    then have "isolate_loop cs w m ((l, r, c, d) # pending) found = isolate_loop cs w m pending found"
      by (subst isolate_loop.simps(2)) simp
    then show ?thesis using that(1) 1 by blast
  next
    case 2
    then have "isolate_loop cs w m ((l, r, c, d) # pending) found =
       isolate_loop cs w m pending (found @ [\<lparr>lower = l, upper = r\<rparr>])"
      using lr by (subst isolate_loop.simps(2)) (simp add: ri_new_def Let_def)
    then show ?thesis using that(2) 2 by blast
  next
    case 3
    then have "\<exists>e. isolate_loop cs w m ((l, r, c, d) # pending) found = Inl (Raised e)"
      by (subst isolate_loop.simps(2)) (auto simp: Let_def choose_split_ok[OF ne])
    then show ?thesis using that(3) 3 by blast
  next
    case (4 k)
    then show ?thesis using that(4) by blast
  qed
qed

lemma span_roots_simps [simp]:
  "span_roots cs (entry_span (l, r, c, d)) = real_roots_between cs l r"
  "span_roots cs (interval_span I) = real_roots_between cs (lower I) (upper I)"
  by (simp_all add: span_roots_def entry_span_def interval_span_def)

lemma isolate_loop_sound:
  assumes cs: "2 \<le> length (trim_polynomial cs)"
  shows "\<forall>e \<in> set pending. good_entry cs e \<Longrightarrow>
    sorted_wrt before (map interval_span found @ map entry_span pending) \<Longrightarrow>
    isolate_loop cs w m pending found = Inr out \<Longrightarrow>
    \<exists>new. out = found @ new \<and> sorted_wrt before (map interval_span out) \<and>
      (\<forall>I \<in> set new. isolating cs w I) \<and>
      (\<Union>I \<in> set new. span_roots cs (interval_span I)) = (\<Union>e \<in> set pending. span_roots cs (entry_span e))"
proof (induction "pending_weight m pending" arbitrary: pending found rule: less_induct)
  case less
  show ?case
  proof (cases pending)
    case (Cons e rest)
    obtain l r c d where e: "e = (l, r, c, d)" by (cases e)
    have good: "good_entry cs (l, r, c, d)" using less.prems(1) Cons e by simp
    have fin: "finite (real_roots_between cs l r)" using good_entry_finite[OF cs good] .
    note IH = less.hyps[unfolded Cons e]
    note sorted = less.prems(2)[unfolded Cons e] and run = less.prems(3)[unfolded Cons e]
    have rest: "\<forall>e \<in> set rest. good_entry cs e" using less.prems(1) Cons by simp
    show ?thesis
    proof (cases rule: isolate_head_cases[OF cs good, of w m rest found])
      case 1
      have "real_roots_between cs l r = {}" using good fin 1(1) by simp
      moreover have "sorted_wrt before (map interval_span found @ map entry_span rest)"
        using sorted by (simp add: sorted_wrt_append)
      ultimately show ?thesis
        using IH[OF pending_weight_tail rest _ run[unfolded 1(2)]] Cons e by simp
    next
      case 2
      let ?I = "\<lparr>lower = l, upper = r\<rparr>"
      have "sorted_wrt before (map interval_span (found @ [?I]) @ map entry_span rest)"
        using sorted by (simp add: interval_span_def entry_span_def)
      then obtain new where new: "out = (found @ [?I]) @ new" "sorted_wrt before (map interval_span out)"
        "\<forall>I \<in> set new. isolating cs w I"
        "(\<Union>I \<in> set new. span_roots cs (interval_span I)) = (\<Union>e \<in> set rest. span_roots cs (entry_span e))"
        using IH[OF pending_weight_tail rest _ run[unfolded 2(3)]] by blast
      have "isolating cs w ?I" using good 2 by (simp add: isolating_def ri_width_def)
      then show ?thesis using new Cons e by (intro exI[of _ "?I # new"]) simp
    next
      case 3
      then show ?thesis using run by auto
    next
      case (4 k)
      define s where "s = l + (r - l) / of_nat k"
      note step = isolate_step[OF cs good 4(1,2,3,4), folded s_def]
      let ?pending = "(l, s, card (real_roots_between cs l s), d + 1) #
        (s, r, card (real_roots_between cs s r), d + 1) # rest"
      have sorted': "sorted_wrt before (map interval_span found @ map entry_span ?pending)"
        using sorted step(4,5) by (auto simp: sorted_wrt_append before_def entry_span_def)
      have good': "\<forall>e \<in> set ?pending. good_entry cs e" using step(6,7) rest by simp
      have run': "isolate_loop cs w m ?pending found = Inr out" using trans[OF step(1)[symmetric] run] .
      obtain new where "out = found @ new" "sorted_wrt before (map interval_span out)"
        "\<forall>I \<in> set new. isolating cs w I"
        "(\<Union>I \<in> set new. span_roots cs (interval_span I)) = (\<Union>e \<in> set ?pending. span_roots cs (entry_span e))"
        using IH[OF pending_weight_split[OF 4(3)] good' sorted' run'] by blast
      moreover have "(\<Union>e \<in> set ?pending. span_roots cs (entry_span e)) =
          (\<Union>e \<in> set pending. span_roots cs (entry_span e))"
        unfolding Cons e using step(8) by (simp add: Un_assoc)
      ultimately show ?thesis by (intro exI[of _ new]) simp
    qed
  qed (use less.prems in auto)
qed

text \<open>Enough depth: the widths shrink by the factor 18/19 at least, and an interval narrower than the
  root separation holds at most one root.\<close>

lemma split_candidate_exists:
  assumes "(l :: rat) < r" "finite {x. rpoly cs x = 0}" "card {x. rpoly cs x = 0} < 18"
  shows "find (\<lambda>k. pval cs (l + (r - l) / of_nat k) \<noteq> 0) split_denominators \<noteq> None"
proof
  let ?c = "\<lambda>k :: nat. real_of_rat (l + (r - l) / of_nat k)"
  assume "find (\<lambda>k. pval cs (l + (r - l) / of_nat k) \<noteq> 0) split_denominators = None"
  then have zero: "pval cs (l + (r - l) / of_nat k) = 0" if "k \<in> {2..<20}" for k
    using that unfolding find_None_iff split_denominators_def set_upt by blast
  have "?c ` {2..<20} \<subseteq> {x. rpoly cs x = 0}" using zero by (auto simp: rpoly_of_rat)
  moreover have "inj_on ?c {2..<20}"
  proof (rule inj_onI)
    fix x y :: nat assume "x \<in> {2..<20}" "y \<in> {2..<20}" "?c x = ?c y"
    then have "(r - l) / of_nat x = (r - l) / of_nat y" by (simp del: of_rat_add of_rat_divide)
    then show "x = y" using assms(1) by simp
  qed
  ultimately have "card {2..<20 :: nat} \<le> card {x. rpoly cs x = 0}"
    using card_mono[OF assms(2)] card_image by metis
  then show False using assms(3) by simp
qed

lemma separated_count:
  assumes "finite (real_roots_between cs l r)" "2 \<le> card (real_roots_between cs l r)"
    "\<And>x y. rpoly cs x = 0 \<Longrightarrow> rpoly cs y = 0 \<Longrightarrow> x \<noteq> y \<Longrightarrow> real_of_rat \<delta> < \<bar>x - y\<bar>"
  shows "\<delta> < r - l"
proof -
  obtain x y where "x \<in> real_roots_between cs l r" "y \<in> real_roots_between cs l r" "x \<noteq> y"
    using assms(2) by (metis card_2_iff' card_le_Suc0_iff_eq[OF assms(1)] not_less_eq_eq numeral_2_eq_2)
  then have "real_of_rat \<delta> < \<bar>x - y\<bar>" "\<bar>x - y\<bar> < real_of_rat r - real_of_rat l"
    using assms(3)[of x y] by (auto simp: real_roots_between_def)
  then have "real_of_rat \<delta> < real_of_rat (r - l)" unfolding of_rat_diff by linarith
  then show ?thesis by (simp add: of_rat_less)
qed

lemma shrink_half:
  assumes "(l :: rat) < r" "2 \<le> k" "k \<le> 19"
  defines "s \<equiv> l + (r - l) / of_nat k"
  shows "s - l \<le> (r - l) * (18 / 19)" "r - s \<le> (r - l) * (18 / 19)"
proof -
  have k: "(2 :: rat) \<le> of_nat k" "of_nat k \<le> (19 :: rat)" using assms(2,3) by simp_all
  define q where "q = (r - l) / of_nat k"
  have "q \<le> (r - l) / 2" "(r - l) / 19 \<le> q"
    unfolding q_def using assms(1) k by (intro divide_left_mono; simp)+
  moreover have "s = l + q" by (simp add: s_def q_def)
  ultimately show "s - l \<le> (r - l) * (18 / 19)" "r - s \<le> (r - l) * (18 / 19)"
    using assms(1) by simp_all
qed

fun deep_enough :: "rat \<Rightarrow> nat \<Rightarrow> pending_interval \<Rightarrow> bool" where
  "deep_enough \<delta> m (l, r, c, d) \<longleftrightarrow> (r - l) * (18 / 19) ^ (m - d) \<le> \<delta>"

lemma isolate_loop_complete:
  assumes cs: "2 \<le> length (trim_polynomial cs)"
    and few: "finite {x. rpoly cs x = 0}" "card {x. rpoly cs x = 0} < 18"
    and \<delta>: "0 < \<delta>" "\<delta> \<le> w"
    "\<And>x y. rpoly cs x = 0 \<Longrightarrow> rpoly cs y = 0 \<Longrightarrow> x \<noteq> y \<Longrightarrow> real_of_rat \<delta> < \<bar>x - y\<bar>"
  shows "\<forall>e \<in> set pending. good_entry cs e \<and> deep_enough \<delta> m e \<Longrightarrow>
    \<exists>out. isolate_loop cs w m pending found = Inr out"
proof (induction "pending_weight m pending" arbitrary: pending found rule: less_induct)
  case less
  show ?case
  proof (cases pending)
    case (Cons e rest)
    obtain l r c d where e: "e = (l, r, c, d)" by (cases e)
    have good: "good_entry cs (l, r, c, d)" and deep: "(r - l) * (18 / 19) ^ (m - d) \<le> \<delta>"
      using less.prems Cons e by simp_all
    have lr: "l < r" and fin: "finite (real_roots_between cs l r)"
      using good good_entry_finite[OF cs good] by simp_all
    note IH = less.hyps[unfolded Cons e]
    have rest: "\<forall>e \<in> set rest. good_entry cs e \<and> deep_enough \<delta> m e" using less.prems Cons by simp
    have open_width: "\<delta> < r - l" if "c \<noteq> 0" "\<not> (c = 1 \<and> r - l \<le> w)"
    proof (cases "c = 1")
      case False
      then have "2 \<le> card (real_roots_between cs l r)" using good that by auto
      then show ?thesis using separated_count[OF fin _ \<delta>(3)] by blast
    qed (use that \<delta>(2) in linarith)
    show ?thesis
    proof (cases rule: isolate_head_cases[OF cs good, of w m rest found])
      case 1
      then show ?thesis using IH[OF pending_weight_tail rest] Cons e by simp
    next
      case 2
      then show ?thesis using IH[OF pending_weight_tail rest] Cons e by simp
    next
      case 3
      have "\<not> m \<le> d" using deep open_width[OF 3(1,2)] by auto
      then show ?thesis using 3(3) split_candidate_exists[OF lr few] by blast
    next
      case (4 k)
      define s where "s = l + (r - l) / of_nat k"
      note step = isolate_step[OF cs good 4(1,2,3,4), folded s_def]
      let ?pending = "(l, s, card (real_roots_between cs l s), d + 1) #
        (s, r, card (real_roots_between cs s r), d + 1) # rest"
      have "a * (18 / 19) ^ (m - (d + 1)) \<le> \<delta>" if "a \<le> (r - l) * (18 / 19)" for a
      proof -
        have "a * (18 / 19) ^ (m - (d + 1)) \<le> (r - l) * (18 / 19) * (18 / 19) ^ (m - (d + 1))"
          using that by (intro mult_right_mono) auto
        also have "\<dots> = (r - l) * (18 / 19) ^ (m - d)"
          using 4(3) by (simp only: mult.assoc power_Suc[symmetric] Suc_diff_Suc Suc_eq_plus1[symmetric])
        finally show ?thesis using deep by linarith
      qed
      then have all: "\<forall>e \<in> set ?pending. good_entry cs e \<and> deep_enough \<delta> m e"
        using step(6,7) rest shrink_half[OF lr step(2,3), folded s_def] by auto
      show ?thesis using IH[OF pending_weight_split[OF 4(3)] all, of found] unfolding Cons e step(1) .
    qed
  qed simp
qed

lemma isolation_coefficients:
  assumes "exact_sturm_root_count cs l u = Inr initial"
  obtains ds where
    "(if square_free initial then Inr cs else polynomial_square_free_part cs) = Inr ds"
    "2 \<le> length (trim_polynomial ds)" "\<And>x. rpoly ds x = 0 \<longleftrightarrow> rpoly cs x = 0"
    "\<And>q. pval ds q = 0 \<longleftrightarrow> pval cs q = 0" "\<And>a b. real_roots_between ds a b = real_roots_between cs a b"
    "good_entry ds (l, u, distinct_real_roots initial, 0)"
proof -
  note c = sturm_count_Inr[OF assms]
  obtain ds where ds: "(if square_free initial then Inr cs else polynomial_square_free_part cs) = Inr ds"
    "2 \<le> length (trim_polynomial ds)" "\<And>x. rpoly ds x = 0 \<longleftrightarrow> rpoly cs x = 0"
    using square_free_part_ok[OF c(1)] c(1) by (metis (full_types))
  have q: "pval ds q = 0 \<longleftrightarrow> pval cs q = 0" for q
    using ds(3)[of "real_of_rat q"] by (simp add: rpoly_of_rat)
  have r: "real_roots_between ds a b = real_roots_between cs a b" for a b
    using ds(3) by (simp add: real_roots_between_def)
  show thesis by (rule that[OF ds q r]) (use c q r in simp)
qed

lemma sorted_key_before:
  assumes "sorted_wrt before (map interval_span out)" "\<forall>I \<in> set out. lower I \<le> upper I"
  shows "sort_key lower out = out"
proof -
  have "sorted (map lower out)"
    using assms by (induction out) (auto simp: before_def interval_span_def intro: order_trans)
  then show ?thesis by (simp add: sort_key_id_if_sorted)
qed

lemma isolating_unique:
  assumes "isolating cs w I"
  shows "\<exists>!x. x \<in> real_roots_between cs (lower I) (upper I)"
  using assms by (auto simp: isolating_def card_1_singleton_iff)

lemma root_separation:
  assumes "finite (R :: real set)" "0 < w"
  obtains \<delta> where "0 < \<delta>" "\<delta> \<le> w" "\<And>x y. x \<in> R \<Longrightarrow> y \<in> R \<Longrightarrow> x \<noteq> y \<Longrightarrow> real_of_rat \<delta> < \<bar>x - y\<bar>"
proof -
  let ?D = "insert (real_of_rat w) ((\<lambda>(x, y). \<bar>x - y\<bar>) ` ((R \<times> R) - Id))"
  have fin: "finite ?D" using assms(1) by auto
  have "0 < Min ?D" using fin assms(2) by (subst Min_gr_iff) auto
  then obtain \<delta> where \<delta>: "0 < real_of_rat \<delta>" "real_of_rat \<delta> < Min ?D" using of_rat_dense by blast
  have below: "real_of_rat \<delta> < v" if "v \<in> ?D" for v using \<delta>(2) Min_le[OF fin that] by linarith
  show thesis
  proof (rule that)
    show "0 < \<delta>" using \<delta>(1) by simp
    show "\<delta> \<le> w" using below[of "real_of_rat w"] by (simp add: of_rat_less)
    show "real_of_rat \<delta> < \<bar>x - y\<bar>" if "x \<in> R" "y \<in> R" "x \<noteq> y" for x y
      by (rule below) (use that in force)
  qed
qed

lemma enough_depth:
  assumes "0 < (w :: rat)" "0 < \<delta>"
  obtains D where "0 < D" "\<And>m. D \<le> m \<Longrightarrow> w * (18 / 19) ^ m \<le> \<delta>"
proof -
  obtain n where n: "(18 / 19) ^ n < real_of_rat (\<delta> / w)"
    using real_arch_pow_inv[of "real_of_rat (\<delta> / w)" "18 / 19"] assms by auto
  have "real_of_rat ((18 / 19) ^ n) < real_of_rat (\<delta> / w)" using n by (simp add: of_rat_power of_rat_divide)
  then have small: "(18 / 19) ^ n < \<delta> / w" by (simp only: of_rat_less)
  show thesis
  proof (rule that[of "Suc n"])
    fix m assume "Suc n \<le> m"
    then have "(18 / 19 :: rat) ^ m \<le> (18 / 19) ^ n" by (intro power_decreasing) auto
    then have "(18 / 19) ^ m \<le> \<delta> / w" using small by linarith
    then have "w * (18 / 19) ^ m \<le> w * (\<delta> / w)" using assms(1) by (intro mult_left_mono) auto
    then show "w * (18 / 19) ^ m \<le> \<delta>" using assms(1) by simp
  qed simp
qed

section \<open>Properties\<close>

text \<open>C9. The isolated intervals are what the documentation of \<open>exact_sturm_isolate_roots\<close> promises: they
  are ordered with disjoint interiors, no wider than the target, their end points are not roots, each
  contains exactly one real root in its interior, every real root between \<open>l\<close> and \<open>u\<close>
  lies in one of them, and there are as many intervals as distinct roots.\<close>

theorem exact_sturm_isolate_roots_sound:
  assumes "exact_sturm_isolate_roots cs l u w m = Inr out"
  shows "sorted_wrt (\<lambda>I J. upper I \<le> lower J) out \<and>
    (\<forall>I \<in> set out. lower I < upper I \<and> ri_width I \<le> w \<and> pval cs (lower I) \<noteq> 0 \<and> pval cs (upper I) \<noteq> 0 \<and>
       (\<exists>!x. x \<in> real_roots_between cs (lower I) (upper I))) \<and>
    (\<Union>I \<in> set out. real_roots_between cs (lower I) (upper I)) = real_roots_between cs l u"
proof -
  have guard: "\<not> (w \<le> 0 \<or> m = 0)"
    by (rule ccontr) (use assms in \<open>simp add: exact_sturm_isolate_roots_def\<close>)
  obtain initial where initial: "exact_sturm_root_count cs l u = Inr initial"
    using assms guard by (auto simp: exact_sturm_isolate_roots_def result_simps)
  obtain ds where ds: "(if square_free initial then Inr cs else polynomial_square_free_part cs) = Inr ds"
    "2 \<le> length (trim_polynomial ds)" "\<And>q. pval ds q = 0 \<longleftrightarrow> pval cs q = 0"
    "\<And>a b. real_roots_between ds a b = real_roots_between cs a b"
    and good: "good_entry ds (l, u, distinct_real_roots initial, 0)"
    using isolation_coefficients[OF initial] by metis
  obtain found where run: "isolate_loop ds w m [(l, u, distinct_real_roots initial, 0)] [] = Inr found"
    and out: "out = sort_key lower found"
    using assms unfolding exact_sturm_isolate_roots_def if_not_P[OF guard] initial bind_result.simps ds(1)
    by (auto simp: result_simps)
  have s: "sorted_wrt before (map interval_span found)" "\<forall>I \<in> set found. isolating ds w I"
    "(\<Union>I \<in> set found. span_roots ds (interval_span I)) = real_roots_between ds l u"
    using isolate_loop_sound[OF ds(2) _ _ run] good by auto
  have "out = found" using sorted_key_before[OF s(1)] s(2) out by (auto simp: isolating_def less_imp_le)
  moreover have "sorted_wrt (\<lambda>I J. upper I \<le> lower J) found"
    using s(1) by (simp add: sorted_wrt_map before_def interval_span_def)
  ultimately show ?thesis
    using s(2,3) ds(3,4) isolating_unique[of ds w] by (auto simp: isolating_def)
qed

theorem exact_sturm_isolate_roots_sound_witness:
  "exact_sturm_isolate_roots [-2, 0, 1] 0 2 (1 / 2) 4 = Inr [\<lparr>lower = 1, upper = 3 / 2\<rparr>] \<and>
   (\<exists>!x. x \<in> real_roots_between [-2, 0, 1] 1 (3 / 2))"
proof -
  have "exact_sturm_isolate_roots [-2, 0, 1] 0 2 (1 / 2) 4 = Inr [\<lparr>lower = 1, upper = 3 / 2\<rparr>]"
    by code_simp
  from this exact_sturm_isolate_roots_sound[OF this, THEN conjunct2, THEN conjunct1] show ?thesis by simp
qed

text \<open>C10. Isolation succeeds: for a nonconstant polynomial with at most 17 distinct real roots (fewer than
  the 18 candidate subdivision points), non-root end points and a positive target width, every
  sufficiently large subdivision depth makes \<open>exact_sturm_isolate_roots\<close> return.\<close>

theorem exact_sturm_isolate_roots_complete:
  assumes "2 \<le> length (trim_polynomial cs)" "l < u" "pval cs l \<noteq> 0" "pval cs u \<noteq> 0" "0 < w"
    and "card {x. rpoly cs x = 0} \<le> 17"
  shows "\<exists>D. \<forall>m \<ge> D. is_ok (exact_sturm_isolate_roots cs l u w m)"
proof -
  obtain initial where initial: "exact_sturm_root_count cs l u = Inr initial"
    using sturm_count_ok[OF assms(1-4)] by metis
  obtain ds where ds: "(if square_free initial then Inr cs else polynomial_square_free_part cs) = Inr ds"
    "2 \<le> length (trim_polynomial ds)" "\<And>x. rpoly ds x = 0 \<longleftrightarrow> rpoly cs x = 0"
    "good_entry ds (l, u, distinct_real_roots initial, 0)"
    using isolation_coefficients[OF initial] by metis
  have "rpoly ds (real_of_rat l) \<noteq> 0" using assms(3) ds(3)[of "real_of_rat l"] by (simp add: rpoly_of_rat)
  then have fin: "finite {x. rpoly ds x = 0}" by (rule poly_fun_zeros[OF poly_fun_rpoly])
  obtain \<delta> where \<delta>: "0 < \<delta>" "\<delta> \<le> w"
    "\<And>x y. rpoly ds x = 0 \<Longrightarrow> rpoly ds y = 0 \<Longrightarrow> x \<noteq> y \<Longrightarrow> real_of_rat \<delta> < \<bar>x - y\<bar>"
    using root_separation[OF fin assms(5)] by auto
  have "0 < u - l" using assms(2) by simp
  then obtain D where D: "0 < D" "\<And>m. D \<le> m \<Longrightarrow> (u - l) * (18 / 19) ^ m \<le> \<delta>" using enough_depth \<delta>(1) by blast
  have "is_ok (exact_sturm_isolate_roots cs l u w m)" if "D \<le> m" for m
  proof -
    have "\<exists>out. isolate_loop ds w m [(l, u, distinct_real_roots initial, 0)] [] = Inr out"
      by (rule isolate_loop_complete[OF ds(2) fin _ \<delta>]) (use assms(6) ds(3,4) D(2)[OF that] in auto)
    then show ?thesis
      using ds(1) initial assms(5) D(1) that by (auto simp: exact_sturm_isolate_roots_def simp del: if_split)
  qed
  then show ?thesis by blast
qed

theorem exact_sturm_isolate_roots_complete_witness:
  "\<exists>D. \<forall>m \<ge> D. is_ok (exact_sturm_isolate_roots [-1, 1] 0 3 (1 / 1000) m)"
proof (rule exact_sturm_isolate_roots_complete)
  show "2 \<le> length (trim_polynomial [-1, 1])" by (simp add: trim_polynomial.simps)
  have "{x. rpoly [-1, 1] x = 0} = {1}" by (auto simp: of_rat_minus)
  then show "card {x. rpoly [-1, 1] x = 0} \<le> 17" by simp
qed simp_all

end
