(* ===== verification/Mpfr_Float.thy ===== *)
theory Mpfr_Float
  imports Rational_Interval
begin

text \<open>
  The part of \<open>rug::Float\<close> (MPFR) that \<open>crates/xc-numerics/src/mpfr_interval.rs\<close> and
  \<open>symmetric_inertia.rs\<close> use. A value is a precision with a sign bit and a NaN, an infinity or an exact finite number;
  comparisons, \<open>total_cmp\<close>, negation and absolute value are those of IEEE/MPFR on this data. The rounded operations are
  third-party code: they are the fields of the parameter record \<open>rug\<close>, and the locale \<open>directed_mpfr\<close> states what
  the interval code relies on, the documented directed rounding: rounding down gives a number at most the exact result
  (or minus infinity), rounding up one at least the exact result (or plus infinity), at the requested precision.

  \<open>reference_rug\<close> is an evaluating instance: it rounds to a dyadic grid of about \<open>p\<close> significant bits.
\<close>

section \<open>Values\<close>

datatype float_data = Nan bool | Infinite bool | Finite bool rat

record Float =
  prec :: nat
  data :: float_data

datatype Round = Down | Up | Nearest

fun is_finite_data :: "float_data \<Rightarrow> bool" where
  "is_finite_data (Finite _ _) = True"
| "is_finite_data _ = False"

fun is_nan_data :: "float_data \<Rightarrow> bool" where
  "is_nan_data (Nan _) = True"
| "is_nan_data _ = False"

definition is_finite :: "Float \<Rightarrow> bool" where
  "is_finite x = is_finite_data (data x)"

definition is_nan :: "Float \<Rightarrow> bool" where
  "is_nan x = is_nan_data (data x)"

fun data_sign :: "float_data \<Rightarrow> bool" where
  "data_sign (Nan s) = s"
| "data_sign (Infinite s) = s"
| "data_sign (Finite s _) = s"

definition is_sign_negative :: "Float \<Rightarrow> bool" where
  "is_sign_negative x = data_sign (data x)"

text \<open>The exact value of a finite number.\<close>

fun data_value :: "float_data \<Rightarrow> rat" where
  "data_value (Finite _ q) = q"
| "data_value _ = 0"

definition fval :: "Float \<Rightarrow> rat" where
  "fval x = data_value (data x)"

text \<open>\<open>PartialOrd\<close>: every comparison with a NaN is false.\<close>

fun data_le :: "float_data \<Rightarrow> float_data \<Rightarrow> bool" where
  "data_le (Finite _ x) (Finite _ y) = (x \<le> y)"
| "data_le (Infinite s) (Infinite t) = (s \<or> \<not> t)"
| "data_le (Infinite s) (Finite _ _) = s"
| "data_le (Finite _ _) (Infinite t) = (\<not> t)"
| "data_le _ _ = False"

definition float_le :: "Float \<Rightarrow> Float \<Rightarrow> bool" where
  "float_le x y = data_le (data x) (data y)"

definition float_less :: "Float \<Rightarrow> Float \<Rightarrow> bool" where
  "float_less x y \<longleftrightarrow> float_le x y \<and> \<not> float_le y x"

definition float_equal :: "Float \<Rightarrow> Float \<Rightarrow> bool" where
  "float_equal x y \<longleftrightarrow> float_le x y \<and> float_le y x"

text \<open>\<open>Float::total_cmp(..).is_lt()\<close>: NaNs outside the infinities by sign, minus zero below plus zero.\<close>

fun data_rank :: "float_data \<Rightarrow> int" where
  "data_rank (Nan s) = (if s then -2 else 2)"
| "data_rank (Infinite s) = (if s then -1 else 1)"
| "data_rank (Finite _ _) = 0"

fun total_less_data :: "float_data \<Rightarrow> float_data \<Rightarrow> bool" where
  "total_less_data (Finite s x) (Finite t y) = (x < y \<or> x = y \<and> s \<and> \<not> t)"
| "total_less_data x y = (data_rank x < data_rank y)"

definition total_less :: "Float \<Rightarrow> Float \<Rightarrow> bool" where
  "total_less x y = total_less_data (data x) (data y)"

fun neg_data :: "float_data \<Rightarrow> float_data" where
  "neg_data (Nan s) = Nan (\<not> s)"
| "neg_data (Infinite s) = Infinite (\<not> s)"
| "neg_data (Finite s q) = Finite (\<not> s) (- q)"

definition float_neg :: "Float \<Rightarrow> Float" where
  "float_neg x = x\<lparr>data := neg_data (data x)\<rparr>"

fun abs_data :: "float_data \<Rightarrow> float_data" where
  "abs_data (Nan s) = Nan False"
| "abs_data (Infinite s) = Infinite False"
| "abs_data (Finite s q) = Finite False \<bar>q\<bar>"

definition float_abs :: "Float \<Rightarrow> Float" where
  "float_abs x = x\<lparr>data := abs_data (data x)\<rparr>"

text \<open>\<open>Float::min_mut\<close> and \<open>max_mut\<close>: a NaN operand yields the other one, minus zero is below plus zero.\<close>

definition float_min :: "Float \<Rightarrow> Float \<Rightarrow> Float" where
  "float_min x y = (if is_nan x then y else if is_nan y then x else if total_less y x then y else x)"

definition float_max :: "Float \<Rightarrow> Float \<Rightarrow> Float" where
  "float_max x y = (if is_nan x then y else if is_nan y then x else if total_less x y then y else x)"

text \<open>\<open>Float::with_val(p, n)\<close> for a small integer that is exact at every precision used.\<close>

definition float_int :: "nat \<Rightarrow> int \<Rightarrow> Float" where
  "float_int p n = \<lparr>prec = p, data = Finite (n < 0) (of_int n)\<rparr>"

definition float_nan :: "nat \<Rightarrow> Float" where
  "float_nan p = \<lparr>prec = p, data = Nan False\<rparr>"

lemmas float_defs = is_finite_def is_nan_def is_sign_negative_def fval_def float_le_def float_less_def float_equal_def
  total_less_def float_neg_def float_abs_def float_int_def float_nan_def

lemma is_finite_iff: "is_finite x \<longleftrightarrow> (\<exists>s. data x = Finite s (fval x))"
  by (cases "data x") (auto simp: is_finite_def fval_def)

lemma float_le_finite [simp]: "is_finite x \<Longrightarrow> is_finite y \<Longrightarrow> float_le x y \<longleftrightarrow> fval x \<le> fval y"
  by (auto simp: is_finite_iff float_le_def)

lemma float_less_finite [simp]: "is_finite x \<Longrightarrow> is_finite y \<Longrightarrow> float_less x y \<longleftrightarrow> fval x < fval y"
  by (auto simp: float_less_def)

lemma float_int_simps [simp]: "is_finite (float_int p n)" "fval (float_int p n) = of_int n" "prec (float_int p n) = p"
  by (simp_all add: float_defs)

lemma float_neg_simps [simp]: "prec (float_neg x) = prec x" "is_finite (float_neg x) = is_finite x"
  "fval (float_neg x) = - fval x" "is_nan (float_neg x) = is_nan x"
  by (cases "data x"; simp add: float_defs)+

lemma float_abs_simps [simp]: "prec (float_abs x) = prec x" "is_finite (float_abs x) = is_finite x"
  "fval (float_abs x) = \<bar>fval x\<bar>" "is_nan (float_abs x) = is_nan x"
  by (cases "data x"; simp add: float_defs)+

lemma float_nan_simps [simp]: "\<not> is_finite (float_nan p)" "is_nan (float_nan p)" "prec (float_nan p) = p"
  by (simp_all add: float_defs)

lemma nan_not_finite: "is_nan x \<Longrightarrow> \<not> is_finite x"
  by (cases "data x") (auto simp: float_defs)

section \<open>Directed rounding\<close>

record rug =
  round_rational :: "Round \<Rightarrow> nat \<Rightarrow> rat \<Rightarrow> Float"
  round_float :: "Round \<Rightarrow> nat \<Rightarrow> Float \<Rightarrow> Float"
  float_add :: "Round \<Rightarrow> nat \<Rightarrow> Float \<Rightarrow> Float \<Rightarrow> Float"
  float_sub :: "Round \<Rightarrow> nat \<Rightarrow> Float \<Rightarrow> Float \<Rightarrow> Float"
  float_mul :: "Round \<Rightarrow> nat \<Rightarrow> Float \<Rightarrow> Float \<Rightarrow> Float"
  float_div :: "Round \<Rightarrow> nat \<Rightarrow> Float \<Rightarrow> Float \<Rightarrow> Float"
  float_sqrt :: "Round \<Rightarrow> Float \<Rightarrow> Float"
  prec_max :: int

definition rounds_down :: "Float \<Rightarrow> real \<Rightarrow> bool" where
  "rounds_down f e \<longleftrightarrow> (case data f of Finite _ z \<Rightarrow> of_rat z \<le> e | Infinite s \<Rightarrow> s | Nan _ \<Rightarrow> False)"

definition rounds_up :: "Float \<Rightarrow> real \<Rightarrow> bool" where
  "rounds_up f e \<longleftrightarrow> (case data f of Finite _ z \<Rightarrow> e \<le> of_rat z | Infinite s \<Rightarrow> \<not> s | Nan _ \<Rightarrow> False)"

definition directed :: "(Round \<Rightarrow> Float) \<Rightarrow> nat \<Rightarrow> real \<Rightarrow> bool" where
  "directed f p e \<longleftrightarrow> rounds_down (f Down) e \<and> rounds_up (f Up) e \<and> (\<forall>r. prec (f r) = p)"

lemma rounds_down_finite: "rounds_down f e \<Longrightarrow> is_finite f \<Longrightarrow> real_of_rat (fval f) \<le> e"
  and rounds_up_finite: "rounds_up f e \<Longrightarrow> is_finite f \<Longrightarrow> e \<le> real_of_rat (fval f)"
  by (auto simp: is_finite_iff rounds_down_def rounds_up_def)

locale directed_mpfr =
  fixes L :: rug
  assumes rational: "directed (\<lambda>r. round_rational L r p q) p (of_rat q)"
    and conversion: "is_finite x \<Longrightarrow> directed (\<lambda>r. round_float L r p x) p (of_rat (fval x))"
    and addition: "is_finite x \<Longrightarrow> is_finite y \<Longrightarrow> directed (\<lambda>r. float_add L r p x y) p (of_rat (fval x + fval y))"
    and subtraction: "is_finite x \<Longrightarrow> is_finite y \<Longrightarrow> directed (\<lambda>r. float_sub L r p x y) p (of_rat (fval x - fval y))"
    and product: "is_finite x \<Longrightarrow> is_finite y \<Longrightarrow> directed (\<lambda>r. float_mul L r p x y) p (of_rat (fval x * fval y))"
    and division: "is_finite x \<Longrightarrow> is_finite y \<Longrightarrow> fval y \<noteq> 0 \<Longrightarrow>
      directed (\<lambda>r. float_div L r p x y) p (of_rat (fval x / fval y))"
    and square_root: "is_finite x \<Longrightarrow> 0 \<le> fval x \<Longrightarrow>
      directed (\<lambda>r. float_sqrt L r x) (prec x) (sqrt (of_rat (fval x)))"
    and product_nan: "is_nan x \<or> is_nan y \<Longrightarrow> is_nan (float_mul L r p x y)"
    and precisions: "1000000 \<le> prec_max L"

section \<open>A reference instance\<close>

text \<open>The scale of the grid: about \<open>p\<close> bits below the leading bit of the value.\<close>

definition grid_scale :: "nat \<Rightarrow> rat \<Rightarrow> rat" where
  "grid_scale p q = (let (n, d) = quotient_of q; a = p + significant_bits d; b = significant_bits n
     in if b \<le> a then 2 ^ (a - b) else 1 / 2 ^ (b - a))"

definition grid_round :: "Round \<Rightarrow> nat \<Rightarrow> rat \<Rightarrow> rat" where
  "grid_round r p q = (let s = grid_scale p q in
     case r of Up \<Rightarrow> of_int \<lceil>q * s\<rceil> / s | _ \<Rightarrow> of_int \<lfloor>q * s\<rfloor> / s)"

definition finite_float :: "nat \<Rightarrow> rat \<Rightarrow> Float" where
  "finite_float p q = \<lparr>prec = p, data = Finite (q < 0) q\<rparr>"

definition lift_float :: "(rat \<Rightarrow> rat \<Rightarrow> rat) \<Rightarrow> Round \<Rightarrow> nat \<Rightarrow> Float \<Rightarrow> Float \<Rightarrow> Float" where
  "lift_float f r p x y =
     (if is_finite x \<and> is_finite y then finite_float p (grid_round r p (f (fval x) (fval y))) else float_nan p)"

definition grid_sqrt :: "Round \<Rightarrow> nat \<Rightarrow> rat \<Rightarrow> rat" where
  "grid_sqrt r p q = (let s = grid_scale p q; root = isqrt_ref \<lfloor>q * (s * s)\<rfloor> in
     case r of Up \<Rightarrow> of_int (root + 1) / s | _ \<Rightarrow> of_int root / s)"

definition reference_rug :: rug where
  "reference_rug = \<lparr>
     round_rational = (\<lambda>r p q. finite_float p (grid_round r p q)),
     round_float = (\<lambda>r p x. lift_float (\<lambda>a b. a) r p x x),
     float_add = lift_float (+), float_sub = lift_float (-), float_mul = lift_float (*), float_div = lift_float (/),
     float_sqrt = (\<lambda>r x. if is_finite x \<and> 0 \<le> fval x then finite_float (prec x) (grid_sqrt r (prec x) (fval x))
       else float_nan (prec x)),
     prec_max = 1000000\<rparr>"

lemma grid_scale_pos: "0 < grid_scale p q"
  by (simp add: grid_scale_def split_beta Let_def)

lemma grid_round_bounds: "grid_round Down p q \<le> q" "q \<le> grid_round Up p q"
proof -
  have s: "0 < grid_scale p q" by (rule grid_scale_pos)
  have "of_int \<lfloor>q * grid_scale p q\<rfloor> \<le> q * grid_scale p q" "q * grid_scale p q \<le> of_int \<lceil>q * grid_scale p q\<rceil>"
    by simp_all
  then show "grid_round Down p q \<le> q" "q \<le> grid_round Up p q"
    using s by (simp_all add: grid_round_def Let_def pos_divide_le_eq pos_le_divide_eq)
qed

lemma directed_finite_float:
  assumes "real_of_rat (f Down) \<le> e" "e \<le> real_of_rat (f Up)"
  shows "directed (\<lambda>r. finite_float p (f r)) p e"
  using assms by (simp add: directed_def rounds_down_def rounds_up_def finite_float_def)

lemma directed_grid: "directed (\<lambda>r. finite_float p (grid_round r p q)) p (of_rat q)"
  by (rule directed_finite_float) (simp_all add: of_rat_less_eq grid_round_bounds)

lemma grid_sqrt_bounds:
  assumes "0 \<le> q"
  shows "real_of_rat (grid_sqrt Down p q) \<le> sqrt (of_rat q)" "sqrt (of_rat q) \<le> real_of_rat (grid_sqrt Up p q)"
proof -
  let ?s = "grid_scale p q" and ?m = "\<lfloor>q * (grid_scale p q * grid_scale p q)\<rfloor>"
  define R where "R = isqrt_ref ?m"
  have s: "0 < real_of_rat ?s" using grid_scale_pos[of p q] by (metis of_rat_0 of_rat_less)
  have "0 \<le> ?m" using assms grid_scale_pos[of p q] by simp
  from isqrt_ref_spec[OF this] have R: "0 \<le> R" "R * R \<le> ?m" "?m < (R + 1) * (R + 1)" by (auto simp: R_def)
  have x: "sqrt (of_rat q) * real_of_rat ?s = sqrt (real_of_rat (q * (?s * ?s)))"
    using s by (simp add: of_rat_mult real_sqrt_mult)
  have "real_of_int (R * R) \<le> real_of_rat (q * (?s * ?s))"
    using R(2) by (metis le_floor_iff of_rat_less_eq of_rat_of_int_eq)
  then have low: "real_of_int R \<le> sqrt (of_rat q) * real_of_rat ?s"
    unfolding x using R(1) by (intro real_le_rsqrt) (simp add: power2_eq_square)
  have "real_of_rat (q * (?s * ?s)) \<le> real_of_int ((R + 1) * (R + 1))"
    using R(3) by (metis floor_less_iff less_eq_real_def of_rat_less of_rat_of_int_eq)
  then have high: "sqrt (of_rat q) * real_of_rat ?s \<le> real_of_int (R + 1)"
    unfolding x using R(1) by (intro real_le_lsqrt) (auto simp: power2_eq_square)
  have g: "real_of_rat (grid_sqrt Down p q) = real_of_int R / real_of_rat ?s"
    "real_of_rat (grid_sqrt Up p q) = real_of_int (R + 1) / real_of_rat ?s"
    by (simp_all add: grid_sqrt_def Let_def R_def of_rat_divide of_rat_add)
  show "real_of_rat (grid_sqrt Down p q) \<le> sqrt (of_rat q)" "sqrt (of_rat q) \<le> real_of_rat (grid_sqrt Up p q)"
    unfolding g using s low high by (simp_all add: pos_divide_le_eq pos_le_divide_eq)
qed

interpretation ref_mpfr: directed_mpfr reference_rug
proof
  show "is_nan x \<or> is_nan y \<Longrightarrow> is_nan (float_mul reference_rug r p x y)" for x y r p
    using nan_not_finite by (auto simp: reference_rug_def lift_float_def)
  show "is_finite x \<Longrightarrow> 0 \<le> fval x \<Longrightarrow> directed (\<lambda>r. float_sqrt reference_rug r x) (prec x) (sqrt (of_rat (fval x)))" for x
    by (simp add: reference_rug_def directed_finite_float grid_sqrt_bounds)
qed (simp_all add: reference_rug_def lift_float_def directed_grid)

end
