(* ===== verification/Mpfr_Interval.thy ===== *)
theory Mpfr_Interval
  imports Mpfr_Float Interval_Polynomial
begin

text \<open>
  Outward-rounded intervals of \<open>crates/xc-numerics/src/mpfr_interval.rs\<close>: construction, comparison, arithmetic, square
  root and exact conversion of \<open>MpfrInterval\<close>, the rectangular complex balls \<open>MpfrComplexBall\<close> and Horner evaluation.
  Infallible arithmetic returns the invalid NaN interval when no finite enclosure exists, as the source does. The rounded
  operations of MPFR are the parameter \<open>L\<close>.

  The type invariant \<open>mi_wf\<close> says that an interval is either valid or the NaN interval. The lemmas of \<open>directed_mpfr\<close>
  show that every operation keeps \<open>mi_holds\<close>: the result is NaN or contains the exact real result.
  Exponentials, logarithms and trigonometric enclosures are not modelled.
\<close>

section \<open>Data\<close>

record MpfrInterval =
  mlower :: Float
  mupper :: Float

record MpfrComplexBall =
  mreal :: MpfrInterval
  mimaginary :: MpfrInterval

record MpfrBallBackendDescriptor =
  implementation :: string
  descriptor_precision_bits :: nat
  real_enclosure :: string
  complex_enclosure :: string
  rounding_policy :: string

record MpfrBallContext =
  context_precision_bits :: nat

section \<open>Construction\<close>

definition mi_new :: "Float \<Rightarrow> Float \<Rightarrow> IntervalError + MpfrInterval" where
  "mi_new l u =
     (if \<not> is_finite l \<or> \<not> is_finite u \<or> float_less u l
      then Inl (Invalid ''MPFR interval endpoints must be finite and ordered'')
      else if prec l \<noteq> prec u then Inl (Invalid ''MPFR interval endpoints must have equal precision'')
      else Inr \<lparr>mlower = l, mupper = u\<rparr>)"

definition unrepresentable :: IntervalError where
  "unrepresentable = Invalid ''invalid or unrepresentable MPFR interval''"

definition mi_validate :: "MpfrInterval \<Rightarrow> IntervalError + unit" where
  "mi_validate self =
     (if \<not> is_finite (mlower self) \<or> \<not> is_finite (mupper self) \<or> float_less (mupper self) (mlower self) \<or>
         prec (mlower self) \<noteq> prec (mupper self)
      then Inl unrepresentable else Inr ())"

definition mi_invalid :: "nat \<Rightarrow> MpfrInterval" where
  "mi_invalid precision = \<lparr>mlower = float_nan precision, mupper = float_nan precision\<rparr>"

definition mi_arithmetic_result :: "Float \<Rightarrow> Float \<Rightarrow> MpfrInterval" where
  "mi_arithmetic_result l u = (case mi_new l u of Inr I \<Rightarrow> I | Inl _ \<Rightarrow> mi_invalid (prec l))"

definition mi_from_float :: "rug \<Rightarrow> Float \<Rightarrow> nat \<Rightarrow> IntervalError + MpfrInterval" where
  "mi_from_float L value precision =
     (if \<not> is_finite value \<or> \<not> (1 \<le> precision \<and> int precision \<le> prec_max L)
      then Inl (Invalid ''finite Float and supported precision required'')
      else mi_new (round_float L Down precision value) (round_float L Up precision value))"

text \<open>A constructor of \<open>Float\<close> with a raw precision panics outside MPFR's range.\<close>

definition with_precision_range :: "rug \<Rightarrow> nat \<Rightarrow> 'a \<Rightarrow> IntervalError fault + 'a" where
  "with_precision_range L precision x =
     (if 1 \<le> precision \<and> int precision \<le> prec_max L then Inr x else Inl (Panicked ''precision out of range''))"

definition mi_from_rational :: "rug \<Rightarrow> rat \<Rightarrow> nat \<Rightarrow> IntervalError fault + MpfrInterval" where
  "mi_from_rational L value precision = with_precision_range L precision
     (mi_arithmetic_result (round_rational L Down precision value) (round_rational L Up precision value))"

definition mi_from_i64 :: "rug \<Rightarrow> int \<Rightarrow> nat \<Rightarrow> IntervalError fault + MpfrInterval" where
  "mi_from_i64 L value precision = with_precision_range L precision
     (mi_arithmetic_result (round_rational L Down precision (of_int value)) (round_rational L Up precision (of_int value)))"

definition mi_from_u64 :: "rug \<Rightarrow> nat \<Rightarrow> nat \<Rightarrow> IntervalError fault + MpfrInterval" where
  "mi_from_u64 L value precision = with_precision_range L precision
     (mi_arithmetic_result (round_rational L Down precision (of_nat value)) (round_rational L Up precision (of_nat value)))"

definition mi_point :: "Float \<Rightarrow> IntervalError fault + MpfrInterval" where
  "mi_point value = (case mi_new value value of Inr I \<Rightarrow> Inr I | Inl _ \<Rightarrow> Inl (Panicked ''finite MPFR point required''))"

definition mi_precision :: "MpfrInterval \<Rightarrow> nat" where
  "mi_precision self = prec (mlower self)"

definition mi_with_precision :: "rug \<Rightarrow> MpfrInterval \<Rightarrow> nat \<Rightarrow> IntervalError + MpfrInterval" where
  "mi_with_precision L self precision =
     bind_result (mi_validate self) (\<lambda>_.
       if \<not> (32 \<le> precision \<and> int precision \<le> prec_max L)
       then Inl (Invalid ''MPFR interval precision must be at least 32 bits'')
       else mi_new (round_float L Down precision (mlower self)) (round_float L Up precision (mupper self)))"

section \<open>Tests and set operations\<close>

definition mi_contains_zero :: "MpfrInterval \<Rightarrow> bool" where
  "mi_contains_zero self \<longleftrightarrow> \<not> is_ok (mi_validate self) \<or>
     float_le (mlower self) (float_int 1 0) \<and> float_le (float_int 1 0) (mupper self)"

definition mi_is_strictly_positive :: "MpfrInterval \<Rightarrow> bool" where
  "mi_is_strictly_positive self \<longleftrightarrow> is_ok (mi_validate self) \<and> float_less (float_int 1 0) (mlower self)"

definition mi_width :: "rug \<Rightarrow> MpfrInterval \<Rightarrow> Float" where
  "mi_width L self = float_sub L Up (mi_precision self) (mupper self) (mlower self)"

definition mi_midpoint_point :: "rug \<Rightarrow> MpfrInterval \<Rightarrow> IntervalError fault + MpfrInterval" where
  "mi_midpoint_point L self =
     (let p = mi_precision self; two = float_int p 2 in
      case mi_validate self of
        Inl _ \<Rightarrow> Inl (Panicked ''finite interval midpoint required'')
      | Inr _ \<Rightarrow>
          let midpoint =
                (if is_sign_negative (mlower self) = is_sign_negative (mupper self)
                 then let difference = float_sub L Nearest p (mupper self) (mlower self)
                      in float_add L Nearest p (mlower self) (float_div L Nearest p difference two)
                 else float_add L Nearest p (float_div L Nearest p (mlower self) two)
                        (float_div L Nearest p (mupper self) two));
              midpoint = (if float_less midpoint (mlower self) then mlower self
                          else if float_less (mupper self) midpoint then mupper self else midpoint)
          in mi_point midpoint)"

definition mi_try_intersection :: "MpfrInterval \<Rightarrow> MpfrInterval \<Rightarrow> IntervalError + MpfrInterval option" where
  "mi_try_intersection self other =
     bind_result (mi_validate self) (\<lambda>_. bind_result (mi_validate other) (\<lambda>_.
       if mi_precision self \<noteq> mi_precision other then Inl (Invalid ''MPFR interval precision mismatch'')
       else
         let l = (if float_le (mlower other) (mlower self) then mlower self else mlower other);
             u = (if float_le (mupper self) (mupper other) then mupper self else mupper other)
         in Inr (if float_le l u then Some \<lparr>mlower = l, mupper = u\<rparr> else None)))"

definition mi_intersection :: "MpfrInterval \<Rightarrow> MpfrInterval \<Rightarrow> IntervalError fault + MpfrInterval option" where
  "mi_intersection self other =
     (case mi_try_intersection self other of
        Inr r \<Rightarrow> Inr r
      | Inl _ \<Rightarrow> Inl (Panicked ''valid MPFR intersection operands required''))"

definition mi_is_subset_of :: "MpfrInterval \<Rightarrow> MpfrInterval \<Rightarrow> bool" where
  "mi_is_subset_of self other \<longleftrightarrow> mi_precision self = mi_precision other \<and> is_ok (mi_validate self) \<and>
     is_ok (mi_validate other) \<and> float_le (mlower other) (mlower self) \<and> float_le (mupper self) (mupper other)"

definition mi_is_interior_subset_of :: "MpfrInterval \<Rightarrow> MpfrInterval \<Rightarrow> bool" where
  "mi_is_interior_subset_of self other \<longleftrightarrow> mi_precision self = mi_precision other \<and> is_ok (mi_validate self) \<and>
     is_ok (mi_validate other) \<and> float_less (mlower other) (mlower self) \<and> float_less (mupper self) (mupper other)"

section \<open>Arithmetic\<close>

definition mi_compatible :: "MpfrInterval \<Rightarrow> MpfrInterval \<Rightarrow> bool" where
  "mi_compatible self other \<longleftrightarrow> \<not> (mi_precision self \<noteq> mi_precision other \<or> \<not> is_ok (mi_validate self) \<or>
     \<not> is_ok (mi_validate other))"

definition mi_add :: "rug \<Rightarrow> MpfrInterval \<Rightarrow> MpfrInterval \<Rightarrow> MpfrInterval" where
  "mi_add L self other =
     (if \<not> mi_compatible self other then mi_invalid (mi_precision self)
      else let p = mi_precision self in
        mi_arithmetic_result (float_add L Down p (mlower self) (mlower other))
          (float_add L Up p (mupper self) (mupper other)))"

definition mi_sub :: "rug \<Rightarrow> MpfrInterval \<Rightarrow> MpfrInterval \<Rightarrow> MpfrInterval" where
  "mi_sub L self other =
     (if \<not> mi_compatible self other then mi_invalid (mi_precision self)
      else let p = mi_precision self in
        mi_arithmetic_result (float_sub L Down p (mlower self) (mupper other))
          (float_sub L Up p (mupper self) (mlower other)))"

definition mi_neg :: "MpfrInterval \<Rightarrow> MpfrInterval" where
  "mi_neg self = \<lparr>mlower = float_neg (mupper self), mupper = float_neg (mlower self)\<rparr>"

definition corners :: "Float \<Rightarrow> Float \<Rightarrow> Float list" where
  "corners l u = (if float_equal l u \<and> is_sign_negative l = is_sign_negative u then [l] else [l, u])"

definition corner_step :: "rug \<Rightarrow> nat \<Rightarrow> Float \<times> Float \<Rightarrow> (Float \<times> Float) option \<Rightarrow> (Float \<times> Float) option" where
  "corner_step L p xy acc =
     (let down = float_mul L Down p (fst xy) (snd xy); up = float_mul L Up p (fst xy) (snd xy) in
      case acc of
        None \<Rightarrow> Some (down, up)
      | Some (l, u) \<Rightarrow> Some (if total_less down l then down else l, if total_less u up then up else u))"

definition corner_extrema :: "rug \<Rightarrow> nat \<Rightarrow> Float list \<Rightarrow> Float list \<Rightarrow> (Float \<times> Float) option" where
  "corner_extrema L p left right = fold (corner_step L p) (List.product left right) None"

text \<open>Both corner lists are nonempty, so the \<open>unwrap\<close> of the source always finds a corner.\<close>

text \<open>An interval has one or two corners, so the loop visits at least one product and its extrema are present: the \<open>None\<close> branch of
  \<open>mi_mul\<close>, where the source unwraps them, is taken for no operands.\<close>

lemma corner_extrema_present: "corner_extrema L p (corners a b) (corners c d) \<noteq> None"
  by (auto simp: corner_extrema_def corners_def corner_step_def Let_def split: option.splits)

definition mi_mul :: "rug \<Rightarrow> MpfrInterval \<Rightarrow> MpfrInterval \<Rightarrow> MpfrInterval" where
  "mi_mul L self other =
     (if \<not> mi_compatible self other then mi_invalid (mi_precision self)
      else case corner_extrema L (mi_precision self) (corners (mlower self) (mupper self))
             (corners (mlower other) (mupper other)) of
        Some (l, u) \<Rightarrow> mi_arithmetic_result l u
      | None \<Rightarrow> mi_invalid (mi_precision self))"

definition mi_square :: "rug \<Rightarrow> MpfrInterval \<Rightarrow> MpfrInterval" where
  "mi_square L self =
     (if mi_contains_zero self
      then let p = mi_precision self; abs_lower = float_abs (mlower self); abs_upper = float_abs (mupper self);
               maximum = (if float_le abs_upper abs_lower then abs_lower else abs_upper)
           in mi_arithmetic_result (float_int p 0) (float_mul L Up p maximum maximum)
      else mi_mul L self self)"

definition mi_reciprocal :: "rug \<Rightarrow> MpfrInterval \<Rightarrow> IntervalError + MpfrInterval" where
  "mi_reciprocal L self =
     bind_result (mi_validate self) (\<lambda>_.
       if mi_contains_zero self then Inl DivisionByZeroInterval
       else let p = mi_precision self; one = float_int p 1
            in mi_new (float_div L Down p one (mupper self)) (float_div L Up p one (mlower self)))"

definition mi_div :: "rug \<Rightarrow> MpfrInterval \<Rightarrow> MpfrInterval \<Rightarrow> IntervalError + MpfrInterval" where
  "mi_div L self other =
     bind_result (mi_validate self) (\<lambda>_. bind_result (mi_validate other) (\<lambda>_.
       if mi_precision self \<noteq> mi_precision other then Inl (Invalid ''MPFR interval precision mismatch'')
       else bind_result (mi_reciprocal L other) (\<lambda>inverse.
         let result = mi_mul L self inverse in bind_result (mi_validate result) (\<lambda>_. Inr result))))"

definition mi_sqrt :: "rug \<Rightarrow> MpfrInterval \<Rightarrow> IntervalError + MpfrInterval" where
  "mi_sqrt L self =
     bind_result (mi_validate self) (\<lambda>_.
       if float_less (mlower self) (float_int 1 0)
       then Inl (Invalid ''square-root interval has a negative lower endpoint'')
       else mi_new (float_sqrt L Down (mlower self)) (float_sqrt L Up (mupper self)))"

definition float_to_rational :: "Float \<Rightarrow> rat option" where
  "float_to_rational x = (if is_finite x then Some (fval x) else None)"

definition mi_try_to_rational_interval :: "MpfrInterval \<Rightarrow> IntervalError + RationalInterval" where
  "mi_try_to_rational_interval self =
     bind_result (mi_validate self) (\<lambda>_.
       case float_to_rational (mlower self) of
         None \<Rightarrow> Inl (Invalid ''nonfinite MPFR lower endpoint'')
       | Some l \<Rightarrow> (case float_to_rational (mupper self) of
             None \<Rightarrow> Inl (Invalid ''nonfinite MPFR upper endpoint'')
           | Some u \<Rightarrow> ri_new l u))"

definition mi_to_rational_interval :: "MpfrInterval \<Rightarrow> IntervalError fault + RationalInterval" where
  "mi_to_rational_interval self =
     (case mi_try_to_rational_interval self of
        Inr I \<Rightarrow> Inr I
      | Inl _ \<Rightarrow> Inl (Panicked ''valid finite MPFR endpoints required''))"

section \<open>Complex balls\<close>

definition ball_context_new :: "rug \<Rightarrow> nat \<Rightarrow> IntervalError + MpfrBallContext" where
  "ball_context_new L precision_bits =
     (if \<not> (32 \<le> precision_bits \<and> int precision_bits \<le> prec_max L)
      then Inl (Invalid ''MPFR ball precision must be at least 32 bits'')
      else Inr \<lparr>context_precision_bits = precision_bits\<rparr>)"

definition ball_descriptor :: "MpfrBallContext \<Rightarrow> MpfrBallBackendDescriptor" where
  "ball_descriptor self = \<lparr>
     implementation = ''rug-mpfr-rectangular-ball-v1'',
     descriptor_precision_bits = context_precision_bits self,
     real_enclosure = ''closed directed-rounding MPFR endpoint interval'',
     complex_enclosure = ''Cartesian product of two MPFR endpoint intervals'',
     rounding_policy = ''MPFR Round::Down/Up on every real endpoint operation''\<rparr>"

definition real_from_rational :: "rug \<Rightarrow> MpfrBallContext \<Rightarrow> rat \<Rightarrow> IntervalError fault + MpfrInterval" where
  "real_from_rational L self value = mi_from_rational L value (context_precision_bits self)"

definition complex_from_rationals ::
  "rug \<Rightarrow> MpfrBallContext \<Rightarrow> rat \<Rightarrow> rat \<Rightarrow> IntervalError fault + MpfrComplexBall" where
  "complex_from_rationals L self re im =
     bind_result (real_from_rational L self re) (\<lambda>r. bind_result (real_from_rational L self im) (\<lambda>i.
       Inr \<lparr>mreal = r, mimaginary = i\<rparr>))"

definition mc_validate :: "MpfrComplexBall \<Rightarrow> IntervalError + unit" where
  "mc_validate self =
     bind_result (mi_validate (mreal self)) (\<lambda>_. bind_result (mi_validate (mimaginary self)) (\<lambda>_.
       if mi_precision (mreal self) \<noteq> mi_precision (mimaginary self)
       then Inl (Invalid ''complex ball component precision mismatch'') else Inr ()))"

definition mc_new :: "MpfrInterval \<Rightarrow> MpfrInterval \<Rightarrow> IntervalError + MpfrComplexBall" where
  "mc_new re im =
     bind_result (mi_validate re) (\<lambda>_. bind_result (mi_validate im) (\<lambda>_.
       if mi_precision re \<noteq> mi_precision im
       then Inl (Invalid ''complex ball components must have equal precision'')
       else Inr \<lparr>mreal = re, mimaginary = im\<rparr>))"

definition mc_point :: "rug \<Rightarrow> Float \<Rightarrow> Float \<Rightarrow> IntervalError + MpfrComplexBall" where
  "mc_point L re im =
     bind_result (mi_from_float L re (prec re)) (\<lambda>re. bind_result (mi_from_float L im (prec im)) (\<lambda>im. mc_new re im))"

definition mc_precision :: "MpfrComplexBall \<Rightarrow> nat" where
  "mc_precision self = mi_precision (mreal self)"

definition mc_with_precision :: "rug \<Rightarrow> MpfrComplexBall \<Rightarrow> nat \<Rightarrow> IntervalError + MpfrComplexBall" where
  "mc_with_precision L self precision =
     bind_result (mi_with_precision L (mreal self) precision) (\<lambda>re.
     bind_result (mi_with_precision L (mimaginary self) precision) (\<lambda>im. mc_new re im))"

definition mc_excludes_zero :: "MpfrComplexBall \<Rightarrow> bool" where
  "mc_excludes_zero self \<longleftrightarrow> is_ok (mc_validate self) \<and>
     (\<not> mi_contains_zero (mreal self) \<or> \<not> mi_contains_zero (mimaginary self))"

definition mc_require_compatible :: "MpfrComplexBall \<Rightarrow> MpfrComplexBall \<Rightarrow> IntervalError + unit" where
  "mc_require_compatible self other =
     bind_result (mc_validate self) (\<lambda>_. bind_result (mc_validate other) (\<lambda>_.
       if mc_precision self \<noteq> mc_precision other
       then Inl (Invalid (''complex ball precision mismatch: '' @ show_nat (mc_precision self) @ '' != '' @
         show_nat (mc_precision other)))
       else Inr ()))"

definition mc_add :: "rug \<Rightarrow> MpfrComplexBall \<Rightarrow> MpfrComplexBall \<Rightarrow> IntervalError + MpfrComplexBall" where
  "mc_add L self other = bind_result (mc_require_compatible self other) (\<lambda>_.
     mc_new (mi_add L (mreal self) (mreal other)) (mi_add L (mimaginary self) (mimaginary other)))"

definition mc_sub :: "rug \<Rightarrow> MpfrComplexBall \<Rightarrow> MpfrComplexBall \<Rightarrow> IntervalError + MpfrComplexBall" where
  "mc_sub L self other = bind_result (mc_require_compatible self other) (\<lambda>_.
     mc_new (mi_sub L (mreal self) (mreal other)) (mi_sub L (mimaginary self) (mimaginary other)))"

definition mc_neg :: "MpfrComplexBall \<Rightarrow> MpfrComplexBall" where
  "mc_neg self = \<lparr>mreal = mi_neg (mreal self), mimaginary = mi_neg (mimaginary self)\<rparr>"

definition mc_conjugate :: "MpfrComplexBall \<Rightarrow> MpfrComplexBall" where
  "mc_conjugate self = \<lparr>mreal = mreal self, mimaginary = mi_neg (mimaginary self)\<rparr>"

definition mc_mul :: "rug \<Rightarrow> MpfrComplexBall \<Rightarrow> MpfrComplexBall \<Rightarrow> IntervalError + MpfrComplexBall" where
  "mc_mul L self other = bind_result (mc_require_compatible self other) (\<lambda>_.
     let ac = mi_mul L (mreal self) (mreal other);
         bd = mi_mul L (mimaginary self) (mimaginary other);
         ad = mi_mul L (mreal self) (mimaginary other);
         bc = mi_mul L (mimaginary self) (mreal other)
     in mc_new (mi_sub L ac bd) (mi_add L ad bc))"

definition mc_modulus_squared :: "rug \<Rightarrow> MpfrComplexBall \<Rightarrow> MpfrInterval" where
  "mc_modulus_squared L self = mi_add L (mi_square L (mreal self)) (mi_square L (mimaginary self))"

definition mc_reciprocal :: "rug \<Rightarrow> MpfrComplexBall \<Rightarrow> IntervalError + MpfrComplexBall" where
  "mc_reciprocal L self =
     bind_result (mc_validate self) (\<lambda>_.
       let denominator = mc_modulus_squared L self in
       bind_result (mi_validate denominator) (\<lambda>_.
         if mi_contains_zero denominator then Inl DivisionByZeroInterval
         else bind_result (mi_div L (mreal self) denominator) (\<lambda>re.
              bind_result (mi_div L (mi_neg (mimaginary self)) denominator) (\<lambda>im. mc_new re im))))"

definition mc_div :: "rug \<Rightarrow> MpfrComplexBall \<Rightarrow> MpfrComplexBall \<Rightarrow> IntervalError + MpfrComplexBall" where
  "mc_div L self other = bind_result (mc_require_compatible self other) (\<lambda>_.
     bind_result (mc_reciprocal L other) (\<lambda>inverse. mc_mul L self inverse))"

function powu_loop :: "rug \<Rightarrow> MpfrComplexBall \<Rightarrow> MpfrComplexBall \<Rightarrow> nat \<Rightarrow> IntervalError + MpfrComplexBall" where
  "powu_loop L result factor remaining =
     (if remaining = 0 then Inr result
      else bind_result (if remaining mod 2 = 1 then mc_mul L result factor else Inr result) (\<lambda>result.
        let remaining' = remaining div 2 in
        if remaining' > 0
        then bind_result (mc_mul L factor factor) (\<lambda>factor. powu_loop L result factor remaining')
        else powu_loop L result factor remaining'))"
  by pat_completeness auto
termination
  by (relation "measure (\<lambda>(L, r, f, n). n)") auto

declare powu_loop.simps [simp del]

definition mc_powu :: "rug \<Rightarrow> MpfrComplexBall \<Rightarrow> nat \<Rightarrow> IntervalError + MpfrComplexBall" where
  "mc_powu L self exponent =
     bind_result (mc_validate self) (\<lambda>_.
       let precision = mc_precision self in
       bind_result (mc_point L (float_int precision 1) (float_int precision 0)) (\<lambda>result.
         powu_loop L result self exponent))"

definition evaluate_complex_polynomial_mpfr ::
  "rug \<Rightarrow> MpfrComplexBall list \<Rightarrow> MpfrComplexBall \<Rightarrow> IntervalError + MpfrComplexBall" where
  "evaluate_complex_polynomial_mpfr L coefficients_ascending argument =
     bind_result (mc_validate argument) (\<lambda>_.
     bind_result (fold_result (\<lambda>coefficient _. mc_validate coefficient) coefficients_ascending ()) (\<lambda>_.
       case rev coefficients_ascending of
         [] \<Rightarrow> Inl (Invalid ''complex polynomial must contain at least one coefficient'')
       | highest # rest \<Rightarrow>
           if \<exists>coefficient \<in> set coefficients_ascending. mc_precision coefficient \<noteq> mc_precision argument
           then Inl (Invalid ''complex polynomial coefficient precision mismatch'')
           else fold_result (\<lambda>coefficient value.
                  bind_result (mc_mul L value argument) (\<lambda>product. mc_add L product coefficient)) rest highest))"

section \<open>Enclosure\<close>

definition mi_ok :: "MpfrInterval \<Rightarrow> bool" where
  "mi_ok I \<longleftrightarrow> is_ok (mi_validate I)"

text \<open>The exact rational interval a valid interval stands for.\<close>

definition mi_ri :: "MpfrInterval \<Rightarrow> RationalInterval" where
  "mi_ri I = \<lparr>lower = fval (mlower I), upper = fval (mupper I)\<rparr>"

definition mi_encloses :: "MpfrInterval \<Rightarrow> real \<Rightarrow> bool" where
  "mi_encloses I x \<longleftrightarrow> mi_ok I \<and> encloses (mi_ri I) x"

definition mi_nan :: "MpfrInterval \<Rightarrow> bool" where
  "mi_nan I \<longleftrightarrow> is_nan (mlower I) \<and> is_nan (mupper I)"

definition mi_wf :: "MpfrInterval \<Rightarrow> bool" where
  "mi_wf I \<longleftrightarrow> mi_nan I \<or> mi_ok I"

definition mi_holds :: "MpfrInterval \<Rightarrow> real \<Rightarrow> bool" where
  "mi_holds I x \<longleftrightarrow> mi_nan I \<or> mi_encloses I x"

lemma mi_ok_iff: "mi_ok I \<longleftrightarrow> is_finite (mlower I) \<and> is_finite (mupper I) \<and> fval (mlower I) \<le> fval (mupper I) \<and>
    prec (mlower I) = prec (mupper I)"
  by (auto simp: mi_ok_def mi_validate_def)

lemma mi_validate_Inr [result_simps]: "mi_validate I = Inr u \<longleftrightarrow> mi_ok I"
  by (auto simp: mi_ok_def mi_validate_def)

lemma mi_validate_ok [simp]: "mi_ok I \<Longrightarrow> mi_validate I = Inr ()"
  by (simp add: mi_validate_Inr)

lemma is_ok_validate [simp]: "is_ok (mi_validate I) = mi_ok I"
  by (simp add: mi_ok_def)

lemma mi_nan_not_ok: "mi_nan I \<Longrightarrow> \<not> mi_ok I"
  using nan_not_finite by (auto simp: mi_nan_def mi_ok_iff)

lemma mi_holds_ok [simp]: "mi_ok I \<Longrightarrow> mi_holds I x = mi_encloses I x"
  using mi_nan_not_ok by (auto simp: mi_holds_def)

lemma mi_encloses_ok: "mi_encloses I x \<Longrightarrow> mi_ok I"
  by (simp add: mi_encloses_def)

lemma mi_encloses_holds: "mi_encloses I x \<Longrightarrow> mi_holds I x"
  by (simp add: mi_holds_def)

lemma mi_holds_wf: "mi_holds I x \<Longrightarrow> mi_wf I"
  by (auto simp: mi_holds_def mi_wf_def mi_encloses_def)

lemma mi_encloses_iff: "mi_encloses I x \<longleftrightarrow> mi_ok I \<and> of_rat (fval (mlower I)) \<le> x \<and> x \<le> of_rat (fval (mupper I))"
  by (simp add: mi_encloses_def mi_ri_def encloses_def)

lemma mi_new_Inr [result_simps]: "mi_new l u = Inr I \<longleftrightarrow> I = \<lparr>mlower = l, mupper = u\<rparr> \<and> mi_ok I"
  by (auto simp: mi_new_def mi_ok_iff)

lemma mi_invalid_nan [simp]: "mi_nan (mi_invalid p)" "mi_holds (mi_invalid p) x"
  by (simp_all add: mi_invalid_def mi_nan_def mi_holds_def)

lemma mi_new_encloses:
  assumes "mi_new l u = Inr I" "rounds_down l a" "rounds_up u b" "a \<le> x" "x \<le> b"
  shows "mi_encloses I x"
  using assms rounds_down_finite[of l a] rounds_up_finite[of u b]
  by (auto simp: mi_new_Inr mi_encloses_iff mi_ok_iff)

lemma mi_arithmetic_result_holds:
  assumes "rounds_down l a" "rounds_up u b" "a \<le> x" "x \<le> b"
  shows "mi_holds (mi_arithmetic_result l u) x"
  using mi_new_encloses[OF _ assms] by (auto simp: mi_arithmetic_result_def mi_holds_def split: sum.split)

lemma mi_compatible_ok: "mi_compatible A B \<longleftrightarrow> mi_precision A = mi_precision B \<and> mi_ok A \<and> mi_ok B"
  by (auto simp: mi_compatible_def)

lemma mi_compatible_holds:
  "mi_compatible A B \<Longrightarrow> mi_holds A x \<Longrightarrow> mi_holds B y \<Longrightarrow> mi_encloses A x \<and> mi_encloses B y"
  by (simp add: mi_compatible_ok)

lemma mi_contains_zero_ok: "mi_ok I \<Longrightarrow> mi_contains_zero I \<longleftrightarrow> ri_contains_zero (mi_ri I)"
  by (auto simp: mi_contains_zero_def ri_contains_zero_def mi_ri_def mi_ok_iff)

lemma mi_is_strictly_positive_iff: "mi_is_strictly_positive I \<longleftrightarrow> mi_ok I \<and> ri_is_strictly_positive (mi_ri I)"
  by (auto simp: mi_is_strictly_positive_def ri_is_strictly_positive_def mi_ri_def mi_ok_iff)

lemma mi_strictly_positive: "mi_is_strictly_positive I \<Longrightarrow> mi_encloses I x \<Longrightarrow> 0 < x"
  by (auto simp: mi_is_strictly_positive_iff mi_encloses_def intro: strictly_positive_encloses)

lemma mi_excludes_zero: "\<not> mi_contains_zero I \<Longrightarrow> mi_encloses I x \<Longrightarrow> x \<noteq> 0"
  by (auto simp: mi_encloses_def mi_contains_zero_ok)

lemma mi_neg_holds [enclosure_intros]: "mi_holds A x \<Longrightarrow> mi_holds (mi_neg A) (- x)"
  by (auto simp: mi_holds_def mi_nan_def mi_neg_def mi_encloses_iff mi_ok_iff of_rat_minus)

lemma of_rat_below: "x \<le> y \<Longrightarrow> real_of_rat y \<le> e \<Longrightarrow> real_of_rat x \<le> e"
  and of_rat_above: "x \<le> y \<Longrightarrow> e \<le> real_of_rat x \<Longrightarrow> e \<le> real_of_rat y"
  by (metis of_rat_less_eq order_trans)+

lemma rounds_down_less: "total_less d l \<Longrightarrow> rounds_down l e \<Longrightarrow> rounds_down d e' \<Longrightarrow> rounds_down d e"
  unfolding rounds_down_def total_less_def
  by (cases "data d"; cases "data l") (auto intro: of_rat_below less_imp_le split: if_splits)

lemma rounds_down_not_less: "\<not> total_less d l \<Longrightarrow> rounds_down l e \<Longrightarrow> rounds_down d e' \<Longrightarrow> rounds_down l e'"
  unfolding rounds_down_def total_less_def
  by (cases "data d"; cases "data l") (auto simp: not_less intro: of_rat_below split: if_splits)

lemma rounds_up_less: "total_less u v \<Longrightarrow> rounds_up u e \<Longrightarrow> rounds_up v e' \<Longrightarrow> rounds_up v e"
  unfolding rounds_up_def total_less_def
  by (cases "data u"; cases "data v") (auto intro: of_rat_above less_imp_le split: if_splits)

lemma rounds_up_not_less: "\<not> total_less u v \<Longrightarrow> rounds_up u e \<Longrightarrow> rounds_up v e' \<Longrightarrow> rounds_up u e'"
  unfolding rounds_up_def total_less_def
  by (cases "data u"; cases "data v") (auto simp: not_less intro: of_rat_above split: if_splits)

lemmas rounds_extrema = rounds_down_less rounds_down_not_less rounds_up_less rounds_up_not_less

lemma corners_values:
  assumes "is_finite l" "is_finite u"
  shows "(\<forall>c \<in> set (corners l u). is_finite c)" "fval ` set (corners l u) = {fval l, fval u}" "corners l u \<noteq> []"
  using assms by (auto simp: corners_def float_equal_def)

text \<open>What the four products and a pair of bounds say of the rational product interval.\<close>

lemma corner_bounds:
  assumes "\<And>a b. a \<in> {lower A, upper A} \<Longrightarrow> b \<in> {lower B, upper B} \<Longrightarrow>
      rounds_down l (of_rat (a * b)) \<and> rounds_up u (of_rat (a * b))"
  shows "rounds_down l (of_rat (lower (ri_mul A B))) \<and> rounds_up u (of_rat (upper (ri_mul A B)))"
  using ri_mul_corners[of A B] assms by (metis (no_types, lifting))

context directed_mpfr
begin

lemma directed_intros:
  "directed f p e \<Longrightarrow> rounds_down (f Down) e" "directed f p e \<Longrightarrow> rounds_up (f Up) e"
  by (simp_all add: directed_def)

lemma corner_fold:
  assumes "\<And>xy. xy \<in> set xys \<Longrightarrow> is_finite (fst xy) \<and> is_finite (snd xy)"
    "\<And>l u e. acc = Some (l, u) \<Longrightarrow> e \<in> E \<Longrightarrow> rounds_down l e \<and> rounds_up u e" "acc = None \<longleftrightarrow> E = {}"
    "fold (corner_step L p) xys acc = Some (l, u)"
    "e \<in> E \<union> (\<lambda>xy. of_rat (fval (fst xy) * fval (snd xy))) ` set xys"
  shows "rounds_down l e \<and> rounds_up u e"
  using assms
proof (induction xys arbitrary: acc E)
  case (Cons xy xys)
  let ?e = "real_of_rat (fval (fst xy) * fval (snd xy))"
  have fin: "is_finite (fst xy)" "is_finite (snd xy)" using Cons.prems(1) by auto
  note down = directed_intros(1)[OF product[OF fin, of p]] and up = directed_intros(2)[OF product[OF fin, of p]]
  have step: "rounds_down l' e' \<and> rounds_up u' e'"
    if st: "corner_step L p xy acc = Some (l', u')" and e': "e' \<in> insert ?e E" for l' u' e'
  proof (cases acc)
    case None
    then show ?thesis using st e' Cons.prems(3) down up by (auto simp: corner_step_def)
  next
    case (Some lu)
    obtain l0 u0 where lu: "lu = (l0, u0)" by (cases lu)
    obtain e0 where e0: "e0 \<in> E" using Cons.prems(3) Some by auto
    have old: "x \<in> E \<Longrightarrow> rounds_down l0 x \<and> rounds_up u0 x" for x using Cons.prems(2) Some lu by blast
    have new: "rounds_down l' ?e" "rounds_up u' ?e"
      using st Some lu down up old[OF e0] by (auto simp: corner_step_def Let_def intro: rounds_extrema)
    have "rounds_down l' x \<and> rounds_up u' x" if "x \<in> E" for x
      using st Some lu down up old[OF that] by (auto simp: corner_step_def Let_def intro: rounds_extrema)
    then show ?thesis using new e' by auto
  qed
  have "corner_step L p xy acc \<noteq> None" by (auto simp: corner_step_def Let_def split: option.split)
  then show ?case
  proof (intro Cons.IH[of "corner_step L p xy acc" "insert ?e E"])
    show "\<And>l' u' e'. corner_step L p xy acc = Some (l', u') \<Longrightarrow> e' \<in> insert ?e E \<Longrightarrow> rounds_down l' e' \<and> rounds_up u' e'"
      by (rule step)
  qed (use Cons.prems in auto)
qed auto

lemma corner_extrema_bounds:
  assumes fin: "is_finite al" "is_finite au" "is_finite bl" "is_finite bu"
    and run: "corner_extrema L p (corners al au) (corners bl bu) = Some (l, u)"
  defines "P \<equiv> ri_mul \<lparr>lower = fval al, upper = fval au\<rparr> \<lparr>lower = fval bl, upper = fval bu\<rparr>"
  shows "rounds_down l (of_rat (lower P)) \<and> rounds_up u (of_rat (upper P))"
  unfolding P_def
proof (rule corner_bounds)
  fix a b assume ab: "a \<in> {lower \<lparr>lower = fval al, upper = fval au\<rparr>, upper \<lparr>lower = fval al, upper = fval au\<rparr>}"
    "b \<in> {lower \<lparr>lower = fval bl, upper = fval bu\<rparr>, upper \<lparr>lower = fval bl, upper = fval bu\<rparr>}"
  note cA = corners_values[OF fin(1,2)] and cB = corners_values[OF fin(3,4)]
  obtain x y where xy: "x \<in> set (corners al au)" "fval x = a" "y \<in> set (corners bl bu)" "fval y = b"
  proof -
    have "a \<in> fval ` set (corners al au)" "b \<in> fval ` set (corners bl bu)"
      unfolding cA(2) cB(2) using ab by simp_all
    then show thesis using that by blast
  qed
  show "rounds_down l (of_rat (a * b)) \<and> rounds_up u (of_rat (a * b))"
    by (rule corner_fold[OF _ _ _ run[unfolded corner_extrema_def], where E = "{}"])
      (use xy cA(1) cB(1) in \<open>auto intro!: image_eqI[where x = "(x, y)"]\<close>)
qed

lemma holds_add [enclosure_intros]: "mi_holds A x \<Longrightarrow> mi_holds B y \<Longrightarrow> mi_holds (mi_add L A B) (x + y)"
  and holds_sub [enclosure_intros]: "mi_holds A x \<Longrightarrow> mi_holds B y \<Longrightarrow> mi_holds (mi_sub L A B) (x - y)"
proof -
  assume h: "mi_holds A x" "mi_holds B y"
  have "mi_holds (mi_add L A B) (x + y) \<and> mi_holds (mi_sub L A B) (x - y)"
  proof (cases "mi_compatible A B")
    case True
    note e = mi_compatible_holds[OF True h]
    have fin: "is_finite (mlower A)" "is_finite (mupper A)" "is_finite (mlower B)" "is_finite (mupper B)"
      using e by (auto simp: mi_encloses_def mi_ok_iff)
    show ?thesis
      using True e addition[OF fin(1,3)] addition[OF fin(2,4)] subtraction[OF fin(1,4)] subtraction[OF fin(2,3)]
      unfolding mi_add_def mi_sub_def Let_def
      by (auto intro!: mi_arithmetic_result_holds directed_intros
          simp: of_rat_add of_rat_diff mi_encloses_iff intro: add_mono diff_mono)
  qed (simp add: mi_add_def mi_sub_def)
  then show "mi_holds (mi_add L A B) (x + y)" "mi_holds (mi_sub L A B) (x - y)" by auto
qed

lemma holds_mul [enclosure_intros]:
  assumes "mi_holds A x" "mi_holds B y"
  shows "mi_holds (mi_mul L A B) (x * y)"
proof (cases "mi_compatible A B")
  case True
  note e = mi_compatible_holds[OF True assms]
  have prod: "encloses (ri_mul (mi_ri A) (mi_ri B)) (x * y)" using e by (auto simp: mi_encloses_def intro: encloses_mul)
  show ?thesis
  proof (cases "corner_extrema L (mi_precision A) (corners (mlower A) (mupper A)) (corners (mlower B) (mupper B))")
    case (Some lu)
    obtain l u where lu: "lu = (l, u)" by (cases lu)
    have "rounds_down l (of_rat (lower (ri_mul (mi_ri A) (mi_ri B)))) \<and>
        rounds_up u (of_rat (upper (ri_mul (mi_ri A) (mi_ri B))))"
      using corner_extrema_bounds[OF _ _ _ _ Some[unfolded lu]] e by (auto simp: mi_encloses_def mi_ok_iff mi_ri_def)
    then show ?thesis
      using True Some lu prod by (auto simp: mi_mul_def encloses_def intro: mi_arithmetic_result_holds)
  qed (simp add: mi_mul_def True)
qed (simp add: mi_mul_def)

lemma holds_square [enclosure_intros]:
  assumes "mi_holds A x"
  shows "mi_holds (mi_square L A) (x * x)"
proof (cases "mi_contains_zero A")
  case False
  then show ?thesis using holds_mul[OF assms assms] by (simp add: mi_square_def)
next
  case True
  let ?l = "float_abs (mlower A)" and ?u = "float_abs (mupper A)"
  let ?m = "if float_le ?u ?l then ?l else ?u"
  have eq: "mi_square L A = mi_arithmetic_result (float_int (mi_precision A) 0) (float_mul L Up (mi_precision A) ?m ?m)"
    using True by (simp add: mi_square_def Let_def)
  show ?thesis
  proof (cases "mi_nan A")
    case nan: True
    then have "is_nan ?m" by (simp add: mi_nan_def)
    then have "is_nan (float_mul L Up (mi_precision A) ?m ?m)" using product_nan by blast
    then have "\<not> is_finite (float_mul L Up (mi_precision A) ?m ?m)" by (rule nan_not_finite)
    then show ?thesis unfolding eq by (simp add: mi_arithmetic_result_def mi_new_def)
  next
    case False
    then have e: "mi_encloses A x" using assms by (simp add: mi_holds_def)
    then have fin: "is_finite (mlower A)" "is_finite (mupper A)" by (auto simp: mi_encloses_def mi_ok_iff)
    then have m: "is_finite ?m" "fval ?m = max \<bar>fval (mlower A)\<bar> \<bar>fval (mupper A)\<bar>" by auto
    have "\<bar>x\<bar> \<le> of_rat (fval ?m)"
      unfolding m(2) using e encloses_abs_le[of "mi_ri A" x] by (simp add: mi_encloses_def mi_ri_def)
    then have "\<bar>x\<bar> * \<bar>x\<bar> \<le> of_rat (fval ?m) * of_rat (fval ?m)" by (intro mult_mono) auto
    then have "x * x \<le> of_rat (fval ?m * fval ?m)" unfolding of_rat_mult by simp
    then show ?thesis
      unfolding eq using directed_intros(2)[OF product[OF m(1) m(1), of "mi_precision A"]]
      by (intro mi_arithmetic_result_holds[where a = 0]) (auto simp: rounds_down_def float_int_def)
  qed
qed

lemma reciprocal_encloses:
  assumes "mi_reciprocal L A = Inr R" "mi_encloses A x"
  shows "x \<noteq> 0" "mi_encloses R (1 / x)"
proof -
  have ok: "mi_ok A" "\<not> mi_contains_zero A"
    and R: "mi_new (float_div L Down (mi_precision A) (float_int (mi_precision A) 1) (mupper A))
      (float_div L Up (mi_precision A) (float_int (mi_precision A) 1) (mlower A)) = Inr R"
    using assms(1) by (auto simp: mi_reciprocal_def Let_def result_simps split: if_splits)
  note bounds = reciprocal_bounds[of "mi_ri A" x, unfolded mi_ri_def, simplified, folded mi_ri_def]
  show "x \<noteq> 0" using mi_excludes_zero[OF ok(2) assms(2)] .
  have fin: "is_finite (mlower A)" "is_finite (mupper A)" using ok by (auto simp: mi_ok_iff)
  have nz: "fval (mlower A) \<noteq> 0" "fval (mupper A) \<noteq> 0"
    using ok by (auto simp: mi_contains_zero_ok ri_contains_zero_def mi_ri_def mi_ok_iff)
  have "1 / of_rat (fval (mupper A)) \<le> 1 / x" "1 / x \<le> 1 / of_rat (fval (mlower A))"
    using bounds ok assms(2) by (auto simp: mi_encloses_def mi_contains_zero_ok)
  then show "mi_encloses R (1 / x)"
    using R directed_intros(1)[OF division[OF float_int_simps(1)[of "mi_precision A" 1] fin(2) nz(2), of "mi_precision A"]]
      directed_intros(2)[OF division[OF float_int_simps(1)[of "mi_precision A" 1] fin(1) nz(1), of "mi_precision A"]]
    by (intro mi_new_encloses[OF R]) (auto simp: of_rat_divide)
qed

lemma div_encloses:
  assumes "mi_div L A B = Inr R" "mi_encloses A x" "mi_encloses B y"
  shows "y \<noteq> 0" "mi_encloses R (x / y)"
proof -
  obtain V where V: "mi_reciprocal L B = Inr V" "R = mi_mul L A V" "mi_ok R"
    using assms(1) by (auto simp: mi_div_def Let_def result_simps split: if_splits)
  show "y \<noteq> 0" using reciprocal_encloses[OF V(1) assms(3)] by simp
  have "mi_holds R (x * (1 / y))"
    unfolding V(2) using reciprocal_encloses(2)[OF V(1) assms(3)] assms(2) by (intro holds_mul mi_encloses_holds)
  then show "mi_encloses R (x / y)" using V(3) by simp
qed

lemma sqrt_encloses:
  assumes "mi_sqrt L A = Inr R" "mi_encloses A x"
  shows "0 \<le> x" "mi_encloses R (sqrt x)"
proof -
  have ok: "mi_ok A" "0 \<le> fval (mlower A)" and R: "mi_new (float_sqrt L Down (mlower A)) (float_sqrt L Up (mupper A)) = Inr R"
    using assms(1) by (auto simp: mi_sqrt_def result_simps mi_ok_iff split: if_splits)
  have fin: "is_finite (mlower A)" "is_finite (mupper A)" "0 \<le> fval (mupper A)" using ok by (auto simp: mi_ok_iff)
  have b: "of_rat (fval (mlower A)) \<le> x" "x \<le> of_rat (fval (mupper A))" using assms(2) by (auto simp: mi_encloses_iff)
  show "0 \<le> x" using b(1) ok(2) by (metis of_rat_0 of_rat_less_eq order_trans)
  show "mi_encloses R (sqrt x)"
    using b square_root[OF fin(1) ok(2)] square_root[OF fin(2,3)]
    by (intro mi_new_encloses[OF R]) (auto intro: directed_intros)
qed

lemma from_rational_holds:
  assumes "mi_from_rational L q p = Inr I"
  shows "mi_holds I (of_rat q)"
  using assms rational[of p q]
  by (auto simp: mi_from_rational_def with_precision_range_def intro!: mi_arithmetic_result_holds directed_intros split: if_splits)

lemma from_i64_holds:
  assumes "mi_from_i64 L n p = Inr I"
  shows "mi_holds I (of_int n)"
  using assms rational[of p "of_int n"]
  by (auto simp: mi_from_i64_def with_precision_range_def directed_def split: if_splits
      intro!: mi_arithmetic_result_holds[where a = "of_int n" and b = "of_int n"])

lemma from_float_encloses:
  assumes "mi_from_float L v p = Inr I"
  shows "is_finite v" "mi_encloses I (of_rat (fval v))"
proof -
  have v: "is_finite v" "mi_new (round_float L Down p v) (round_float L Up p v) = Inr I"
    using assms by (auto simp: mi_from_float_def split: if_splits)
  show "is_finite v" by (rule v(1))
  show "mi_encloses I (of_rat (fval v))"
    using conversion[OF v(1), of p] by (intro mi_new_encloses[OF v(2)]) (auto intro: directed_intros)
qed

lemma with_precision_encloses:
  assumes "mi_with_precision L A p = Inr I" "mi_encloses A x"
  shows "mi_encloses I x"
proof -
  have ok: "mi_ok A" and I: "mi_new (round_float L Down p (mlower A)) (round_float L Up p (mupper A)) = Inr I"
    using assms(1) by (auto simp: mi_with_precision_def result_simps split: if_splits)
  then have fin: "is_finite (mlower A)" "is_finite (mupper A)" by (auto simp: mi_ok_iff)
  show ?thesis
    using assms(2) conversion[OF fin(1), of p] conversion[OF fin(2), of p]
    by (intro mi_new_encloses[OF I]) (auto intro: directed_intros simp: mi_encloses_iff)
qed

end

section \<open>Complex enclosure\<close>

definition mc_encloses :: "MpfrComplexBall \<Rightarrow> complex \<Rightarrow> bool" where
  "mc_encloses B z \<longleftrightarrow> mi_encloses (mreal B) (Re z) \<and> mi_encloses (mimaginary B) (Im z)"

lemma mc_validate_Inr [result_simps]:
  "mc_validate B = Inr u \<longleftrightarrow> mi_ok (mreal B) \<and> mi_ok (mimaginary B) \<and> mi_precision (mreal B) = mi_precision (mimaginary B)"
  by (auto simp: mc_validate_def result_simps)

lemma mc_new_Inr [result_simps]:
  "mc_new r i = Inr B \<longleftrightarrow> B = \<lparr>mreal = r, mimaginary = i\<rparr> \<and> mi_ok r \<and> mi_ok i \<and> mi_precision r = mi_precision i"
  by (auto simp: mc_new_def result_simps)

lemma mc_new_encloses:
  assumes "mc_new r i = Inr B" "mi_holds r x" "mi_holds i y"
  shows "mc_encloses B (Complex x y)"
  using assms by (auto simp: mc_new_Inr mc_encloses_def)

lemma mc_enclosesD: "mc_encloses B z \<Longrightarrow> mi_holds (mreal B) (Re z)" "mc_encloses B z \<Longrightarrow> mi_holds (mimaginary B) (Im z)"
  by (simp_all add: mc_encloses_def mi_encloses_holds)

lemma mc_excludes_zero_nonzero: "mc_excludes_zero B \<Longrightarrow> mc_encloses B z \<Longrightarrow> z \<noteq> 0"
  by (auto simp: mc_excludes_zero_def mc_encloses_def dest: mi_excludes_zero)

context directed_mpfr
begin

lemma mc_add_encloses:
  assumes "mc_add L A B = Inr C" "mc_encloses A x" "mc_encloses B y"
  shows "mc_encloses C (x + y)"
proof -
  have "mc_new (mi_add L (mreal A) (mreal B)) (mi_add L (mimaginary A) (mimaginary B)) = Inr C"
    using assms(1) by (auto simp: mc_add_def bind_result_eq_Inr)
  from mc_new_encloses[OF this, of "Re x + Re y" "Im x + Im y"] show ?thesis
    using assms(2,3) by (simp add: mc_enclosesD holds_add complex_eq_iff[of "Complex _ _"] plus_complex.code)
qed

lemma mc_sub_encloses:
  assumes "mc_sub L A B = Inr C" "mc_encloses A x" "mc_encloses B y"
  shows "mc_encloses C (x - y)"
proof -
  have "mc_new (mi_sub L (mreal A) (mreal B)) (mi_sub L (mimaginary A) (mimaginary B)) = Inr C"
    using assms(1) by (auto simp: mc_sub_def bind_result_eq_Inr)
  from mc_new_encloses[OF this, of "Re x - Re y" "Im x - Im y"] show ?thesis
    using assms(2,3) by (simp add: mc_enclosesD holds_sub minus_complex.code)
qed

lemma mc_mul_encloses:
  assumes "mc_mul L A B = Inr C" "mc_encloses A x" "mc_encloses B y"
  shows "mc_encloses C (x * y)"
proof -
  have "mc_new (mi_sub L (mi_mul L (mreal A) (mreal B)) (mi_mul L (mimaginary A) (mimaginary B)))
      (mi_add L (mi_mul L (mreal A) (mimaginary B)) (mi_mul L (mimaginary A) (mreal B))) = Inr C"
    using assms(1) by (auto simp: mc_mul_def bind_result_eq_Inr Let_def)
  from mc_new_encloses[OF this, of "Re x * Re y - Im x * Im y" "Re x * Im y + Im x * Re y"] show ?thesis
    using assms(2,3) by (simp add: mc_enclosesD holds_sub holds_add holds_mul times_complex.code)
qed

lemma modulus_squared_holds:
  assumes "mc_encloses A z"
  shows "mi_holds (mc_modulus_squared L A) ((cmod z)\<^sup>2)"
proof -
  have "(cmod z)\<^sup>2 = Re z * Re z + Im z * Im z" using cmod_power2[of z] by (simp only: power2_eq_square)
  then show ?thesis using assms by (simp add: mc_modulus_squared_def holds_add holds_square mc_enclosesD)
qed

lemma mc_reciprocal_encloses:
  assumes "mc_reciprocal L A = Inr C" "mc_encloses A z"
  shows "z \<noteq> 0" "mc_encloses C (1 / z)"
proof -
  let ?d = "mc_modulus_squared L A"
  obtain r i where d: "mi_ok ?d" "\<not> mi_contains_zero ?d" and ri: "mi_div L (mreal A) ?d = Inr r"
    "mi_div L (mi_neg (mimaginary A)) ?d = Inr i" "mc_new r i = Inr C"
    using assms(1) by (auto simp: mc_reciprocal_def Let_def bind_result_eq_Inr mi_validate_Inr split: if_splits)
  have den: "mi_encloses ?d ((cmod z)\<^sup>2)" using modulus_squared_holds[OF assms(2)] d(1) by simp
  show "z \<noteq> 0" using mi_excludes_zero[OF d(2) den] by auto
  have neg: "mi_encloses (mi_neg (mimaginary A)) (- Im z)"
  proof -
    have "mi_ok (mi_neg (mimaginary A))"
      using ri(2) by (auto simp: mi_div_def bind_result_eq_Inr mi_validate_Inr)
    then show ?thesis using mi_neg_holds[OF mc_enclosesD(2)[OF assms(2)]] by simp
  qed
  have "mi_encloses r (Re z / (cmod z)\<^sup>2)" "mi_encloses i (- Im z / (cmod z)\<^sup>2)"
    using div_encloses(2)[OF ri(1) _ den] div_encloses(2)[OF ri(2) neg den] assms(2) by (auto simp: mc_encloses_def)
  then have "mc_encloses C (Complex (Re z / (cmod z)\<^sup>2) (- Im z / (cmod z)\<^sup>2))"
    by (intro mc_new_encloses[OF ri(3)] mi_encloses_holds)
  moreover have "Complex (Re z / (cmod z)\<^sup>2) (- Im z / (cmod z)\<^sup>2) = 1 / z"
    by (simp add: complex_eq_iff Re_divide Im_divide cmod_power2)
  ultimately show "mc_encloses C (1 / z)" by simp
qed

lemma mc_div_encloses:
  assumes "mc_div L A B = Inr C" "mc_encloses A x" "mc_encloses B y"
  shows "y \<noteq> 0" "mc_encloses C (x / y)"
proof -
  obtain V where V: "mc_reciprocal L B = Inr V" "mc_mul L A V = Inr C"
    using assms(1) by (auto simp: mc_div_def bind_result_eq_Inr)
  note inv = mc_reciprocal_encloses[OF V(1) assms(3)]
  show "y \<noteq> 0" by (rule inv(1))
  show "mc_encloses C (x / y)" using mc_mul_encloses[OF V(2) assms(2) inv(2)] by simp
qed

lemma powu_loop_encloses:
  assumes "powu_loop L R F n = Inr C" "mc_encloses R r" "mc_encloses F f"
  shows "mc_encloses C (r * f ^ n)"
  using assms
proof (induction n arbitrary: R F r f rule: less_induct)
  case (less n)
  show ?case
  proof (cases "n = 0")
    case True
    then show ?thesis using less.prems by (simp add: powu_loop.simps)
  next
    case False
    obtain R' where R': "(if n mod 2 = 1 then mc_mul L R F else Inr R) = Inr R'"
      and rest: "(if n div 2 > 0 then bind_result (mc_mul L F F) (\<lambda>F. powu_loop L R' F (n div 2))
        else powu_loop L R' F (n div 2)) = Inr C"
      using less.prems(1)[unfolded powu_loop.simps[of L R F n]] False by (auto simp: bind_result_eq_Inr Let_def)
    have r': "mc_encloses R' (r * f ^ (n mod 2))"
      using R' less.prems(2,3) mc_mul_encloses[of R F R'] by (cases "n mod 2 = 1") auto
    have pow: "f ^ n = f ^ (n mod 2) * (f * f) ^ (n div 2)"
      by (metis mod_mult_div_eq power2_eq_square power_add power_mult)
    show ?thesis
    proof (cases "n div 2 > 0")
      case True
      then obtain F' where F': "mc_mul L F F = Inr F'" "powu_loop L R' F' (n div 2) = Inr C"
        using rest by (auto simp: bind_result_eq_Inr)
      have "mc_encloses C (r * f ^ (n mod 2) * (f * f) ^ (n div 2))"
        using False by (intro less.IH[OF _ F'(2) r' mc_mul_encloses[OF F'(1) less.prems(3,3)]]) simp
      then show ?thesis unfolding pow by (simp add: mult.assoc)
    next
      case False
      then have "n = n mod 2" "C = R'" using rest by (auto simp: powu_loop.simps div_eq_0_iff)
      then show ?thesis using r' by simp
    qed
  qed
qed

lemma powu_encloses:
  assumes "mc_powu L A n = Inr C" "mc_encloses A z"
  shows "mc_encloses C (z ^ n)"
proof -
  let ?p = "mc_precision A"
  obtain R where R: "mc_point L (float_int ?p 1) (float_int ?p 0) = Inr R" "powu_loop L R A n = Inr C"
    using assms(1) by (auto simp: mc_powu_def Let_def bind_result_eq_Inr)
  obtain r i where ri: "mi_from_float L (float_int ?p 1) ?p = Inr r" "mi_from_float L (float_int ?p 0) ?p = Inr i"
    "mc_new r i = Inr R" using R(1) by (auto simp: mc_point_def bind_result_eq_Inr)
  have "mc_encloses R (Complex 1 0)"
    using from_float_encloses(2)[OF ri(1)] from_float_encloses(2)[OF ri(2)] 
    by (intro mc_new_encloses[OF ri(3)] mi_encloses_holds) simp_all
  then have "mc_encloses R 1" by (simp add: one_complex.code)
  from powu_loop_encloses[OF R(2) this assms(2)] show ?thesis by simp
qed

lemma horner_encloses:
  assumes "fold_result (\<lambda>coefficient value. bind_result (mc_mul L value Z) (\<lambda>product. mc_add L product coefficient)) Cs V = Inr C"
    "mc_encloses V v" "mc_encloses Z z" "list_all2 mc_encloses Cs cs"
  shows "mc_encloses C (fold (\<lambda>c v. v * z + c) cs v)"
  using assms(4,1,2)
proof (induction Cs cs arbitrary: V v rule: list_all2_induct)
  case (Cons A Cs c cs)
  then obtain P W where P: "mc_mul L V Z = Inr P" "mc_add L P A = Inr W"
    and rest: "fold_result (\<lambda>coefficient value. bind_result (mc_mul L value Z) (\<lambda>product. mc_add L product coefficient)) Cs W = Inr C"
    by (auto simp: bind_result_eq_Inr)
  have "mc_encloses W (v * z + c)"
    by (rule mc_add_encloses[OF P(2) mc_mul_encloses[OF P(1) Cons.prems(2) assms(3)] Cons.hyps(1)])
  from Cons.IH[OF rest this] show ?case by simp
qed simp

end

lemma fold_horner:
  fixes z :: complex
  shows "fold (\<lambda>c v. v * z + c) (rev cs) v = pval cs z + v * z ^ length cs"
  by (induction cs arbitrary: v) (simp_all add: algebra_simps)

section \<open>Properties\<close>

text \<open>C14. Directed MPFR interval arithmetic is sound for any library with directed rounding: on valid
  operands every infallible operation returns the NaN interval or an interval containing the exact real result, a division or
  square root that returns contains the exact quotient or root, and the conversion to a rational interval
  is exact.\<close>

theorem mpfr_interval_arithmetic_sound:
  assumes "directed_mpfr L" "mi_encloses A x" "mi_encloses B y"
  shows "mi_holds (mi_add L A B) (x + y) \<and> mi_holds (mi_sub L A B) (x - y) \<and> mi_holds (mi_neg A) (- x) \<and>
    mi_holds (mi_mul L A B) (x * y) \<and> mi_holds (mi_square L A) (x * x) \<and>
    (\<forall>R. mi_div L A B = Inr R \<longrightarrow> y \<noteq> 0 \<and> mi_encloses R (x / y)) \<and>
    (\<forall>R. mi_sqrt L A = Inr R \<longrightarrow> 0 \<le> x \<and> mi_encloses R (sqrt x)) \<and>
    mi_to_rational_interval A = Inr (mi_ri A) \<and> encloses (mi_ri A) x"
proof -
  note h = mi_encloses_holds[OF assms(2)] mi_encloses_holds[OF assms(3)]
  have "mi_to_rational_interval A = Inr (mi_ri A)"
    using mi_encloses_ok[OF assms(2)]
    by (simp add: mi_to_rational_interval_def mi_try_to_rational_interval_def float_to_rational_def mi_ok_iff ri_new_def mi_ri_def)
  then show ?thesis
    using directed_mpfr.holds_add[OF assms(1) h] directed_mpfr.holds_sub[OF assms(1) h] mi_neg_holds[OF h(1)]
      directed_mpfr.holds_mul[OF assms(1) h] directed_mpfr.holds_square[OF assms(1) h(1)]
      directed_mpfr.div_encloses[OF assms(1) _ assms(2,3)] directed_mpfr.sqrt_encloses[OF assms(1) _ assms(2)] assms(2)
    by (auto simp: mi_encloses_def)
qed

definition box_53 :: "rat \<Rightarrow> rat \<Rightarrow> MpfrInterval" where
  "box_53 l u = \<lparr>mlower = finite_float 53 l, mupper = finite_float 53 u\<rparr>"

lemma box_53_encloses: "of_rat l \<le> x \<Longrightarrow> x \<le> of_rat u \<Longrightarrow> mi_encloses (box_53 l u) x"
  using order_trans[of "of_rat l" x "of_rat u"]
  by (simp add: mi_encloses_iff mi_ok_iff box_53_def finite_float_def float_defs of_rat_less_eq)

theorem mpfr_interval_arithmetic_sound_witness:
  "mi_ok (mi_mul reference_rug (box_53 1 2) (box_53 (-3) 1)) \<and>
   mi_encloses (mi_mul reference_rug (box_53 1 2) (box_53 (-3) 1)) (3 / 2 * (- 1 / 3))"
proof -
  have "mi_encloses (box_53 1 2) (3 / 2)" "mi_encloses (box_53 (-3) 1) (- 1 / 3)"
    by (rule box_53_encloses; simp add: of_rat_minus)+
  note sound = mpfr_interval_arithmetic_sound[OF ref_mpfr.directed_mpfr_axioms this]
  have "is_ok (mi_validate (mi_mul reference_rug (box_53 1 2) (box_53 (-3) 1)))" by code_simp
  then show ?thesis using sound by simp
qed

text \<open>C15. Horner evaluation over complex MPFR balls is sound: if \<open>evaluate_complex_polynomial_mpfr\<close> returns a ball, it
  contains the value of every complex polynomial whose coefficients lie in the coefficient balls, at every argument in
  the argument ball.\<close>

theorem mpfr_complex_polynomial_sound:
  assumes "directed_mpfr L" "evaluate_complex_polynomial_mpfr L coefficients argument = Inr result"
    and "list_all2 mc_encloses coefficients cs" "mc_encloses argument z"
  shows "cs \<noteq> [] \<and> mc_encloses result (pval cs z)"
proof -
  obtain highest rest where rev: "rev coefficients = highest # rest"
    and run: "fold_result (\<lambda>coefficient value. bind_result (mc_mul L value argument)
      (\<lambda>product. mc_add L product coefficient)) rest highest = Inr result"
    using assms(2)
    by (auto simp: evaluate_complex_polynomial_mpfr_def bind_result_eq_Inr split: list.splits if_splits)
  have "list_all2 mc_encloses (highest # rest) (rev cs)" unfolding rev[symmetric] using assms(3) by simp
  then obtain c ds where cs: "rev cs = c # ds" "mc_encloses highest c" "list_all2 mc_encloses rest ds"
    by (auto simp: list_all2_Cons1)
  have "mc_encloses result (fold (\<lambda>c v. v * z + c) ds c)"
    by (rule directed_mpfr.horner_encloses[OF assms(1) run cs(2) assms(4) cs(3)])
  also have "fold (\<lambda>c v. v * z + c) ds c = fold (\<lambda>c v. v * z + c) (rev cs) 0" unfolding cs(1) by simp
  also have "\<dots> = pval cs z" by (simp add: fold_horner)
  finally show ?thesis using cs(1) by auto
qed

lemma ball_steps:
  "mc_mul reference_rug \<lparr>mreal = box_53 2 3, mimaginary = box_53 0 1\<rparr> \<lparr>mreal = box_53 1 2, mimaginary = box_53 1 1\<rparr> =
     Inr \<lparr>mreal = box_53 1 6, mimaginary = box_53 2 5\<rparr>"
  "mc_add reference_rug \<lparr>mreal = box_53 1 6, mimaginary = box_53 2 5\<rparr> \<lparr>mreal = box_53 1 1, mimaginary = box_53 0 0\<rparr> =
     Inr \<lparr>mreal = box_53 2 7, mimaginary = box_53 2 5\<rparr>"
  by code_simp+

lemma ball_valid: "l \<le> u \<Longrightarrow> l' \<le> u' \<Longrightarrow> mc_validate \<lparr>mreal = box_53 l u, mimaginary = box_53 l' u'\<rparr> = Inr () \<and>
    mc_precision \<lparr>mreal = box_53 l u, mimaginary = box_53 l' u'\<rparr> = 53"
  by (simp add: mc_validate_Inr mi_ok_iff mc_precision_def mi_precision_def box_53_def finite_float_def float_defs)

theorem mpfr_complex_polynomial_sound_witness:
  "\<exists>result. evaluate_complex_polynomial_mpfr reference_rug
      [\<lparr>mreal = box_53 1 1, mimaginary = box_53 0 0\<rparr>, \<lparr>mreal = box_53 2 3, mimaginary = box_53 0 1\<rparr>]
      \<lparr>mreal = box_53 1 2, mimaginary = box_53 1 1\<rparr> = Inr result \<and>
    mc_encloses result (pval [1, Complex 2 1] (Complex 1 1))"
proof -
  let ?cs = "[\<lparr>mreal = box_53 1 1, mimaginary = box_53 0 0\<rparr>, \<lparr>mreal = box_53 2 3, mimaginary = box_53 0 1\<rparr>]"
    and ?z = "\<lparr>mreal = box_53 1 2, mimaginary = box_53 1 1\<rparr>"
  have "is_ok (evaluate_complex_polynomial_mpfr reference_rug ?cs ?z)"
    by (simp add: evaluate_complex_polynomial_mpfr_def ball_valid ball_steps)
  then obtain result where run: "evaluate_complex_polynomial_mpfr reference_rug ?cs ?z = Inr result"
    by (auto simp: is_ok_iff)
  have "list_all2 mc_encloses ?cs [1, Complex 2 1]" "mc_encloses ?z (Complex 1 1)"
    by (auto simp: mc_encloses_def intro!: box_53_encloses)
  from mpfr_complex_polynomial_sound[OF ref_mpfr.directed_mpfr_axioms run this] run show ?thesis by blast
qed

end
