(* ===== verification/Inertia_Algebra.thy ===== *)
theory Inertia_Algebra
  imports Complex_Main
begin

text \<open>
  The linear algebra behind interval inertia: signatures of real quadratic forms and Sylvester's law.

  A quadratic form on the coordinates \<open>I\<close> has \<open>signature\<close> \<open>(P, N)\<close> when it is a sum of \<open>P\<close> positive and
  \<open>N\<close> negative multiples of squares of linear forms whose common kernel is trivial, with
  \<open>P + N = card I\<close>. Elimination of a pivot block extends a signature of the Schur complement
  (\<open>signature_extend\<close>, \<open>signature_pivot\<close>, \<open>signature_block\<close>). Against any orthonormal eigenbasis of a symmetric matrix the
  signature counts the eigenvalues by sign (\<open>signature_eigenvalues\<close>): this is the fact that turns an
  \<open>LDL\<^sup>T\<close> sign count into an eigenvalue count.
\<close>

section \<open>Homogeneous systems\<close>

lemma homogeneous_solution:
  assumes "finite K" "length eqs < card K"
  shows "\<exists>c. (\<exists>k \<in> K. c k \<noteq> 0) \<and> (\<forall>a \<in> set eqs. (\<Sum>k \<in> K. a k * c k) = (0 :: real))"
  using assms
proof (induction "length eqs" arbitrary: eqs K)
  case 0
  then have "K \<noteq> {}" by auto
  then show ?case using 0 by (intro exI[of _ "\<lambda>k. 1"]) auto
next
  case (Suc n)
  then obtain a eqs' where eqs: "eqs = a # eqs'" "length eqs' = n" by (cases eqs) auto
  show ?case
  proof (cases "\<forall>k \<in> K. a k = 0")
    case True
    then have zero: "(\<Sum>k \<in> K. a k * c k) = 0" for c by (intro sum.neutral) simp
    obtain c where "\<exists>k \<in> K. c k \<noteq> 0" "\<forall>b \<in> set eqs'. (\<Sum>k \<in> K. b k * c k) = 0"
      using Suc.hyps(1)[of eqs' K] Suc.prems eqs by fastforce
    then show ?thesis using zero eqs by (intro exI[of _ c]) auto
  next
    case False
    then obtain j where j: "j \<in> K" "a j \<noteq> 0" by blast
    let ?K = "K - {j}"
    let ?reduce = "\<lambda>b k. b k - b j * a k / a j"
    have "length (map ?reduce eqs') < card ?K" using Suc.prems eqs j(1) by simp
    then obtain c where c: "\<exists>k \<in> ?K. c k \<noteq> 0" "\<forall>b \<in> set (map ?reduce eqs'). (\<Sum>k \<in> ?K. b k * c k) = 0"
      using Suc.hyps(1)[of "map ?reduce eqs'" ?K] Suc.prems(1) eqs(2) by auto
    let ?s = "\<Sum>k \<in> ?K. a k * c k"
    let ?c = "c(j := - ?s / a j)"
    have split: "(\<Sum>k \<in> K. b k * ?c k) = b j * ?c j + (\<Sum>k \<in> ?K. b k * c k)" for b
      using Suc.prems(1) j(1) by (simp add: sum.remove[of K j])
    have "(\<Sum>k \<in> K. a k * ?c k) = 0" unfolding split using j(2) by simp
    moreover have "(\<Sum>k \<in> K. b k * ?c k) = 0" if "b \<in> set eqs'" for b
    proof -
      have "(\<Sum>k \<in> ?K. ?reduce b k * c k) = 0" using c(2) that by auto
      moreover have "(\<Sum>k \<in> ?K. ?reduce b k * c k) = (\<Sum>k \<in> ?K. b k * c k) - b j / a j * ?s"
        by (simp add: left_diff_distrib sum_subtractf sum_distrib_left mult.assoc)
      ultimately show ?thesis unfolding split by simp
    qed
    moreover have "\<exists>k \<in> K. ?c k \<noteq> 0" using c(1) by auto
    ultimately show ?thesis using eqs(1) by (intro exI[of _ ?c]) auto
  qed
qed

section \<open>Signatures\<close>

type_synonym form_term = "real \<times> (nat \<Rightarrow> real)"

definition lin :: "nat set \<Rightarrow> (nat \<Rightarrow> real) \<Rightarrow> (nat \<Rightarrow> real) \<Rightarrow> real" where
  "lin I a y = (\<Sum>i \<in> I. a i * y i)"

definition square_sum :: "nat set \<Rightarrow> form_term list \<Rightarrow> (nat \<Rightarrow> real) \<Rightarrow> real" where
  "square_sum I ts y = (\<Sum>(d, a) \<leftarrow> ts. d * (lin I a y)\<^sup>2)"

definition positives :: "form_term list \<Rightarrow> nat" where
  "positives ts = length (filter (\<lambda>t. 0 < fst t) ts)"

definition negatives :: "form_term list \<Rightarrow> nat" where
  "negatives ts = length (filter (\<lambda>t. fst t < 0) ts)"

definition signature :: "nat set \<Rightarrow> ((nat \<Rightarrow> real) \<Rightarrow> real) \<Rightarrow> nat \<Rightarrow> nat \<Rightarrow> bool" where
  "signature I q P N \<longleftrightarrow> (\<exists>ts. positives ts = P \<and> negatives ts = N \<and> length ts = P + N \<and> P + N = card I \<and>
     (\<forall>y. q y = square_sum I ts y) \<and>
     (\<forall>y. (\<forall>t \<in> set ts. lin I (snd t) y = 0) \<longrightarrow> (\<forall>i \<in> I. y i = 0)))"

lemma square_sum_simps [simp]:
  "square_sum I [] y = 0"
  "square_sum I ((d, a) # ts) y = d * (lin I a y)\<^sup>2 + square_sum I ts y"
  "square_sum I (ts @ us) y = square_sum I ts y + square_sum I us y"
  by (simp_all add: square_sum_def)

lemma counts_simps [simp]:
  "positives [] = 0" "negatives [] = 0"
  "positives ((d, a) # ts) = (if 0 < d then 1 else 0) + positives ts"
  "negatives ((d, a) # ts) = (if d < 0 then 1 else 0) + negatives ts"
  "positives (ts @ us) = positives ts + positives us"
  "negatives (ts @ us) = negatives ts + negatives us"
  by (simp_all add: positives_def negatives_def)

lemma signature_empty: "signature {} (\<lambda>y. 0) 0 0"
  unfolding signature_def by (intro exI[of _ "[]"]) auto

text \<open>Coefficients of a linear form, cut to a set of coordinates.\<close>

definition cut_form :: "nat set \<Rightarrow> (nat \<Rightarrow> real) \<Rightarrow> nat \<Rightarrow> real" where
  "cut_form I a i = (if i \<in> I then a i else 0)"

lemma lin_cut: "finite K \<Longrightarrow> I \<subseteq> K \<Longrightarrow> lin K (cut_form I a) y = lin I a y"
  unfolding lin_def cut_form_def by (intro sum.mono_neutral_cong_right) auto

lemma signature_extend:
  assumes fin: "finite I" "finite J" "I \<inter> J = {}"
    and sig: "signature I q' P N"
    and q: "\<And>y. q y = square_sum (I \<union> J) ts y + q' y"
    and ts: "length ts = card J" "positives ts + negatives ts = card J"
    and ker: "\<And>y. (\<forall>t \<in> set ts. lin (I \<union> J) (snd t) y = 0) \<Longrightarrow> (\<forall>i \<in> I. y i = 0) \<Longrightarrow> (\<forall>i \<in> J. y i = 0)"
  shows "signature (I \<union> J) q (P + positives ts) (N + negatives ts)"
proof -
  obtain us where us: "positives us = P" "negatives us = N" "length us = P + N" "P + N = card I"
    "\<And>y. q' y = square_sum I us y" "\<And>y. (\<forall>t \<in> set us. lin I (snd t) y = 0) \<Longrightarrow> (\<forall>i \<in> I. y i = 0)"
    using sig unfolding signature_def by blast
  let ?vs = "map (\<lambda>(d, a). (d, cut_form I a)) us"
  have lin_vs: "lin (I \<union> J) (cut_form I a) y = lin I a y" for a y using fin by (intro lin_cut) auto
  have "square_sum (I \<union> J) ?vs y = square_sum I us y" for y
    by (induction us) (auto simp: lin_vs)
  moreover have "positives ?vs = positives us" "negatives ?vs = negatives us"
    by (induction us) auto
  moreover have "card (I \<union> J) = card I + card J" using fin by (rule card_Un_disjoint)
  moreover have "\<forall>i \<in> I \<union> J. y i = 0" if z: "\<forall>t \<in> set (ts @ ?vs). lin (I \<union> J) (snd t) y = 0" for y
  proof -
    have "lin I (snd t) y = 0" if "t \<in> set us" for t
    proof -
      have "(fst t, cut_form I (snd t)) \<in> set ?vs" using that by force
      then have "lin (I \<union> J) (cut_form I (snd t)) y = 0" using z by force
      then show ?thesis by (simp add: lin_vs)
    qed
    then have "\<forall>i \<in> I. y i = 0" using us(6) by blast
    then show ?thesis using ker[of y] z by auto
  qed
  ultimately show ?thesis
    unfolding signature_def using us q ts by (intro exI[of _ "ts @ ?vs"]) simp
qed

text \<open>The form of a matrix on a set of coordinates, and how its value follows a relabelling.\<close>

definition mform :: "nat set \<Rightarrow> (nat \<Rightarrow> nat \<Rightarrow> real) \<Rightarrow> (nat \<Rightarrow> real) \<Rightarrow> real" where
  "mform I A y = (\<Sum>i \<in> I. \<Sum>j \<in> I. A i j * y i * y j)"

lemma involution_bij: "(\<And>i. i \<in> I \<Longrightarrow> f i \<in> I \<and> f (f i) = i) \<Longrightarrow> bij_betw f I I"
  by (intro bij_betw_byWitness[where f' = f]) auto

lemma lin_reindex:
  assumes "\<And>i. i \<in> I \<Longrightarrow> f i \<in> I \<and> f (f i) = i"
  shows "lin I a (y \<circ> f) = lin I (a \<circ> f) y"
proof -
  have "lin I (a \<circ> f) y = (\<Sum>i \<in> I. a (f i) * y (f (f i)))"
    unfolding lin_def using assms by (intro sum.cong) auto
  also have "\<dots> = (\<Sum>j \<in> I. a j * y (f j))"
    using sum.reindex_bij_betw[OF involution_bij[OF assms], of "\<lambda>j. a j * y (f j)"] .
  finally show ?thesis by (simp add: lin_def)
qed

lemma mform_reindex:
  assumes "\<And>i. i \<in> I \<Longrightarrow> f i \<in> I \<and> f (f i) = i"
  shows "mform I (\<lambda>i j. A (f i) (f j)) (y \<circ> f) = mform I A y"
proof -
  note bij = involution_bij[OF assms]
  have "mform I (\<lambda>i j. A (f i) (f j)) (y \<circ> f) = (\<Sum>i \<in> I. \<Sum>j \<in> I. A (f i) (f j) * y (f i) * y (f j))"
    by (simp add: mform_def)
  also have "\<dots> = (\<Sum>i \<in> I. \<Sum>j \<in> I. A (f i) j * y (f i) * y j)"
    by (intro sum.cong refl sum.reindex_bij_betw[OF bij, of "\<lambda>j. A (f _) j * y (f _) * y j"])
  also have "\<dots> = mform I A y"
    unfolding mform_def by (rule sum.reindex_bij_betw[OF bij, of "\<lambda>i. \<Sum>j \<in> I. A i j * y i * y j"])
  finally show ?thesis .
qed

lemma signature_reindex:
  assumes f: "\<And>i. i \<in> I \<Longrightarrow> f i \<in> I \<and> f (f i) = i"
    and sig: "signature I (mform I (\<lambda>i j. A (f i) (f j))) P N"
  shows "signature I (mform I A) P N"
proof -
  obtain ts where ts: "positives ts = P" "negatives ts = N" "length ts = P + N" "P + N = card I"
    "\<And>y. mform I (\<lambda>i j. A (f i) (f j)) y = square_sum I ts y"
    "\<And>y. (\<forall>t \<in> set ts. lin I (snd t) y = 0) \<Longrightarrow> (\<forall>i \<in> I. y i = 0)"
    using sig unfolding signature_def by blast
  let ?us = "map (\<lambda>(d, a). (d, a \<circ> f)) ts"
  have lin: "lin I (a \<circ> f) y = lin I a (y \<circ> f)" for a y using lin_reindex[OF f] by metis
  have "mform I A y = square_sum I ?us y" for y
  proof -
    have "square_sum I ?us y = square_sum I ts (y \<circ> f)"
      by (induction ts) (auto simp: lin[unfolded o_def] o_def)
    then show ?thesis using ts(5)[of "y \<circ> f"] mform_reindex[OF f] by metis
  qed
  moreover have "positives ?us = P" "negatives ?us = N"
    using ts(1,2) by (induction ts arbitrary: P N) auto
  moreover have "\<forall>i \<in> I. y i = 0" if z: "\<forall>t \<in> set ?us. lin I (snd t) y = 0" for y
  proof -
    have "\<forall>t \<in> set ts. lin I (snd t) (y \<circ> f) = 0"
    proof
      fix t assume "t \<in> set ts"
      then have "(fst t, snd t \<circ> f) \<in> set ?us" by force
      then have "lin I (snd t \<circ> f) y = 0" using z by force
      then show "lin I (snd t) (y \<circ> f) = 0" by (simp only: lin)
    qed
    then have zero: "y (f i) = 0" if "i \<in> I" for i using ts(6)[of "y \<circ> f"] that by simp
    show ?thesis
    proof
      fix i assume "i \<in> I"
      then show "y i = 0" using zero[of "f i"] f[of i] by simp
    qed
  qed
  ultimately show ?thesis unfolding signature_def using ts(3,4) by (intro exI[of _ ?us]) simp
qed

section \<open>Elimination of a pivot\<close>

lemma mform_insert:
  assumes "finite I" "p \<notin> I" "\<And>i. i \<in> I \<Longrightarrow> A p i = A i p"
  shows "mform (insert p I) A y = A p p * y p * y p + 2 * y p * lin I (\<lambda>i. A i p) y + mform I A y"
proof -
  have "mform (insert p I) A y = (\<Sum>j \<in> insert p I. A p j * y p * y j) + (\<Sum>i \<in> I. \<Sum>j \<in> insert p I. A i j * y i * y j)"
    unfolding mform_def using assms(1,2) by simp
  also have "(\<Sum>j \<in> insert p I. A p j * y p * y j) = A p p * y p * y p + y p * lin I (\<lambda>i. A i p) y"
    using assms by (simp add: lin_def sum_distrib_left algebra_simps)
  also have "(\<Sum>i \<in> I. \<Sum>j \<in> insert p I. A i j * y i * y j) = y p * lin I (\<lambda>i. A i p) y + mform I A y"
    using assms by (simp add: lin_def mform_def sum.distrib sum_distrib_left algebra_simps)
  finally show ?thesis by simp
qed

lemma lin_product: "lin I a y * lin I b y = (\<Sum>i \<in> I. \<Sum>j \<in> I. a i * b j * y i * y j)"
  by (simp add: lin_def sum_product algebra_simps)

lemma mform_diff: "mform I (\<lambda>i j. A i j - B i j) y = mform I A y - mform I B y"
  by (simp add: mform_def sum_subtractf left_diff_distrib)

lemma mform_rank_one: "mform I (\<lambda>i j. a i * b j) y = lin I a y * lin I b y"
  by (simp add: lin_product mform_def)

lemma mform_add: "mform I (\<lambda>i j. A i j + B i j) y = mform I A y + mform I B y"
  by (simp add: mform_def sum.distrib distrib_right)

lemma mform_scale: "mform I (\<lambda>i j. c * A i j) y = c * mform I A y"
  by (simp add: mform_def sum_distrib_left mult.assoc)

lemma mform_cong: "(\<And>i j. i \<in> I \<Longrightarrow> j \<in> I \<Longrightarrow> A i j = B i j) \<Longrightarrow> mform I A y = mform I B y"
  by (simp add: mform_def)

lemma signature_pivot:
  assumes fin: "finite I" "p \<notin> I" and sym: "\<And>i. i \<in> I \<Longrightarrow> A p i = A i p"
    and d: "A p p \<noteq> 0"
    and S: "\<And>i j. i \<in> I \<Longrightarrow> j \<in> I \<Longrightarrow> S i j = A i j - A i p * A j p / A p p"
    and sig: "signature I (mform I S) P N"
  shows "signature (insert p I) (mform (insert p I) A)
    (P + (if 0 < A p p then 1 else 0)) (N + (if A p p < 0 then 1 else 0))"
proof -
  let ?d = "A p p" and ?b = "\<lambda>y. lin I (\<lambda>i. A i p) y"
  let ?a = "\<lambda>i. if i = p then 1 else A i p / A p p"
  have lin: "lin (I \<union> {p}) ?a y = y p + ?b y / ?d" for y
  proof -
    have "lin (I \<union> {p}) ?a y = y p + (\<Sum>i \<in> I. ?a i * y i)" unfolding lin_def using fin by simp
    also have "(\<Sum>i \<in> I. ?a i * y i) = (\<Sum>i \<in> I. A i p * y i / ?d)"
      using fin(2) by (intro sum.cong) auto
    finally show ?thesis by (simp add: lin_def sum_divide_distrib)
  qed
  have "mform I S y = mform I A y - ?b y * ?b y / ?d" for y
  proof -
    have "mform I S y = mform I (\<lambda>i j. A i j - (1 / ?d) * (A i p * A j p)) y"
      by (rule mform_cong) (simp add: S)
    then show ?thesis unfolding mform_diff mform_scale mform_rank_one by simp
  qed
  moreover have "?d * (y p + ?b y / ?d)\<^sup>2 = ?d * y p * y p + 2 * y p * ?b y + ?b y * ?b y / ?d" for y
    using d by (simp add: power2_eq_square field_simps)
  ultimately have q: "mform (I \<union> {p}) A y = square_sum (I \<union> {p}) [(?d, ?a)] y + mform I S y" for y
    unfolding square_sum_simps lin using mform_insert[of I p A y, OF fin] sym by simp
  have "signature (I \<union> {p}) (mform (I \<union> {p}) A) (P + positives [(?d, ?a)]) (N + negatives [(?d, ?a)])"
  proof (rule signature_extend[OF fin(1) _ _ sig q])
    fix y assume y: "\<forall>t \<in> set [(?d, ?a)]. lin (I \<union> {p}) (snd t) y = 0" "\<forall>i \<in> I. y i = 0"
    then have "?b y = 0" by (simp add: lin_def)
    then show "\<forall>i \<in> {p}. y i = 0" using y(1) lin[of y] by simp
  qed (use fin d in auto)
  then show ?thesis by simp
qed

text \<open>A nonsingular symmetric two by two block.\<close>

lemma block_squares:
  fixes a b c :: real
  assumes "a * c - b * b \<noteq> 0"
  obtains d1 d2 m11 m12 m21 m22 where
    "\<And>u v. a * u * u + 2 * b * u * v + c * v * v = d1 * (m11 * u + m12 * v)\<^sup>2 + d2 * (m21 * u + m22 * v)\<^sup>2"
    "m11 * m22 - m12 * m21 \<noteq> 0"
    "d1 * d2 < 0 \<longleftrightarrow> a * c - b * b < 0" "d1 \<noteq> 0" "d2 \<noteq> 0"
    "0 < a * c - b * b \<Longrightarrow> 0 < d1 * (a + c)"
proof -
  consider "a \<noteq> 0" | "a = 0" "c \<noteq> 0" | "a = 0" "c = 0" by blast
  then show thesis
  proof cases
    case 1
    let ?D = "a * c - b * b"
    show thesis
    proof (rule that[of a 1 "b / a" "?D / a" 0 1])
      show "a * u * u + 2 * b * u * v + c * v * v = a * (1 * u + b / a * v)\<^sup>2 + ?D / a * (0 * u + 1 * v)\<^sup>2" for u v
        using 1 by (simp add: power2_eq_square field_simps)
      show "0 < a * (a + c)" if "0 < ?D"
      proof -
        have "0 \<le> b * b" by simp
        moreover have "0 < a * a" using 1 not_real_square_gt_zero by blast
        ultimately show ?thesis using that unfolding distrib_left by linarith
      qed
    qed (use 1 assms in auto)
  next
    case 2
    then have b: "b \<noteq> 0" using assms by auto
    then have bb: "0 < b * b" using not_real_square_gt_zero by blast
    show thesis
    proof (rule that[of c "b / c" 1 "- (b * b) / c" 1 0])
      show "a * u * u + 2 * b * u * v + c * v * v = c * (b / c * u + 1 * v)\<^sup>2 + - (b * b) / c * (1 * u + 0 * v)\<^sup>2" for u v
        using 2 by (simp add: power2_eq_square field_simps)
      have "c * (- (b * b) / c) = - (b * b)" using 2 by simp
      then show "c * (- (b * b) / c) < 0 \<longleftrightarrow> a * c - b * b < 0" using bb 2 by simp
    qed (use 2 b bb in auto)
  next
    case 3
    then have b: "b \<noteq> 0" using assms by auto
    then have bb: "0 < b * b" using not_real_square_gt_zero by blast
    show thesis
    proof (rule that[of "b / 2" 1 1 "- b / 2" 1 "-1"])
      show "a * u * u + 2 * b * u * v + c * v * v = b / 2 * (1 * u + 1 * v)\<^sup>2 + - b / 2 * (1 * u + -1 * v)\<^sup>2" for u v
        using 3 by (simp add: power2_eq_square field_simps)
    qed (use 3 b bb in auto)
  qed
qed

text \<open>The number of positive and negative directions of a block, from its determinant and trace.\<close>

definition block_positive :: "real \<Rightarrow> real \<Rightarrow> real \<Rightarrow> nat" where
  "block_positive a b c = (if a * c - b * b < 0 then 1 else if 0 < a + c then 2 else 0)"

definition block_negative :: "real \<Rightarrow> real \<Rightarrow> real \<Rightarrow> nat" where
  "block_negative a b c = (if a * c - b * b < 0 then 1 else if 0 < a + c then 0 else 2)"

lemma block_complete_square:
  fixes a b c D :: real
  assumes "D = a * c - b * b" "D \<noteq> 0"
  shows "a * (x + (c * f - b * g) / D) * (x + (c * f - b * g) / D) +
    2 * b * (x + (c * f - b * g) / D) * (z + (a * g - b * f) / D) +
    c * (z + (a * g - b * f) / D) * (z + (a * g - b * f) / D) =
    a * x * x + 2 * b * x * z + c * z * z + 2 * x * f + 2 * z * g +
    (c / D * (f * f) - b / D * (f * g) - b / D * (g * f) + a / D * (g * g))"
proof -
  define s t where "s = (c * f - b * g) / D" and "t = (a * g - b * f) / D"
  have Ds: "D * s = c * f - b * g" "D * t = a * g - b * f" using assms(2) by (simp_all add: s_def t_def)
  have "D * (a * s + b * t) = a * (D * s) + b * (D * t)" "D * (b * s + c * t) = b * (D * s) + c * (D * t)"
    by (simp_all add: algebra_simps)
  then have "D * (a * s + b * t) = D * f" "D * (b * s + c * t) = D * g"
    unfolding Ds by (simp_all add: assms(1) algebra_simps)
  then have st: "a * s + b * t = f" "b * s + c * t = g" using assms(2) by simp_all
  have "a * (x + s) * (x + s) + 2 * b * (x + s) * (z + t) + c * (z + t) * (z + t) =
    a * x * x + 2 * b * x * z + c * z * z + 2 * x * (a * s + b * t) + 2 * z * (b * s + c * t) +
    (s * (a * s + b * t) + t * (b * s + c * t))"
    by (simp add: algebra_simps)
  moreover have "s * f + t * g = c / D * (f * f) - b / D * (f * g) - b / D * (g * f) + a / D * (g * g)"
    using assms(2) by (simp add: s_def t_def field_simps)
  ultimately show ?thesis unfolding st s_def[symmetric] t_def[symmetric] by simp
qed

lemma block_sign_counts:
  fixes d1 d2 D T :: real
  assumes "d1 * d2 < 0 \<longleftrightarrow> D < 0" "d1 \<noteq> 0" "d2 \<noteq> 0" "D \<noteq> 0" "0 < D \<Longrightarrow> 0 < d1 * T"
  shows "positives [(d1, f), (d2, g)] = (if D < 0 then 1 else if 0 < T then 2 else 0)"
    and "negatives [(d1, f), (d2, g)] = (if D < 0 then 1 else if 0 < T then 0 else 2)"
  using assms by (auto simp: mult_less_0_iff zero_less_mult_iff not_less)

lemma lin_add: "lin I (\<lambda>i. f i + g i) y = lin I f y + lin I g y"
  and lin_scale: "lin I (\<lambda>i. k * f i) y = k * lin I f y"
  by (simp_all add: lin_def sum.distrib distrib_right sum_distrib_left mult.assoc)

lemma signature_block:
  assumes fin: "finite I" "p \<notin> I" "r \<notin> I" "p \<noteq> r"
    and sym: "\<And>i j. i \<in> insert p (insert r I) \<Longrightarrow> j \<in> insert p (insert r I) \<Longrightarrow> A i j = A j i"
  defines "a \<equiv> A p p" and "b \<equiv> A p r" and "c \<equiv> A r r"
  assumes D: "D = a * c - b * b" "D \<noteq> 0"
    and S: "\<And>i j. i \<in> I \<Longrightarrow> j \<in> I \<Longrightarrow> S i j = A i j -
      (A i p * (c / D) * A j p + A i p * (- b / D) * A j r + A i r * (- b / D) * A j p + A i r * (a / D) * A j r)"
    and sig: "signature I (mform I S) P N"
  shows "signature (insert p (insert r I)) (mform (insert p (insert r I)) A)
    (P + block_positive a b c) (N + block_negative a b c)"
proof -
  let ?K = "I \<union> {p, r}"
  let ?f = "\<lambda>y. lin I (\<lambda>i. A i p) y" and ?g = "\<lambda>y. lin I (\<lambda>i. A i r) y"
  let ?U = "\<lambda>i. if i = p then 1 else if i = r then 0 else (c * A i p - b * A i r) / D"
  let ?V = "\<lambda>i. if i = p then 0 else if i = r then 1 else (a * A i r - b * A i p) / D"
  have cut: "lin ?K W y = W p * y p + W r * y r + lin I W y" for W y
    unfolding lin_def using fin by (simp add: insert_commute)
  have inner: "lin I ?U y = (c * ?f y - b * ?g y) / D" "lin I ?V y = (a * ?g y - b * ?f y) / D" for y
  proof -
    have "lin I ?U y = (\<Sum>i \<in> I. (c * A i p - b * A i r) / D * y i)"
      unfolding lin_def using fin by (intro sum.cong) auto
    then show "lin I ?U y = (c * ?f y - b * ?g y) / D"
      by (simp add: lin_def sum_distrib_left sum_subtractf sum_divide_distrib[symmetric] left_diff_distrib mult.assoc)
    have "lin I ?V y = (\<Sum>i \<in> I. (a * A i r - b * A i p) / D * y i)"
      unfolding lin_def using fin by (intro sum.cong) auto
    then show "lin I ?V y = (a * ?g y - b * ?f y) / D"
      by (simp add: lin_def sum_distrib_left sum_subtractf sum_divide_distrib[symmetric] left_diff_distrib mult.assoc)
  qed
  have U: "lin ?K ?U y = y p + (c * ?f y - b * ?g y) / D" and V: "lin ?K ?V y = y r + (a * ?g y - b * ?f y) / D" for y
    unfolding cut inner using fin(4) by simp_all
  obtain d1 d2 m11 m12 m21 m22 where
    sq: "\<And>u v. a * u * u + 2 * b * u * v + c * v * v = d1 * (m11 * u + m12 * v)\<^sup>2 + d2 * (m21 * u + m22 * v)\<^sup>2"
    and m: "m11 * m22 - m12 * m21 \<noteq> 0"
    and d: "d1 * d2 < 0 \<longleftrightarrow> a * c - b * b < 0" "d1 \<noteq> 0" "d2 \<noteq> 0" "0 < a * c - b * b \<Longrightarrow> 0 < d1 * (a + c)"
    using block_squares[of a c b] D by metis
  let ?ts = "[(d1, \<lambda>i. m11 * ?U i + m12 * ?V i), (d2, \<lambda>i. m21 * ?U i + m22 * ?V i)]"
  have form: "mform I S y = mform I A y -
      (c / D * (?f y * ?f y) - b / D * (?f y * ?g y) - b / D * (?g y * ?f y) + a / D * (?g y * ?g y))" for y
  proof -
    have "mform I S y = mform I (\<lambda>i j. A i j - (((c / D * (A i p * A j p) + (- b / D) * (A i p * A j r)) +
        (- b / D) * (A i r * A j p)) + a / D * (A i r * A j r))) y"
      by (rule mform_cong) (simp add: S mult_ac)
    then show ?thesis unfolding mform_diff mform_add mform_scale mform_rank_one by simp
  qed
  have expand: "mform ?K A y = a * y p * y p + 2 * b * y p * y r + c * y r * y r
      + 2 * y p * ?f y + 2 * y r * ?g y + mform I A y" for y
  proof -
    have "mform ?K A y = mform (insert p (insert r I)) A y" by (simp add: insert_commute)
    also have "\<dots> = a * y p * y p + 2 * y p * lin (insert r I) (\<lambda>i. A i p) y + mform (insert r I) A y"
      unfolding a_def using fin sym by (intro mform_insert) auto
    also have "lin (insert r I) (\<lambda>i. A i p) y = b * y r + ?f y"
      unfolding lin_def b_def using fin sym[of p r] by simp
    also have "mform (insert r I) A y = c * y r * y r + 2 * y r * ?g y + mform I A y"
      unfolding c_def using fin sym by (intro mform_insert) auto
    finally show ?thesis by (simp add: algebra_simps)
  qed
  have q: "mform ?K A y = square_sum ?K ?ts y + mform I S y" for y
  proof -
    define u v where "u = lin ?K ?U y" and "v = lin ?K ?V y"
    define f g where "f = ?f y" and "g = ?g y"
    have uv: "u = y p + (c * f - b * g) / D" "v = y r + (a * g - b * f) / D" unfolding u_def v_def f_def g_def by (rule U, rule V)
    have "square_sum ?K ?ts y = a * u * u + 2 * b * u * v + c * v * v"
      by (simp only: square_sum_simps lin_add lin_scale u_def[symmetric] v_def[symmetric] sq add_0_right)
    moreover have "a * u * u + 2 * b * u * v + c * v * v = a * y p * y p + 2 * b * y p * y r + c * y r * y r
        + 2 * y p * f + 2 * y r * g + (c / D * (f * f) - b / D * (f * g) - b / D * (g * f) + a / D * (g * g))"
      unfolding uv by (rule block_complete_square[OF D])
    ultimately show ?thesis using expand[of y] form[of y] by (simp add: f_def g_def)
  qed
  have counts: "positives ?ts = block_positive a b c" "negatives ?ts = block_negative a b c"
    using block_sign_counts[of d1 d2 "a * c - b * b" "a + c"] d D
    by (auto simp: block_positive_def block_negative_def)
  have "signature ?K (mform ?K A) (P + positives ?ts) (N + negatives ?ts)"
  proof (rule signature_extend[OF fin(1) _ _ sig q])
    fix y assume y: "\<forall>t \<in> set ?ts. lin ?K (snd t) y = 0" "\<forall>i \<in> I. y i = 0"
    have "?f y = 0" "?g y = 0" using y(2) by (simp_all add: lin_def)
    then have "lin ?K ?U y = y p" "lin ?K ?V y = y r" unfolding U V by simp_all
    then have "m11 * y p + m12 * y r = 0" "m21 * y p + m22 * y r = 0"
      using y(1) by (simp_all only: list.set set_simps ball_simps snd_conv lin_add lin_scale)
    then have "(m11 * m22 - m12 * m21) * y p = 0" "(m11 * m22 - m12 * m21) * y r = 0" by algebra+
    then show "\<forall>i \<in> {p, r}. y i = 0" using m by simp
  qed (use fin d in auto)
  then show ?thesis unfolding counts by (simp add: insert_commute)
qed

section \<open>Signatures count eigenvalues\<close>

definition dot :: "nat \<Rightarrow> (nat \<Rightarrow> real) \<Rightarrow> (nat \<Rightarrow> real) \<Rightarrow> real" where
  "dot n x y = (\<Sum>i < n. x i * y i)"

text \<open>An orthonormal basis of eigenvectors \<open>v k\<close> with eigenvalues \<open>lam k\<close>, multiplicities repeated.\<close>

definition eigenbasis :: "nat \<Rightarrow> (nat \<Rightarrow> nat \<Rightarrow> real) \<Rightarrow> (nat \<Rightarrow> nat \<Rightarrow> real) \<Rightarrow> (nat \<Rightarrow> real) \<Rightarrow> bool" where
  "eigenbasis n A v lam \<longleftrightarrow>
     (\<forall>k < n. \<forall>l < n. dot n (v k) (v l) = (if k = l then 1 else 0)) \<and>
     (\<forall>k < n. \<forall>i < n. (\<Sum>j < n. A i j * v k j) = lam k * v k i)"

definition combination :: "nat set \<Rightarrow> (nat \<Rightarrow> real) \<Rightarrow> (nat \<Rightarrow> nat \<Rightarrow> real) \<Rightarrow> nat \<Rightarrow> real" where
  "combination K c v i = (\<Sum>k \<in> K. c k * v k i)"

lemma dot_combination:
  assumes "eigenbasis n A v lam" "K \<subseteq> {..<n}" "l < n"
  shows "dot n (combination K c v) (v l) = (if l \<in> K then c l else 0)"
proof -
  have "dot n (combination K c v) (v l) = (\<Sum>i < n. \<Sum>k \<in> K. c k * (v k i * v l i))"
    by (simp add: dot_def combination_def sum_distrib_right mult.assoc)
  also have "\<dots> = (\<Sum>k \<in> K. c k * dot n (v k) (v l))"
    unfolding dot_def sum_distrib_left by (rule sum.swap)
  also have "\<dots> = (\<Sum>k \<in> K. if k = l then c k else 0)"
    using assms by (intro sum.cong) (auto simp: eigenbasis_def)
  also have "\<dots> = (if l \<in> K then c l else 0)"
    using assms(2) finite_subset[of K "{..<n}"] by (simp add: sum.delta)
  finally show ?thesis .
qed

lemma mform_combination:
  assumes basis: "eigenbasis n A v lam" and K: "K \<subseteq> {..<n}"
  shows "mform {..<n} A (combination K c v) = (\<Sum>k \<in> K. lam k * (c k)\<^sup>2)"
proof -
  let ?x = "combination K c v"
  have image: "(\<Sum>j < n. A i j * ?x j) = combination K (\<lambda>k. c k * lam k) v i" if "i < n" for i
  proof -
    have "(\<Sum>j < n. A i j * ?x j) = (\<Sum>j < n. \<Sum>k \<in> K. c k * (A i j * v k j))"
      by (simp add: combination_def sum_distrib_left mult_ac)
    also have "\<dots> = (\<Sum>k \<in> K. c k * (\<Sum>j < n. A i j * v k j))"
      unfolding sum_distrib_left by (rule sum.swap)
    also have "\<dots> = combination K (\<lambda>k. c k * lam k) v i"
      unfolding combination_def using basis K that
      by (intro sum.cong) (auto simp: eigenbasis_def)
    finally show ?thesis .
  qed
  have "mform {..<n} A ?x = (\<Sum>i < n. ?x i * (\<Sum>j < n. A i j * ?x j))"
    by (simp add: mform_def sum_distrib_left mult_ac)
  also have "\<dots> = (\<Sum>i < n. \<Sum>k \<in> K. c k * lam k * (?x i * v k i))"
  proof (intro sum.cong refl)
    fix i assume "i \<in> {..<n}"
    then have "(\<Sum>j < n. A i j * ?x j) = (\<Sum>k \<in> K. c k * lam k * v k i)"
      using image[of i] by (simp add: combination_def)
    then show "?x i * (\<Sum>j < n. A i j * ?x j) = (\<Sum>k \<in> K. c k * lam k * (?x i * v k i))"
      by (simp only: sum_distrib_left mult_ac)
  qed
  also have "\<dots> = (\<Sum>k \<in> K. c k * lam k * dot n ?x (v k))"
    unfolding dot_def sum_distrib_left by (rule sum.swap)
  also have "\<dots> = (\<Sum>k \<in> K. lam k * (c k)\<^sup>2)"
    using dot_combination[OF basis K] K by (intro sum.cong) (auto simp: power2_eq_square)
  finally show ?thesis .
qed

lemma few_nonpositive:
  assumes basis: "eigenbasis n A v lam"
    and form: "\<And>y. mform {..<n} A y = square_sum {..<n} ts y"
    and ker: "\<And>y. (\<forall>t \<in> set ts. lin {..<n} (snd t) y = 0) \<Longrightarrow> (\<forall>i < n. y i = 0)"
    and nonzero: "\<forall>t \<in> set ts. fst t \<noteq> 0" and s: "s = 1 \<or> s = - 1"
  shows "card {k. k < n \<and> s * lam k \<le> 0} \<le> length (filter (\<lambda>t. s * fst t < 0) ts)"
proof (rule ccontr)
  let ?K = "{k. k < n \<and> s * lam k \<le> 0}" and ?neg = "filter (\<lambda>t. s * fst t < 0) ts"
  assume "\<not> card ?K \<le> length ?neg"
  moreover have fin: "finite ?K" and K: "?K \<subseteq> {..<n}" by auto
  ultimately obtain c where c: "\<exists>k \<in> ?K. c k \<noteq> 0"
    "\<forall>a \<in> set (map (\<lambda>t k. lin {..<n} (snd t) (v k)) ?neg). (\<Sum>k \<in> ?K. a k * c k) = 0"
    using homogeneous_solution[OF fin, of "map (\<lambda>t k. lin {..<n} (snd t) (v k)) ?neg"] by auto
  let ?x = "combination ?K c v"
  have lin_x: "lin {..<n} a ?x = (\<Sum>k \<in> ?K. lin {..<n} a (v k) * c k)" for a
  proof -
    have "lin {..<n} a ?x = (\<Sum>i < n. \<Sum>k \<in> ?K. a i * v k i * c k)"
      by (simp add: lin_def combination_def sum_distrib_left mult_ac)
    also have "\<dots> = (\<Sum>k \<in> ?K. lin {..<n} a (v k) * c k)"
      unfolding lin_def sum_distrib_right by (rule sum.swap)
    finally show ?thesis .
  qed
  have neg0: "lin {..<n} (snd t) ?x = 0" if "t \<in> set ts" "s * fst t < 0" for t
  proof -
    have "(\<lambda>k. lin {..<n} (snd t) (v k)) \<in> set (map (\<lambda>t k. lin {..<n} (snd t) (v k)) ?neg)" using that by simp
    from c(2)[rule_format, OF this] show ?thesis by (simp add: lin_x)
  qed
  have "s * mform {..<n} A ?x = (\<Sum>k \<in> ?K. s * lam k * (c k)\<^sup>2)"
    unfolding mform_combination[OF basis K] by (simp add: sum_distrib_left mult.assoc)
  also have "\<dots> \<le> 0"
    using mult_nonpos_nonneg[of "s * lam _" "(c _)\<^sup>2", OF _ zero_le_power2] by (intro sum_nonpos) blast
  finally have le: "s * square_sum {..<n} ts ?x \<le> 0" by (simp add: form)
  have "0 \<le> s * fst t * (lin {..<n} (snd t) ?x)\<^sup>2" if "t \<in> set ts" for t
    using neg0[OF that] by (cases "s * fst t < 0") (auto simp: not_less)
  define vals where "vals = map (\<lambda>t. s * fst t * (lin {..<n} (snd t) ?x)\<^sup>2) ts"
  have terms: "0 \<le> x" if "x \<in> set vals" for x
    using that \<open>\<And>t. t \<in> set ts \<Longrightarrow> 0 \<le> s * fst t * (lin {..<n} (snd t) ?x)\<^sup>2\<close> by (auto simp: vals_def)
  have "s * square_sum {..<n} ts ?x = sum_list vals"
    unfolding vals_def by (induction ts) (auto simp: square_sum_def algebra_simps)
  then have "sum_list vals = 0" using le sum_list_nonneg[of vals, OF terms] by linarith
  then have all0: "\<forall>x \<in> set vals. x = 0" using sum_list_nonneg_eq_0_iff[of vals, OF terms] by blast
  have "lin {..<n} (snd t) ?x = 0" if "t \<in> set ts" for t
  proof -
    have "s * fst t * (lin {..<n} (snd t) ?x)\<^sup>2 = 0" using all0 that by (auto simp: vals_def)
    then show ?thesis using nonzero that s by auto
  qed
  then have "\<forall>i < n. ?x i = 0" using ker by blast
  then have "dot n ?x (v k) = 0" for k by (simp add: dot_def)
  moreover obtain k where k: "k \<in> ?K" "c k \<noteq> 0" using c(1) by blast
  moreover have "dot n ?x (v k) = c k" using dot_combination[OF basis K, of k c] k(1) by simp
  ultimately show False by simp
qed

theorem signature_eigenvalues:
  assumes "signature {..<n} (mform {..<n} A) P N" "eigenbasis n A v lam"
  shows "card {k. k < n \<and> lam k < 0} = N" "card {k. k < n \<and> 0 < lam k} = P" "\<forall>k < n. lam k \<noteq> 0"
proof -
  obtain ts where ts: "positives ts = P" "negatives ts = N" "length ts = P + N" "P + N = n"
    "\<And>y. mform {..<n} A y = square_sum {..<n} ts y"
    "\<And>y. (\<forall>t \<in> set ts. lin {..<n} (snd t) y = 0) \<Longrightarrow> (\<forall>i < n. y i = 0)"
    using assms(1) unfolding signature_def by auto
  have nonzero: "\<forall>t \<in> set ts. fst t \<noteq> 0"
  proof (rule ccontr)
    assume "\<not> ?thesis"
    then have "0 < length (filter (\<lambda>t. fst t = 0) ts)" by (auto simp: filter_empty_conv)
    moreover have "positives ts + negatives ts + length (filter (\<lambda>t. fst t = 0) ts) = length ts"
      by (induction ts) auto
    ultimately show False using ts(1-3) by linarith
  qed
  have le: "card {k. k < n \<and> lam k \<le> 0} \<le> N" "card {k. k < n \<and> 0 \<le> lam k} \<le> P"
    using few_nonpositive[OF assms(2) ts(5,6) nonzero, of 1] few_nonpositive[OF assms(2) ts(5,6) nonzero, of "- 1"] ts(1,2)
    by (simp_all add: positives_def negatives_def)
  let ?L = "{k. k < n \<and> lam k < 0}" and ?G = "{k. k < n \<and> 0 < lam k}" and ?Z = "{k. k < n \<and> lam k = 0}"
  have "{k. k < n \<and> lam k \<le> 0} = ?L \<union> ?Z" "{k. k < n \<and> 0 \<le> lam k} = ?G \<union> ?Z" by auto
  then have le': "card ?L + card ?Z \<le> N" "card ?G + card ?Z \<le> P"
    using le by (auto simp: card_Un_disjoint disjoint_iff)
  have "{..<n} = (?L \<union> ?Z) \<union> ?G" by auto
  then have "n = card ?L + card ?Z + card ?G"
  proof -
    have "card {..<n} = card (?L \<union> ?Z) + card ?G"
      unfolding \<open>{..<n} = (?L \<union> ?Z) \<union> ?G\<close> by (rule card_Un_disjoint) auto
    also have "card (?L \<union> ?Z) = card ?L + card ?Z" by (rule card_Un_disjoint) auto
    finally show ?thesis by simp
  qed
  then show "card ?L = N" "card ?G = P" using le' ts(4) by linarith+
  have "card ?Z = 0" using le' ts(4) \<open>n = card ?L + card ?Z + card ?G\<close> by linarith
  then show "\<forall>k < n. lam k \<noteq> 0" by auto
qed

end
