(* ===== verification/Interval_Inertia.thy ===== *)
theory Interval_Inertia
  imports Rational_Interval Inertia_Algebra
begin

text \<open>
  Exact interval \<open>LDL\<^sup>T\<close> inertia of \<open>crates/xc-certify/src/lib.rs\<close> (module \<open>exact\<close>):
  \<open>certify_two_by_two_pivot\<close>, \<open>symmetric_swap\<close>, the workspace budget and the elimination loop of
  \<open>interval_symmetric_ldlt_inertia_with_budget\<close>. The matrix is a row-major list, updated by index as in
  the source. \<open>expect\<close> and \<open>unreachable!\<close> are \<open>Panicked\<close> branches. \<open>symmetric_update\<close> is the pair of nested
  loops both kinds of Schur step run.

  The lemmas relate the interval state to the trailing block of a real symmetric matrix in the input
  box: each step encloses the exact Schur complement, so the sign counts are the signature of
  the matrix (\<open>Inertia_Algebra\<close>) and hence count its eigenvalues.
\<close>

declare bind_result_cong [fundef_cong]

section \<open>Data\<close>

datatype CertificateError =
    InvalidCertificate string
  | Unsupported string
  | VerificationFailed string

fun display_CertificateError :: "CertificateError \<Rightarrow> string" where
  "display_CertificateError (InvalidCertificate message) = ''invalid certificate: '' @ message"
| "display_CertificateError (Unsupported message) = ''unsupported certificate: '' @ message"
| "display_CertificateError (VerificationFailed message) = ''certificate verification failed: '' @ message"

datatype IntervalInertiaResult =
    ConclusiveInertia (inertia_positive: nat) (inertia_negative: nat)
      (inertia_pivots: "RationalInterval list")
  | InconclusiveInertia (unresolved_pivot_index: nat) (inertia_positive: nat) (inertia_negative: nat)
      (inertia_unresolved: nat) (inertia_pivots: "RationalInterval list") (inertia_reason: string)

fun is_conclusive :: "IntervalInertiaResult \<Rightarrow> bool" where
  "is_conclusive (ConclusiveInertia _ _ _) = True"
| "is_conclusive (InconclusiveInertia _ _ _ _ _ _) = False"

record CertifiedTwoByTwoPivot =
  lower_eigenvalue :: RationalInterval
  upper_eigenvalue :: RationalInterval
  inverse_11 :: RationalInterval
  inverse_12 :: RationalInterval
  inverse_22 :: RationalInterval

section \<open>Pivots\<close>

definition strict_sign :: "RationalInterval \<Rightarrow> bool" where
  "strict_sign value \<longleftrightarrow> ri_is_strictly_positive value \<or> ri_is_strictly_negative value"

definition magnitude :: "RationalInterval \<Rightarrow> rat" where
  "magnitude x = max \<bar>lower x\<bar> \<bar>upper x\<bar>"

abbreviation failed :: "string \<Rightarrow> IntervalError \<Rightarrow> CertificateError" where
  "failed message e \<equiv> VerificationFailed (message @ display_IntervalError e)"

text \<open>The scale-independent bounds: \<open>|lambda| \<le> bound\<close> by the row sums and \<open>|lambda| \<ge> |det| / bound\<close>.\<close>

definition scale_invariant_signs ::
  "RationalInterval \<Rightarrow> RationalInterval \<Rightarrow> RationalInterval \<Rightarrow> RationalInterval \<Rightarrow> RationalInterval \<Rightarrow>
     CertificateError + (RationalInterval \<times> RationalInterval) option" where
  "scale_invariant_signs a b c determinant trace =
     (let bound = max (magnitude a + magnitude b) (magnitude c + magnitude b) in
      if bound = 0 then Inr None
      else
        let separation = (if ri_is_strictly_negative determinant then - upper determinant / bound
                          else lower determinant / bound) in
        bind_result (map_err (failed []) (ri_new separation bound)) (\<lambda>positive.
        bind_result (map_err (failed []) (ri_new (- bound) (- separation))) (\<lambda>negative.
        if ri_is_strictly_negative determinant then Inr (Some (negative, positive))
        else if ri_is_strictly_positive trace then Inr (Some (positive, positive))
        else if ri_is_strictly_negative trace then Inr (Some (negative, negative))
        else Inr None)))"

definition certify_two_by_two_pivot ::
  "(int \<Rightarrow> int) \<Rightarrow> RationalInterval list \<Rightarrow> nat \<Rightarrow> nat \<Rightarrow> nat \<Rightarrow> bool \<Rightarrow>
     CertificateError + CertifiedTwoByTwoPivot option" where
  "certify_two_by_two_pivot isqrt matrix dimension first second scale_invariant =
     (let a = matrix ! (first * dimension + first);
          b = matrix ! (first * dimension + second);
          c = matrix ! (second * dimension + second);
          determinant = ri_sub (ri_mul a c) (ri_square b)
      in if ri_contains_zero determinant then Inr None
      else
        let discriminant = ri_add (ri_square (ri_sub a c)) (ri_mul (ri_square b) (ri_point 4)) in
        bind_result (map_err (failed ''interval 2x2 pivot square-root enclosure failed: '')
          (ri_sqrt_nonnegative isqrt discriminant 256)) (\<lambda>root.
        let trace = ri_add a c in
        bind_result (map_err (failed ''interval 2x2 lower eigenvalue enclosure failed: '')
          (ri_div (ri_sub trace root) (ri_point 2))) (\<lambda>low.
        bind_result (map_err (failed ''interval 2x2 upper eigenvalue enclosure failed: '')
          (ri_div (ri_add trace root) (ri_point 2))) (\<lambda>high.
        bind_result
          (if \<not> strict_sign low \<or> \<not> strict_sign high then
             if \<not> scale_invariant then Inr None else scale_invariant_signs a b c determinant trace
           else Inr (Some (low, high))) (\<lambda>signs.
        case signs of
          None \<Rightarrow> Inr None
        | Some (lower_ev, upper_ev) \<Rightarrow>
            bind_result (map_err (failed ''interval 2x2 inverse (1,1) failed: '') (ri_div c determinant)) (\<lambda>i11.
            bind_result (map_err (failed ''interval 2x2 inverse (1,2) failed: '') (ri_div (ri_neg b) determinant)) (\<lambda>i12.
            bind_result (map_err (failed ''interval 2x2 inverse (2,2) failed: '') (ri_div a determinant)) (\<lambda>i22.
            Inr (Some \<lparr>lower_eigenvalue = lower_ev, upper_eigenvalue = upper_ev,
                       inverse_11 = i11, inverse_12 = i12, inverse_22 = i22\<rparr>)))))))))"

definition swap_entries :: "'a list \<Rightarrow> nat \<Rightarrow> nat \<Rightarrow> 'a list" where
  "swap_entries xs i j = xs[i := xs ! j, j := xs ! i]"

definition symmetric_swap :: "'a list \<Rightarrow> nat \<Rightarrow> nat \<Rightarrow> nat \<Rightarrow> 'a list" where
  "symmetric_swap matrix dimension left right =
     (if left = right then matrix
      else
        let rows = foldl (\<lambda>m column. swap_entries m (left * dimension + column) (right * dimension + column))
              matrix [0..<dimension]
        in foldl (\<lambda>m row. swap_entries m (row * dimension + left) (row * dimension + right))
             rows [0..<dimension])"

section \<open>Workspace budget\<close>

fun endpoints_admitted :: "nat \<Rightarrow> rat list \<Rightarrow> bool" where
  "endpoints_admitted accumulated [] = True"
| "endpoints_admitted accumulated (x # xs) =
     (let (numer, denom) = quotient_of x;
          bits = significant_bits numer + significant_bits denom
      in if bits > 262144 then False
         else let accumulated = accumulated + bits
              in if accumulated > 67108864 then False else endpoints_admitted accumulated xs)"

definition exact_interval_workspace_admitted :: "RationalInterval list \<Rightarrow> bool" where
  "exact_interval_workspace_admitted matrix =
     endpoints_admitted 0 (concat (map (\<lambda>entry. [lower entry, upper entry]) matrix))"

section \<open>The elimination\<close>

text \<open>The two nested update loops of a Schur step: rows from \<open>start\<close> on, columns from the row on; every new value is
  stored at both mirror positions. \<open>row_context\<close> is what the row loop reads before the column loop.\<close>

definition symmetric_update ::
  "nat \<Rightarrow> nat \<Rightarrow> (nat \<Rightarrow> 'v list \<Rightarrow> 'c) \<Rightarrow> ('c \<Rightarrow> nat \<Rightarrow> nat \<Rightarrow> 'v list \<Rightarrow> 'e + 'v) \<Rightarrow> 'v list \<Rightarrow> 'e + 'v list" where
  "symmetric_update dimension start row_context update schur0 =
     fold_result (\<lambda>row schur.
       let context = row_context row schur in
       fold_result (\<lambda>column schur.
         bind_result (update context row column schur) (\<lambda>updated.
           Inr (schur[row * dimension + column := updated, column * dimension + row := updated])))
         [row..<dimension] schur)
       [start..<dimension] schur0"

definition one_by_one_update ::
  "nat \<Rightarrow> nat \<Rightarrow> RationalInterval \<Rightarrow> RationalInterval list \<Rightarrow>
     CertificateError fault + RationalInterval list" where
  "one_by_one_update dimension pivot_index pivot =
     symmetric_update dimension (pivot_index + 1) (\<lambda>row schur. ())
       (\<lambda>_ row column schur.
          let numerator = ri_mul (schur ! (row * dimension + pivot_index)) (schur ! (column * dimension + pivot_index))
          in bind_result (map_err Raised (map_err (failed ''interval pivoted LDLT division failed: '')
               (ri_div numerator pivot))) (\<lambda>correction.
             Inr (ri_sub (schur ! (row * dimension + column)) correction)))"

definition block_update ::
  "nat \<Rightarrow> nat \<Rightarrow> CertifiedTwoByTwoPivot \<Rightarrow> RationalInterval list \<Rightarrow>
     CertificateError fault + RationalInterval list" where
  "block_update dimension pivot_index block =
     symmetric_update dimension (pivot_index + 2)
       (\<lambda>row schur. (schur ! (row * dimension + pivot_index), schur ! (row * dimension + pivot_index + 1)))
       (\<lambda>(row_first, row_second) row column schur.
          let column_first = schur ! (column * dimension + pivot_index);
              column_second = schur ! (column * dimension + pivot_index + 1);
              correction =
                ri_add (ri_add (ri_add
                  (ri_mul (ri_mul row_first (inverse_11 block)) column_first)
                  (ri_mul (ri_mul row_first (inverse_12 block)) column_second))
                  (ri_mul (ri_mul row_second (inverse_12 block)) column_first))
                  (ri_mul (ri_mul row_second (inverse_22 block)) column_second)
          in Inr (ri_sub (schur ! (row * dimension + column)) correction))"

fun find_block ::
  "(int \<Rightarrow> int) \<Rightarrow> RationalInterval list \<Rightarrow> nat \<Rightarrow> bool \<Rightarrow> (nat \<times> nat) list \<Rightarrow>
     CertificateError + (nat \<times> nat) option" where
  "find_block isqrt schur dimension scale_invariant [] = Inr None"
| "find_block isqrt schur dimension scale_invariant ((first, second) # pairs) =
     bind_result (certify_two_by_two_pivot isqrt schur dimension first second scale_invariant) (\<lambda>block.
       if block \<noteq> None then Inr (Some (first, second))
       else find_block isqrt schur dimension scale_invariant pairs)"

definition search_pairs :: "nat \<Rightarrow> nat \<Rightarrow> (nat \<times> nat) list" where
  "search_pairs pivot_index dimension =
     concat (map (\<lambda>first. map (Pair first) [first + 1..<dimension]) [pivot_index..<dimension])"

text \<open>Counting a strictly signed pivot; the third case is the \<open>unreachable!\<close> of the source.\<close>

definition count_sign :: "string \<Rightarrow> RationalInterval \<Rightarrow> nat \<times> nat \<Rightarrow> CertificateError fault + nat \<times> nat" where
  "count_sign message pivot counts =
     (if ri_is_strictly_positive pivot then Inr (fst counts + 1, snd counts)
      else if ri_is_strictly_negative pivot then Inr (fst counts, snd counts + 1)
      else Inl (Panicked message))"

definition no_pivot_reason :: string where
  "no_pivot_reason = ''no remaining certified 1x1 or 2x2 interval pivot; higher precision or another certified strategy is required''"

function ldlt_loop ::
  "(int \<Rightarrow> int) \<Rightarrow> nat \<Rightarrow> bool \<Rightarrow> bool \<Rightarrow> RationalInterval list \<Rightarrow> RationalInterval list \<Rightarrow> nat \<Rightarrow> nat \<Rightarrow> nat \<Rightarrow>
     CertificateError fault + IntervalInertiaResult" where
  "ldlt_loop isqrt dimension scale_invariant enforce_budget schur pivots positive negative pivot_index =
     (if \<not> pivot_index < dimension then Inr (ConclusiveInertia positive negative pivots)
      else if enforce_budget \<and> \<not> exact_interval_workspace_admitted schur
      then Inr (InconclusiveInertia pivot_index positive negative (dimension - pivot_index)
        (pivots @ [schur ! (pivot_index * dimension + pivot_index)])
        ''exact interval Schur growth exceeds endpoint/aggregate budget; use MPFR interval inertia'')
      else
        case find (\<lambda>candidate. strict_sign (schur ! (candidate * dimension + candidate)))
               [pivot_index..<dimension] of
          Some selected \<Rightarrow>
            let schur = symmetric_swap schur dimension pivot_index selected;
                pivot = schur ! (pivot_index * dimension + pivot_index)
            in bind_result (count_sign ''the selected interval pivot has a strict sign'' pivot (positive, negative))
                 (\<lambda>(positive, negative).
               bind_result (one_by_one_update dimension pivot_index pivot schur) (\<lambda>schur.
               ldlt_loop isqrt dimension scale_invariant enforce_budget schur (pivots @ [pivot])
                 positive negative (pivot_index + 1)))
        | None \<Rightarrow>
            bind_result (map_err Raised (find_block isqrt schur dimension scale_invariant
              (search_pairs pivot_index dimension))) (\<lambda>selected_block.
            case selected_block of
              None \<Rightarrow> Inr (InconclusiveInertia pivot_index positive negative (dimension - pivot_index)
                (pivots @ [schur ! (pivot_index * dimension + pivot_index)]) no_pivot_reason)
            | Some (first, second) \<Rightarrow>
                let schur = symmetric_swap schur dimension pivot_index first;
                    adjusted_second = (if second = pivot_index then first else second);
                    schur = symmetric_swap schur dimension (pivot_index + 1) adjusted_second
                in bind_result (map_err Raised (certify_two_by_two_pivot isqrt schur dimension pivot_index
                     (pivot_index + 1) scale_invariant)) (\<lambda>certified.
                   case certified of
                     None \<Rightarrow> Inl (Panicked
                       ''selected 2x2 interval pivot remains valid after symmetric permutation'')
                   | Some block \<Rightarrow>
                       bind_result (count_sign ''certified block eigenvalue has a strict sign''
                         (lower_eigenvalue block) (positive, negative)) (\<lambda>counts.
                       bind_result (count_sign ''certified block eigenvalue has a strict sign''
                         (upper_eigenvalue block) counts) (\<lambda>(positive, negative).
                       bind_result (block_update dimension pivot_index block schur) (\<lambda>schur.
                       ldlt_loop isqrt dimension scale_invariant enforce_budget schur
                         (pivots @ [lower_eigenvalue block, upper_eigenvalue block])
                         positive negative (pivot_index + 2)))))))"
  by pat_completeness auto
termination
  by (relation "measure (\<lambda>(isqrt, dimension, si, eb, schur, pivots, p, n, k). dimension - k)") auto

declare ldlt_loop.simps [simp del]

fun symmetric_rows :: "nat \<Rightarrow> 'a list \<Rightarrow> (nat \<times> nat) list \<Rightarrow> (nat \<times> nat) option" where
  "symmetric_rows dimension matrix [] = None"
| "symmetric_rows dimension matrix ((row, column) # rest) =
     (if matrix ! (row * dimension + column) \<noteq> matrix ! (column * dimension + row) then Some (row, column)
      else symmetric_rows dimension matrix rest)"

definition lower_pairs :: "nat \<Rightarrow> (nat \<times> nat) list" where
  "lower_pairs dimension = concat (map (\<lambda>row. map (Pair row) [0..<row]) [0..<dimension])"

definition interval_symmetric_ldlt_inertia_with_budget ::
  "(int \<Rightarrow> int) \<Rightarrow> RationalInterval list \<Rightarrow> nat \<Rightarrow> bool \<Rightarrow> bool \<Rightarrow>
     CertificateError fault + IntervalInertiaResult" where
  "interval_symmetric_ldlt_inertia_with_budget isqrt matrix dimension scale_invariant enforce_budget =
     (if dimension = 0 \<or> length matrix \<noteq> saturating_mul dimension dimension
      then Inl (Raised (InvalidCertificate (''interval matrix length '' @ show_nat (length matrix) @
        '' does not match dimension '' @ show_nat dimension)))
      else
        case symmetric_rows dimension matrix (lower_pairs dimension) of
          Some (row, column) \<Rightarrow> Inl (Raised (InvalidCertificate (''interval matrix is not symmetric at ('' @
            show_nat row @ '', '' @ show_nat column @ '')'')))
        | None \<Rightarrow>
            if enforce_budget \<and> \<not> exact_interval_workspace_admitted matrix
            then Inr (InconclusiveInertia 0 0 0 dimension [matrix ! 0]
              ''exact interval workspace exceeds endpoint/aggregate budget; use MPFR interval inertia'')
            else ldlt_loop isqrt dimension scale_invariant enforce_budget matrix [] 0 0 0)"

definition interval_symmetric_ldlt_inertia_impl ::
  "(int \<Rightarrow> int) \<Rightarrow> RationalInterval list \<Rightarrow> nat \<Rightarrow> bool \<Rightarrow> CertificateError fault + IntervalInertiaResult" where
  "interval_symmetric_ldlt_inertia_impl isqrt matrix dimension scale_invariant =
     interval_symmetric_ldlt_inertia_with_budget isqrt matrix dimension scale_invariant True"

definition interval_symmetric_ldlt_inertia ::
  "(int \<Rightarrow> int) \<Rightarrow> RationalInterval list \<Rightarrow> nat \<Rightarrow> CertificateError fault + IntervalInertiaResult" where
  "interval_symmetric_ldlt_inertia isqrt matrix dimension =
     interval_symmetric_ldlt_inertia_impl isqrt matrix dimension True"

section \<open>Symmetric swaps\<close>

definition exchange :: "nat \<Rightarrow> nat \<Rightarrow> nat \<Rightarrow> nat" where
  "exchange l r i = (if i = l then r else if i = r then l else i)"

lemma exchange_less [simp]: "l < n \<Longrightarrow> r < n \<Longrightarrow> i < n \<Longrightarrow> exchange l r i < n"
  by (simp add: exchange_def)

lemma exchange_involution [simp]: "exchange l r (exchange l r i) = i"
  by (simp add: exchange_def)

lemma swap_entries_length [simp]: "length (swap_entries xs i j) = length xs"
  by (simp add: swap_entries_def)

lemma foldl_swap_length [simp]: "length (foldl (\<lambda>m k. swap_entries m (f k) (g k)) xs ks) = length xs"
  by (induction ks arbitrary: xs) auto

lemma swap_entries_nth:
  "i < length xs \<Longrightarrow> j < length xs \<Longrightarrow> k < length xs \<Longrightarrow> swap_entries xs i j ! k = xs ! exchange i j k"
  by (simp add: swap_entries_def exchange_def nth_list_update)

lemma row_swap_entries:
  assumes "length M = n * n" "l < n" "r < n" "i < n" "j < n" "k \<le> n"
  shows "foldl (\<lambda>m c. swap_entries m (l * n + c) (r * n + c)) M [0..<k] ! (i * n + j) =
    M ! ((if j < k then exchange l r i else i) * n + j)"
  using assms(4,6)
proof (induction k arbitrary: i)
  case (Suc k)
  have "exchange (l * n + k) (r * n + k) (i * n + j) = (if j = k then exchange l r i else i) * n + j"
    using Suc.prems assms by (auto simp: exchange_def)
  moreover have "(if j = k then exchange l r i else i) < n" using Suc.prems assms by simp
  ultimately show ?case
    using Suc assms row_major_less[of l n k] row_major_less[of r n k] row_major_less[of i n j]
    by (auto simp: swap_entries_nth)
qed simp

lemma column_swap_entries:
  assumes "length M = n * n" "l < n" "r < n" "i < n" "j < n" "k \<le> n"
  shows "foldl (\<lambda>m w. swap_entries m (w * n + l) (w * n + r)) M [0..<k] ! (i * n + j) =
    M ! (i * n + (if i < k then exchange l r j else j))"
  using assms(5,6)
proof (induction k arbitrary: j)
  case (Suc k)
  have "exchange (k * n + l) (k * n + r) (i * n + j) = i * n + (if i = k then exchange l r j else j)"
    using Suc.prems assms by (auto simp: exchange_def)
  moreover have "(if i = k then exchange l r j else j) < n" using Suc.prems assms by simp
  ultimately show ?case
    using Suc assms row_major_less[of k n l] row_major_less[of k n r] row_major_less[of i n j]
    by (auto simp: swap_entries_nth)
qed simp

lemma symmetric_swap_length [simp]: "length (symmetric_swap M n l r) = length M"
  by (simp add: symmetric_swap_def Let_def)

lemma symmetric_swap_entries:
  assumes "length M = n * n" "l < n" "r < n" "i < n" "j < n"
  shows "symmetric_swap M n l r ! (i * n + j) = M ! (exchange l r i * n + exchange l r j)"
proof (cases "l = r")
  case True
  then show ?thesis by (simp add: symmetric_swap_def exchange_def)
next
  case False
  let ?R = "foldl (\<lambda>m c. swap_entries m (l * n + c) (r * n + c)) M [0..<n]"
  have "symmetric_swap M n l r ! (i * n + j) = ?R ! (i * n + exchange l r j)"
    using False assms column_swap_entries[of ?R n l r i j n] by (simp add: symmetric_swap_def)
  also have "\<dots> = M ! (exchange l r i * n + exchange l r j)"
    using assms row_swap_entries[of M n l r i "exchange l r j" n] by simp
  finally show ?thesis .
qed

section \<open>The nested update loops\<close>

definition update_state ::
  "nat \<Rightarrow> nat \<Rightarrow> 'v list \<Rightarrow> (nat \<Rightarrow> nat \<Rightarrow> 'v \<Rightarrow> bool) \<Rightarrow> nat \<Rightarrow> nat \<Rightarrow> 'v list \<Rightarrow> bool" where
  "update_state n start S0 Q row column S \<longleftrightarrow> length S = n * n \<and>
     (\<forall>i < n. \<forall>k < start. S ! (i * n + k) = S0 ! (i * n + k)) \<and>
     (\<forall>i j. start \<le> i \<and> i \<le> j \<and> j < n \<longrightarrow>
        (if i < row \<or> i = row \<and> j < column
         then Q i j (S ! (i * n + j)) \<and> S ! (j * n + i) = S ! (i * n + j)
         else S ! (i * n + j) = S0 ! (i * n + j)))"

text \<open>What the caller has to show of one update: it may read the pivot columns before \<open>start\<close>, as they were,
  and the old entry at its own position.\<close>

definition update_contract ::
  "nat \<Rightarrow> nat \<Rightarrow> (nat \<Rightarrow> 'v list \<Rightarrow> 'c) \<Rightarrow> ('c \<Rightarrow> nat \<Rightarrow> nat \<Rightarrow> 'v list \<Rightarrow> 'e + 'v) \<Rightarrow> 'v list \<Rightarrow>
     (nat \<Rightarrow> nat \<Rightarrow> 'e + 'v \<Rightarrow> bool) \<Rightarrow> bool" where
  "update_contract n start ctx upd S0 C \<longleftrightarrow>
     (\<forall>row column S1 S. start \<le> row \<and> row \<le> column \<and> column < n \<and>
        (\<forall>i < n. \<forall>k < start. S1 ! (i * n + k) = S0 ! (i * n + k) \<and> S ! (i * n + k) = S0 ! (i * n + k)) \<and>
        S ! (row * n + column) = S0 ! (row * n + column) \<longrightarrow> C row column (upd (ctx row S1) row column S))"

lemma two_updates_nth:
  "p < length xs \<Longrightarrow> q < length xs \<Longrightarrow> xs[p := v, q := v] ! k = (if k = p \<or> k = q then v else xs ! k)"
  by (auto simp: nth_list_update)

lemma update_state_step:
  assumes "update_state n start S0 Q row column S" "start \<le> row" "row \<le> column" "column < n" "Q row column v"
  shows "update_state n start S0 Q row (Suc column) (S[row * n + column := v, column * n + row := v])"
proof -
  have len: "length S = n * n" using assms(1) unfolding update_state_def by blast
  have r: "row < n" using assms(3,4) by simp
  have idx: "i * n + j < n * n" if "i < n" "j < n" for i j using row_major_less that by blast
  let ?S = "S[row * n + column := v, column * n + row := v]"
  have get: "?S ! (i * n + j) = (if (i, j) = (row, column) \<or> (i, j) = (column, row) then v else S ! (i * n + j))"
    if "i < n" "j < n" for i j
    unfolding two_updates_nth[OF idx[OF r assms(4), folded len] idx[OF assms(4) r, folded len]]
    by (simp only: row_major_eq[OF that(2) assms(4)] row_major_eq[OF that(2) r] prod.inject)
  show ?thesis
    unfolding update_state_def
  proof (intro conjI allI impI)
    show "length ?S = n * n" using len by simp
    show "?S ! (i * n + k) = S0 ! (i * n + k)" if "i < n" "k < start" for i k
    proof -
      have k: "k < n" "\<not> ((i, k) = (row, column) \<or> (i, k) = (column, row))" using that assms r by auto
      have "?S ! (i * n + k) = S ! (i * n + k)" using get[OF that(1) k(1)] unfolding if_not_P[OF k(2)] .
      moreover have "S ! (i * n + k) = S0 ! (i * n + k)" using assms(1) that unfolding update_state_def by blast
      ultimately show ?thesis by (rule trans)
    qed
    fix i j assume ij: "start \<le> i \<and> i \<le> j \<and> j < n"
    have old: "if i < row \<or> i = row \<and> j < column
        then Q i j (S ! (i * n + j)) \<and> S ! (j * n + i) = S ! (i * n + j)
        else S ! (i * n + j) = S0 ! (i * n + j)"
      using assms(1) ij unfolding update_state_def by blast
    have bounds: "i < n" "j < n" using ij by auto
    show "if i < row \<or> i = row \<and> j < Suc column then Q i j (?S ! (i * n + j)) \<and> ?S ! (j * n + i) = ?S ! (i * n + j)
       else ?S ! (i * n + j) = S0 ! (i * n + j)"
    proof (cases "(i, j) = (row, column)")
      case True
      then show ?thesis using get[OF bounds] get[OF bounds(2,1)] assms(5) by simp
    next
      case False
      then have ne: "\<not> ((i, j) = (row, column) \<or> (i, j) = (column, row))"
        "\<not> ((j, i) = (row, column) \<or> (j, i) = (column, row))"
        using ij assms(3) by auto
      have same: "?S ! (i * n + j) = S ! (i * n + j)" "?S ! (j * n + i) = S ! (j * n + i)"
        using get[OF bounds] get[OF bounds(2,1)] unfolding if_not_P[OF ne(1)] if_not_P[OF ne(2)] .
      have "(i < row \<or> i = row \<and> j < Suc column) \<longleftrightarrow> (i < row \<or> i = row \<and> j < column)"
        using False by auto
      then show ?thesis unfolding same using old by simp
    qed
  qed
qed

lemma update_state_next_row:
  assumes "update_state n start S0 Q row n S"
  shows "update_state n start S0 Q (Suc row) (Suc row) S"
proof -
  have entries: "if i < row \<or> i = row \<and> j < n
      then Q i j (S ! (i * n + j)) \<and> S ! (j * n + i) = S ! (i * n + j)
      else S ! (i * n + j) = S0 ! (i * n + j)" if "start \<le> i \<and> i \<le> j \<and> j < n" for i j
    using assms that unfolding update_state_def by blast
  have "if i < Suc row \<or> i = Suc row \<and> j < Suc row
      then Q i j (S ! (i * n + j)) \<and> S ! (j * n + i) = S ! (i * n + j)
      else S ! (i * n + j) = S0 ! (i * n + j)" if ij: "start \<le> i \<and> i \<le> j \<and> j < n" for i j
  proof (cases "i \<le> row")
    case True
    then have "i < row \<or> i = row \<and> j < n" "i < Suc row" using ij by auto
    then show ?thesis using entries[OF ij] by simp
  next
    case False
    then have "\<not> (i < row \<or> i = row \<and> j < n)" "\<not> (i < Suc row \<or> i = Suc row \<and> j < Suc row)" using ij by auto
    then show ?thesis using entries[OF ij] by (simp only: if_False)
  qed
  then show ?thesis using assms unfolding update_state_def by blast
qed

lemma symmetric_update_sound:
  assumes run: "symmetric_update n start ctx upd S0 = Inr S'" and len: "length S0 = n * n" and "start \<le> n"
    and contract: "update_contract n start ctx upd S0 (\<lambda>i j r. \<forall>v. r = Inr v \<longrightarrow> Q i j v)"
  shows "length S' = n * n \<and> (\<forall>i j. start \<le> i \<and> i \<le> j \<and> j < n \<longrightarrow>
    Q i j (S' ! (i * n + j)) \<and> S' ! (j * n + i) = S' ! (i * n + j))"
proof -
  have "update_state n start S0 Q n n S'"
    using run unfolding symmetric_update_def Let_def
  proof (rule fold_result_upt_inv[where Q = "\<lambda>row. update_state n start S0 Q row row"])
    show "update_state n start S0 Q start start S0" using len by (auto simp: update_state_def)
    fix row S1 S2
    assume row: "start \<le> row" "row < n" "update_state n start S0 Q row row S1"
      and inner: "fold_result (\<lambda>column schur. bind_result (upd (ctx row S1) row column schur)
        (\<lambda>updated. Inr (schur[row * n + column := updated, column * n + row := updated]))) [row..<n] S1 = Inr S2"
    have "update_state n start S0 Q row n S2"
      using inner less_imp_le[OF row(2)] row(3)
    proof (rule fold_result_upt_inv[where Q = "update_state n start S0 Q row"])
      fix column S S''
      assume c: "row \<le> column" "column < n" "update_state n start S0 Q row column S"
        and step: "bind_result (upd (ctx row S1) row column S)
          (\<lambda>updated. Inr (S[row * n + column := updated, column * n + row := updated])) = Inr S''"
      obtain v where v: "upd (ctx row S1) row column S = Inr v"
        "S'' = S[row * n + column := v, column * n + row := v]" using step by (auto simp: result_simps)
      have "Q row column v"
        using contract row c v(1) unfolding update_contract_def update_state_def by (metis less_irrefl)
      then show "update_state n start S0 Q row (Suc column) S''"
        unfolding v(2) by (intro update_state_step c row(1))
    qed
    then show "update_state n start S0 Q (Suc row) (Suc row) S2" by (rule update_state_next_row)
  qed (use assms(3) in auto)
  then show ?thesis by (auto simp: update_state_def)
qed

lemma symmetric_update_ok:
  assumes len: "length S0 = n * n" and "start \<le> n"
    and contract: "update_contract n start ctx upd S0 (\<lambda>i j r. is_ok r)"
  shows "is_ok (symmetric_update n start ctx upd S0)"
proof -
  let ?T = "\<lambda>i j v. True"
  have "\<exists>S'. symmetric_update n start ctx upd S0 = Inr S' \<and> update_state n start S0 ?T n n S'"
    unfolding symmetric_update_def Let_def
  proof (rule fold_result_upt_ok[where Q = "\<lambda>row. update_state n start S0 ?T row row"])
    show "update_state n start S0 ?T start start S0" using len by (auto simp: update_state_def)
    fix row S1
    assume row: "start \<le> row" "row < n" "update_state n start S0 ?T row row S1"
    have "\<exists>S2. fold_result (\<lambda>column schur. bind_result (upd (ctx row S1) row column schur)
        (\<lambda>updated. Inr (schur[row * n + column := updated, column * n + row := updated]))) [row..<n] S1 = Inr S2 \<and>
        update_state n start S0 ?T row n S2"
    proof (rule fold_result_upt_ok[where Q = "update_state n start S0 ?T row"])
      fix column S
      assume c: "row \<le> column" "column < n" "update_state n start S0 ?T row column S"
      have "is_ok (upd (ctx row S1) row column S)"
        using contract row c unfolding update_contract_def update_state_def by (metis less_irrefl)
      then obtain v where "upd (ctx row S1) row column S = Inr v" by (auto simp: is_ok_iff)
      then show "\<exists>S'. bind_result (upd (ctx row S1) row column S)
          (\<lambda>updated. Inr (S[row * n + column := updated, column * n + row := updated])) = Inr S' \<and>
          update_state n start S0 ?T row (Suc column) S'"
        using update_state_step[OF c(3) row(1) c(1,2)] by simp
    qed (use row in simp_all)
    then show "\<exists>S2. fold_result (\<lambda>column schur. bind_result (upd (ctx row S1) row column schur)
        (\<lambda>updated. Inr (schur[row * n + column := updated, column * n + row := updated]))) [row..<n] S1 = Inr S2 \<and>
        update_state n start S0 ?T (Suc row) (Suc row) S2"
      using update_state_next_row by blast
  qed (use assms(2) in auto)
  then show ?thesis by (auto simp: is_ok_iff)
qed

section \<open>The certified two by two block\<close>

text \<open>The two eigenvalues of a symmetric block, their sum and product.\<close>

lemma block_eigenvalues:
  fixes a b c :: real
  defines "s \<equiv> sqrt ((a - c)\<^sup>2 + b\<^sup>2 * 4)"
  defines "l \<equiv> (a + c - s) / 2" and "h \<equiv> (a + c + s) / 2"
  shows "l * h = a * c - b * b" "l + h = a + c" "l \<le> h"
proof -
  have s: "s * s = (a - c)\<^sup>2 + b\<^sup>2 * 4" "0 \<le> s" by (simp_all add: s_def)
  show "l * h = a * c - b * b" using s by (simp add: l_def h_def power2_eq_square field_simps)
  show "l + h = a + c" "l \<le> h" using s(2) by (simp_all add: l_def h_def field_simps)
qed

definition pos_count :: "RationalInterval \<Rightarrow> nat" where
  "pos_count I = (if ri_is_strictly_positive I then 1 else 0)"

definition neg_count :: "RationalInterval \<Rightarrow> nat" where
  "neg_count I = (if ri_is_strictly_positive I then 0 else if ri_is_strictly_negative I then 1 else 0)"

text \<open>What a certified block says of every real symmetric block in the box.\<close>

definition block_certified :: "CertifiedTwoByTwoPivot \<Rightarrow> real \<Rightarrow> real \<Rightarrow> real \<Rightarrow> bool" where
  "block_certified B a b c \<longleftrightarrow> (let D = a * c - b * b in D \<noteq> 0 \<and>
     encloses (inverse_11 B) (c / D) \<and> encloses (inverse_12 B) (- b / D) \<and> encloses (inverse_22 B) (a / D) \<and>
     strict_sign (lower_eigenvalue B) \<and> strict_sign (upper_eigenvalue B) \<and>
     wf_interval (lower_eigenvalue B) \<and> wf_interval (upper_eigenvalue B) \<and>
     pos_count (lower_eigenvalue B) + pos_count (upper_eigenvalue B) = block_positive a b c \<and>
     neg_count (lower_eigenvalue B) + neg_count (upper_eigenvalue B) = block_negative a b c)"

lemma eigenvalue_signs_count:
  assumes "strict_sign L" "strict_sign H" "encloses L l" "encloses H h"
    "l * h = a * c - b * b" "l + h = a + c" "l \<le> h"
  shows "pos_count L + pos_count H = block_positive a b c" "neg_count L + neg_count H = block_negative a b c"
proof -
  have sL: "ri_is_strictly_positive L \<longleftrightarrow> 0 < l" "ri_is_strictly_negative L \<longleftrightarrow> l < 0" "l \<noteq> 0"
    and sH: "ri_is_strictly_positive H \<longleftrightarrow> 0 < h" "ri_is_strictly_negative H \<longleftrightarrow> h < 0" "h \<noteq> 0"
    using assms(1-4) strictly_positive_encloses strictly_negative_encloses
    unfolding strict_sign_def by (metis less_asym less_irrefl)+
  consider "0 < l" "0 < h" | "l < 0" "0 < h" | "l < 0" "h < 0" using sL(3) sH(3) assms(7) by linarith
  then show "pos_count L + pos_count H = block_positive a b c" "neg_count L + neg_count H = block_negative a b c"
    using sL sH assms(5,6) mult_pos_pos[of l h] mult_neg_neg[of l h] mult_neg_pos[of l h]
    by (cases; auto simp: pos_count_def neg_count_def block_positive_def block_negative_def)+
qed

lemma scale_invariant_signs_sound:
  assumes "scale_invariant_signs A B C Dt T = Inr (Some (L, H))" "\<not> ri_contains_zero Dt"
    "encloses Dt (a * c - b * b)" "encloses T (a + c)"
  shows "strict_sign L" "strict_sign H" "pos_count L + pos_count H = block_positive a b c"
    "neg_count L + neg_count H = block_negative a b c" "wf_interval L" "wf_interval H"
proof -
  define bound where "bound = max (magnitude A + magnitude B) (magnitude C + magnitude B)"
  define sep where "sep = (if ri_is_strictly_negative Dt then - upper Dt / bound else lower Dt / bound)"
  let ?pos = "\<lparr>lower = sep, upper = bound\<rparr>" and ?neg = "\<lparr>lower = - bound, upper = - sep\<rparr>"
  note run = assms(1)[unfolded scale_invariant_signs_def Let_def, folded bound_def, folded sep_def]
  have "0 \<le> magnitude X" for X by (simp add: magnitude_def)
  then have "0 \<le> bound" unfolding bound_def by (metis add_nonneg_nonneg max.coboundedI1)
  moreover have "bound \<noteq> 0" using run by auto
  ultimately have bound: "bound \<noteq> 0" "0 < bound" by simp_all
  have "0 < sep"
    using assms(2) bound by (auto simp: sep_def ri_tests intro!: divide_pos_pos divide_neg_pos)
  then have signs: "ri_is_strictly_positive ?pos" "ri_is_strictly_negative ?neg" "\<not> ri_is_strictly_positive ?neg"
    using bound by (simp_all add: ri_tests)
  have cases: "ri_is_strictly_negative Dt \<and> L = ?neg \<and> H = ?pos \<or>
    \<not> ri_is_strictly_negative Dt \<and> ri_is_strictly_positive T \<and> L = ?pos \<and> H = ?pos \<or>
    \<not> ri_is_strictly_negative Dt \<and> ri_is_strictly_negative T \<and> L = ?neg \<and> H = ?neg" and ordered: "sep \<le> bound"
    using run bound(1) by (auto simp: result_simps ri_new_def split: if_splits)
  have det: "ri_is_strictly_negative Dt \<Longrightarrow> a * c - b * b < 0"
    "\<not> ri_is_strictly_negative Dt \<Longrightarrow> 0 < a * c - b * b"
    using strictly_negative_encloses[OF _ assms(3)] not_contains_zero_sign[OF encloses_wf[OF assms(3)]]
      strictly_positive_encloses[OF _ assms(3)] assms(2) by auto
  have tr: "ri_is_strictly_positive T \<Longrightarrow> 0 < a + c" "ri_is_strictly_negative T \<Longrightarrow> a + c < 0"
    using strictly_positive_encloses[OF _ assms(4)] strictly_negative_encloses[OF _ assms(4)] by auto
  show "strict_sign L" "strict_sign H" "pos_count L + pos_count H = block_positive a b c"
    "neg_count L + neg_count H = block_negative a b c"
    using cases signs det tr
    by (auto simp: strict_sign_def pos_count_def neg_count_def block_positive_def block_negative_def)
  show "wf_interval L" "wf_interval H" using cases ordered by (auto simp: wf_interval_def)
qed

lemma square_nonneg: "wf_interval I \<Longrightarrow> 0 \<le> lower (ri_square I)"
  using encloses_square[OF wf_encloses_lower]
  by (cases "ri_contains_zero I")
    (auto simp: ri_square_def ri_mul_def Let_def ri_tests wf_interval_def zero_le_mult_iff)

lemma discriminant_nonneg:
  "wf_interval X \<Longrightarrow> wf_interval B \<Longrightarrow> 0 \<le> lower (ri_add (ri_square X) (ri_mul (ri_square B) (ri_point 4)))"
  using square_nonneg[of X] square_nonneg[of B] wf_square[of B]
  by (simp add: ri_add_def ri_mul_def ri_point_def Let_def wf_interval_def)

context integer_sqrt
begin

lemma certified_block:
  fixes a b c :: real
  assumes run: "certify_two_by_two_pivot isqrt M n f s si = Inr (Some blk)"
    and box: "encloses (M ! (f * n + f)) a" "encloses (M ! (f * n + s)) b" "encloses (M ! (s * n + s)) c"
  shows "block_certified blk a b c"
proof -
  let ?A = "M ! (f * n + f)" and ?B = "M ! (f * n + s)" and ?C = "M ! (s * n + s)"
  define Dt where "Dt = ri_sub (ri_mul ?A ?C) (ri_square ?B)"
  define disc where "disc = ri_add (ri_square (ri_sub ?A ?C)) (ri_mul (ri_square ?B) (ri_point 4))"
  define T where "T = ri_add ?A ?C"
  note run' = run[unfolded certify_two_by_two_pivot_def Let_def, folded Dt_def disc_def T_def]
  have nz: "\<not> ri_contains_zero Dt" using run' by auto
  have Dt: "encloses Dt (a * c - b * b)" unfolding Dt_def by (intro enclosure_intros box)
  then have D: "a * c - b * b \<noteq> 0" using nz by auto
  have T: "encloses T (a + c)" unfolding T_def by (intro enclosure_intros box)
  have "encloses disc ((a - c) * (a - c) + b * b * real_of_rat 4)"
    unfolding disc_def by (intro enclosure_intros box)
  then have disc: "encloses disc ((a - c)\<^sup>2 + b\<^sup>2 * 4)" by (simp add: power2_eq_square)
  have "wf_interval disc" "0 \<le> lower disc" 
    using encloses_wf[OF disc] discriminant_nonneg[OF encloses_wf[OF encloses_sub[OF box(1,3)]] encloses_wf[OF box(2)]]
    by (auto simp: disc_def)
  then obtain J where J: "ri_sqrt_nonnegative isqrt disc 256 = Inr J" "encloses J (sqrt ((a - c)\<^sup>2 + b\<^sup>2 * 4))"
    using sqrt_nonnegative_encloses[of disc 256] disc by auto
  obtain L H where L: "ri_div (ri_sub T J) (ri_point 2) = Inr L" and H: "ri_div (ri_add T J) (ri_point 2) = Inr H"
    using ri_div_ok[of "ri_point 2"] by (force simp: ri_tests ri_point_def)
  let ?s = "sqrt ((a - c)\<^sup>2 + b\<^sup>2 * 4)"
  have two: "encloses (ri_point 2) 2" using encloses_point[of 2] by simp
  have encL: "encloses L ((a + c - ?s) / 2)" and encH: "encloses H ((a + c + ?s) / 2)"
    using encloses_div(1)[OF L _ two] encloses_div(1)[OF H _ two] J(2) T by (auto intro: enclosure_intros)
  define signs where "signs = (if \<not> strict_sign L \<or> \<not> strict_sign H then
      if \<not> si then Inr None else scale_invariant_signs ?A ?B ?C Dt T else Inr (Some (L, H)))"
  have "\<exists>LE HE. signs = Inr (Some (LE, HE)) \<and> lower_eigenvalue blk = LE \<and> upper_eigenvalue blk = HE"
    and inv: "ri_div ?C Dt = Inr (inverse_11 blk)" "ri_div (ri_neg ?B) Dt = Inr (inverse_12 blk)"
      "ri_div ?A Dt = Inr (inverse_22 blk)"
    using run'[unfolded if_not_P[OF nz] J(1), simplified, unfolded L H, simplified]
    by (auto simp: result_simps signs_def split: option.splits prod.splits if_splits)
  then obtain LE HE where sg: "signs = Inr (Some (LE, HE))" "lower_eigenvalue blk = LE" "upper_eigenvalue blk = HE"
    by blast
  have "strict_sign LE \<and> strict_sign HE \<and> wf_interval LE \<and> wf_interval HE \<and> pos_count LE + pos_count HE = block_positive a b c \<and>
    neg_count LE + neg_count HE = block_negative a b c"
  proof (cases "strict_sign L \<and> strict_sign H")
    case True
    then have "LE = L" "HE = H" using sg(1) by (simp_all add: signs_def)
    then show ?thesis
      using True eigenvalue_signs_count[OF _ _ encL encH block_eigenvalues(1,2,3)] encloses_wf[OF encL] encloses_wf[OF encH] by blast
  next
    case False
    then have "scale_invariant_signs ?A ?B ?C Dt T = Inr (Some (LE, HE))"
      using sg(1) by (auto simp: signs_def split: if_splits)
    from scale_invariant_signs_sound[OF this nz Dt T] show ?thesis by blast
  qed
  then show ?thesis
    using sg D encloses_div(1)[OF inv(1) box(3) Dt] encloses_div(1)[OF inv(2) encloses_neg[OF box(2)] Dt]
      encloses_div(1)[OF inv(3) box(1) Dt]
    by (simp add: block_certified_def Let_def)
qed

end

section \<open>Schur steps enclose Schur complements\<close>

definition in_box :: "nat \<Rightarrow> nat \<Rightarrow> RationalInterval list \<Rightarrow> (nat \<Rightarrow> nat \<Rightarrow> real) \<Rightarrow> bool" where
  "in_box n k S R \<longleftrightarrow> length S = n * n \<and>
     (\<forall>i j. k \<le> i \<and> i < n \<and> k \<le> j \<and> j < n \<longrightarrow> encloses (S ! (i * n + j)) (R i j))"

definition symmetric_on :: "nat \<Rightarrow> (nat \<Rightarrow> nat \<Rightarrow> real) \<Rightarrow> bool" where
  "symmetric_on n R \<longleftrightarrow> (\<forall>i < n. \<forall>j < n. R i j = R j i)"

lemma in_boxD: "in_box n k S R \<Longrightarrow> k \<le> i \<Longrightarrow> i < n \<Longrightarrow> k \<le> j \<Longrightarrow> j < n \<Longrightarrow> encloses (S ! (i * n + j)) (R i j)"
  by (simp add: in_box_def)

lemma in_box_swap:
  assumes "in_box n k S R" "k \<le> l" "l < n" "k \<le> r" "r < n"
  shows "in_box n k (symmetric_swap S n l r) (\<lambda>i j. R (exchange l r i) (exchange l r j))"
proof -
  have "k \<le> exchange l r i" if "k \<le> i" for i using that assms by (simp add: exchange_def)
  then show ?thesis
    using assms unfolding in_box_def by (auto simp: symmetric_swap_entries)
qed

lemma symmetric_on_swap: "symmetric_on n R \<Longrightarrow> l < n \<Longrightarrow> r < n \<Longrightarrow>
    symmetric_on n (\<lambda>i j. R (exchange l r i) (exchange l r j))"
  by (auto simp: symmetric_on_def)

definition schur1 :: "nat \<Rightarrow> (nat \<Rightarrow> nat \<Rightarrow> real) \<Rightarrow> nat \<Rightarrow> nat \<Rightarrow> real" where
  "schur1 p R i j = R i j - R i p * R j p / R p p"

definition schur2 :: "nat \<Rightarrow> (nat \<Rightarrow> nat \<Rightarrow> real) \<Rightarrow> nat \<Rightarrow> nat \<Rightarrow> real" where
  "schur2 p R i j = (let a = R p p; b = R p (p + 1); c = R (p + 1) (p + 1); D = a * c - b * b in
     R i j - (R i p * (c / D) * R j p + R i p * (- b / D) * R j (p + 1) +
       R i (p + 1) * (- b / D) * R j p + R i (p + 1) * (a / D) * R j (p + 1)))"

lemma symmetric_on_schur:
  "symmetric_on n R \<Longrightarrow> symmetric_on n (schur1 p R)" "symmetric_on n R \<Longrightarrow> symmetric_on n (schur2 p R)"
  by (auto simp: symmetric_on_def schur1_def schur2_def Let_def algebra_simps)

lemma update_in_box:
  assumes "symmetric_update n start ctx upd S = Inr S'" "length S = n * n" "start \<le> n" "symmetric_on n R"
    "update_contract n start ctx upd S (\<lambda>i j r. \<forall>v. r = Inr v \<longrightarrow> encloses v (R i j))"
  shows "in_box n start S' R"
proof -
  have u: "length S' = n * n" "\<And>i j. start \<le> i \<and> i \<le> j \<and> j < n \<Longrightarrow>
    encloses (S' ! (i * n + j)) (R i j) \<and> S' ! (j * n + i) = S' ! (i * n + j)"
    using symmetric_update_sound[OF assms(1-3,5)] by auto
  have "encloses (S' ! (i * n + j)) (R i j)" if "start \<le> i" "i < n" "start \<le> j" "j < n" for i j
  proof (cases "i \<le> j")
    case False
    then have "encloses (S' ! (i * n + j)) (R j i)" using u(2)[of j i] that by auto
    moreover have "R j i = R i j" using assms(4) that by (simp add: symmetric_on_def)
    ultimately show ?thesis by simp
  qed (use u(2) that in blast)
  then show ?thesis using u(1) by (simp add: in_box_def)
qed

lemma one_by_one_in_box:
  assumes run: "one_by_one_update n p pivot S = Inr S'" and box: "in_box n p S R" and sym: "symmetric_on n R"
    and p: "p < n" "pivot = S ! (p * n + p)"
  shows "in_box n (p + 1) S' (schur1 p R)"
  using run unfolding one_by_one_update_def
proof (rule update_in_box)
  show "update_contract n (p + 1) (\<lambda>row schur. ()) (\<lambda>_ row column schur.
      let numerator = ri_mul (schur ! (row * n + p)) (schur ! (column * n + p))
      in bind_result (map_err Raised (map_err (failed ''interval pivoted LDLT division failed: '') (ri_div numerator pivot)))
           (\<lambda>correction. Inr (ri_sub (schur ! (row * n + column)) correction)))
      S (\<lambda>i j r. \<forall>v. r = Inr v \<longrightarrow> encloses v (schur1 p R i j))"
    unfolding update_contract_def Let_def
  proof (intro allI impI, elim conjE)
    fix row column S1 T v
    assume h: "p + 1 \<le> row" "row \<le> column" "column < n"
      "\<forall>i<n. \<forall>k<p + 1. S1 ! (i * n + k) = S ! (i * n + k) \<and> T ! (i * n + k) = S ! (i * n + k)"
      "T ! (row * n + column) = S ! (row * n + column)"
      "bind_result (map_err Raised (map_err (failed ''interval pivoted LDLT division failed: '')
         (ri_div (ri_mul (T ! (row * n + p)) (T ! (column * n + p))) pivot)))
         (\<lambda>correction. Inr (ri_sub (T ! (row * n + column)) correction)) = Inr v"
    have T: "T ! (row * n + p) = S ! (row * n + p)" "T ! (column * n + p) = S ! (column * n + p)"
      using h(1-4) by auto
    obtain q where q: "ri_div (ri_mul (S ! (row * n + p)) (S ! (column * n + p))) pivot = Inr q"
      "v = ri_sub (S ! (row * n + column)) q"
      using h(6) unfolding T h(5) by (auto simp: result_simps)
    have "encloses q (R row p * R column p / R p p)"
      using h p(1) unfolding p(2)
      by (intro encloses_div(1)[OF q(1)[unfolded p(2)]] enclosure_intros in_boxD[OF box]) auto
    then show "encloses v (schur1 p R row column)"
      unfolding q(2) schur1_def using h p by (intro enclosure_intros in_boxD[OF box]) auto
  qed
qed (use box p sym symmetric_on_schur(1) in \<open>auto simp: in_box_def\<close>)

lemma block_in_box:
  assumes run: "block_update n p blk S = Inr S'" and box: "in_box n p S R" and sym: "symmetric_on n R"
    and p: "p + 1 < n" and blk: "block_certified blk (R p p) (R p (p + 1)) (R (p + 1) (p + 1))"
  shows "in_box n (p + 2) S' (schur2 p R)"
  using run unfolding block_update_def
proof (rule update_in_box)
  show "update_contract n (p + 2)
      (\<lambda>row schur. (schur ! (row * n + p), schur ! (row * n + p + 1)))
      (\<lambda>(row_first, row_second) row column schur.
          let column_first = schur ! (column * n + p);
              column_second = schur ! (column * n + p + 1);
              correction =
                ri_add (ri_add (ri_add
                  (ri_mul (ri_mul row_first (inverse_11 blk)) column_first)
                  (ri_mul (ri_mul row_first (inverse_12 blk)) column_second))
                  (ri_mul (ri_mul row_second (inverse_12 blk)) column_first))
                  (ri_mul (ri_mul row_second (inverse_22 blk)) column_second)
          in Inr (ri_sub (schur ! (row * n + column)) correction))
      S (\<lambda>i j r. \<forall>v. r = Inr v \<longrightarrow> encloses v (schur2 p R i j))"
    unfolding update_contract_def Let_def prod.case
  proof (intro allI impI, elim conjE)
    let ?D = "R p p * R (p + 1) (p + 1) - R p (p + 1) * R p (p + 1)"
    have inv: "encloses (inverse_11 blk) (R (p + 1) (p + 1) / ?D)" "encloses (inverse_12 blk) (- R p (p + 1) / ?D)"
      "encloses (inverse_22 blk) (R p p / ?D)"
      using blk unfolding block_certified_def Let_def by blast+
    fix row column S1 T v
    assume h: "p + 2 \<le> row" "row \<le> column" "column < n"
      "\<forall>i<n. \<forall>k<p + 2. S1 ! (i * n + k) = S ! (i * n + k) \<and> T ! (i * n + k) = S ! (i * n + k)"
      "T ! (row * n + column) = S ! (row * n + column)"
    have T: "T ! (column * n + p) = S ! (column * n + p)" "T ! (column * n + p + 1) = S ! (column * n + (p + 1))"
      "S1 ! (row * n + p) = S ! (row * n + p)" "S1 ! (row * n + p + 1) = S ! (row * n + (p + 1))"
      using h(4)[rule_format, of column p] h(4)[rule_format, of column "p + 1"]
        h(4)[rule_format, of row p] h(4)[rule_format, of row "p + 1"] h(1-3) by auto
    assume "Inr (ri_sub (T ! (row * n + column))
        (ri_add (ri_add (ri_add
          (ri_mul (ri_mul (S1 ! (row * n + p)) (inverse_11 blk)) (T ! (column * n + p)))
          (ri_mul (ri_mul (S1 ! (row * n + p)) (inverse_12 blk)) (T ! (column * n + p + 1))))
          (ri_mul (ri_mul (S1 ! (row * n + p + 1)) (inverse_12 blk)) (T ! (column * n + p))))
          (ri_mul (ri_mul (S1 ! (row * n + p + 1)) (inverse_22 blk)) (T ! (column * n + p + 1))))) = Inr v"
    then show "encloses v (schur2 p R row column)"
      unfolding T h(5) schur2_def Let_def sum.inject
      by (elim subst; intro encloses_sub encloses_add encloses_mul in_boxD[OF box] inv)
        (use h(1-3) p in linarith)+
  qed
qed (use box p sym symmetric_on_schur(2) in \<open>auto simp: in_box_def\<close>)

section \<open>The loop\<close>

lemma trailing_insert: "(p :: nat) < n \<Longrightarrow> {p..<n} = insert p {p + 1..<n}"
  by auto

lemma trailing_insert2: "(p :: nat) + 1 < n \<Longrightarrow> {p..<n} = insert p (insert (p + 1) {p + 2..<n})"
  by auto

lemma signature_schur1:
  assumes "symmetric_on n R" "p < n" "R p p \<noteq> 0"
    "signature {p + 1..<n} (mform {p + 1..<n} (schur1 p R)) P N"
  shows "signature {p..<n} (mform {p..<n} R) (P + (if 0 < R p p then 1 else 0)) (N + (if R p p < 0 then 1 else 0))"
  unfolding trailing_insert[OF assms(2)]
  by (rule signature_pivot[where A = R and S = "schur1 p R"])
    (use assms in \<open>auto simp: symmetric_on_def schur1_def\<close>)

lemma signature_schur2:
  assumes "symmetric_on n R" "p + 1 < n"
    "R p p * R (p + 1) (p + 1) - R p (p + 1) * R p (p + 1) \<noteq> 0"
    "signature {p + 2..<n} (mform {p + 2..<n} (schur2 p R)) P N"
  shows "signature {p..<n} (mform {p..<n} R)
    (P + block_positive (R p p) (R p (p + 1)) (R (p + 1) (p + 1)))
    (N + block_negative (R p p) (R p (p + 1)) (R (p + 1) (p + 1)))"
  unfolding trailing_insert2[OF assms(2)]
  by (rule signature_block[where A = R and S = "schur2 p R", OF _ _ _ _ _ refl assms(3) _ assms(4)])
    (use assms in \<open>auto simp: symmetric_on_def schur2_def Let_def\<close>)

lemma signature_swap:
  assumes "p \<le> l" "l < n" "p \<le> r" "r < n"
    "signature {p..<n} (mform {p..<n} (\<lambda>i j. R (exchange l r i) (exchange l r j))) P N"
  shows "signature {p..<n} (mform {p..<n} R) P N"
  by (rule signature_reindex[where f = "exchange l r", OF _ assms(5)])
    (use assms in \<open>auto simp: exchange_def\<close>)

lemma count_sign_Inr:
  assumes "count_sign msg I (P, N) = Inr (P', N')"
  shows "strict_sign I" "P' = P + pos_count I" "N' = N + neg_count I"
  using assms by (auto simp: count_sign_def strict_sign_def pos_count_def neg_count_def ri_tests split: if_splits)

lemma find_block_Some:
  assumes "find_block isqrt S n si pairs = Inr (Some (f, s))"
  shows "(f, s) \<in> set pairs" "\<exists>B. certify_two_by_two_pivot isqrt S n f s si = Inr (Some B)"
  using assms by (induction pairs) (auto simp: result_simps split: if_splits)

lemma search_pairs_set: "(f, s) \<in> set (search_pairs p n) \<longleftrightarrow> p \<le> f \<and> f < s \<and> s < n"
  by (force simp: search_pairs_def)

lemma find_upt_Some:
  assumes "find Q [a..<b] = Some k"
  shows "a \<le> k" "k < b" "Q k"
  using assms by (auto simp: find_Some_iff)

lemma ldlt_loop_conclusive:
  assumes run: "ldlt_loop isqrt n si eb S pivots P N p = Inr (ConclusiveInertia P' N' pv)" and p: "p < n"
  obtains (one) sel S1 P1 N1 S2 where "p \<le> sel" "sel < n" "S1 = symmetric_swap S n p sel"
      "count_sign ''the selected interval pivot has a strict sign'' (S1 ! (p * n + p)) (P, N) = Inr (P1, N1)"
      "one_by_one_update n p (S1 ! (p * n + p)) S1 = Inr S2"
      "ldlt_loop isqrt n si eb S2 (pivots @ [S1 ! (p * n + p)]) P1 N1 (p + 1) = Inr (ConclusiveInertia P' N' pv)"
  | (two) f s S1 B P1 N1 P2 N2 S2 where "p \<le> f" "f < s" "s < n"
      "S1 = symmetric_swap (symmetric_swap S n p f) n (p + 1) s"
      "certify_two_by_two_pivot isqrt S1 n p (p + 1) si = Inr (Some B)"
      "count_sign ''certified block eigenvalue has a strict sign'' (lower_eigenvalue B) (P, N) = Inr (P1, N1)"
      "count_sign ''certified block eigenvalue has a strict sign'' (upper_eigenvalue B) (P1, N1) = Inr (P2, N2)"
      "block_update n p B S1 = Inr S2"
      "ldlt_loop isqrt n si eb S2 (pivots @ [lower_eigenvalue B, upper_eigenvalue B]) P2 N2 (p + 2) =
         Inr (ConclusiveInertia P' N' pv)"
proof -
  have budget: "\<not> (eb \<and> \<not> exact_interval_workspace_admitted S)"
    by (rule notI) (use run p in \<open>subst (asm) ldlt_loop.simps, simp\<close>)
  let ?find = "find (\<lambda>candidate. strict_sign (S ! (candidate * n + candidate))) [p..<n]"
  note step = run[unfolded ldlt_loop.simps[of isqrt n si eb S pivots P N p] if_not_P[OF budget], simplified p, simplified]
  show thesis
  proof (cases ?find)
    case (Some sel)
    then show thesis
      using step find_upt_Some[OF Some] by (auto simp: Let_def result_simps intro: one)
  next
    case None
    obtain f s where fs: "find_block isqrt S n si (search_pairs p n) = Inr (Some (f, s))"
      using step None by (auto simp: result_simps split: option.splits)
    then have b: "p \<le> f" "f < s" "s < n" "s \<noteq> p" using find_block_Some(1)[OF fs] by (auto simp: search_pairs_set)
    then show thesis
      using step None fs by (auto simp: Let_def result_simps split: option.splits intro: two[simplified])
  qed
qed

context integer_sqrt
begin

lemma ldlt_loop_sound:
  assumes "ldlt_loop isqrt n si eb S pivots P N p = Inr (ConclusiveInertia P' N' pv)"
    "in_box n p S R" "symmetric_on n R" "p \<le> n"
  shows "\<exists>P0 N0. P' = P + P0 \<and> N' = N + N0 \<and> length pv = length pivots + (n - p) \<and>
    signature {p..<n} (mform {p..<n} R) P0 N0"
  using assms
proof (induction "n - p" arbitrary: S pivots P N p R rule: less_induct)
  case less
  note run = less.prems(1) and box = less.prems(2) and sym = less.prems(3)
  show ?case
  proof (cases "p < n")
    case False
    then have "p = n" using less.prems(4) by simp
    then have "mform {p..<n} R = (\<lambda>y. 0)" "{p..<n} = {}" by (auto simp: mform_def)
    moreover have "ldlt_loop isqrt n si eb S pivots P N p = Inr (ConclusiveInertia P N pivots)"
      using False by (subst ldlt_loop.simps) simp
    then have "P' = P" "N' = N" "pv = pivots" using run by simp_all
    ultimately show ?thesis using signature_empty by auto
  next
    case True
    show ?thesis
    proof (cases rule: ldlt_loop_conclusive[OF run True, case_names one two])
      case (one sel S1 P1 N1 S2)
      let ?R = "\<lambda>i j. R (exchange p sel i) (exchange p sel j)"
      have box1: "in_box n p S1 ?R" unfolding one(3) using one(1,2) True box by (intro in_box_swap) auto
      have sym1: "symmetric_on n ?R" using sym one(1,2) True by (intro symmetric_on_swap) auto
      note cnt = count_sign_Inr[OF one(4)]
      have enc: "encloses (S1 ! (p * n + p)) (?R p p)" using in_boxD[OF box1, of p p] True by simp
      have sgn: "?R p p \<noteq> 0" "pos_count (S1 ! (p * n + p)) = (if 0 < ?R p p then 1 else 0)"
        "neg_count (S1 ! (p * n + p)) = (if ?R p p < 0 then 1 else 0)"
        using cnt(1) strictly_positive_encloses[OF _ enc] strictly_negative_encloses[OF _ enc]
        by (auto simp: strict_sign_def pos_count_def neg_count_def)
      have box2: "in_box n (p + 1) S2 (schur1 p ?R)" using one_by_one_in_box[OF one(5) box1 sym1 True refl] .
      obtain P0 N0 where IH: "P' = P1 + P0" "N' = N1 + N0" "length pv = length pivots + 1 + (n - (p + 1))"
        "signature {p + 1..<n} (mform {p + 1..<n} (schur1 p ?R)) P0 N0"
        using less.hyps[OF diff_less_mono2[OF _ True] one(6) box2 symmetric_on_schur(1)[OF sym1]] True by auto
      have "signature {p..<n} (mform {p..<n} ?R) (P0 + pos_count (S1 ! (p * n + p))) (N0 + neg_count (S1 ! (p * n + p)))"
        using signature_schur1[OF sym1 True sgn(1) IH(4)] unfolding sgn(2,3) .
      then have "signature {p..<n} (mform {p..<n} R) (P0 + pos_count (S1 ! (p * n + p))) (N0 + neg_count (S1 ! (p * n + p)))"
        by (rule signature_swap[of p p n sel, rotated 4]) (use one(1,2) True in auto)
      then show ?thesis using IH cnt True
        by (intro exI[of _ "P0 + pos_count (S1 ! (p * n + p))"] exI[of _ "N0 + neg_count (S1 ! (p * n + p))"]) auto
    next
      case (two f s S1 B P1 N1 P2 N2 S2)
      have pn: "p + 1 < n" "p + 1 \<le> s" using two(1-3) by auto
      let ?R1 = "\<lambda>i j. R (exchange p f i) (exchange p f j)"
      let ?R = "\<lambda>i j. ?R1 (exchange (p + 1) s i) (exchange (p + 1) s j)"
      have box1: "in_box n p S1 ?R"
        unfolding two(4) using two(1-3) pn True box by (intro in_box_swap) auto
      have sym1: "symmetric_on n ?R" using sym two(1-3) pn True by (intro symmetric_on_swap) auto
      have blk: "block_certified B (?R p p) (?R p (p + 1)) (?R (p + 1) (p + 1))"
        by (rule certified_block[OF two(5)]) (rule in_boxD[OF box1]; use pn in linarith)+
      note c1 = count_sign_Inr[OF two(6)] and c2 = count_sign_Inr[OF two(7)]
      have box2: "in_box n (p + 2) S2 (schur2 p ?R)" using block_in_box[OF two(8) box1 sym1 pn(1) blk] .
      obtain P0 N0 where IH: "P' = P2 + P0" "N' = N2 + N0" "length pv = length pivots + 2 + (n - (p + 2))"
        "signature {p + 2..<n} (mform {p + 2..<n} (schur2 p ?R)) P0 N0"
        using less.hyps[OF diff_less_mono2[OF _ True] two(9) box2 symmetric_on_schur(2)[OF sym1]] pn(1) by auto
      let ?P = "block_positive (?R p p) (?R p (p + 1)) (?R (p + 1) (p + 1))"
      let ?N = "block_negative (?R p p) (?R p (p + 1)) (?R (p + 1) (p + 1))"
      have D: "?R p p * ?R (p + 1) (p + 1) - ?R p (p + 1) * ?R p (p + 1) \<noteq> 0"
        using blk unfolding block_certified_def Let_def by blast
      from signature_schur2[OF sym1 pn(1) D IH(4)]
      have "signature {p..<n} (mform {p..<n} ?R1) (P0 + ?P) (N0 + ?N)"
        by (rule signature_swap[of p "p + 1" n s, rotated 4]) (use two(1-3) pn in auto)
      then have "signature {p..<n} (mform {p..<n} R) (P0 + ?P) (N0 + ?N)"
        by (rule signature_swap[of p p n f, rotated 4]) (use two(1-3) in auto)
      then show ?thesis
        using IH c1 c2 pn(1) blk
        by (intro exI[of _ "P0 + ?P"] exI[of _ "N0 + ?N"]) (auto simp: block_certified_def Let_def)
    qed
  qed
qed

end

section \<open>The elimination always returns\<close>

definition wf_trailing :: "nat \<Rightarrow> nat \<Rightarrow> RationalInterval list \<Rightarrow> bool" where
  "wf_trailing n k S \<longleftrightarrow> length S = n * n \<and>
     (\<forall>i j. k \<le> i \<and> i < n \<and> k \<le> j \<and> j < n \<longrightarrow> wf_interval (S ! (i * n + j)))"

text \<open>Every result accounts for the whole dimension with ordered pivot intervals; an inconclusive one says where the elimination stopped and
  shows the interval of the unresolved diagonal entry last.\<close>

fun accounted :: "nat \<Rightarrow> IntervalInertiaResult \<Rightarrow> bool" where
  "accounted n (ConclusiveInertia P N pv) \<longleftrightarrow> P + N = n \<and> length pv = n \<and> list_all wf_interval pv"
| "accounted n (InconclusiveInertia k P N u pv reason) \<longleftrightarrow>
     k < n \<and> P + N = k \<and> u = n - k \<and> length pv = k + 1 \<and> list_all wf_interval pv"

lemma wf_trailingD: "wf_trailing n k S \<Longrightarrow> k \<le> i \<Longrightarrow> i < n \<Longrightarrow> k \<le> j \<Longrightarrow> j < n \<Longrightarrow> wf_interval (S ! (i * n + j))"
  by (simp add: wf_trailing_def)

lemma wf_trailing_swap:
  "wf_trailing n k S \<Longrightarrow> k \<le> l \<Longrightarrow> l < n \<Longrightarrow> k \<le> r \<Longrightarrow> r < n \<Longrightarrow> wf_trailing n k (symmetric_swap S n l r)"
  unfolding wf_trailing_def by (auto simp: symmetric_swap_entries exchange_def)

lemma magnitude_bound: "wf_interval A \<Longrightarrow> \<bar>lower A\<bar> \<le> magnitude A" and magnitude_nonneg: "0 \<le> magnitude A"
  by (simp_all add: magnitude_def)

lemma separation_le_bound:
  assumes wf: "wf_interval A" "wf_interval B" "wf_interval C"
    and Dt: "Dt = ri_sub (ri_mul A C) (ri_square B)" and nz: "\<not> ri_contains_zero Dt"
    and bound: "bound = max (magnitude A + magnitude B) (magnitude C + magnitude B)" "bound \<noteq> 0"
  shows "(if ri_is_strictly_negative Dt then - upper Dt / bound else lower Dt / bound) \<le> bound"
proof -
  let ?a = "lower A" and ?b = "lower B" and ?c = "lower C"
  have "encloses Dt (real_of_rat ?a * real_of_rat ?c - real_of_rat ?b * real_of_rat ?b)"
    unfolding Dt by (intro encloses_sub encloses_mul encloses_square wf_encloses_lower wf)
  then have D: "lower Dt \<le> ?a * ?c - ?b * ?b" "?a * ?c - ?b * ?b \<le> upper Dt"
    unfolding encloses_def of_rat_mult[symmetric] of_rat_diff[symmetric] of_rat_less_eq by simp_all
  have "\<bar>?a * ?c - ?b * ?b\<bar> \<le> \<bar>?a\<bar> * \<bar>?c\<bar> + \<bar>?b\<bar> * \<bar>?b\<bar>"
    using abs_triangle_ineq4[of "?a * ?c" "?b * ?b"] by (simp add: abs_mult)
  also have "\<dots> \<le> magnitude A * magnitude C + magnitude B * magnitude B"
    using wf by (intro add_mono mult_mono magnitude_bound magnitude_nonneg) auto
  also have "\<dots> \<le> (magnitude A + magnitude B) * (magnitude C + magnitude B)"
    using magnitude_nonneg[of A] magnitude_nonneg[of B] magnitude_nonneg[of C]
    by (simp add: algebra_simps)
  also have "\<dots> \<le> bound * bound"
    unfolding bound(1) using magnitude_nonneg[of A] magnitude_nonneg[of B] magnitude_nonneg[of C]
    by (intro mult_mono) (auto simp: le_max_iff_disj)
  finally have le: "\<bar>?a * ?c - ?b * ?b\<bar> \<le> bound * bound" .
  have pos: "0 < bound"
    using bound magnitude_nonneg[of A] magnitude_nonneg[of B] by (simp add: max_def split: if_splits)
  have "- upper Dt \<le> bound * bound" "lower Dt \<le> bound * bound" using D le by linarith+
  then have "- upper Dt / bound \<le> bound" "lower Dt / bound \<le> bound"
    by (simp_all only: pos_divide_le_eq[OF pos])
  then show ?thesis by (cases "ri_is_strictly_negative Dt") (simp_all only: if_True if_False)
qed

context integer_sqrt
begin

lemma certify_block_ok:
  assumes wf: "wf_interval (M ! (f * n + f))" "wf_interval (M ! (f * n + s))" "wf_interval (M ! (s * n + s))"
  shows "\<exists>o'. certify_two_by_two_pivot isqrt M n f s si = Inr o' \<and>
    (\<forall>B. o' = Some B \<longrightarrow> strict_sign (lower_eigenvalue B) \<and> strict_sign (upper_eigenvalue B) \<and>
      wf_interval (lower_eigenvalue B) \<and> wf_interval (upper_eigenvalue B) \<and>
      wf_interval (inverse_11 B) \<and> wf_interval (inverse_12 B) \<and> wf_interval (inverse_22 B))"
proof (cases "certify_two_by_two_pivot isqrt M n f s si")
  case (Inr o')
  show ?thesis
  proof (cases o')
    case (Some B)
    then have "block_certified B (real_of_rat (lower (M ! (f * n + f)))) (real_of_rat (lower (M ! (f * n + s))))
        (real_of_rat (lower (M ! (s * n + s))))"
      using Inr by (intro certified_block[of M n f s si]) (auto intro: wf_encloses_lower wf simp del: encloses_of_rat_iff)
    then show ?thesis using Inr Some unfolding block_certified_def Let_def by (auto dest: encloses_wf)
  qed (use Inr in auto)
next
  case (Inl e)
  let ?A = "M ! (f * n + f)" and ?B = "M ! (f * n + s)" and ?C = "M ! (s * n + s)"
  define Dt where "Dt = ri_sub (ri_mul ?A ?C) (ri_square ?B)"
  define disc where "disc = ri_add (ri_square (ri_sub ?A ?C)) (ri_mul (ri_square ?B) (ri_point 4))"
  define T where "T = ri_add ?A ?C"
  note run = Inl[unfolded certify_two_by_two_pivot_def Let_def, folded Dt_def disc_def T_def]
  have nz: "\<not> ri_contains_zero Dt" using run by auto
  have "wf_interval disc" "0 \<le> lower disc"
    using wf discriminant_nonneg[of "ri_sub ?A ?C" ?B] by (auto simp: disc_def intro: wf_intros)
  then obtain J where J: "ri_sqrt_nonnegative isqrt disc 256 = Inr J"
    using sqrt_nonnegative_encloses[of disc 256] by auto
  obtain L H where L: "ri_div (ri_sub T J) (ri_point 2) = Inr L" and H: "ri_div (ri_add T J) (ri_point 2) = Inr H"
    using ri_div_ok[of "ri_point 2"] by (force simp: ri_tests ri_point_def)
  obtain i1 i2 i3 where i: "ri_div ?C Dt = Inr i1" "ri_div (ri_neg ?B) Dt = Inr i2" "ri_div ?A Dt = Inr i3"
    using ri_div_ok[OF nz] by metis
  have "is_ok (scale_invariant_signs ?A ?B ?C Dt T)"
  proof -
    define bound where "bound = max (magnitude ?A + magnitude ?B) (magnitude ?C + magnitude ?B)"
    obtain sep where sep: "(if ri_is_strictly_negative Dt then - upper Dt / bound else lower Dt / bound) = sep" by blast
    have "bound \<noteq> 0 \<Longrightarrow> sep \<le> bound" using separation_le_bound[OF wf Dt_def nz bound_def] unfolding sep .
    then show ?thesis
      unfolding scale_invariant_signs_def Let_def unfolding bound_def[symmetric] unfolding sep
      by (cases "bound = 0") (auto simp: ri_new_def)
  qed
  then show ?thesis
    using run nz J L H i
    by (auto simp: bind_result_eq_Inl is_ok_iff split: if_splits option.splits)
qed

lemma wf_trailing_update:
  assumes run: "symmetric_update n start ctx upd S = Inr S'" and wf: "wf_trailing n p S" and "start \<le> n"
    and contract: "update_contract n start ctx upd S (\<lambda>i j r. \<forall>v. r = Inr v \<longrightarrow> wf_interval v)"
  shows "wf_trailing n start S'"
proof -
  have entries: "length S' = n * n" "start \<le> i \<Longrightarrow> i \<le> j \<Longrightarrow> j < n \<Longrightarrow>
      wf_interval (S' ! (i * n + j)) \<and> S' ! (j * n + i) = S' ! (i * n + j)" for i j
    using symmetric_update_sound[OF run _ assms(3) contract] wf unfolding wf_trailing_def by blast+
  have "wf_interval (S' ! (i * n + j))" if "start \<le> i" "i < n" "start \<le> j" "j < n" for i j
    using entries(2)[of i j] entries(2)[of j i] that by (cases "i \<le> j") auto
  then show ?thesis using entries(1) unfolding wf_trailing_def by blast
qed

lemma one_by_one_ok:
  assumes wf: "wf_trailing n p S" and p: "p < n" and nz: "\<not> ri_contains_zero pivot" "wf_interval pivot"
  shows "\<exists>S'. one_by_one_update n p pivot S = Inr S' \<and> wf_trailing n (p + 1) S'"
proof -
  have len: "length S = n * n" using wf by (simp add: wf_trailing_def)
  have "is_ok (one_by_one_update n p pivot S)"
    unfolding one_by_one_update_def
  proof (rule symmetric_update_ok[OF len])
    show "p + 1 \<le> n" using p by simp
    show "update_contract n (p + 1) (\<lambda>row schur. ()) (\<lambda>_ row column schur.
          let numerator = ri_mul (schur ! (row * n + p)) (schur ! (column * n + p))
          in bind_result (map_err Raised (map_err (failed ''interval pivoted LDLT division failed: '')
               (ri_div numerator pivot))) (\<lambda>correction. Inr (ri_sub (schur ! (row * n + column)) correction)))
        S (\<lambda>i j r. is_ok r)"
      unfolding update_contract_def Let_def is_ok_iff by (simp add: result_simps ri_div_ok[OF nz(1)])
  qed
  then obtain S' where S': "one_by_one_update n p pivot S = Inr S'" by (auto simp: is_ok_iff)
  have "wf_trailing n (p + 1) S'"
  proof (rule wf_trailing_update[OF S'[unfolded one_by_one_update_def] wf], goal_cases)
    case 2
    show ?case
      unfolding update_contract_def
    proof (intro allI impI, elim conjE)
      fix row column S1 S2 v
      assume h: "p + 1 \<le> row" "row \<le> column" "column < n"
        "\<forall>i<n. \<forall>k<p + 1. S1 ! (i * n + k) = S ! (i * n + k) \<and> S2 ! (i * n + k) = S ! (i * n + k)"
        "S2 ! (row * n + column) = S ! (row * n + column)"
        and v: "(let numerator = ri_mul (S2 ! (row * n + p)) (S2 ! (column * n + p))
          in bind_result (map_err Raised (map_err (failed ''interval pivoted LDLT division failed: '')
               (ri_div numerator pivot))) (\<lambda>correction. Inr (ri_sub (S2 ! (row * n + column)) correction))) = Inr v"
      have "wf_interval (S2 ! (row * n + p))" "wf_interval (S2 ! (column * n + p))" "wf_interval (S2 ! (row * n + column))"
        using h wf_trailingD[OF wf] by auto
      then show "wf_interval v"
        using v nz by (auto simp: Let_def result_simps intro: wf_intros)
    qed
  qed (use p in simp)
  then show ?thesis using S' by blast
qed

lemma block_update_ok:
  assumes wf: "wf_trailing n p S" and p: "p + 1 < n"
    and inv: "wf_interval (inverse_11 B)" "wf_interval (inverse_12 B)" "wf_interval (inverse_22 B)"
  shows "\<exists>S'. block_update n p B S = Inr S' \<and> wf_trailing n (p + 2) S'"
proof -
  have len: "length S = n * n" using wf by (simp add: wf_trailing_def)
  have "is_ok (block_update n p B S)"
    unfolding block_update_def
    by (rule symmetric_update_ok[OF len]) (use p in \<open>auto simp: update_contract_def Let_def\<close>)
  then obtain S' where S': "block_update n p B S = Inr S'" by (auto simp: is_ok_iff)
  have "wf_trailing n (p + 2) S'"
  proof (rule wf_trailing_update[OF S'[unfolded block_update_def] wf], goal_cases)
    case 2
    show ?case
      unfolding update_contract_def
    proof (intro allI impI, elim conjE)
      fix row column S1 S2 v
      assume h: "p + 2 \<le> row" "row \<le> column" "column < n"
        "\<forall>i<n. \<forall>k<p + 2. S1 ! (i * n + k) = S ! (i * n + k) \<and> S2 ! (i * n + k) = S ! (i * n + k)"
        "S2 ! (row * n + column) = S ! (row * n + column)"
      assume v: "(case (S1 ! (row * n + p), S1 ! (row * n + p + 1)) of (row_first, row_second) \<Rightarrow>
        \<lambda>row column schur. let column_first = schur ! (column * n + p); column_second = schur ! (column * n + p + 1);
              correction =
                ri_add (ri_add (ri_add
                  (ri_mul (ri_mul row_first (inverse_11 B)) column_first)
                  (ri_mul (ri_mul row_first (inverse_12 B)) column_second))
                  (ri_mul (ri_mul row_second (inverse_12 B)) column_first))
                  (ri_mul (ri_mul row_second (inverse_22 B)) column_second)
          in Inr (ri_sub (schur ! (row * n + column)) correction)) row column S2 = Inr v"
      have nxt: "i * n + p + 1 = i * n + (p + 1)" for i by simp
      have "wf_interval (S1 ! (row * n + p))" "wf_interval (S1 ! (row * n + p + 1))"
        "wf_interval (S2 ! (column * n + p))" "wf_interval (S2 ! (column * n + p + 1))" "wf_interval (S2 ! (row * n + column))"
        unfolding nxt using h(1-3) h(4)[rule_format, of row p] h(4)[rule_format, of row "p + 1"] h(5)
          h(4)[rule_format, of column p] h(4)[rule_format, of column "p + 1"] wf_trailingD[OF wf]
        by (simp_all del: add_Suc_right)
      then show "wf_interval v"
        using v inv by (auto simp: Let_def intro!: wf_add wf_mul wf_sub)
    qed
  qed (use p in simp)
  then show ?thesis using S' by blast
qed

lemma find_block_ok:
  assumes "wf_trailing n p S" "\<forall>(f, s) \<in> set pairs. p \<le> f \<and> f < s \<and> s < n"
  shows "is_ok (find_block isqrt S n si pairs)"
  using assms(2)
proof (induction pairs)
  case (Cons fs pairs)
  obtain f s where fs: "fs = (f, s)" by (cases fs)
  have "\<exists>o'. certify_two_by_two_pivot isqrt S n f s si = Inr o'"
    using certify_block_ok[of S f n s si] wf_trailingD[OF assms(1)] Cons.prems fs by auto
  then show ?case using Cons fs by auto
qed simp

lemma certify_swapped:
  assumes len: "length S = n * n" and "p \<le> f" "f < s" "s < n"
  shows "certify_two_by_two_pivot isqrt (symmetric_swap (symmetric_swap S n p f) n (p + 1) s) n p (p + 1) si =
    certify_two_by_two_pivot isqrt S n f s si"
proof -
  let ?S = "symmetric_swap (symmetric_swap S n p f) n (p + 1) s"
  have entry: "?S ! (i * n + j) =
      S ! (exchange p f (exchange (p + 1) s i) * n + exchange p f (exchange (p + 1) s j))" if "i < n" "j < n" for i j
    using assms that by (simp add: symmetric_swap_entries)
  have "?S ! (p * n + p) = S ! (f * n + f)" "?S ! (p * n + (p + 1)) = S ! (f * n + s)"
    "?S ! ((p + 1) * n + (p + 1)) = S ! (s * n + s)"
    by (subst entry; use assms in \<open>simp add: exchange_def\<close>)+
  then show ?thesis unfolding certify_two_by_two_pivot_def by presburger
qed

lemma count_sign_ok: "strict_sign I \<Longrightarrow> \<exists>P' N'. count_sign msg I (P, N) = Inr (P', N') \<and> P' + N' = P + N + 1"
  by (auto simp: count_sign_def strict_sign_def)

lemma strict_sign_not_zero: "wf_interval I \<Longrightarrow> strict_sign I \<Longrightarrow> \<not> ri_contains_zero I"
  by (auto simp: strict_sign_def ri_tests)

lemma ldlt_loop_ok:
  "wf_trailing n p S \<Longrightarrow> p \<le> n \<Longrightarrow> P + N = p \<Longrightarrow> length pivots = p \<Longrightarrow> list_all wf_interval pivots \<Longrightarrow>
     \<exists>r. ldlt_loop isqrt n si eb S pivots P N p = Inr r \<and> accounted n r"
proof (induction "n - p" arbitrary: S pivots P N p rule: less_induct)
  case less
  show ?case
  proof (cases "p < n \<and> (eb \<longrightarrow> exact_interval_workspace_admitted S)")
    case False
    then show ?thesis using less.prems wf_trailingD[OF less.prems(1), of p p] by (subst ldlt_loop.simps) auto
  next
    case True
    then have p: "p < n" and budget: "\<not> (eb \<and> \<not> exact_interval_workspace_admitted S)" by auto
    have len: "length S = n * n" using less.prems by (simp add: wf_trailing_def)
    note step = ldlt_loop.simps[of isqrt n si eb S pivots P N p, unfolded if_not_P[OF budget]]
    show ?thesis
    proof (cases "find (\<lambda>candidate. strict_sign (S ! (candidate * n + candidate))) [p..<n]")
      case (Some sel)
      note sel = find_upt_Some[OF Some]
      define S1 where "S1 = symmetric_swap S n p sel"
      have wf1: "wf_trailing n p S1" unfolding S1_def using less.prems(1) sel p by (intro wf_trailing_swap) auto
      have "S1 ! (p * n + p) = S ! (sel * n + sel)"
        unfolding S1_def using len p sel by (simp add: symmetric_swap_entries exchange_def)
      then have sgn: "strict_sign (S1 ! (p * n + p))" "wf_interval (S1 ! (p * n + p))"
        using sel(3) wf_trailingD[OF wf1, of p p] p by auto
      obtain S2 where S2: "one_by_one_update n p (S1 ! (p * n + p)) S1 = Inr S2" "wf_trailing n (p + 1) S2"
        using one_by_one_ok[OF wf1 p strict_sign_not_zero[OF sgn(2,1)] sgn(2)] by blast
      obtain P1 N1 where c: "count_sign ''the selected interval pivot has a strict sign'' (S1 ! (p * n + p)) (P, N) = Inr (P1, N1)"
        "P1 + N1 = P + N + 1" using count_sign_ok[OF sgn(1)] by blast
      have "\<exists>r. ldlt_loop isqrt n si eb S2 (pivots @ [S1 ! (p * n + p)]) P1 N1 (p + 1) = Inr r \<and> accounted n r"
        using p c(2) less.prems(3-5) sgn(2) by (intro less.hyps S2(2)) auto
      then show ?thesis
        using p S2(1) Some c(1) unfolding step by (simp add: Let_def S1_def[symmetric])
    next
      case None
      have "is_ok (find_block isqrt S n si (search_pairs p n))"
        by (rule find_block_ok[OF less.prems(1)]) (auto simp: search_pairs_set)
      then obtain blk where blk: "find_block isqrt S n si (search_pairs p n) = Inr blk" by (auto simp: is_ok_iff)
      show ?thesis
      proof (cases blk)
        case None
        then show ?thesis
          using blk \<open>find _ _ = None\<close> p less.prems(3-5) wf_trailingD[OF less.prems(1), of p p] unfolding step by simp
      next
        case (Some fs)
        obtain f s where fs: "fs = (f, s)" by (cases fs)
        have b: "p \<le> f" "f < s" "s < n" using find_block_Some(1)[OF blk[unfolded Some fs]] by (auto simp: search_pairs_set)
        define S1 where "S1 = symmetric_swap (symmetric_swap S n p f) n (p + 1) s"
        have wf1: "wf_trailing n p S1" unfolding S1_def using less.prems(1) b by (intro wf_trailing_swap) auto
        obtain B where B: "certify_two_by_two_pivot isqrt S1 n p (p + 1) si = Inr (Some B)"
          using find_block_Some(2)[OF blk[unfolded Some fs]] unfolding S1_def certify_swapped[OF len b] by blast
        have wfB: "wf_interval (S1 ! (p * n + p))" "wf_interval (S1 ! (p * n + (p + 1)))"
          "wf_interval (S1 ! ((p + 1) * n + (p + 1)))" by (rule wf_trailingD[OF wf1]; use b in simp)+
        have props: "strict_sign (lower_eigenvalue B)" "strict_sign (upper_eigenvalue B)"
          "wf_interval (inverse_11 B)" "wf_interval (inverse_12 B)" "wf_interval (inverse_22 B)"
          "wf_interval (lower_eigenvalue B)" "wf_interval (upper_eigenvalue B)"
          using certify_block_ok[OF wfB, of si] B by auto
        obtain P1 N1 where c1: "count_sign ''certified block eigenvalue has a strict sign'' (lower_eigenvalue B) (P, N) = Inr (P1, N1)"
          "P1 + N1 = P + N + 1" using count_sign_ok[OF props(1)] by blast
        obtain P2 N2 where c2: "count_sign ''certified block eigenvalue has a strict sign'' (upper_eigenvalue B) (P1, N1) = Inr (P2, N2)"
          "P2 + N2 = P1 + N1 + 1" using count_sign_ok[OF props(2)] by blast
        obtain S2 where S2: "block_update n p B S1 = Inr S2" "wf_trailing n (p + 2) S2"
          using block_update_ok[OF wf1 _ props(3-5)] b by auto
        have "\<exists>r. ldlt_loop isqrt n si eb S2 (pivots @ [lower_eigenvalue B, upper_eigenvalue B]) P2 N2 (p + 2) = Inr r \<and>
            accounted n r"
          using p b c1(2) c2(2) less.prems(3-5) props(6,7) by (intro less.hyps S2(2)) auto
        then show ?thesis
          using p b S2(1) B c1(1) c2(1) blk Some fs \<open>find _ _ = None\<close>
          unfolding step by (auto simp: Let_def S1_def[symmetric] simp del: One_nat_def)
      qed
    qed
  qed
qed

end

section \<open>Properties\<close>

lemma symmetric_rows_None:
  "symmetric_rows n M ps = None \<longleftrightarrow> (\<forall>(i, j) \<in> set ps. M ! (i * n + j) = M ! (j * n + i))"
proof (induction ps)
  case (Cons ij ps)
  then show ?case by (cases ij) (auto simp: split_beta)
qed simp

lemma lower_pairs_set: "(i, j) \<in> set (lower_pairs n) \<longleftrightarrow> j < i \<and> i < n"
  by (force simp: lower_pairs_def)

lemma symmetric_rows_lower:
  "symmetric_rows n M (lower_pairs n) = None \<longleftrightarrow> (\<forall>i < n. \<forall>j < n. M ! (i * n + j) = M ! (j * n + i))"
proof -
  have "symmetric_rows n M (lower_pairs n) = None \<longleftrightarrow> (\<forall>i j. j < i \<and> i < n \<longrightarrow> M ! (i * n + j) = M ! (j * n + i))"
    unfolding symmetric_rows_None by (force simp: lower_pairs_set)
  then show ?thesis by (metis linorder_neqE_nat less_trans)
qed

lemma budget_run_conclusive:
  assumes "interval_symmetric_ldlt_inertia_with_budget isqrt M n si eb = Inr (ConclusiveInertia P N pv)" "fits_slice M"
  shows "0 < n \<and> length M = n * n \<and>
    ldlt_loop isqrt n si eb M [] 0 0 0 = Inr (ConclusiveInertia P N pv)"
  using assms saturating_mul_slice[OF assms(2), of n n]
  by (auto simp: interval_symmetric_ldlt_inertia_with_budget_def split: if_splits option.splits)

lemmas ldlt_entry_defs = interval_symmetric_ldlt_inertia_def interval_symmetric_ldlt_inertia_impl_def

context integer_sqrt
begin

lemma conclusive_signature:
  assumes "interval_symmetric_ldlt_inertia_with_budget isqrt M n si eb = Inr (ConclusiveInertia P N pv)" "fits_slice M"
    "\<And>i j. i < n \<Longrightarrow> j < n \<Longrightarrow> encloses (M ! (i * n + j)) (R i j)" "\<And>i j. i < n \<Longrightarrow> j < n \<Longrightarrow> R i j = R j i"
  shows "length pv = n \<and> P + N = n \<and> signature {..<n} (mform {..<n} R) P N"
proof -
  note run = budget_run_conclusive[OF assms(1,2)]
  have "in_box n 0 M R" "symmetric_on n R" using run assms(3,4) by (auto simp: in_box_def symmetric_on_def)
  from ldlt_loop_sound[OF conjunct2[OF conjunct2[OF run]] this]
  have "length pv = n" "signature {0..<n} (mform {0..<n} R) P N" by auto
  then show ?thesis unfolding lessThan_atLeast0 by (simp add: signature_def) blast
qed

lemma budget_returns:
  assumes "fits_slice M" "\<forall>I \<in> set M. wf_interval I"
  shows "(if 0 < n \<and> length M = saturating_mul n n \<and> symmetric_rows n M (lower_pairs n) = None
     then \<exists>r. interval_symmetric_ldlt_inertia_with_budget isqrt M n si eb = Inr r \<and> accounted n r
     else \<exists>e. interval_symmetric_ldlt_inertia_with_budget isqrt M n si eb = Inl (Raised e))"
proof (cases "0 < n \<and> length M = saturating_mul n n \<and> symmetric_rows n M (lower_pairs n) = None")
  case True
  have len: "length M = n * n" using saturating_mul_slice[OF assms(1)] True by blast
  then have wf: "wf_trailing n 0 M" using assms(2) row_major_less by (auto simp: wf_trailing_def)
  note loop = ldlt_loop_ok[OF wf, of 0 0 "[]" si eb]
  have "wf_interval (M ! 0)" using wf_trailingD[OF wf, of 0 0] True by simp
  then show ?thesis using True loop by (auto simp: interval_symmetric_ldlt_inertia_with_budget_def)
next
  case False
  then show ?thesis
    by (cases "symmetric_rows n M (lower_pairs n)") (auto simp: interval_symmetric_ldlt_inertia_with_budget_def)
qed

end

text \<open>C12. A conclusive result of the interval \<open>LDL\<^sup>T\<close> elimination is the inertia of every real symmetric matrix
  in the input box: the quadratic form has signature (positive, negative), and for any orthonormal eigenbasis exactly
  \<open>positive\<close> eigenvalues are positive, exactly \<open>negative\<close> are negative and none is zero.\<close>

theorem conclusive_inertia_counts_eigenvalues:
  assumes "integer_sqrt isqrt" "fits_slice matrix"
    and "interval_symmetric_ldlt_inertia isqrt matrix n = Inr (ConclusiveInertia positive negative pivots)"
    and "\<And>i j. i < n \<Longrightarrow> j < n \<Longrightarrow> encloses (matrix ! (i * n + j)) (R i j)"
    and "\<And>i j. i < n \<Longrightarrow> j < n \<Longrightarrow> R i j = R j i"
  shows "positive + negative = n \<and> length pivots = n \<and>
    signature {..<n} (mform {..<n} R) positive negative \<and>
    (\<forall>v lam. eigenbasis n R v lam \<longrightarrow>
       card {k. k < n \<and> 0 < lam k} = positive \<and> card {k. k < n \<and> lam k < 0} = negative \<and> (\<forall>k < n. lam k \<noteq> 0))"
  using integer_sqrt.conclusive_signature[OF assms(1) assms(3)[unfolded ldlt_entry_defs] assms(2,4,5)] signature_eigenvalues[of n R positive negative] by blast

definition saddle_box :: "RationalInterval list" where
  "saddle_box = [\<lparr>lower = 1, upper = 3\<rparr>, \<lparr>lower = -1/10, upper = 1/10\<rparr>,
                 \<lparr>lower = -1/10, upper = 1/10\<rparr>, \<lparr>lower = -2, upper = -1\<rparr>]"

definition saddle :: "nat \<Rightarrow> nat \<Rightarrow> real" where
  "saddle i j = (if i \<noteq> j then 0 else if i = 0 then 2 else -1)"

definition saddle_schur :: "RationalInterval list" where
  "saddle_schur = saddle_box[3 := \<lparr>lower = -201/100, upper = -99/100\<rparr>]"

lemma saddle_quotients:
  "quotient_of (1 / 10) = (1, 10)" "quotient_of (- 1 / 10) = (-1, 10)" "quotient_of (- 1) = (-1, 1)"
  "quotient_of (- 201 / 100) = (-201, 100)" "quotient_of (- 99 / 100) = (-99, 100)" "quotient_of (- 2) = (-2, 1)"
  "quotient_of 3 = (3, 1)" "quotient_of 1 = (1, 1)"
  by code_simp+

lemma saddle_admitted:
  "exact_interval_workspace_admitted saddle_box" "exact_interval_workspace_admitted saddle_schur"
  unfolding exact_interval_workspace_admitted_def saddle_schur_def saddle_box_def
  by (simp_all add: saddle_quotients[simplified] significant_bits_def significant_bits_nat.simps)

lemma saddle_box_steps:
  "find (\<lambda>candidate. strict_sign (saddle_box ! (candidate * 2 + candidate))) [0..<2] = Some 0"
  "find (\<lambda>candidate. strict_sign (saddle_schur ! (candidate * 2 + candidate))) [1..<2] = Some 1"
  "one_by_one_update 2 0 (saddle_box ! 0) saddle_box = Inr saddle_schur"
  "one_by_one_update 2 1 (saddle_schur ! 3) saddle_schur = Inr saddle_schur"
  "symmetric_rows 2 saddle_box (lower_pairs 2) = None"
  by code_simp+

lemma saddle_box_signs:
  "ri_is_strictly_positive (saddle_box ! 0)" "ri_is_strictly_negative (saddle_schur ! 3)"
  "\<not> ri_is_strictly_positive (saddle_schur ! 3)" "length saddle_box = 4"
  by code_simp+

lemma saddle_box_conclusive:
  "\<exists>pv. interval_symmetric_ldlt_inertia isqrt_ref saddle_box 2 = Inr (ConclusiveInertia 1 1 pv)"
  using saddle_admitted saddle_box_steps saddle_box_signs
  by (simp add: interval_symmetric_ldlt_inertia_def interval_symmetric_ldlt_inertia_impl_def
      interval_symmetric_ldlt_inertia_with_budget_def saturating_mul_def usize_max_def ldlt_loop.simps
      symmetric_swap_def count_sign_def numeral_3_eq_3)

lemma less_2_cases_nat: "(i :: nat) < 2 \<longleftrightarrow> i = 0 \<or> i = 1"
  by auto

lemma saddle_in_box: "i < 2 \<Longrightarrow> j < 2 \<Longrightarrow> encloses (saddle_box ! (i * 2 + j)) (saddle i j)"
  by (auto simp: less_2_cases_nat saddle_box_def saddle_def encloses_def of_rat_divide of_rat_minus)

lemma saddle_eigenbasis: "eigenbasis 2 saddle (\<lambda>k i. if i = k then 1 else 0) (\<lambda>k. if k = 0 then 2 else -1)"
  by (auto simp: eigenbasis_def dot_def saddle_def less_2_cases_nat numeral_2_eq_2)

theorem conclusive_inertia_counts_eigenvalues_witness:
  "\<exists>pivots. interval_symmetric_ldlt_inertia isqrt_ref saddle_box 2 = Inr (ConclusiveInertia 1 1 pivots) \<and>
     length pivots = 2 \<and> signature {..<2} (mform {..<2} saddle) 1 1 \<and>
     card {k. k < 2 \<and> 0 < (if k = (0::nat) then 2 else -1 :: real)} = 1"
proof -
  obtain pv where run: "interval_symmetric_ldlt_inertia isqrt_ref saddle_box 2 = Inr (ConclusiveInertia 1 1 pv)"
    using saddle_box_conclusive by blast
  have "fits_slice saddle_box" by (simp add: saddle_box_def fits_slice_def isize_max_def)
  from conclusive_inertia_counts_eigenvalues[OF ref_sqrt.integer_sqrt_axioms this run, of saddle]
  show ?thesis using run saddle_in_box saddle_eigenbasis by (auto simp: saddle_def)
qed

text \<open>C13. The elimination is total and its errors are exactly the two input checks: it never panics (no
  \<open>unreachable!\<close> or \<open>expect\<close> is reached, no division by a pivot containing zero), it returns an error exactly when the
  dimension is zero, the length is wrong or the matrix is not symmetric, and otherwise the counts account for the whole
  dimension.\<close>

theorem interval_inertia_is_total:
  assumes "integer_sqrt isqrt" "fits_slice matrix" "\<forall>I \<in> set matrix. wf_interval I"
  shows "\<not> panics (interval_symmetric_ldlt_inertia isqrt matrix n) \<and>
    (is_ok (interval_symmetric_ldlt_inertia isqrt matrix n) \<longleftrightarrow>
       0 < n \<and> length matrix = n * n \<and> (\<forall>i < n. \<forall>j < n. matrix ! (i * n + j) = matrix ! (j * n + i))) \<and>
    (\<forall>r. interval_symmetric_ldlt_inertia isqrt matrix n = Inr r \<longrightarrow> accounted n r)"
proof -
  have len: "n * n = length matrix \<longleftrightarrow> length matrix = saturating_mul n n"
    using assms(2) saturating_mul_slice[OF assms(2), of n n] by (auto simp: fits_slice_def saturating_mul_def isize_max_def usize_max_def)
  show ?thesis
    using integer_sqrt.budget_returns[OF assms, of n True True] symmetric_rows_lower[of n matrix] len
    by (auto simp: ldlt_entry_defs split: if_splits)
qed

theorem interval_inertia_is_total_witness:
  "is_ok (interval_symmetric_ldlt_inertia isqrt_ref saddle_box 2) \<and>
   \<not> panics (interval_symmetric_ldlt_inertia isqrt_ref saddle_box 3) \<and>
   \<not> is_ok (interval_symmetric_ldlt_inertia isqrt_ref saddle_box 3)"
proof -
  have "fits_slice saddle_box" "\<forall>I \<in> set saddle_box. wf_interval I"
    by (simp_all add: saddle_box_def fits_slice_def isize_max_def wf_interval_def)
  note total = interval_inertia_is_total[OF ref_sqrt.integer_sqrt_axioms this]
  show ?thesis using total[of 2] total[of 3] by (simp add: less_2_cases_nat saddle_box_def)
qed

end
