(* ===== verification/Mpfr_Inertia.thy ===== *)
theory Mpfr_Inertia
  imports Mpfr_Interval Interval_Inertia
begin

text \<open>
  The directed MPFR inertia kernel of \<open>crates/xc-numerics/src/symmetric_inertia.rs\<close> and its certificate adapter
  \<open>crates/xc-certify/src/interval_inertia.rs\<close>. As in the source, both triangles of the input are stored, and after the
  first Schur update only the upper triangle of the trailing block is current: \<open>inertia_swap\<close> and \<open>below\<close> follow that
  convention. The scratch buffers of a row job are pairs of numbers at precision \<open>p\<close>.

  \<open>mpfr_env\<close> is what the code observes of its thread pool: the number of workers, the exponent range of each thread, the worker
  a row is given to, and for the update of the rows from \<open>start\<close> an arbitrary schedule. A schedule is a list of rows: each occurrence runs
  the next entry of that row's job on the shared array, so the jobs interleave entry by entry; rows the schedule leaves unfinished are
  finished afterwards, as the join does. The first error of the interleaving is the returned one. It can be that of any failing
  row, as for \<open>try_for_each_init\<close>, which does not specify which error it returns.

  The soundness proof reuses the signature lemmas of \<open>Inertia_Algebra\<close>: a conclusive count is the inertia of every symmetric
  real matrix in the box.
\<close>

section \<open>Data\<close>

datatype MpfrInertiaResult =
    MpfrConclusive (mpfr_positive: nat) (mpfr_negative: nat) (mpfr_pivots: "MpfrInterval list")
  | MpfrInconclusive nat (mpfr_positive: nat) (mpfr_negative: nat) nat (mpfr_pivots: "MpfrInterval list") string

record Block =
  block_low :: MpfrInterval
  block_high :: MpfrInterval
  block_inverse_11 :: MpfrInterval
  block_inverse_12 :: MpfrInterval
  block_inverse_22 :: MpfrInterval

record mpfr_env =
  worker_count :: nat
  caller_bounds :: "int \<times> int"
  worker_bounds :: "nat \<Rightarrow> int \<times> int"
  row_worker :: "nat \<Rightarrow> nat"
  row_schedule :: "nat \<Rightarrow> nat list"

section \<open>Exchanges and the certified block\<close>

definition signed :: "MpfrInterval \<Rightarrow> bool" where
  "signed v \<longleftrightarrow> is_ok (mi_validate v) \<and> (mi_is_strictly_positive v \<or> float_less (mupper v) (float_int 1 0))"

definition upper_index :: "nat \<Rightarrow> nat \<Rightarrow> nat \<Rightarrow> nat" where
  "upper_index n i j = min i j * n + max i j"

definition inertia_swap :: "'a list \<Rightarrow> nat \<Rightarrow> nat \<Rightarrow> nat \<Rightarrow> nat option \<Rightarrow> 'a list" where
  "inertia_swap a n first second upper_from =
     (if first = second then a
      else case upper_from of
        None \<Rightarrow>
          let a = foldl (\<lambda>a j. swap_entries a (first * n + j) (second * n + j)) a [0..<n]
          in foldl (\<lambda>a i. swap_entries a (i * n + first) (i * n + second)) a [0..<n]
      | Some start \<Rightarrow>
          let (first, second) = (min first second, max first second);
              a = swap_entries a (first * n + first) (second * n + second)
          in foldl (\<lambda>a j. swap_entries a (upper_index n first j) (upper_index n second j)) a
               (filter (\<lambda>j. j \<noteq> first \<and> j \<noteq> second) [start..<n]))"

definition below :: "'a list \<Rightarrow> nat \<Rightarrow> bool \<Rightarrow> nat \<Rightarrow> nat \<Rightarrow> 'a" where
  "below a n updated row column = (if updated then a ! (column * n + row) else a ! (row * n + column))"

definition inertia_block ::
  "rug \<Rightarrow> MpfrInterval list \<Rightarrow> nat \<Rightarrow> nat \<Rightarrow> nat \<Rightarrow> nat \<Rightarrow> IntervalError fault + Block option" where
  "inertia_block L a n first second p =
     (let x = a ! (first * n + first); y = a ! (first * n + second); z = a ! (second * n + second);
          det = mi_sub L (mi_mul L x z) (mi_square L y)
      in bind_result (map_err Raised (mi_validate det)) (\<lambda>_.
         if mi_contains_zero det then Inr None
         else
           bind_result (mi_from_i64 L 4 p) (\<lambda>four.
           bind_result (map_err Raised (mi_sqrt L
             (mi_add L (mi_square L (mi_sub L x z)) (mi_mul L (mi_square L y) four)))) (\<lambda>root.
           let trace = mi_add L x z in
           bind_result (mi_from_i64 L 2 p) (\<lambda>two.
           bind_result (map_err Raised (mi_div L (mi_sub L trace root) two)) (\<lambda>low.
           bind_result (map_err Raised (mi_div L (mi_add L trace root) two)) (\<lambda>high.
           if \<not> signed low \<or> \<not> signed high then Inr None
           else
             bind_result (map_err Raised (mi_div L z det)) (\<lambda>i11.
             bind_result (map_err Raised (mi_div L (mi_neg y) det)) (\<lambda>i12.
             bind_result (map_err Raised (mi_div L x det)) (\<lambda>i22.
             Inr (Some \<lparr>block_low = low, block_high = high, block_inverse_11 = i11, block_inverse_12 = i12,
                        block_inverse_22 = i22\<rparr>)))))))))))"

section \<open>Scratch arithmetic\<close>

definition finite_ordered :: "string \<Rightarrow> Float \<times> Float \<Rightarrow> IntervalError + unit" where
  "finite_ordered message s =
     (if \<not> is_finite (fst s) \<or> \<not> is_finite (snd s) \<or> float_less (snd s) (fst s) then Inl (Invalid message) else Inr ())"

text \<open>The corners that attain the extrema, or \<open>None\<close> when both operands contain zero inside.\<close>

definition selected_corners :: "Float \<times> Float \<Rightarrow> Float \<times> Float \<Rightarrow> (Float \<times> Float \<times> Float \<times> Float) option" where
  "selected_corners a b =
     (let (al, au) = a; (bl, bu) = b; zero = float_int 1 0 in
      if float_le zero al then
        if float_le zero bl then Some (al, bl, au, bu)
        else if float_le bu zero then Some (au, bl, al, bu)
        else Some (au, bl, au, bu)
      else if float_le au zero then
        if float_le zero bl then Some (al, bu, au, bl)
        else if float_le bu zero then Some (au, bu, al, bl)
        else Some (al, bu, al, bl)
      else if float_le zero bl then Some (al, bu, au, bu)
      else if float_le bu zero then Some (au, bl, al, bl)
      else None)"

definition selected_product :: "rug \<Rightarrow> nat \<Rightarrow> Float \<times> Float \<Rightarrow> Float \<times> Float \<Rightarrow> IntervalError + Float \<times> Float" where
  "selected_product L p a b =
     (let (al, au) = a; (bl, bu) = b;
          s = (case selected_corners a b of
                 Some (ll, lr, ul, ur) \<Rightarrow> (float_mul L Down p ll lr, float_mul L Up p ul ur)
               | None \<Rightarrow> (float_min (float_mul L Down p al bu) (float_mul L Down p au bl),
                          float_max (float_mul L Up p al bl) (float_mul L Up p au bu)))
      in bind_result (finite_ordered ''MPFR interval endpoints must be finite and ordered'' s) (\<lambda>_. Inr s))"

definition full_product :: "rug \<Rightarrow> nat \<Rightarrow> Float \<times> Float \<Rightarrow> Float \<times> Float \<Rightarrow> IntervalError + Float \<times> Float" where
  "full_product L p a b =
     (case corner_extrema L p (corners (fst a) (snd a)) (corners (fst b) (snd b)) of
        Some s \<Rightarrow> bind_result (finite_ordered ''invalid or unrepresentable MPFR interval'' s) (\<lambda>_. Inr s)
      | None \<Rightarrow> Inl unrepresentable)"

definition scratch_add :: "rug \<Rightarrow> nat \<Rightarrow> Float \<times> Float \<Rightarrow> Float \<times> Float \<Rightarrow> IntervalError + Float \<times> Float" where
  "scratch_add L p self other =
     (let s = (float_add L Down p (fst self) (fst other), float_add L Up p (snd self) (snd other))
      in bind_result (finite_ordered ''invalid or unrepresentable MPFR interval'' s) (\<lambda>_. Inr s))"

definition subtract_from :: "rug \<Rightarrow> Float \<times> Float \<Rightarrow> MpfrInterval \<Rightarrow> IntervalError + MpfrInterval" where
  "subtract_from L self previous =
     (let p = mi_precision previous in
      map_err (\<lambda>_. unrepresentable)
        (mi_new (float_sub L Down p (mlower previous) (snd self)) (float_sub L Up p (mupper previous) (fst self))))"

definition endpoints :: "MpfrInterval \<Rightarrow> Float \<times> Float" where
  "endpoints I = (mlower I, mupper I)"

definition schur_one :: "rug \<Rightarrow> nat \<Rightarrow> MpfrInterval \<Rightarrow> MpfrInterval \<Rightarrow> MpfrInterval \<Rightarrow> MpfrInterval \<Rightarrow> IntervalError + MpfrInterval" where
  "schur_one L p previous left right reciprocal =
     bind_result (selected_product L p (endpoints left) (endpoints right)) (\<lambda>first.
     bind_result (selected_product L p first (endpoints reciprocal)) (\<lambda>second.
     subtract_from L second previous))"

definition block_term :: "rug \<Rightarrow> nat \<Rightarrow> MpfrInterval \<times> MpfrInterval \<times> MpfrInterval \<Rightarrow> IntervalError + Float \<times> Float" where
  "block_term L p t =
     (let (left, middle, right) = t in
      bind_result (full_product L p (endpoints left) (endpoints middle)) (\<lambda>first.
      full_product L p first (endpoints right)))"

definition schur_two ::
  "rug \<Rightarrow> nat \<Rightarrow> MpfrInterval \<Rightarrow> MpfrInterval \<Rightarrow> MpfrInterval \<Rightarrow> MpfrInterval \<Rightarrow> MpfrInterval \<Rightarrow> Block \<Rightarrow>
     IntervalError + MpfrInterval" where
  "schur_two L p previous ri si rj sj block =
     bind_result (block_term L p (ri, block_inverse_11 block, rj)) (\<lambda>sum.
     bind_result (fold_result (\<lambda>t sum. bind_result (block_term L p t) (\<lambda>second. scratch_add L p sum second))
       [(ri, block_inverse_12 block, sj), (si, block_inverse_12 block, rj), (si, block_inverse_22 block, sj)] sum) (\<lambda>sum.
     subtract_from L sum previous))"

section \<open>Rows and validation\<close>

definition ensure_uniform_exponent_range :: "mpfr_env \<Rightarrow> IntervalError + unit" where
  "ensure_uniform_exponent_range env =
     (if \<exists>w \<in> set [0..<worker_count env]. worker_bounds env w \<noteq> caller_bounds env
      then Inl (Inconclusive ''parallel MPFR workers do not share the caller's exponent range'')
      else Inr ())"

definition runs_parallel :: "mpfr_env \<Rightarrow> nat \<Rightarrow> nat \<Rightarrow> bool" where
  "runs_parallel env rows p \<longleftrightarrow>
     (let cells = saturating_mul rows (saturating_add rows 1) div 2
      in worker_count env > 1 \<and> saturating_mul cells p \<ge> saturating_mul (worker_count env) 32768)"

type_synonym entry_update = "nat \<Rightarrow> nat \<Rightarrow> MpfrInterval \<Rightarrow> IntervalError + MpfrInterval"

definition update_entry :: "nat \<Rightarrow> entry_update \<Rightarrow> nat \<Rightarrow> nat \<Rightarrow> MpfrInterval list \<Rightarrow> IntervalError + MpfrInterval list" where
  "update_entry n update i j a =
     bind_result (update i j (a ! (i * n + j))) (\<lambda>value.
     bind_result (mi_validate value) (\<lambda>_. Inr (a[i * n + j := value])))"

definition bounds_error :: IntervalError where
  "bounds_error = Inconclusive ''parallel inertia requires matching MPFR exponent bounds''"

text \<open>A row job on one thread.\<close>

definition row_update :: "mpfr_env \<Rightarrow> int \<times> int \<Rightarrow> nat \<Rightarrow> entry_update \<Rightarrow> nat \<Rightarrow> MpfrInterval list \<Rightarrow> IntervalError + MpfrInterval list" where
  "row_update env bounds n update i a =
     (if bounds \<noteq> caller_bounds env then Inl bounds_error else fold_result (update_entry n update i) [i..<n] a)"

text \<open>One scheduled step of row \<open>i\<close>: \<open>next i\<close> is the next column of its job, which begins with the check of the bounds.\<close>

definition row_job_step ::
  "mpfr_env \<Rightarrow> (nat \<Rightarrow> int \<times> int) \<Rightarrow> nat \<Rightarrow> entry_update \<Rightarrow> nat \<Rightarrow> MpfrInterval list \<times> (nat \<Rightarrow> nat) \<Rightarrow>
     IntervalError + MpfrInterval list \<times> (nat \<Rightarrow> nat)" where
  "row_job_step env bounds n update i state =
     (let (a, next_column) = state; j = next_column i
      in if n \<le> j then Inr (a, next_column)
         else if j = i \<and> bounds i \<noteq> caller_bounds env then Inl bounds_error
         else bind_result (update_entry n update i j a) (\<lambda>a. Inr (a, next_column(i := Suc j))))"

definition row_steps :: "nat list \<Rightarrow> nat \<Rightarrow> nat \<Rightarrow> nat list" where
  "row_steps schedule n start =
     filter (\<lambda>i. start \<le> i \<and> i < n) schedule @ concat (map (\<lambda>i. replicate (n - i) i) [start..<n])"

definition update_schur_rows ::
  "mpfr_env \<Rightarrow> MpfrInterval list \<Rightarrow> nat \<Rightarrow> nat \<Rightarrow> nat \<Rightarrow> entry_update \<Rightarrow> IntervalError + MpfrInterval list" where
  "update_schur_rows env a n start p update =
     (if runs_parallel env (n - start) p
      then map_ok fst (fold_result (row_job_step env (\<lambda>i. worker_bounds env (row_worker env i)) n update)
        (row_steps (row_schedule env start) n start) (a, \<lambda>i. i))
      else fold_result (row_update env (caller_bounds env) n update) [start..<n] a)"

definition validate_inertia_input :: "mpfr_env \<Rightarrow> MpfrInterval list \<Rightarrow> nat \<Rightarrow> nat \<Rightarrow> IntervalError + unit" where
  "validate_inertia_input env matrix n p =
     (if \<not> (32 \<le> p \<and> p \<le> 1000000) then Inl (Invalid ''unsupported interval inertia precision'')
      else if n = 0 \<or> checked_mul n n \<noteq> Some (length matrix) then Inl (Invalid ''invalid inertia matrix shape'')
      else if \<exists>(i, j) \<in> set (lower_pairs n).
          \<not> float_equal (mlower (matrix ! (i * n + j))) (mlower (matrix ! (j * n + i))) \<or>
          \<not> float_equal (mupper (matrix ! (i * n + j))) (mupper (matrix ! (j * n + i)))
      then Inl (Invalid ''asymmetric interval matrix'')
      else bind_result (if worker_count env > 1 then ensure_uniform_exponent_range env else Inr ()) (\<lambda>_.
        fold_result (\<lambda>value _. bind_result (mi_validate value) (\<lambda>_.
          if mi_precision value \<noteq> p then Inl (Invalid ''inertia input precision mismatch'') else Inr ())) matrix ()))"

section \<open>The elimination\<close>

definition separation :: "MpfrInterval list \<Rightarrow> nat \<Rightarrow> nat \<Rightarrow> Float" where
  "separation a n index =
     (let v = a ! (index * n + index) in if mi_is_strictly_positive v then mlower v else float_neg (mupper v))"

text \<open>\<open>Iterator::max_by\<close>: the last of several maximal elements.\<close>

fun max_by_separation :: "(nat \<Rightarrow> Float) \<Rightarrow> nat list \<Rightarrow> nat option" where
  "max_by_separation sep [] = None"
| "max_by_separation sep (x # xs) = Some (foldl (\<lambda>best j. if total_less (sep j) (sep best) then best else j) x xs)"

definition diagonal_pivot :: "MpfrInterval list \<Rightarrow> nat \<Rightarrow> nat \<Rightarrow> bool \<Rightarrow> nat option" where
  "diagonal_pivot a n k stable_pivots =
     (if stable_pivots then max_by_separation (separation a n) (filter (\<lambda>j. signed (a ! (j * n + j))) [k..<n])
      else find (\<lambda>j. signed (a ! (j * n + j))) [k..<n])"

fun find_inertia_block ::
  "rug \<Rightarrow> MpfrInterval list \<Rightarrow> nat \<Rightarrow> nat \<Rightarrow> (nat \<times> nat) list \<Rightarrow> IntervalError fault + (nat \<times> nat) option" where
  "find_inertia_block L a n p [] = Inr None"
| "find_inertia_block L a n p ((i, j) # pairs) =
     bind_result (inertia_block L a n i j p) (\<lambda>b.
       if b \<noteq> None then Inr (Some (i, j)) else find_inertia_block L a n p pairs)"

definition count_signed :: "MpfrInterval \<Rightarrow> nat \<times> nat \<Rightarrow> nat \<times> nat" where
  "count_signed pivot counts =
     (if mi_is_strictly_positive pivot then (fst counts + 1, snd counts) else (fst counts, snd counts + 1))"

function inertia_loop ::
  "rug \<Rightarrow> mpfr_env \<Rightarrow> nat \<Rightarrow> nat \<Rightarrow> bool \<Rightarrow> MpfrInterval list \<Rightarrow> MpfrInterval list \<Rightarrow> nat \<times> nat \<Rightarrow> nat \<Rightarrow> bool \<Rightarrow>
     IntervalError fault + MpfrInertiaResult" where
  "inertia_loop L env n p stable_pivots a pivots counts k updated =
     (if \<not> k < n then Inr (MpfrConclusive (fst counts) (snd counts) pivots)
      else case diagonal_pivot a n k stable_pivots of
        Some selected \<Rightarrow>
          let a = inertia_swap a n k selected (if updated then Some k else None);
              pivot = a ! (k * n + k); pivots = pivots @ [pivot]; counts = count_signed pivot counts
          in if k + 1 = n then inertia_loop L env n p stable_pivots a pivots counts (k + 1) updated
             else
               bind_result (map_err Raised (mi_reciprocal L pivot)) (\<lambda>inverse_pivot.
               let column = map (\<lambda>i. below a n updated i k) [k + 1..<n] in
               bind_result (map_err Raised (update_schur_rows env a n (k + 1) p (\<lambda>i j previous.
                 schur_one L p previous (column ! (i - k - 1)) (column ! (j - k - 1)) inverse_pivot))) (\<lambda>a.
               inertia_loop L env n p stable_pivots a pivots counts (k + 1) True))
      | None \<Rightarrow>
          bind_result (find_inertia_block L a n p (search_pairs k n)) (\<lambda>selected.
          case selected of
            None \<Rightarrow> Inr (MpfrInconclusive k (fst counts) (snd counts) (n - k) (pivots @ [a ! (k * n + k)])
              ''no remaining signed MPFR interval 1x1 or 2x2 pivot'')
          | Some (i, j) \<Rightarrow>
              let a = inertia_swap a n k i (if updated then Some k else None);
                  adjusted = (if j = k then i else j);
                  a = inertia_swap a n (k + 1) adjusted (if updated then Some k else None)
              in bind_result (inertia_block L a n k (k + 1) p) (\<lambda>certified.
                 case certified of
                   None \<Rightarrow> Inl (Panicked ''same certified block after symmetric permutation'')
                 | Some b \<Rightarrow>
                     let pivots = pivots @ [block_low b, block_high b];
                         counts = count_signed (block_high b) (count_signed (block_low b) counts);
                         first = map (\<lambda>i. below a n updated i k) [k + 2..<n];
                         second = map (\<lambda>i. below a n updated i (k + 1)) [k + 2..<n]
                     in bind_result (map_err Raised (update_schur_rows env a n (k + 2) p (\<lambda>i j previous.
                          schur_two L p previous (first ! (i - k - 2)) (second ! (i - k - 2))
                            (first ! (j - k - 2)) (second ! (j - k - 2)) b))) (\<lambda>a.
                        inertia_loop L env n p stable_pivots a pivots counts (k + 2) True))))"
  by pat_completeness auto
termination
  by (relation "measure (\<lambda>(L, env, n, p, s, a, pivots, counts, k, u). n - k)") auto

declare inertia_loop.simps [simp del]

definition inertia_validated ::
  "rug \<Rightarrow> mpfr_env \<Rightarrow> MpfrInterval list \<Rightarrow> nat \<Rightarrow> nat \<Rightarrow> bool \<Rightarrow> IntervalError fault + MpfrInertiaResult" where
  "inertia_validated L env a n p stable_pivots = inertia_loop L env n p stable_pivots a [] (0, 0) 0 False"

definition inertia_impl ::
  "rug \<Rightarrow> mpfr_env \<Rightarrow> MpfrInterval list \<Rightarrow> nat \<Rightarrow> nat \<Rightarrow> bool \<Rightarrow> IntervalError fault + MpfrInertiaResult" where
  "inertia_impl L env matrix n p stable_pivots =
     bind_result (map_err Raised (validate_inertia_input env matrix n p)) (\<lambda>_.
       inertia_validated L env matrix n p stable_pivots)"

definition inertia :: "rug \<Rightarrow> mpfr_env \<Rightarrow> MpfrInterval list \<Rightarrow> nat \<Rightarrow> nat \<Rightarrow> IntervalError fault + MpfrInertiaResult" where
  "inertia L env matrix n p = inertia_impl L env matrix n p False"

definition inertia_stable :: "rug \<Rightarrow> mpfr_env \<Rightarrow> MpfrInterval list \<Rightarrow> nat \<Rightarrow> nat \<Rightarrow> IntervalError fault + MpfrInertiaResult" where
  "inertia_stable L env matrix n p = inertia_impl L env matrix n p True"

definition inertia_owned :: "rug \<Rightarrow> mpfr_env \<Rightarrow> MpfrInterval list \<Rightarrow> nat \<Rightarrow> nat \<Rightarrow> IntervalError fault + MpfrInertiaResult" where
  "inertia_owned L env matrix n p =
     bind_result (map_err Raised (validate_inertia_input env matrix n p)) (\<lambda>_. inertia_validated L env matrix n p False)"

definition inertia_stable_owned :: "rug \<Rightarrow> mpfr_env \<Rightarrow> MpfrInterval list \<Rightarrow> nat \<Rightarrow> nat \<Rightarrow> IntervalError fault + MpfrInertiaResult" where
  "inertia_stable_owned L env matrix n p =
     bind_result (map_err Raised (validate_inertia_input env matrix n p)) (\<lambda>_. inertia_validated L env matrix n p True)"

section \<open>The certificate adapter\<close>

definition mpfr_records :: "MpfrInterval list \<Rightarrow> IntervalError fault + RationalInterval list" where
  "mpfr_records values = collect_results mi_to_rational_interval values"

definition inertia_route ::
  "rug \<Rightarrow> mpfr_env \<Rightarrow> RationalInterval list \<Rightarrow> nat \<Rightarrow> nat \<Rightarrow> bool \<Rightarrow> IntervalError fault + IntervalInertiaResult" where
  "inertia_route L env matrix n p stb =
     (if \<not> (32 \<le> p \<and> p \<le> 1000000) \<or> n = 0 \<or> checked_mul n n \<noteq> Some (length matrix)
      then Inl (Raised (Invalid ''invalid interval inertia shape or precision''))
      else if symmetric_rows n matrix (lower_pairs n) \<noteq> None
      then Inl (Raised (Invalid ''asymmetric rational inertia matrix''))
      else
        bind_result (map_err Raised (collect_results (\<lambda>v.
          mi_new (round_rational L Down p (lower v)) (round_rational L Up p (upper v))) matrix)) (\<lambda>matrix.
        bind_result (if stb then inertia_stable_owned L env matrix n p else inertia_owned L env matrix n p) (\<lambda>result.
        case result of
          MpfrConclusive positive negative pivot_enclosures \<Rightarrow>
            bind_result (mpfr_records pivot_enclosures) (\<lambda>pivots. Inr (ConclusiveInertia positive negative pivots))
        | MpfrInconclusive pivot_index positive negative unresolved pivot_enclosures reason \<Rightarrow>
            bind_result (mpfr_records pivot_enclosures) (\<lambda>pivots.
              Inr (InconclusiveInertia pivot_index positive negative unresolved pivots reason)))))"

definition adapter_inertia ::
  "rug \<Rightarrow> mpfr_env \<Rightarrow> RationalInterval list \<Rightarrow> nat \<Rightarrow> nat \<Rightarrow> IntervalError fault + IntervalInertiaResult" where
  "adapter_inertia L env matrix n p = inertia_route L env matrix n p False"

definition adapter_inertia_stable ::
  "rug \<Rightarrow> mpfr_env \<Rightarrow> RationalInterval list \<Rightarrow> nat \<Rightarrow> nat \<Rightarrow> IntervalError fault + IntervalInertiaResult" where
  "adapter_inertia_stable L env matrix n p = inertia_route L env matrix n p True"

text \<open>An error of the interval library becomes a certificate error; a panic stays one.\<close>

fun map_fault :: "('e \<Rightarrow> 'f) \<Rightarrow> 'e fault + 'a \<Rightarrow> 'f fault + 'a" where
  "map_fault f (Inr x) = Inr x"
| "map_fault f (Inl (Raised e)) = Inl (Raised (f e))"
| "map_fault f (Inl (Panicked m)) = Inl (Panicked m)"

definition interval_symmetric_ldlt_inertia_mpfr ::
  "rug \<Rightarrow> mpfr_env \<Rightarrow> RationalInterval list \<Rightarrow> nat \<Rightarrow> nat \<Rightarrow> CertificateError fault + IntervalInertiaResult" where
  "interval_symmetric_ldlt_inertia_mpfr L env matrix dimension precision_bits =
     map_fault (failed ''MPFR interval inertia: '') (adapter_inertia L env matrix dimension precision_bits)"

definition interval_symmetric_ldlt_inertia_mpfr_stable ::
  "rug \<Rightarrow> mpfr_env \<Rightarrow> RationalInterval list \<Rightarrow> nat \<Rightarrow> nat \<Rightarrow> CertificateError fault + IntervalInertiaResult" where
  "interval_symmetric_ldlt_inertia_mpfr_stable L env matrix dimension precision_bits =
     map_fault (failed ''MPFR stable interval inertia: '') (adapter_inertia_stable L env matrix dimension precision_bits)"

section \<open>Scratch arithmetic encloses\<close>

definition pair_encloses :: "Float \<times> Float \<Rightarrow> real \<Rightarrow> bool" where
  "pair_encloses s x \<longleftrightarrow> is_finite (fst s) \<and> is_finite (snd s) \<and> of_rat (fval (fst s)) \<le> x \<and> x \<le> of_rat (fval (snd s))"

lemma endpoints_encloses: "mi_encloses I x \<Longrightarrow> pair_encloses (endpoints I) x"
  by (simp add: pair_encloses_def endpoints_def mi_encloses_iff mi_ok_iff)

lemma finite_ordered_Inr: "finite_ordered m s = Inr u \<longleftrightarrow> is_finite (fst s) \<and> is_finite (snd s) \<and> fval (fst s) \<le> fval (snd s)"
  by (auto simp: finite_ordered_def)

lemma pair_enclosesI:
  "is_finite l \<Longrightarrow> is_finite u \<Longrightarrow> rounds_down l a \<Longrightarrow> rounds_up u b \<Longrightarrow> a \<le> x \<Longrightarrow> x \<le> b \<Longrightarrow> pair_encloses (l, u) x"
  using rounds_down_finite[of l a] rounds_up_finite[of u b] by (auto simp: pair_encloses_def)

lemma float_min_rounds:
  assumes "rounds_down d a" "rounds_down e b"
  shows "rounds_down (float_min d e) a" "rounds_down (float_min d e) b"
proof -
  have "\<not> is_nan d" "\<not> is_nan e" using assms by (cases "data d"; cases "data e"; auto simp: rounds_down_def is_nan_def)+
  then show "rounds_down (float_min d e) a" "rounds_down (float_min d e) b"
    using assms by (auto simp: float_min_def intro: rounds_extrema)
qed

lemma float_max_rounds:
  assumes "rounds_up d a" "rounds_up e b"
  shows "rounds_up (float_max d e) a" "rounds_up (float_max d e) b"
proof -
  have "\<not> is_nan d" "\<not> is_nan e" using assms by (cases "data d"; cases "data e"; auto simp: rounds_up_def is_nan_def)+
  then show "rounds_up (float_max d e) a" "rounds_up (float_max d e) b"
    using assms by (auto simp: float_max_def intro: rounds_extrema)
qed

lemma rounds_down_mono: "rounds_down f a \<Longrightarrow> a \<le> b \<Longrightarrow> rounds_down f b"
  and rounds_up_mono: "rounds_up f b \<Longrightarrow> a \<le> b \<Longrightarrow> rounds_up f a"
  by (auto simp: rounds_down_def rounds_up_def split: float_data.splits)

text \<open>The corner choice of the sign cases, over the reals.\<close>

lemma selected_corner_bounds:
  fixes x y al au bl bu :: real
  assumes b: "al \<le> x" "x \<le> au" "bl \<le> y" "y \<le> bu"
  shows "0 \<le> al \<Longrightarrow> 0 \<le> bl \<Longrightarrow> al * bl \<le> x * y \<and> x * y \<le> au * bu"
    "0 \<le> al \<Longrightarrow> bu \<le> 0 \<Longrightarrow> au * bl \<le> x * y \<and> x * y \<le> al * bu"
    "0 \<le> al \<Longrightarrow> bl < 0 \<Longrightarrow> 0 < bu \<Longrightarrow> au * bl \<le> x * y \<and> x * y \<le> au * bu"
    "au \<le> 0 \<Longrightarrow> 0 \<le> bl \<Longrightarrow> al * bu \<le> x * y \<and> x * y \<le> au * bl"
    "au \<le> 0 \<Longrightarrow> bu \<le> 0 \<Longrightarrow> au * bu \<le> x * y \<and> x * y \<le> al * bl"
    "au \<le> 0 \<Longrightarrow> bl < 0 \<Longrightarrow> 0 < bu \<Longrightarrow> al * bu \<le> x * y \<and> x * y \<le> al * bl"
    "al < 0 \<Longrightarrow> 0 < au \<Longrightarrow> 0 \<le> bl \<Longrightarrow> al * bu \<le> x * y \<and> x * y \<le> au * bu"
    "al < 0 \<Longrightarrow> 0 < au \<Longrightarrow> bu \<le> 0 \<Longrightarrow> au * bl \<le> x * y \<and> x * y \<le> al * bl"
    "al < 0 \<Longrightarrow> 0 < au \<Longrightarrow> bl < 0 \<Longrightarrow> 0 < bu \<Longrightarrow>
      (al * bu \<le> x * y \<or> au * bl \<le> x * y) \<and> (x * y \<le> al * bl \<or> x * y \<le> au * bu)"
proof -
  note by_x = mult_left_mono[OF b(3), of x] mult_left_mono[OF b(4), of x] mult_left_mono_neg[OF b(3), of x]
    mult_left_mono_neg[OF b(4), of x]
  note by_b = mult_right_mono[OF b(1), of bl] mult_right_mono[OF b(1), of bu] mult_right_mono[OF b(2), of bl]
    mult_right_mono[OF b(2), of bu] mult_right_mono_neg[OF b(1), of bl] mult_right_mono_neg[OF b(1), of bu]
    mult_right_mono_neg[OF b(2), of bl] mult_right_mono_neg[OF b(2), of bu]
  note by_y = mult_right_mono[OF b(1), of y] mult_right_mono[OF b(2), of y] mult_right_mono_neg[OF b(1), of y]
    mult_right_mono_neg[OF b(2), of y]
  note by_a = mult_left_mono[OF b(3), of au] mult_left_mono[OF b(4), of au] mult_left_mono_neg[OF b(3), of al]
    mult_left_mono_neg[OF b(4), of al]
  show "0 \<le> al \<Longrightarrow> 0 \<le> bl \<Longrightarrow> al * bl \<le> x * y \<and> x * y \<le> au * bu"
    "0 \<le> al \<Longrightarrow> bu \<le> 0 \<Longrightarrow> au * bl \<le> x * y \<and> x * y \<le> al * bu"
    "0 \<le> al \<Longrightarrow> bl < 0 \<Longrightarrow> 0 < bu \<Longrightarrow> au * bl \<le> x * y \<and> x * y \<le> au * bu"
    "au \<le> 0 \<Longrightarrow> 0 \<le> bl \<Longrightarrow> al * bu \<le> x * y \<and> x * y \<le> au * bl"
    "au \<le> 0 \<Longrightarrow> bu \<le> 0 \<Longrightarrow> au * bu \<le> x * y \<and> x * y \<le> al * bl"
    "au \<le> 0 \<Longrightarrow> bl < 0 \<Longrightarrow> 0 < bu \<Longrightarrow> al * bu \<le> x * y \<and> x * y \<le> al * bl"
    using by_x by_b b by (smt (verit))+
  show "al < 0 \<Longrightarrow> 0 < au \<Longrightarrow> 0 \<le> bl \<Longrightarrow> al * bu \<le> x * y \<and> x * y \<le> au * bu"
    "al < 0 \<Longrightarrow> 0 < au \<Longrightarrow> bu \<le> 0 \<Longrightarrow> au * bl \<le> x * y \<and> x * y \<le> al * bl"
    using by_y by_a b by (smt (verit))+
  show "al < 0 \<Longrightarrow> 0 < au \<Longrightarrow> bl < 0 \<Longrightarrow> 0 < bu \<Longrightarrow>
      (al * bu \<le> x * y \<or> au * bl \<le> x * y) \<and> (x * y \<le> al * bl \<or> x * y \<le> au * bu)"
    using by_x by_b b by (smt (verit))
qed

text \<open>The same bounds for the endpoint numbers the code picks.\<close>

lemma selected_corners_bounds:
  assumes "pair_encloses a x" "pair_encloses b y" "selected_corners a b = Some (ll, lr, ul, ur)"
  shows "{ll, ul} \<subseteq> {fst a, snd a} \<and> {lr, ur} \<subseteq> {fst b, snd b} \<and>
    of_rat (fval ll * fval lr) \<le> x * y \<and> x * y \<le> of_rat (fval ul * fval ur)"
proof -
  obtain al au where a: "a = (al, au)" by (cases a)
  obtain bl bu where b: "b = (bl, bu)" by (cases b)
  have fin [simp]: "is_finite al" "is_finite au" "is_finite bl" "is_finite bu"
    using assms(1,2) by (auto simp: a b pair_encloses_def)
  have bounds: "real_of_rat (fval al) \<le> x" "x \<le> of_rat (fval au)" "real_of_rat (fval bl) \<le> y" "y \<le> of_rat (fval bu)"
    using assms(1,2) by (auto simp: a b pair_encloses_def)
  note sel = selected_corner_bounds[OF bounds,
    unfolded zero_le_of_rat_iff of_rat_le_0_iff of_rat_less_0_iff zero_less_of_rat_iff]
  show ?thesis
    using assms(3) sel unfolding a b selected_corners_def
    by (auto simp: Let_def of_rat_mult not_le split: if_splits)
qed

lemma selected_corners_None:
  assumes "pair_encloses a x" "pair_encloses b y" "selected_corners a b = None"
  shows "(of_rat (fval (fst a) * fval (snd b)) \<le> x * y \<or> of_rat (fval (snd a) * fval (fst b)) \<le> x * y) \<and>
    (x * y \<le> of_rat (fval (fst a) * fval (fst b)) \<or> x * y \<le> of_rat (fval (snd a) * fval (snd b)))"
proof -
  have fin [simp]: "is_finite (fst a)" "is_finite (snd a)" "is_finite (fst b)" "is_finite (snd b)"
    using assms(1,2) by (auto simp: pair_encloses_def)
  have "\<not> 0 \<le> fval (fst a)" "\<not> fval (snd a) \<le> 0" "\<not> 0 \<le> fval (fst b)" "\<not> fval (snd b) \<le> 0"
    using assms(3) by (auto simp: selected_corners_def split_beta Let_def split: if_splits)
  then show ?thesis
    using assms(1,2) unfolding of_rat_mult
    by (intro selected_corner_bounds(9)) (auto simp: pair_encloses_def not_le)
qed

context directed_mpfr
begin

lemma selected_product_encloses:
  assumes run: "selected_product L p a b = Inr s" and a: "pair_encloses a x" and b: "pair_encloses b y"
  shows "pair_encloses s (x * y)"
proof -
  have fin: "is_finite (fst a)" "is_finite (snd a)" "is_finite (fst b)" "is_finite (snd b)"
    using a b by (auto simp: pair_encloses_def)
  obtain l u where s: "s = (l, u)" by (cases s)
  have ok: "is_finite l" "is_finite u"
    using run by (auto simp: selected_product_def Let_def split_beta bind_result_eq_Inr finite_ordered_Inr s)
  show ?thesis
  proof (cases "selected_corners a b")
    case None
    then have lu: "l = float_min (float_mul L Down p (fst a) (snd b)) (float_mul L Down p (snd a) (fst b))"
      "u = float_max (float_mul L Up p (fst a) (fst b)) (float_mul L Up p (snd a) (snd b))"
      using run by (auto simp: selected_product_def Let_def split_beta bind_result_eq_Inr s)
    note d = directed_intros(1)[OF product[OF fin(1,4), of p]] directed_intros(1)[OF product[OF fin(2,3), of p]]
      and u = directed_intros(2)[OF product[OF fin(1,3), of p]] directed_intros(2)[OF product[OF fin(2,4), of p]]
    have "rounds_down l (x * y)" "rounds_up u (x * y)"
      using selected_corners_None[OF a b None] float_min_rounds[OF d] float_max_rounds[OF u]
      unfolding lu by (auto intro: rounds_down_mono rounds_up_mono)
    then show ?thesis unfolding s using ok by (intro pair_enclosesI) auto
  next
    case (Some c)
    obtain ll lr ul ur where c: "c = (ll, lr, ul, ur)" by (cases c)
    note sel = selected_corners_bounds[OF a b Some[unfolded c]]
    have lu: "l = float_mul L Down p ll lr" "u = float_mul L Up p ul ur"
      using run Some c by (auto simp: selected_product_def Let_def split_beta bind_result_eq_Inr s)
    have fins: "is_finite ll" "is_finite lr" "is_finite ul" "is_finite ur" using sel fin by auto
    show ?thesis
      unfolding s lu using sel ok directed_intros[OF product[OF fins(1,2), of p]] directed_intros[OF product[OF fins(3,4), of p]]
      by (intro pair_enclosesI) (auto simp: lu)
  qed
qed

lemma full_product_encloses:
  assumes run: "full_product L p a b = Inr s" and a: "pair_encloses a x" and b: "pair_encloses b y"
  shows "pair_encloses s (x * y)"
proof -
  obtain l u where s: "s = (l, u)" by (cases s)
  have ex: "corner_extrema L p (corners (fst a) (snd a)) (corners (fst b) (snd b)) = Some (l, u)"
    and ok: "is_finite l" "is_finite u"
    using run by (auto simp: full_product_def bind_result_eq_Inr finite_ordered_Inr s split: option.splits)
  let ?A = "\<lparr>lower = fval (fst a), upper = fval (snd a)\<rparr>" and ?B = "\<lparr>lower = fval (fst b), upper = fval (snd b)\<rparr>"
  have "encloses (ri_mul ?A ?B) (x * y)"
    using a b by (intro encloses_mul) (auto simp: encloses_def pair_encloses_def)
  moreover have "rounds_down l (of_rat (lower (ri_mul ?A ?B))) \<and> rounds_up u (of_rat (upper (ri_mul ?A ?B)))"
    using a b by (intro corner_extrema_bounds[OF _ _ _ _ ex]) (auto simp: pair_encloses_def)
  ultimately show ?thesis unfolding s using ok by (intro pair_enclosesI) (auto simp: encloses_def)
qed

lemma scratch_add_encloses:
  assumes run: "scratch_add L p a b = Inr s" and a: "pair_encloses a x" and b: "pair_encloses b y"
  shows "pair_encloses s (x + y)"
proof -
  have fin: "is_finite (fst a)" "is_finite (snd a)" "is_finite (fst b)" "is_finite (snd b)"
    using a b by (auto simp: pair_encloses_def)
  have s: "s = (float_add L Down p (fst a) (fst b), float_add L Up p (snd a) (snd b))" "is_finite (fst s)" "is_finite (snd s)"
    using run by (auto simp: scratch_add_def Let_def bind_result_eq_Inr finite_ordered_Inr)
  show ?thesis
    using s(2,3) a b directed_intros[OF addition[OF fin(1,3), of p]] directed_intros[OF addition[OF fin(2,4), of p]]
    unfolding s(1) by (intro pair_enclosesI) (auto simp: of_rat_add pair_encloses_def intro: add_mono)
qed

lemma subtract_from_encloses:
  assumes run: "subtract_from L s prev = Inr I" and s: "pair_encloses s x" and prev: "mi_encloses prev y"
  shows "mi_encloses I (y - x)"
proof -
  let ?p = "mi_precision prev"
  have new: "mi_new (float_sub L Down ?p (mlower prev) (snd s)) (float_sub L Up ?p (mupper prev) (fst s)) = Inr I"
    using run by (simp add: subtract_from_def Let_def map_err_eq_Inr)
  have fin: "is_finite (fst s)" "is_finite (snd s)" "is_finite (mlower prev)" "is_finite (mupper prev)"
    using s prev by (auto simp: pair_encloses_def mi_encloses_def mi_ok_iff)
  show ?thesis
    using s prev subtraction[OF fin(3,2), of ?p] subtraction[OF fin(4,1), of ?p]
    by (intro mi_new_encloses[OF new]) (auto intro: directed_intros diff_mono simp: of_rat_diff pair_encloses_def mi_encloses_iff)
qed

lemma schur_one_encloses:
  assumes "schur_one L p prev A B C = Inr I" "mi_encloses prev e" "mi_encloses A x" "mi_encloses B y" "mi_encloses C w"
  shows "mi_encloses I (e - x * y * w)"
  using assms(1) assms(2-)[THEN endpoints_encloses] assms(2)
  by (auto simp: schur_one_def bind_result_eq_Inr intro: subtract_from_encloses selected_product_encloses)

lemma block_term_encloses:
  assumes "block_term L p (A, B, C) = Inr s" "mi_encloses A x" "mi_encloses B y" "mi_encloses C w"
  shows "pair_encloses s (x * y * w)"
  using assms(1) assms(2-)[THEN endpoints_encloses]
  by (auto simp: block_term_def bind_result_eq_Inr intro: full_product_encloses)

lemma schur_two_encloses:
  assumes run: "schur_two L p prev ri si rj sj B = Inr I"
    and e: "mi_encloses prev e" "mi_encloses ri xi" "mi_encloses si yi" "mi_encloses rj xj" "mi_encloses sj yj"
    "mi_encloses (block_inverse_11 B) w1" "mi_encloses (block_inverse_12 B) w2" "mi_encloses (block_inverse_22 B) w3"
  shows "mi_encloses I (e - (xi * w1 * xj + xi * w2 * yj + yi * w2 * xj + yi * w3 * yj))"
proof -
  obtain t1 t2 t3 t4 s1 s2 s3 where t: "block_term L p (ri, block_inverse_11 B, rj) = Inr t1"
      "block_term L p (ri, block_inverse_12 B, sj) = Inr t2" "block_term L p (si, block_inverse_12 B, rj) = Inr t3"
      "block_term L p (si, block_inverse_22 B, sj) = Inr t4"
    and s: "scratch_add L p t1 t2 = Inr s1" "scratch_add L p s1 t3 = Inr s2" "scratch_add L p s2 t4 = Inr s3"
    and last: "subtract_from L s3 prev = Inr I"
    using run by (auto simp: schur_two_def bind_result_eq_Inr)
  note pt = block_term_encloses[OF t(1) e(2,6,4)] block_term_encloses[OF t(2) e(2,7,5)]
    block_term_encloses[OF t(3) e(3,7,4)] block_term_encloses[OF t(4) e(3,8,5)]
  show ?thesis
    by (rule subtract_from_encloses[OF last scratch_add_encloses[OF s(3) scratch_add_encloses[OF s(2)
        scratch_add_encloses[OF s(1) pt(1,2)] pt(3)] pt(4)] e(1)])
qed

end

section \<open>The certified block\<close>

lemma signed_iff: "signed v \<longleftrightarrow> mi_ok v \<and> strict_sign (mi_ri v)"
  by (auto simp: signed_def mi_is_strictly_positive_iff strict_sign_def ri_is_strictly_negative_def mi_ri_def mi_ok_iff)

lemma count_signed_eq:
  assumes "signed v"
  shows "count_signed v (P, N) = (P + pos_count (mi_ri v), N + neg_count (mi_ri v))"
  using assms by (auto simp: count_signed_def signed_iff mi_is_strictly_positive_iff pos_count_def neg_count_def strict_sign_def)

definition mpfr_block_certified :: "Block \<Rightarrow> real \<Rightarrow> real \<Rightarrow> real \<Rightarrow> bool" where
  "mpfr_block_certified B a b c \<longleftrightarrow> (let D = a * c - b * b in D \<noteq> 0 \<and>
     mi_encloses (block_inverse_11 B) (c / D) \<and> mi_encloses (block_inverse_12 B) (- b / D) \<and>
     mi_encloses (block_inverse_22 B) (a / D) \<and> signed (block_low B) \<and> signed (block_high B) \<and>
     pos_count (mi_ri (block_low B)) + pos_count (mi_ri (block_high B)) = block_positive a b c \<and>
     neg_count (mi_ri (block_low B)) + neg_count (mi_ri (block_high B)) = block_negative a b c)"

lemma mi_div_operands: "mi_div L A B = Inr R \<Longrightarrow> mi_ok A \<and> mi_ok B"
  by (auto simp: mi_div_def bind_result_eq_Inr mi_validate_Inr)

lemma inertia_block_Some:
  assumes "inertia_block L a n f s p = Inr (Some B)"
  defines "x \<equiv> a ! (f * n + f)" and "y \<equiv> a ! (f * n + s)" and "z \<equiv> a ! (s * n + s)"
  defines "det \<equiv> mi_sub L (mi_mul L x z) (mi_square L y)"
  obtains four root two where "mi_ok det" "\<not> mi_contains_zero det" "mi_from_i64 L 4 p = Inr four"
    "mi_sqrt L (mi_add L (mi_square L (mi_sub L x z)) (mi_mul L (mi_square L y) four)) = Inr root"
    "mi_from_i64 L 2 p = Inr two" "mi_div L (mi_sub L (mi_add L x z) root) two = Inr (block_low B)"
    "mi_div L (mi_add L (mi_add L x z) root) two = Inr (block_high B)" "signed (block_low B)" "signed (block_high B)"
    "mi_div L z det = Inr (block_inverse_11 B)" "mi_div L (mi_neg y) det = Inr (block_inverse_12 B)"
    "mi_div L x det = Inr (block_inverse_22 B)"
  using assms(1) unfolding inertia_block_def Let_def x_def[symmetric] y_def[symmetric] z_def[symmetric] det_def[symmetric]
  by (auto simp: bind_result_eq_Inr map_err_eq_Inr mi_validate_Inr split: if_splits)

context directed_mpfr
begin

lemma certified_inertia_block:
  fixes a b c :: real
  assumes run: "inertia_block L M n f s p = Inr (Some B)"
    and box: "mi_encloses (M ! (f * n + f)) a" "mi_encloses (M ! (f * n + s)) b" "mi_encloses (M ! (s * n + s)) c"
  shows "mpfr_block_certified B a b c"
proof (cases rule: inertia_block_Some[OF run, case_names blk])
  case (blk four root two)
  let ?x = "M ! (f * n + f)" and ?y = "M ! (f * n + s)" and ?z = "M ! (s * n + s)"
  let ?det = "mi_sub L (mi_mul L ?x ?z) (mi_square L ?y)"
  let ?S = "mi_add L (mi_square L (mi_sub L ?x ?z)) (mi_mul L (mi_square L ?y) four)"
  note h = box[THEN mi_encloses_holds]
  have det: "mi_encloses ?det (a * c - b * b)"
    using holds_sub[OF holds_mul[OF h(1,3)] holds_square[OF h(2)]] blk(1) by simp
  have D: "a * c - b * b \<noteq> 0" using mi_excludes_zero[OF blk(2) det] .
  have "mi_ok ?S" using blk(4) by (auto simp: mi_sqrt_def bind_result_eq_Inr mi_validate_Inr)
  moreover have "mi_holds ?S ((a - c) * (a - c) + b * b * of_int 4)"
    using from_i64_holds[OF blk(3)] h by (intro holds_add holds_square holds_sub holds_mul)
  ultimately have "mi_encloses ?S ((a - c)\<^sup>2 + b\<^sup>2 * 4)" by (simp add: power2_eq_square)
  from sqrt_encloses(2)[OF blk(4) this] have root: "mi_holds root (sqrt ((a - c)\<^sup>2 + b\<^sup>2 * 4))" by (rule mi_encloses_holds)
  note ok = mi_div_operands[OF blk(6)] mi_div_operands[OF blk(7)]
  have two: "mi_encloses two 2" using from_i64_holds[OF blk(5)] ok by simp
  have "mi_encloses (block_low B) ((a + c - sqrt ((a - c)\<^sup>2 + b\<^sup>2 * 4)) / 2)"
    "mi_encloses (block_high B) ((a + c + sqrt ((a - c)\<^sup>2 + b\<^sup>2 * 4)) / 2)"
    using div_encloses(2)[OF blk(6) _ two] div_encloses(2)[OF blk(7) _ two] ok
      holds_sub[OF holds_add[OF h(1,3)] root] holds_add[OF holds_add[OF h(1,3)] root] by auto
  then have ev: "encloses (mi_ri (block_low B)) ((a + c - sqrt ((a - c)\<^sup>2 + b\<^sup>2 * 4)) / 2)"
    "encloses (mi_ri (block_high B)) ((a + c + sqrt ((a - c)\<^sup>2 + b\<^sup>2 * 4)) / 2)" by (auto simp: mi_encloses_def)
  have neg: "mi_encloses (mi_neg ?y) (- b)" using mi_div_operands[OF blk(11)] mi_neg_holds[OF h(2)] by simp
  have sg: "strict_sign (mi_ri (block_low B))" "strict_sign (mi_ri (block_high B))" using blk(8,9) by (auto simp: signed_iff)
  show ?thesis
    unfolding mpfr_block_certified_def Let_def
    using D div_encloses(2)[OF blk(10) box(3) det] div_encloses(2)[OF blk(11) neg det] div_encloses(2)[OF blk(12) box(1) det]
      blk(8,9) eigenvalue_signs_count[OF sg ev block_eigenvalues[of a c b]] by blast
qed

end

section \<open>Schur rows\<close>

text \<open>What a row job computes from the matrix the update starts with: its entries, and the job run alone.\<close>

definition new_entry :: "entry_update \<Rightarrow> MpfrInterval list \<Rightarrow> nat \<Rightarrow> nat \<Rightarrow> nat \<Rightarrow> IntervalError + MpfrInterval" where
  "new_entry update a n i j =
     bind_result (update i j (a ! (i * n + j))) (\<lambda>value. bind_result (mi_validate value) (\<lambda>_. Inr value))"

definition row_alone :: "entry_update \<Rightarrow> MpfrInterval list \<Rightarrow> nat \<Rightarrow> nat \<Rightarrow> IntervalError + MpfrInterval list" where
  "row_alone update a n i = collect_results (new_entry update a n i) [i..<n]"

text \<open>The array when every row \<open>i\<close> from \<open>start\<close> has been updated before column \<open>c i\<close>.\<close>

definition partly_updated :: "entry_update \<Rightarrow> MpfrInterval list \<Rightarrow> nat \<Rightarrow> nat \<Rightarrow> (nat \<Rightarrow> nat) \<Rightarrow> MpfrInterval list" where
  "partly_updated update a n start c = map (\<lambda>k.
     if start \<le> k div n \<and> k div n \<le> k mod n \<and> k mod n < c (k div n) then projr (new_entry update a n (k div n) (k mod n))
     else a ! k) [0..<n * n]"

definition rows_inv :: "entry_update \<Rightarrow> MpfrInterval list \<Rightarrow> nat \<Rightarrow> nat \<Rightarrow> MpfrInterval list \<times> (nat \<Rightarrow> nat) \<Rightarrow> bool" where
  "rows_inv update a n start state \<longleftrightarrow>
     (let (S, c) = state in S = partly_updated update a n start c \<and>
       (\<forall>i. start \<le> i \<and> i < n \<longrightarrow> i \<le> c i \<and> c i \<le> n \<and> (\<forall>j. i \<le> j \<and> j < c i \<longrightarrow> is_ok (new_entry update a n i j))))"

lemma row_major_div_mod: "j < n \<Longrightarrow> (i * n + j) div n = i" "j < n \<Longrightarrow> (i * n + j) mod n = (j :: nat)"
  by auto

lemma partly_updated_nth:
  assumes "i < n" "j < n"
  shows "partly_updated upd a n start c ! (i * n + j) =
    (if start \<le> i \<and> i \<le> j \<and> j < c i then projr (new_entry upd a n i j) else a ! (i * n + j))"
  using row_major_less[OF assms] assms by (simp add: partly_updated_def row_major_div_mod del: div_mult_self3 mod_mult_self3)

lemma partly_updated_length [simp]: "length (partly_updated upd a n start c) = n * n"
  by (simp add: partly_updated_def)

lemma rows_inv_start: "length a = n * n \<Longrightarrow> rows_inv upd a n start (a, \<lambda>i. i)"
  by (auto simp: rows_inv_def partly_updated_def intro!: nth_equalityI)

lemma partly_updated_step:
  assumes "start \<le> i" "i < n" "i \<le> c i" "c i < n" "new_entry upd a n i (c i) = Inr v"
  shows "(partly_updated upd a n start c)[i * n + c i := v] = partly_updated upd a n start (c(i := Suc (c i)))"
proof (rule nth_equalityI)
  fix k assume "k < length ((partly_updated upd a n start c)[i * n + c i := v])"
  then have k: "k < n * n" by simp
  define x y where "x = k div n" and "y = k mod n"
  have xy: "k = x * n + y" "x < n" "y < n"
    using k assms(2) by (auto simp: x_def y_def less_mult_imp_div_less)
  have "k = i * n + c i \<longleftrightarrow> x = i \<and> y = c i"
    using xy(1,3) assms(4) row_major_div_mod by metis
  then show "(partly_updated upd a n start c)[i * n + c i := v] ! k = partly_updated upd a n start (c(i := Suc (c i))) ! k"
    using assms k partly_updated_nth[OF xy(2,3), of upd a start] unfolding xy(1)[symmetric]
    by (auto simp: nth_list_update less_Suc_eq)
qed simp

lemma row_job_step_eq:
  assumes "rows_inv upd a n start (S, c)" "start \<le> i" "i < n"
  shows "row_job_step env bounds n upd i (S, c) =
    (if n \<le> c i then Inr (S, c)
     else if c i = i \<and> bounds i \<noteq> caller_bounds env then Inl bounds_error
     else map_ok (\<lambda>v. (S[i * n + c i := v], c(i := Suc (c i)))) (new_entry upd a n i (c i)))"
proof -
  have "S ! (i * n + c i) = a ! (i * n + c i)" if "c i < n"
    using assms that partly_updated_nth[of i n "c i" upd a start c] by (auto simp: rows_inv_def)
  moreover have "bind_result (bind_result r (\<lambda>value. bind_result (mi_validate value) (\<lambda>_. Inr (S[k := value])))) (\<lambda>a. Inr (a, c')) =
      map_ok (\<lambda>v. (S[k := v], c')) (bind_result r (\<lambda>value. bind_result (mi_validate value) (\<lambda>_. Inr value)))" for r k and c' :: "nat \<Rightarrow> nat"
  proof (cases r)
    case (Inr v)
    then show ?thesis by (cases "mi_validate v") simp_all
  qed simp
  ultimately show ?thesis by (simp add: row_job_step_def update_entry_def new_entry_def Let_def)
qed

lemma row_job_step_Inr:
  assumes inv: "rows_inv upd a n start (S, c)" and i: "start \<le> i" "i < n"
    and run: "row_job_step env bounds n upd i (S, c) = Inr (S', c')"
  shows "rows_inv upd a n start (S', c') \<and> c' = c(i := min n (Suc (c i)))"
proof (cases "n \<le> c i")
  case True
  then have "c i = n" using inv i by (auto simp: rows_inv_def)
  then show ?thesis using run inv unfolding row_job_step_eq[OF inv i] by (auto simp: fun_upd_idem)
next
  case False
  then obtain v where v: "new_entry upd a n i (c i) = Inr v" "S' = S[i * n + c i := v]" "c' = c(i := Suc (c i))"
    using run unfolding row_job_step_eq[OF inv i] by (auto simp: map_ok_eq_Inr split: if_splits)
  have "i \<le> c i" using inv i by (auto simp: rows_inv_def)
  then have "S' = partly_updated upd a n start c'"
    using partly_updated_step[of start i n c upd a v] i inv False v by (simp add: rows_inv_def)
  moreover have "j < c i \<or> j = c i" if "j < Suc (c i)" for j using that by auto
  ultimately show ?thesis using inv False v by (auto simp: rows_inv_def less_Suc_eq)
qed

lemma collect_first_error:
  assumes "j < n" "i \<le> j" "f j = Inl e" "\<forall>l. i \<le> l \<and> l < j \<longrightarrow> is_ok (f l)"
  shows "collect_results f [i..<n] = Inl e"
  using assms
proof (induction "j - i" arbitrary: i)
  case 0
  then show ?case by (simp add: upt_conv_Cons)
next
  case (Suc d)
  then have "i < j" by simp
  then obtain v where "f i = Inr v" using Suc.prems(4) by (auto simp: is_ok_iff)
  moreover have "collect_results f [Suc i..<n] = Inl e" using Suc \<open>i < j\<close> by (intro Suc.hyps(1)) auto
  ultimately show ?case using Suc.prems(1) \<open>i < j\<close> by (simp add: upt_conv_Cons)
qed

lemma row_job_step_Inl:
  assumes inv: "rows_inv upd a n start (S, c)" and i: "start \<le> i" "i < n" and "bounds i = caller_bounds env"
    and run: "row_job_step env bounds n upd i (S, c) = Inl e"
  shows "row_alone upd a n i = Inl e"
proof -
  have "c i < n" "new_entry upd a n i (c i) = Inl e"
    using run assms(4) unfolding row_job_step_eq[OF inv i] by (cases "new_entry upd a n i (c i)"; force split: if_splits)+
  moreover have "i \<le> c i" "\<forall>l. i \<le> l \<and> l < c i \<longrightarrow> is_ok (new_entry upd a n i l)"
    using inv i by (auto simp: rows_inv_def)
  ultimately show ?thesis unfolding row_alone_def by (intro collect_first_error)
qed

lemma row_jobs_Inr:
  assumes "fold_result (row_job_step env bounds n upd) steps (S, c) = Inr (S', c')"
    and "rows_inv upd a n start (S, c)" "set steps \<subseteq> {start..<n}"
  shows "rows_inv upd a n start (S', c') \<and> (\<forall>i. min n (c i + count_list steps i) \<le> c' i)"
  using assms
proof (induction steps arbitrary: S c)
  case (Cons i steps)
  obtain S1 c1 where step: "row_job_step env bounds n upd i (S, c) = Inr (S1, c1)"
    and rest: "fold_result (row_job_step env bounds n upd) steps (S1, c1) = Inr (S', c')"
    using Cons.prems(1) by (auto simp: bind_result_eq_Inr)
  have i: "start \<le> i" "i < n" using Cons.prems(3) by auto
  note one = row_job_step_Inr[OF Cons.prems(2) i step]
  have IH: "rows_inv upd a n start (S', c') \<and> (\<forall>i. min n (c1 i + count_list steps i) \<le> c' i)"
    using Cons.IH[OF rest conjunct1[OF one]] Cons.prems(3) by simp
  moreover have "min n (c j + count_list (i # steps) j) \<le> min n (c1 j + count_list steps j)" for j
    using one by (auto simp: min_def)
  ultimately show ?case by (meson le_trans)
qed simp

lemma row_jobs_Inl:
  assumes "fold_result (row_job_step env bounds n upd) steps (S, c) = Inl e"
    and "rows_inv upd a n start (S, c)" "set steps \<subseteq> {start..<n}" "\<forall>i. bounds i = caller_bounds env"
  shows "\<exists>i. start \<le> i \<and> i < n \<and> row_alone upd a n i = Inl e"
  using assms
proof (induction steps arbitrary: S c)
  case (Cons i steps)
  have i: "start \<le> i" "i < n" using Cons.prems(3) by auto
  show ?case
  proof (cases "row_job_step env bounds n upd i (S, c)")
    case (Inl e')
    then have "e' = e" using Cons.prems(1) by simp
    then show ?thesis using row_job_step_Inl[OF Cons.prems(2) i _ Inl] Cons.prems(4) i by blast
  next
    case (Inr Sc)
    obtain S1 c1 where Sc: "Sc = (S1, c1)" by (cases Sc)
    have "rows_inv upd a n start (S1, c1)" using row_job_step_Inr[OF Cons.prems(2) i Inr[unfolded Sc]] by blast
    moreover have "fold_result (row_job_step env bounds n upd) steps (S1, c1) = Inl e" using Cons.prems(1) Inr Sc by simp
    ultimately show ?thesis using Cons.IH[OF _ _ _ Cons.prems(4)] Cons.prems(3) by simp
  qed
qed simp

text \<open>The sequential loop is the run with an empty schedule.\<close>

lemma row_job_alone:
  assumes "i \<le> c i" "c i \<le> n"
  shows "fold_result (row_job_step env (\<lambda>_. caller_bounds env) n upd) (replicate (n - c i) i) (S, c) =
    map_ok (\<lambda>S. (S, c(i := n))) (fold_result (update_entry n upd i) [c i..<n] S)"
  using assms
proof (induction "n - c i" arbitrary: S c)
  case 0
  then show ?case by (auto simp: fun_upd_idem)
next
  case (Suc d)
  have ci: "c i < n" "n - c i = Suc (n - Suc (c i))" "[c i..<n] = c i # [Suc (c i)..<n]"
    using Suc.hyps(2) by (auto simp: upt_conv_Cons)
  show ?case
  proof (cases "update_entry n upd i (c i) S")
    case (Inr S1)
    have "fold_result (row_job_step env (\<lambda>_. caller_bounds env) n upd) (replicate (n - Suc (c i)) i) (S1, c(i := Suc (c i))) =
        map_ok (\<lambda>S. (S, c(i := n))) (fold_result (update_entry n upd i) [Suc (c i)..<n] S1)"
      using Suc.hyps(1)[of "c(i := Suc (c i))" S1] Suc.hyps(2) Suc.prems ci(1) by simp
    then show ?thesis using Inr ci by (simp add: row_job_step_def)
  qed (use ci in \<open>simp add: row_job_step_def\<close>)
qed

lemma sequential_rows:
  assumes "\<forall>i. r \<le> i \<longrightarrow> c i = i"
  shows "fold_result (row_update env (caller_bounds env) n upd) [r..<n] S =
    map_ok fst (fold_result (row_job_step env (\<lambda>_. caller_bounds env) n upd) (row_steps [] n r) (S, c))"
  using assms
proof (induction "n - r" arbitrary: r S c)
  case 0
  then show ?case by (simp add: row_steps_def)
next
  case (Suc d)
  have r: "[r..<n] = r # [Suc r..<n]" "r < n" using Suc.hyps(2) by (auto simp: upt_conv_Cons)
  have row: "fold_result (row_job_step env (\<lambda>_. caller_bounds env) n upd) (replicate (n - r) r) (S, c) =
      map_ok (\<lambda>S. (S, c(r := n))) (fold_result (update_entry n upd r) [r..<n] S)"
    using row_job_alone[of r c n env upd S] Suc.prems r(2) by simp
  have rest: "fold_result (row_update env (caller_bounds env) n upd) [Suc r..<n] S1 =
      map_ok fst (fold_result (row_job_step env (\<lambda>_. caller_bounds env) n upd) (row_steps [] n (Suc r)) (S1, c(r := n)))" for S1
    using Suc.hyps(1)[of "Suc r" "c(r := n)" S1] Suc.hyps(2) Suc.prems by simp
  have first: "fold_result F [r..<n] S = bind_result (F r S) (fold_result F [Suc r..<n])" for F
    by (simp add: r(1))
  have "row_steps [] n r = replicate (n - r) r @ row_steps [] n (Suc r)" by (simp add: row_steps_def r(1))
  then show ?case
    using rest unfolding first
    by (cases "fold_result (update_entry n upd r) [r..<n] S") (simp_all add: fold_result_append row row_update_def)
qed

text \<open>Both branches of the update at once: a run of the row jobs under some schedule, with the bounds seen by each row.\<close>

lemma update_schur_rows_jobs:
  obtains bounds schedule where
    "update_schur_rows env a n start p upd =
       map_ok fst (fold_result (row_job_step env bounds n upd) (row_steps schedule n start) (a, \<lambda>i. i))"
    "(\<forall>i. worker_bounds env (row_worker env i) = caller_bounds env) \<Longrightarrow> \<forall>i. bounds i = caller_bounds env"
proof (cases "runs_parallel env (n - start) p")
  case True
  then show ?thesis by (intro that[of "\<lambda>i. worker_bounds env (row_worker env i)" "row_schedule env start"])
      (simp_all add: update_schur_rows_def)
next
  case False
  then show ?thesis using sequential_rows[of start "\<lambda>i. i" env n upd a]
    by (intro that[of "\<lambda>_. caller_bounds env" "[]"]) (simp_all add: update_schur_rows_def)
qed

lemma row_steps_rows: "set (row_steps schedule n start) \<subseteq> {start..<n}"
  by (auto simp: row_steps_def)

lemma count_list_replicate: "count_list (replicate m i) i = m"
  by (induction m) simp_all

lemma row_steps_complete: "start \<le> i \<Longrightarrow> i < n \<Longrightarrow> n - i \<le> count_list (row_steps schedule n start) i"
proof -
  assume i: "start \<le> i" "i < n"
  then have "[start..<n] = [start..<i] @ i # [Suc i..<n]" by (metis le_add_diff_inverse less_imp_le upt_add_eq_append upt_conv_Cons)
  then show ?thesis by (simp add: row_steps_def count_list_append count_list_replicate)
qed

text \<open>A run that returns has updated every entry, and what it returns does not mention the schedule.\<close>

lemma update_schur_rows_Inr:
  assumes run: "update_schur_rows env a n start p upd = Inr a'" and len: "length a = n * n"
  shows "a' = partly_updated upd a n start (\<lambda>_. n) \<and>
    (\<forall>i j. start \<le> i \<and> i \<le> j \<and> j < n \<longrightarrow> new_entry upd a n i j = Inr (a' ! (i * n + j)))"
proof -
  obtain bounds schedule where "update_schur_rows env a n start p upd =
      map_ok fst (fold_result (row_job_step env bounds n upd) (row_steps schedule n start) (a, \<lambda>i. i))"
    by (rule update_schur_rows_jobs)
  then have "map_ok fst (fold_result (row_job_step env bounds n upd) (row_steps schedule n start) (a, \<lambda>i. i)) = Inr a'"
    using run by simp
  then obtain c where jobs: "fold_result (row_job_step env bounds n upd) (row_steps schedule n start) (a, \<lambda>i. i) = Inr (a', c)"
    unfolding map_ok_eq_Inr by auto
  note fin = row_jobs_Inr[OF jobs rows_inv_start[OF len] row_steps_rows]
  have full: "c i = n" if "start \<le> i" "i < n" for i
  proof -
    have "min n (i + count_list (row_steps schedule n start) i) \<le> c i" using fin by blast
    then have "n \<le> c i" using row_steps_complete[OF that, of schedule] that by linarith
    then show ?thesis using fin that by (auto simp: rows_inv_def)
  qed
  have inv: "a' = partly_updated upd a n start c" using fin by (auto simp: rows_inv_def)
  also have "\<dots> = partly_updated upd a n start (\<lambda>_. n)"
    using full by (auto simp: partly_updated_def less_mult_imp_div_less)
  finally have a': "a' = partly_updated upd a n start (\<lambda>_. n)" .
  moreover have "new_entry upd a n i j = Inr (a' ! (i * n + j))" if ij: "start \<le> i" "i \<le> j" "j < n" for i j
  proof -
    have "is_ok (new_entry upd a n i j)" using fin full[of i] ij by (auto simp: rows_inv_def)
    then show ?thesis unfolding a' using ij by (auto simp: partly_updated_nth is_ok_iff)
  qed
  ultimately show ?thesis by blast
qed

lemma update_schur_rows_result:
  assumes run: "update_schur_rows env a n start p upd = Inr a'" and len: "length a = n * n" and "start \<le> n"
  shows "length a' = n * n \<and> (\<forall>i j. start \<le> i \<and> i \<le> j \<and> j < n \<longrightarrow>
    upd i j (a ! (i * n + j)) = Inr (a' ! (i * n + j)) \<and> mi_ok (a' ! (i * n + j)))"
  using update_schur_rows_Inr[OF run len] by (auto simp: new_entry_def bind_result_eq_Inr mi_validate_Inr)

section \<open>Exchanges of the stored triangle\<close>

lemma foldl_swaps:
  assumes "distinct cs" "\<forall>c \<in> set cs. f c < length M \<and> g c < length M"
    "\<forall>c \<in> set cs. \<forall>d \<in> set cs. c \<noteq> d \<longrightarrow> {f c, g c} \<inter> {f d, g d} = {}"
  shows "(\<forall>c \<in> set cs. foldl (\<lambda>m c. swap_entries m (f c) (g c)) M cs ! f c = M ! g c \<and>
      foldl (\<lambda>m c. swap_entries m (f c) (g c)) M cs ! g c = M ! f c) \<and>
    (\<forall>k < length M. (\<forall>c \<in> set cs. k \<noteq> f c \<and> k \<noteq> g c) \<longrightarrow> foldl (\<lambda>m c. swap_entries m (f c) (g c)) M cs ! k = M ! k)"
  using assms
proof (induction cs rule: rev_induct)
  case (snoc d cs)
  let ?F = "foldl (\<lambda>m c. swap_entries m (f c) (g c)) M cs"
  have IH: "(\<forall>c \<in> set cs. ?F ! f c = M ! g c \<and> ?F ! g c = M ! f c) \<and>
      (\<forall>k < length M. (\<forall>c \<in> set cs. k \<noteq> f c \<and> k \<noteq> g c) \<longrightarrow> ?F ! k = M ! k)"
    using snoc by auto
  have d: "f d < length M" "g d < length M" using snoc.prems(2) by auto
  have fresh: "\<forall>c \<in> set cs. f d \<noteq> f c \<and> f d \<noteq> g c \<and> g d \<noteq> f c \<and> g d \<noteq> g c"
    using snoc.prems(1,3) by (auto 0 3)
  have Fd: "?F ! f d = M ! f d" "?F ! g d = M ! g d" using IH d fresh by auto
  have get: "swap_entries ?F (f d) (g d) ! k = ?F ! exchange (f d) (g d) k" if "k < length M" for k
    using d that by (simp add: swap_entries_nth)
  have all: "foldl (\<lambda>m c. swap_entries m (f c) (g c)) M (cs @ [d]) ! k = ?F ! exchange (f d) (g d) k" if "k < length M" for k
    using get[OF that] by simp
  show ?case
  proof (intro conjI ballI allI impI)
    fix c assume c: "c \<in> set (cs @ [d])"
    then have lt: "f c < length M" "g c < length M" using snoc.prems(2) by auto
    show "foldl (\<lambda>m c. swap_entries m (f c) (g c)) M (cs @ [d]) ! f c = M ! g c"
      "foldl (\<lambda>m c. swap_entries m (f c) (g c)) M (cs @ [d]) ! g c = M ! f c"
    proof -
      have "?F ! exchange (f d) (g d) (f c) = M ! g c \<and> ?F ! exchange (f d) (g d) (g c) = M ! f c"
      proof (cases "c = d")
        case True
        then show ?thesis using Fd by (simp add: exchange_def)
      next
        case False
        then have "c \<in> set cs" using c by simp
        then have "exchange (f d) (g d) (f c) = f c" "exchange (f d) (g d) (g c) = g c" using fresh by (auto simp: exchange_def)
        then show ?thesis using IH \<open>c \<in> set cs\<close> by simp
      qed
      then show "foldl (\<lambda>m c. swap_entries m (f c) (g c)) M (cs @ [d]) ! f c = M ! g c"
        "foldl (\<lambda>m c. swap_entries m (f c) (g c)) M (cs @ [d]) ! g c = M ! f c"
        unfolding all[OF lt(1)] all[OF lt(2)] by blast+
    qed
  next
    fix k assume k: "k < length M" "\<forall>c \<in> set (cs @ [d]). k \<noteq> f c \<and> k \<noteq> g c"
    then have "exchange (f d) (g d) k = k" "\<forall>c \<in> set cs. k \<noteq> f c \<and> k \<noteq> g c" by (auto simp: exchange_def)
    then show "foldl (\<lambda>m c. swap_entries m (f c) (g c)) M (cs @ [d]) ! k = M ! k"
      unfolding all[OF k(1)] using IH k(1) by simp
  qed
qed simp

lemma upper_index_less: "i < n \<Longrightarrow> j < n \<Longrightarrow> upper_index n i j < n * n"
  by (simp add: upper_index_def row_major_less max_def min_def)

lemma upper_index_eq:
  assumes "i < n" "j < n" "i' < n" "j' < n"
  shows "upper_index n i j = upper_index n i' j' \<longleftrightarrow> {i, j} = {i', j'}"
proof -
  have "upper_index n i j = upper_index n i' j' \<longleftrightarrow> min i j = min i' j' \<and> max i j = max i' j'"
    unfolding upper_index_def using assms by (intro row_major_eq) auto
  also have "\<dots> \<longleftrightarrow> {i, j} = {i', j'}" by (auto simp: doubleton_eq_iff min_def max_def split: if_splits)
  finally show ?thesis .
qed

lemma upper_index_sym: "upper_index n i j = upper_index n j i"
  by (simp add: upper_index_def min.commute max.commute)

lemma exchange_sym: "exchange l r = exchange r l"
  by (auto simp: exchange_def fun_eq_iff)

lemma upper_swap_entries:
  assumes len: "length a = n * n" and b: "k \<le> l" "l < n" "k \<le> r" "r < n" "k \<le> i" "i < n" "k \<le> j" "j < n"
  shows "inertia_swap a n l r (Some k) ! upper_index n i j = a ! upper_index n (exchange l r i) (exchange l r j)"
proof (cases "l = r")
  case True
  then show ?thesis by (simp add: inertia_swap_def exchange_def)
next
  case False
  define f where "f = min l r"
  define s where "s = max l r"
  have fs: "f < n" "s < n" "f \<noteq> s" "k \<le> f" "k \<le> s" "exchange l r = exchange f s"
    using b False exchange_sym[of l r] by (auto simp: f_def s_def min_def max_def)
  let ?cs = "filter (\<lambda>j. j \<noteq> f \<and> j \<noteq> s) [k..<n]"
  let ?a = "swap_entries a (f * n + f) (s * n + s)"
  have diag: "x * n + x = upper_index n x x" for x by (simp add: upper_index_def)
  have a1: "?a ! upper_index n x y = (if {x, y} = {f} then a ! upper_index n s s
      else if {x, y} = {s} then a ! upper_index n f f else a ! upper_index n x y)" if "x < n" "y < n" for x y
    unfolding diag using len fs that
    by (auto simp: swap_entries_nth upper_index_less exchange_def upper_index_eq)
  have res: "inertia_swap a n l r (Some k) = foldl (\<lambda>a j. swap_entries a (upper_index n f j) (upper_index n s j)) ?a ?cs"
    using False by (simp add: inertia_swap_def f_def s_def)
  have "(\<forall>c \<in> set ?cs. inertia_swap a n l r (Some k) ! upper_index n f c = ?a ! upper_index n s c \<and>
      inertia_swap a n l r (Some k) ! upper_index n s c = ?a ! upper_index n f c) \<and>
    (\<forall>x < length ?a. (\<forall>c \<in> set ?cs. x \<noteq> upper_index n f c \<and> x \<noteq> upper_index n s c) \<longrightarrow>
      inertia_swap a n l r (Some k) ! x = ?a ! x)"
    unfolding res
    by (rule foldl_swaps) (use fs len in \<open>auto simp: upper_index_less upper_index_eq doubleton_eq_iff\<close>)
  then have sw: "\<And>c. k \<le> c \<Longrightarrow> c < n \<Longrightarrow> c \<noteq> f \<Longrightarrow> c \<noteq> s \<Longrightarrow>
      inertia_swap a n l r (Some k) ! upper_index n f c = ?a ! upper_index n s c \<and>
      inertia_swap a n l r (Some k) ! upper_index n s c = ?a ! upper_index n f c"
    and keep: "\<And>x. x < n * n \<Longrightarrow> (\<forall>c. k \<le> c \<and> c < n \<and> c \<noteq> f \<and> c \<noteq> s \<longrightarrow> x \<noteq> upper_index n f c \<and> x \<noteq> upper_index n s c) \<Longrightarrow>
      inertia_swap a n l r (Some k) ! x = ?a ! x"
    using len by auto
  consider (fj) "i \<in> {f, s}" "j \<notin> {f, s}" | (fi) "j \<in> {f, s}" "i \<notin> {f, s}" | (same) "i \<in> {f, s} \<longleftrightarrow> j \<in> {f, s}" by blast
  then show ?thesis
  proof cases
    case fj
    then show ?thesis using sw[of j] a1 fs b by (auto simp: exchange_def doubleton_eq_iff)
  next
    case fi
    then show ?thesis
      using sw[of i] a1 fs b by (auto simp: exchange_def doubleton_eq_iff upper_index_sym[of n i])
  next
    case same
    have "inertia_swap a n l r (Some k) ! upper_index n i j = ?a ! upper_index n i j"
      using b same fs by (intro keep) (auto simp: upper_index_less upper_index_eq doubleton_eq_iff)
    then show ?thesis
      using same a1[of i j] fs b by (auto simp: exchange_def upper_index_sym[of n s f])
  qed
qed

lemma inertia_swap_None: "inertia_swap a n l r None = symmetric_swap a n l r"
  by (simp add: inertia_swap_def symmetric_swap_def Let_def)

lemma inertia_swap_length [simp]: "length (inertia_swap a n l r u) = length a"
  by (cases u) (simp_all add: inertia_swap_None, simp add: inertia_swap_def split_beta Let_def)

section \<open>The box of the trailing block\<close>

text \<open>\<open>stored updated i j\<close>: the entry at row \<open>i\<close> and column \<open>j\<close> is current.\<close>

definition stored :: "bool \<Rightarrow> nat \<Rightarrow> nat \<Rightarrow> bool" where
  "stored updated i j \<longleftrightarrow> i \<le> j \<or> \<not> updated"

definition upper_box :: "nat \<Rightarrow> nat \<Rightarrow> bool \<Rightarrow> MpfrInterval list \<Rightarrow> (nat \<Rightarrow> nat \<Rightarrow> real) \<Rightarrow> bool" where
  "upper_box n k updated a R \<longleftrightarrow> length a = n * n \<and>
     (\<forall>i j. k \<le> i \<and> i < n \<and> k \<le> j \<and> j < n \<and> stored updated i j \<longrightarrow> mi_encloses (a ! (i * n + j)) (R i j))"

lemma upper_boxD:
  "upper_box n k u a R \<Longrightarrow> k \<le> i \<Longrightarrow> i < n \<Longrightarrow> k \<le> j \<Longrightarrow> j < n \<Longrightarrow> stored u i j \<Longrightarrow> mi_encloses (a ! (i * n + j)) (R i j)"
  by (simp add: upper_box_def)

lemma stored_upper: "i \<le> j \<Longrightarrow> stored u i j"
  by (simp add: stored_def)

lemma upper_index_le: "i \<le> j \<Longrightarrow> upper_index n i j = i * n + j"
  by (simp add: upper_index_def)

text \<open>Every swapped entry the code later reads is an entry stored before the swap.\<close>

lemma inertia_swap_entry:
  assumes "length a = n * n" "k \<le> l" "l < n" "k \<le> r" "r < n" "k \<le> i" "i < n" "k \<le> j" "j < n" "stored u i j"
  obtains i' j' where "inertia_swap a n l r (if u then Some k else None) ! (i * n + j) = a ! (i' * n + j')"
    "stored u i' j'" "k \<le> i'" "i' < n" "k \<le> j'" "j' < n"
    "(i', j') = (exchange l r i, exchange l r j) \<or> (i', j') = (exchange l r j, exchange l r i)"
proof (cases u)
  case False
  then show thesis
    using assms by (intro that[of "exchange l r i" "exchange l r j"])
      (auto simp: inertia_swap_None symmetric_swap_entries stored_def exchange_def)
next
  case True
  then have "i \<le> j" using assms by (simp add: stored_def)
  let ?x = "exchange l r i" and ?y = "exchange l r j"
  have "inertia_swap a n l r (if u then Some k else None) ! (i * n + j) = a ! upper_index n ?x ?y"
    using upper_swap_entries[OF assms(1-9)] True \<open>i \<le> j\<close> by (simp add: upper_index_le)
  moreover have "k \<le> ?x" "?x < n" "k \<le> ?y" "?y < n" using assms by (auto simp: exchange_def)
  ultimately show thesis
    by (intro that[of "min ?x ?y" "max ?x ?y"]) (auto simp: upper_index_def stored_def min_def max_def)
qed

lemma upper_box_swap:
  assumes "upper_box n k u a R" "symmetric_on n R" "k \<le> l" "l < n" "k \<le> r" "r < n"
  shows "upper_box n k u (inertia_swap a n l r (if u then Some k else None)) (\<lambda>i j. R (exchange l r i) (exchange l r j))"
  unfolding upper_box_def
proof (intro conjI allI impI)
  have len: "length a = n * n" using assms(1) by (simp add: upper_box_def)
  then show "length (inertia_swap a n l r (if u then Some k else None)) = n * n" by simp
  fix i j assume ij: "k \<le> i \<and> i < n \<and> k \<le> j \<and> j < n \<and> stored u i j"
  then obtain i' j' where e: "inertia_swap a n l r (if u then Some k else None) ! (i * n + j) = a ! (i' * n + j')"
      "stored u i' j'" "k \<le> i'" "i' < n" "k \<le> j'" "j' < n"
      "(i', j') = (exchange l r i, exchange l r j) \<or> (i', j') = (exchange l r j, exchange l r i)"
    using inertia_swap_entry[OF len assms(3-6), of i j u] by blast
  have "R i' j' = R (exchange l r i) (exchange l r j)"
    using e(4,6,7) assms(2) by (auto simp: symmetric_on_def)
  then show "mi_encloses (inertia_swap a n l r (if u then Some k else None) ! (i * n + j)) (R (exchange l r i) (exchange l r j))"
    using upper_boxD[OF assms(1) e(3-6,2)] e(1) by simp
qed

lemma below_encloses:
  assumes "upper_box n k u a R" "symmetric_on n R" "k \<le> c" "c < i" "i < n"
  shows "mi_encloses (below a n u i c) (R i c)"
proof -
  have "R c i = R i c" using assms by (simp add: symmetric_on_def)
  then show ?thesis
    using upper_boxD[OF assms(1), of c i] upper_boxD[OF assms(1), of i c] assms by (auto simp: below_def stored_def)
qed

text \<open>The captured pivot column, read at the offset of a row.\<close>

lemma captured_column: "k + d \<le> i \<Longrightarrow> i < n \<Longrightarrow> map f [k + d..<n] ! (i - k - d) = f i"
  by simp

context directed_mpfr
begin

lemma one_step_box:
  assumes run: "update_schur_rows env a n (k + 1) p (\<lambda>i j previous. schur_one L p previous
      (map (\<lambda>i. below a n u i k) [k + 1..<n] ! (i - k - 1)) (map (\<lambda>i. below a n u i k) [k + 1..<n] ! (j - k - 1)) V) = Inr a'"
    and V: "mi_encloses V (1 / R k k)"
    and box: "upper_box n k u a R" and sym: "symmetric_on n R" and k: "k < n"
  shows "upper_box n (k + 1) True a' (schur1 k R)"
  unfolding upper_box_def
proof (intro conjI allI impI)
  have len: "length a = n * n" using box by (simp add: upper_box_def)
  note res = update_schur_rows_result[OF run len]
  show "length a' = n * n" using res k by simp
  fix i j assume "k + 1 \<le> i \<and> i < n \<and> k + 1 \<le> j \<and> j < n \<and> stored True i j"
  then have ij: "k + 1 \<le> i" "i \<le> j" "j < n" by (auto simp: stored_def)
  have "schur_one L p (a ! (i * n + j)) (below a n u i k) (below a n u j k) V = Inr (a' ! (i * n + j))"
    using conjunct2[OF res, rule_format, of i j] captured_column[of k 1 i n] captured_column[of k 1 j n] ij k
    by (simp only:) simp
  from schur_one_encloses[OF this _ _ _ V]
  have "mi_encloses (a' ! (i * n + j)) (R i j - R i k * R j k * (1 / R k k))"
    using ij k upper_boxD[OF box, of i j] below_encloses[OF box sym, of k] by (simp add: stored_upper)
  then show "mi_encloses (a' ! (i * n + j)) (schur1 k R i j)" by (simp add: schur1_def)
qed

lemma two_step_box:
  assumes run: "update_schur_rows env a n (k + 2) p (\<lambda>i j previous. schur_two L p previous
      (map (\<lambda>i. below a n u i k) [k + 2..<n] ! (i - k - 2)) (map (\<lambda>i. below a n u i (k + 1)) [k + 2..<n] ! (i - k - 2))
      (map (\<lambda>i. below a n u i k) [k + 2..<n] ! (j - k - 2)) (map (\<lambda>i. below a n u i (k + 1)) [k + 2..<n] ! (j - k - 2)) B) = Inr a'"
    and B: "mpfr_block_certified B (R k k) (R k (k + 1)) (R (k + 1) (k + 1))"
    and box: "upper_box n k u a R" and sym: "symmetric_on n R" and k: "k + 1 < n"
  shows "upper_box n (k + 2) True a' (schur2 k R)"
  unfolding upper_box_def
proof (intro conjI allI impI)
  have len: "length a = n * n" using box by (simp add: upper_box_def)
  note res = update_schur_rows_result[OF run len]
  show "length a' = n * n" using res k by simp
  fix i j assume "k + 2 \<le> i \<and> i < n \<and> k + 2 \<le> j \<and> j < n \<and> stored True i j"
  then have ij: "k + 2 \<le> i" "i \<le> j" "j < n" by (auto simp: stored_def)
  have "schur_two L p (a ! (i * n + j)) (below a n u i k) (below a n u i (k + 1)) (below a n u j k) (below a n u j (k + 1)) B =
      Inr (a' ! (i * n + j))"
  proof -
    have "i < n" using ij by simp
    then have col: "map f [k + 2..<n] ! (i - k - 2) = f i" "map f [k + 2..<n] ! (j - k - 2) = f j" for f :: "nat \<Rightarrow> MpfrInterval"
      using ij by (intro captured_column; simp)+
    show ?thesis using conjunct2[OF res, rule_format, of i j] ij k unfolding col by simp
  qed
  note enc = schur_two_encloses[OF this]
  let ?D = "R k k * R (k + 1) (k + 1) - R k (k + 1) * R k (k + 1)"
  have inv: "mi_encloses (block_inverse_11 B) (R (k + 1) (k + 1) / ?D)" "mi_encloses (block_inverse_12 B) (- R k (k + 1) / ?D)"
    "mi_encloses (block_inverse_22 B) (R k k / ?D)" using B unfolding mpfr_block_certified_def Let_def by blast+
  show "mi_encloses (a' ! (i * n + j)) (schur2 k R i j)"
    unfolding schur2_def Let_def
    by (rule enc[OF upper_boxD[OF box] below_encloses[OF box sym] below_encloses[OF box sym] below_encloses[OF box sym]
        below_encloses[OF box sym] inv]) (use ij k in \<open>simp_all add: stored_upper\<close>)
qed

end

section \<open>The loop\<close>

lemma max_by_separation_in: "max_by_separation sep xs = Some i \<Longrightarrow> i \<in> set xs"
proof -
  have "foldl (\<lambda>best j. if total_less (sep j) (sep best) then best else j) x ys \<in> insert x (set ys)" for x ys
  proof (induction ys arbitrary: x)
    case (Cons y ys)
    show ?case using Cons.IH[of x] Cons.IH[of y] by auto
  qed simp
  then show "max_by_separation sep xs = Some i \<Longrightarrow> i \<in> set xs" by (cases xs) auto
qed

lemma diagonal_pivot_Some:
  assumes "diagonal_pivot a n k stb = Some i"
  shows "k \<le> i" "i < n" "signed (a ! (i * n + i))"
proof -
  have "i \<in> set (filter (\<lambda>j. signed (a ! (j * n + j))) [k..<n])"
  proof (cases stb)
    case True
    then show ?thesis using assms by (intro max_by_separation_in) (simp add: diagonal_pivot_def)
  qed (use assms in \<open>auto simp: diagonal_pivot_def find_Some_iff\<close>)
  then show "k \<le> i" "i < n" "signed (a ! (i * n + i))" by auto
qed

lemma find_inertia_block_Some:
  assumes "find_inertia_block L a n p pairs = Inr (Some (i, j))"
  shows "(i, j) \<in> set pairs" "\<exists>B. inertia_block L a n i j p = Inr (Some B)"
  using assms by (induction pairs) (auto simp: bind_result_eq_Inr split: if_splits)

text \<open>Where an entry of the symmetric matrix is read.\<close>

definition read_index :: "bool \<Rightarrow> nat \<Rightarrow> nat \<Rightarrow> nat \<Rightarrow> nat" where
  "read_index u n i j = (if u then upper_index n i j else i * n + j)"

lemma read_index_upper: "i \<le> j \<Longrightarrow> read_index u n i j = i * n + j"
  by (simp add: read_index_def upper_index_le)

lemma swap_read:
  assumes "length a = n * n" "k \<le> l" "l < n" "k \<le> r" "r < n" "k \<le> i" "i < n" "k \<le> j" "j < n"
  shows "inertia_swap a n l r (if u then Some k else None) ! read_index u n i j =
    a ! read_index u n (exchange l r i) (exchange l r j)"
  using assms by (simp add: read_index_def upper_swap_entries inertia_swap_None symmetric_swap_entries)

lemma swap_diagonal:
  assumes "length a = n * n" "k \<le> l" "l < n" "k < n"
  shows "inertia_swap a n k l (if u then Some k else None) ! (k * n + k) = a ! (l * n + l)"
  using swap_read[of a n k k l k k u] assms by (simp add: read_index_upper exchange_def)

lemma inertia_block_swapped:
  assumes len: "length a = n * n" and ij: "k \<le> i" "i < j" "j < n"
    and S_def: "S = inertia_swap (inertia_swap a n k i (if u then Some k else None)) n (k + 1) j (if u then Some k else None)"
  shows "inertia_block L S n k (k + 1) p = inertia_block L a n i j p"
proof -
  have entry: "S ! (x * n + y) = a ! (x' * n + y')"
    if xy: "k \<le> x" "x \<le> y" "y < n" and x': "exchange k i (exchange (k + 1) j x) = x'"
      and y': "exchange k i (exchange (k + 1) j y) = y'" and le: "x' \<le> y'" for x y x' y'
  proof -
    have b: "k \<le> exchange (k + 1) j x" "exchange (k + 1) j x < n" "k \<le> exchange (k + 1) j y" "exchange (k + 1) j y < n"
      using xy ij by (auto simp: exchange_def)
    have "S ! read_index u n x y = a ! read_index u n x' y'"
      unfolding S_def x'[symmetric] y'[symmetric] using len xy ij b by (simp add: swap_read)
    then show ?thesis using xy(2) le by (simp add: read_index_upper)
  qed
  have "S ! (k * n + k) = a ! (i * n + i)" "S ! (k * n + (k + 1)) = a ! (i * n + j)"
    "S ! ((k + 1) * n + (k + 1)) = a ! (j * n + j)"
    by (rule entry; use ij in \<open>auto simp: exchange_def\<close>)+
  then show ?thesis unfolding inertia_block_def by presburger
qed

text \<open>The steps of a run that returns.\<close>

lemma inertia_loop_cases:
  assumes run: "inertia_loop L env n p stb a pivots (P, N) k u = Inr r" and k: "k < n"
    and len: "length a = n * n"
  obtains (last) sel where "k \<le> sel" "sel < n" "k + 1 = n" "signed (a ! (sel * n + sel))"
      "r = MpfrConclusive (P + pos_count (mi_ri (a ! (sel * n + sel)))) (N + neg_count (mi_ri (a ! (sel * n + sel))))
        (pivots @ [a ! (sel * n + sel)])"
  | (one) sel S1 V S2 where "k \<le> sel" "sel < n" "k + 1 < n" "S1 = inertia_swap a n k sel (if u then Some k else None)"
      "signed (S1 ! (k * n + k))" "mi_reciprocal L (S1 ! (k * n + k)) = Inr V"
      "update_schur_rows env S1 n (k + 1) p (\<lambda>i j previous. schur_one L p previous
        (map (\<lambda>i. below S1 n u i k) [k + 1..<n] ! (i - k - 1)) (map (\<lambda>i. below S1 n u i k) [k + 1..<n] ! (j - k - 1)) V) = Inr S2"
      "inertia_loop L env n p stb S2 (pivots @ [S1 ! (k * n + k)])
        (P + pos_count (mi_ri (S1 ! (k * n + k))), N + neg_count (mi_ri (S1 ! (k * n + k)))) (k + 1) True =
        Inr r"
  | (two) i j S1 B S2 where "k \<le> i" "i < j" "j < n"
      "S1 = inertia_swap (inertia_swap a n k i (if u then Some k else None)) n (k + 1) j (if u then Some k else None)"
      "inertia_block L S1 n k (k + 1) p = Inr (Some B)"
      "update_schur_rows env S1 n (k + 2) p (\<lambda>i j previous. schur_two L p previous
        (map (\<lambda>i. below S1 n u i k) [k + 2..<n] ! (i - k - 2)) (map (\<lambda>i. below S1 n u i (k + 1)) [k + 2..<n] ! (i - k - 2))
        (map (\<lambda>i. below S1 n u i k) [k + 2..<n] ! (j - k - 2)) (map (\<lambda>i. below S1 n u i (k + 1)) [k + 2..<n] ! (j - k - 2)) B) = Inr S2"
      "inertia_loop L env n p stb S2 (pivots @ [block_low B, block_high B])
        (count_signed (block_high B) (count_signed (block_low B) (P, N))) (k + 2) True = Inr r"
  | (stuck) "r = MpfrInconclusive k P N (n - k) (pivots @ [a ! (k * n + k)])
      ''no remaining signed MPFR interval 1x1 or 2x2 pivot''"
proof -
  note step = run[unfolded inertia_loop.simps[of L env n p stb a pivots "(P, N)" k u]]
  show thesis
  proof (cases "diagonal_pivot a n k stb")
    case (Some sel)
    note sel = diagonal_pivot_Some[OF Some]
    define S1 where "S1 = inertia_swap a n k sel (if u then Some k else None)"
    have piv: "S1 ! (k * n + k) = a ! (sel * n + sel)" unfolding S1_def using swap_diagonal[OF len sel(1,2) k] .
    have sg: "signed (S1 ! (k * n + k))" using sel(3) piv by simp
    note cnt = count_signed_eq[OF sg, of P N]
    show thesis
    proof (cases "k + 1 = n")
      case True
      have "inertia_loop L env n p stb S1 (pivots @ [S1 ! (k * n + k)]) (count_signed (S1 ! (k * n + k)) (P, N)) (k + 1) u =
          Inr r"
        using step Some True by (simp add: Let_def S1_def)
      then have "r = MpfrConclusive (P + pos_count (mi_ri (S1 ! (k * n + k)))) (N + neg_count (mi_ri (S1 ! (k * n + k))))
        (pivots @ [S1 ! (k * n + k)])"
        unfolding cnt using True by (auto simp: inertia_loop.simps)
      then show thesis using last[of sel] sel sg True unfolding piv by blast
    next
      case False
      then show thesis
        using step Some k sel sg
        by (auto simp: Let_def bind_result_eq_Inr map_err_eq_Inr S1_def[symmetric] cnt intro: one[OF _ _ _ S1_def, simplified])
    qed
  next
    case None
    obtain blk where fb: "find_inertia_block L a n p (search_pairs k n) = Inr blk"
      using step None k by (auto simp: bind_result_eq_Inr)
    show thesis
    proof (cases blk)
      case None
      then show thesis using step \<open>diagonal_pivot a n k stb = None\<close> fb k by (intro stuck) simp
    next
      case (Some fs)
      obtain i j where fs: "fs = (i, j)" by (cases fs)
      note ij = fb[unfolded Some fs]
      have b: "k \<le> i" "i < j" "j < n" "j \<noteq> k" using find_inertia_block_Some(1)[OF ij] by (auto simp: search_pairs_set)
      then show thesis
        using step None ij k
        by (auto simp: Let_def bind_result_eq_Inr map_err_eq_Inr split: option.splits intro: two[simplified])
    qed
  qed
qed

context directed_mpfr
begin

lemma inertia_loop_sound:
  assumes "inertia_loop L env n p stb a pivots (P, N) k u = Inr (MpfrConclusive P' N' pv)"
    "upper_box n k u a R" "symmetric_on n R" "k \<le> n"
  shows "\<exists>P0 N0. P' = P + P0 \<and> N' = N + N0 \<and> length pv = length pivots + (n - k) \<and>
    (list_all mi_ok pivots \<longrightarrow> list_all mi_ok pv) \<and> signature {k..<n} (mform {k..<n} R) P0 N0"
  using assms
proof (induction "n - k" arbitrary: a pivots P N k R u rule: less_induct)
  case less
  note run = less.prems(1) and box = less.prems(2) and sym = less.prems(3)
  have len: "length a = n * n" using box by (simp add: upper_box_def)
  show ?case
  proof (cases "k < n")
    case False
    then have "k = n" using less.prems(4) by simp
    then have "mform {k..<n} R = (\<lambda>y. 0)" "{k..<n} = {}" by (auto simp: mform_def)
    moreover have "inertia_loop L env n p stb a pivots (P, N) k u = Inr (MpfrConclusive P N pivots)"
      using False by (subst inertia_loop.simps) simp
    then have "P' = P" "N' = N" "pv = pivots" using run by simp_all
    ultimately show ?thesis using signature_empty by auto
  next
    case True
    have sign: "R' k k \<noteq> 0 \<and> pos_count (mi_ri v) = (if 0 < R' k k then 1 else 0) \<and>
        neg_count (mi_ri v) = (if R' k k < 0 then 1 else 0) \<and> mi_ok v"
      if "signed v" "mi_encloses v (R' k k)" for v R'
      using that strictly_positive_encloses[of "mi_ri v" "R' k k"] strictly_negative_encloses[of "mi_ri v" "R' k k"]
      by (auto simp: signed_iff strict_sign_def pos_count_def neg_count_def mi_encloses_def)
    show ?thesis
    proof (cases rule: inertia_loop_cases[OF run True len, case_names last one two stuck])
      case (last sel)
      then have sel: "sel = k" by simp
      let ?v = "a ! (k * n + k)"
      have v: "signed ?v" "mi_encloses ?v (R k k)" using last sel upper_boxD[OF box, of k k] True by (auto simp: stored_upper)
      note sg = sign[of ?v R, OF v]
      have "mform {k + 1..<n} (schur1 k R) = (\<lambda>y. 0)" "{k + 1..<n} = {}" using last(3) by (auto simp: mform_def)
      then have "signature {k + 1..<n} (mform {k + 1..<n} (schur1 k R)) 0 0" using signature_empty by auto
      from signature_schur1[OF sym True conjunct1[OF sg] this]
      have "signature {k..<n} (mform {k..<n} R) (pos_count (mi_ri ?v)) (neg_count (mi_ri ?v))" using sg by simp
      then show ?thesis using last sel sg by (intro exI[of _ "pos_count (mi_ri ?v)"] exI[of _ "neg_count (mi_ri ?v)"]) auto
    next
      case (one sel S1 V S2)
      let ?R = "\<lambda>i j. R (exchange k sel i) (exchange k sel j)"
      have box1: "upper_box n k u S1 ?R" unfolding one(4) using one(1,2) True box sym by (intro upper_box_swap) auto
      have sym1: "symmetric_on n ?R" using sym one(1,2) True by (intro symmetric_on_swap) auto
      have enc: "mi_encloses (S1 ! (k * n + k)) (?R k k)" using upper_boxD[OF box1, of k k] True by (simp add: stored_upper)
      note sg = sign[OF one(5), of ?R, OF enc]
      have box2: "upper_box n (k + 1) True S2 (schur1 k ?R)"
        using one_step_box[OF one(7) reciprocal_encloses(2)[OF one(6) enc] box1 sym1 True] .
      obtain P0 N0 where IH: "P' = P + pos_count (mi_ri (S1 ! (k * n + k))) + P0" "N' = N + neg_count (mi_ri (S1 ! (k * n + k))) + N0"
        "length pv = length pivots + 1 + (n - (k + 1))" "list_all mi_ok (pivots @ [S1 ! (k * n + k)]) \<longrightarrow> list_all mi_ok pv"
        "signature {k + 1..<n} (mform {k + 1..<n} (schur1 k ?R)) P0 N0"
        using less.hyps[OF diff_less_mono2[OF _ True] one(8) box2 symmetric_on_schur(1)[OF sym1]] True by auto
      have "signature {k..<n} (mform {k..<n} ?R) (P0 + pos_count (mi_ri (S1 ! (k * n + k)))) (N0 + neg_count (mi_ri (S1 ! (k * n + k))))"
        using signature_schur1[OF sym1 True conjunct1[OF sg] IH(5)] sg by simp
      then have "signature {k..<n} (mform {k..<n} R) (P0 + pos_count (mi_ri (S1 ! (k * n + k)))) (N0 + neg_count (mi_ri (S1 ! (k * n + k))))"
        by (rule signature_swap[of k k n sel, rotated 4]) (use one(1,2) True in auto)
      then show ?thesis using IH sg True
        by (intro exI[of _ "P0 + pos_count (mi_ri (S1 ! (k * n + k)))"] exI[of _ "N0 + neg_count (mi_ri (S1 ! (k * n + k)))"]) auto
    next
      case (two i j S1 B S2)
      have kn: "k + 1 < n" "k + 1 \<le> j" using two(1-3) by auto
      let ?R1 = "\<lambda>x y. R (exchange k i x) (exchange k i y)"
      let ?R = "\<lambda>x y. ?R1 (exchange (k + 1) j x) (exchange (k + 1) j y)"
      have sym0: "symmetric_on n ?R1" using sym two(1-3) by (intro symmetric_on_swap) auto
      have box1: "upper_box n k u S1 ?R"
        unfolding two(4) using two(1-3) kn box sym sym0 by (intro upper_box_swap) auto
      have sym1: "symmetric_on n ?R" using sym two(1-3) kn by (intro symmetric_on_swap) auto
      have blk: "mpfr_block_certified B (?R k k) (?R k (k + 1)) (?R (k + 1) (k + 1))"
        by (rule certified_inertia_block[OF two(5)]) (rule upper_boxD[OF box1]; use kn in \<open>simp add: stored_def\<close>)+
      then have sg: "signed (block_low B)" "signed (block_high B)" unfolding mpfr_block_certified_def Let_def by blast+
      have cnt: "count_signed (block_high B) (count_signed (block_low B) (P, N)) =
          (P + (pos_count (mi_ri (block_low B)) + pos_count (mi_ri (block_high B))),
           N + (neg_count (mi_ri (block_low B)) + neg_count (mi_ri (block_high B))))"
        using count_signed_eq[OF sg(1)] count_signed_eq[OF sg(2)] by (simp add: add.assoc)
      let ?P = "block_positive (?R k k) (?R k (k + 1)) (?R (k + 1) (k + 1))"
      let ?N = "block_negative (?R k k) (?R k (k + 1)) (?R (k + 1) (k + 1))"
      have cnt': "count_signed (block_high B) (count_signed (block_low B) (P, N)) = (P + ?P, N + ?N)"
        using cnt blk unfolding mpfr_block_certified_def Let_def by argo
      have box2: "upper_box n (k + 2) True S2 (schur2 k ?R)" using two_step_box[OF two(6) blk box1 sym1 kn(1)] .
      obtain P0 N0 where IH: "P' = P + ?P + P0" "N' = N + ?N + N0" "length pv = length pivots + 2 + (n - (k + 2))"
        "list_all mi_ok (pivots @ [block_low B, block_high B]) \<longrightarrow> list_all mi_ok pv"
        "signature {k + 2..<n} (mform {k + 2..<n} (schur2 k ?R)) P0 N0"
        using less.hyps[OF diff_less_mono2[OF _ True] two(7)[unfolded cnt'] box2 symmetric_on_schur(2)[OF sym1]] kn(1) by auto
      have D: "?R k k * ?R (k + 1) (k + 1) - ?R k (k + 1) * ?R k (k + 1) \<noteq> 0"
        using blk unfolding mpfr_block_certified_def Let_def by blast
      from signature_schur2[OF sym1 kn(1) D IH(5)]
      have "signature {k..<n} (mform {k..<n} ?R1) (P0 + ?P) (N0 + ?N)"
        by (rule signature_swap[of k "k + 1" n j, rotated 4]) (use two(1-3) kn in auto)
      then have "signature {k..<n} (mform {k..<n} R) (P0 + ?P) (N0 + ?N)"
        by (rule signature_swap[of k k n i, rotated 4]) (use two(1-3) in auto)
      then show ?thesis
        using IH kn(1) sg by (intro exI[of _ "P0 + ?P"] exI[of _ "N0 + ?N"]) (auto simp: signed_iff)
    next
      case stuck
      then show ?thesis by simp
    qed
  qed
qed

lemma signed_count: "signed v \<Longrightarrow> pos_count (mi_ri v) + neg_count (mi_ri v) = 1 \<and> mi_ok v"
  by (auto simp: signed_iff strict_sign_def pos_count_def neg_count_def)

lemma inertia_loop_inconclusive:
  assumes "inertia_loop L env n p stb a pivots (P, N) k u = Inr (MpfrInconclusive k' P' N' un pv reason)"
    "upper_box n k u a R" "symmetric_on n R" "k \<le> n" "list_all mi_ok pivots" "length pivots = k" "P + N = k"
  shows "k' < n \<and> P' + N' = k' \<and> un = n - k' \<and> length pv = k' + 1 \<and> list_all mi_ok pv"
  using assms
proof (induction "n - k" arbitrary: a pivots P N k R u rule: less_induct)
  case less
  note run = less.prems(1) and box = less.prems(2) and sym = less.prems(3)
  have len: "length a = n * n" using box by (simp add: upper_box_def)
  have k: "k < n" using run less.prems(4) by (cases "k < n") (auto simp: inertia_loop.simps)
  show ?case
  proof (cases rule: inertia_loop_cases[OF run k len, case_names last one two stuck])
    case (one sel S1 V S2)
    let ?R = "\<lambda>i j. R (exchange k sel i) (exchange k sel j)"
    have box1: "upper_box n k u S1 ?R" unfolding one(4) using one(1,2) k box sym by (intro upper_box_swap) auto
    have sym1: "symmetric_on n ?R" using sym one(1,2) k by (intro symmetric_on_swap) auto
    have enc: "mi_encloses (S1 ! (k * n + k)) (?R k k)" using upper_boxD[OF box1, of k k] k by (simp add: stored_upper)
    have box2: "upper_box n (k + 1) True S2 (schur1 k ?R)"
      using one_step_box[OF one(7) reciprocal_encloses(2)[OF one(6) enc] box1 sym1 k] .
    show ?thesis
      by (rule less.hyps[OF diff_less_mono2[OF _ k] one(8) box2 symmetric_on_schur(1)[OF sym1]])
        (use k less.prems(5-7) signed_count[OF one(5)] in auto)
  next
    case (two i j S1 B S2)
    have kn: "k + 1 < n" "k + 1 \<le> j" using two(1-3) by auto
    let ?R1 = "\<lambda>x y. R (exchange k i x) (exchange k i y)"
    let ?R = "\<lambda>x y. ?R1 (exchange (k + 1) j x) (exchange (k + 1) j y)"
    have sym0: "symmetric_on n ?R1" using sym two(1-3) by (intro symmetric_on_swap) auto
    have box1: "upper_box n k u S1 ?R"
      unfolding two(4) using two(1-3) kn box sym sym0 by (intro upper_box_swap) auto
    have sym1: "symmetric_on n ?R" using sym two(1-3) kn by (intro symmetric_on_swap) auto
    have blk: "mpfr_block_certified B (?R k k) (?R k (k + 1)) (?R (k + 1) (k + 1))"
      by (rule certified_inertia_block[OF two(5)]) (rule upper_boxD[OF box1]; use kn in \<open>simp add: stored_def\<close>)+
    then have sg: "signed (block_low B)" "signed (block_high B)" unfolding mpfr_block_certified_def Let_def by blast+
    have cnt: "count_signed (block_high B) (count_signed (block_low B) (P, N)) =
        (P + pos_count (mi_ri (block_low B)) + pos_count (mi_ri (block_high B)),
         N + neg_count (mi_ri (block_low B)) + neg_count (mi_ri (block_high B)))"
      by (simp add: count_signed_eq[OF sg(1)] count_signed_eq[OF sg(2)])
    have box2: "upper_box n (k + 2) True S2 (schur2 k ?R)" using two_step_box[OF two(6) blk box1 sym1 kn(1)] .
    show ?thesis
      by (rule less.hyps[OF diff_less_mono2[OF _ k] two(7)[unfolded cnt] box2 symmetric_on_schur(2)[OF sym1]])
        (use kn less.prems(5-7) signed_count[OF sg(1)] signed_count[OF sg(2)] in auto)
  next
    case stuck
    have "mi_ok (a ! (k * n + k))" using upper_boxD[OF box, of k k] k by (auto simp: stored_upper mi_encloses_def)
    then show ?thesis using stuck k less.prems(5-7) by auto
  qed auto
qed

text \<open>At a supported precision nothing panics: the block that was selected is certified again after the exchange.\<close>

lemma inertia_block_no_panic:
  assumes "32 \<le> p" "p \<le> 1000000"
  shows "\<not> panics (inertia_block L a n f s p)"
proof -
  have "\<not> panics (mi_from_i64 L m p)" for m
    using assms precisions by (simp add: mi_from_i64_def with_precision_range_def)
  then show ?thesis by (simp add: inertia_block_def Let_def panics_bind)
qed

lemma find_inertia_block_no_panic:
  "32 \<le> p \<Longrightarrow> p \<le> 1000000 \<Longrightarrow> \<not> panics (find_inertia_block L a n p pairs)"
  by (induction pairs) (auto simp: panics_bind inertia_block_no_panic split: if_splits)

lemma inertia_loop_no_panic:
  assumes "32 \<le> p" "p \<le> 1000000" "length a = n * n"
  shows "\<not> panics (inertia_loop L env n p stb a pivots counts k u)"
  using assms(3)
proof (induction "n - k" arbitrary: a pivots counts k u rule: less_induct)
  case less
  have IH: "\<not> panics (inertia_loop L env n p stb b pivots counts k' u)"
    if "k < n" "k < k'" "length b = n * n" for b pivots counts k' u
    using that by (intro less.hyps) auto
  have keep: "length b' = n * n" if "update_schur_rows env b n start p upd = Inr b'" "length b = n * n" "start \<le> n" for b b' start upd
    using update_schur_rows_result[OF that] by simp
  show ?case
  proof (cases "k < n")
    case False
    then show ?thesis by (subst inertia_loop.simps) simp
  next
    case True
    note k = True
    note step = inertia_loop.simps[of L env n p stb a pivots counts k u]
    show ?thesis
    proof (cases "diagonal_pivot a n k stb")
      case (Some sel)
      define S1 where "S1 = inertia_swap a n k sel (if u then Some k else None)"
      have len1: "length S1 = n * n" using less.prems by (simp add: S1_def)
      let ?pv = "pivots @ [S1 ! (k * n + k)]" and ?c = "count_signed (S1 ! (k * n + k)) counts"
      have next_ok: "\<not> panics (inertia_loop L env n p stb b ?pv ?c (k + 1) u')" if "length b = n * n" for b u'
        using k that by (intro IH) auto
      have eq: "inertia_loop L env n p stb a pivots counts k u =
          (if k + 1 = n then inertia_loop L env n p stb S1 ?pv ?c (k + 1) u
           else bind_result (map_err Raised (mi_reciprocal L (S1 ! (k * n + k)))) (\<lambda>inverse_pivot.
             bind_result (map_err Raised (update_schur_rows env S1 n (k + 1) p (\<lambda>i j previous.
               schur_one L p previous (map (\<lambda>i. below S1 n u i k) [k + 1..<n] ! (i - k - 1))
                 (map (\<lambda>i. below S1 n u i k) [k + 1..<n] ! (j - k - 1)) inverse_pivot))) (\<lambda>a.
             inertia_loop L env n p stb a ?pv ?c (k + 1) True)))"
        using k Some unfolding step S1_def Let_def by simp
      show ?thesis
        unfolding eq using next_ok[OF len1] next_ok keep[OF _ len1] k by (auto simp: panics_bind map_err_eq_Inr)
    next
      case None
      have "\<not> panics (find_inertia_block L a n p (search_pairs k n))"
        using find_inertia_block_no_panic assms(1,2) by blast
      moreover have "\<not> panics (case sel of None \<Rightarrow> Inr (MpfrInconclusive k (fst counts) (snd counts) (n - k)
            (pivots @ [a ! (k * n + k)]) ''no remaining signed MPFR interval 1x1 or 2x2 pivot'')
        | Some (i, j) \<Rightarrow> let a = inertia_swap a n k i (if u then Some k else None); adjusted = (if j = k then i else j);
              a = inertia_swap a n (k + 1) adjusted (if u then Some k else None)
            in bind_result (inertia_block L a n k (k + 1) p) (\<lambda>certified. case certified of
                 None \<Rightarrow> Inl (Panicked ''same certified block after symmetric permutation'')
               | Some b \<Rightarrow> let pivots = pivots @ [block_low b, block_high b];
                         counts = count_signed (block_high b) (count_signed (block_low b) counts);
                         first = map (\<lambda>i. below a n u i k) [k + 2..<n];
                         second = map (\<lambda>i. below a n u i (k + 1)) [k + 2..<n]
                     in bind_result (map_err Raised (update_schur_rows env a n (k + 2) p (\<lambda>i j previous.
                          schur_two L p previous (first ! (i - k - 2)) (second ! (i - k - 2))
                            (first ! (j - k - 2)) (second ! (j - k - 2)) b))) (\<lambda>a.
                        inertia_loop L env n p stb a pivots counts (k + 2) True)))"
        if sel: "find_inertia_block L a n p (search_pairs k n) = Inr sel" for sel
      proof (cases sel)
        case (Some ij)
        obtain i j where ij: "ij = (i, j)" by (cases ij)
        have b: "k \<le> i" "i < j" "j < n" "j \<noteq> k"
          using find_inertia_block_Some(1)[OF sel[unfolded Some ij]] by (auto simp: search_pairs_set)
        define S1 where "S1 = inertia_swap (inertia_swap a n k i (if u then Some k else None)) n (k + 1) j (if u then Some k else None)"
        obtain B where B: "inertia_block L S1 n k (k + 1) p = Inr (Some B)"
          using find_inertia_block_Some(2)[OF sel[unfolded Some ij]] inertia_block_swapped[OF less.prems b(1-3) S1_def, of L p] by auto
        have len1: "length S1 = n * n" using less.prems by (simp add: S1_def)
        have next_ok: "\<not> panics (inertia_loop L env n p stb b pv c (k + 2) True)" if "length b = n * n" for b pv c
          using k that by (intro IH) auto
        show ?thesis
          unfolding Some ij prod.case option.case Let_def if_not_P[OF b(4)] unfolding S1_def[symmetric] B
          using next_ok keep[OF _ len1] b by (auto simp: panics_bind map_err_eq_Inr)
      qed simp
      moreover have "\<not> \<not> k < n" using k by simp
      ultimately show ?thesis unfolding step if_not_P[OF \<open>\<not> \<not> k < n\<close>] None option.case panics_bind by blast
    qed
  qed
qed

end

section \<open>Properties\<close>

lemma validate_inertia_input_Inr:
  assumes "validate_inertia_input env M n p = Inr u"
  shows "32 \<le> p \<and> p \<le> 1000000 \<and> 0 < n \<and> length M = n * n"
  using assms unfolding validate_inertia_input_def by (auto split: if_splits)

lemma inertia_impl_Inr:
  assumes "inertia_impl L env M n p stb = Inr r"
  shows "0 < n \<and> length M = n * n \<and> inertia_loop L env n p stb M [] (0, 0) 0 False = Inr r"
  using assms validate_inertia_input_Inr[of env M n p]
  by (auto simp: inertia_impl_def inertia_validated_def bind_result_eq_Inr map_err_eq_Inr)

context directed_mpfr
begin

lemma mpfr_conclusive_signature:
  assumes "inertia_impl L env M n p stb = Inr (MpfrConclusive P N pv)"
    "\<And>i j. i < n \<Longrightarrow> j < n \<Longrightarrow> mi_encloses (M ! (i * n + j)) (R i j)" "\<And>i j. i < n \<Longrightarrow> j < n \<Longrightarrow> R i j = R j i"
  shows "length pv = n \<and> P + N = n \<and> list_all mi_ok pv \<and> signature {..<n} (mform {..<n} R) P N"
proof -
  note run = inertia_impl_Inr[OF assms(1)]
  have "upper_box n 0 False M R" "symmetric_on n R" using run assms(2,3) by (auto simp: upper_box_def symmetric_on_def)
  from inertia_loop_sound[OF conjunct2[OF conjunct2[OF run]] this]
  have "length pv = n" "list_all mi_ok pv" "signature {0..<n} (mform {0..<n} R) P N" by auto
  then show ?thesis unfolding lessThan_atLeast0 by (simp add: signature_def) blast
qed

lemma inertia_impl_no_panic: "\<not> panics (inertia_impl L env M n p stb)"
  using validate_inertia_input_Inr[of env M n p] inertia_loop_no_panic
  by (auto simp: inertia_impl_def inertia_validated_def panics_bind map_err_eq_Inr)

end

lemma mi_ok_wf: "mi_ok I \<Longrightarrow> wf_interval (mi_ri I)"
  by (simp add: mi_ok_iff mi_ri_def wf_interval_def)

lemma records_ok:
  assumes "list_all mi_ok vs"
  shows "mpfr_records vs = Inr (map mi_ri vs)"
  unfolding mpfr_records_def using assms
  by (intro collect_results_map)
    (auto simp: list_all_iff mi_to_rational_interval_def mi_try_to_rational_interval_def float_to_rational_def mi_ok_iff
      ri_new_def mi_ri_def)

context directed_mpfr
begin

lemma rounded_entry:
  assumes "mi_new (round_rational L Down p (lower v)) (round_rational L Up p (upper v)) = Inr I" "encloses v x"
  shows "mi_encloses I x"
  using assms(2) rational[of p "lower v"] rational[of p "upper v"]
  by (intro mi_new_encloses[OF assms(1)]) (auto intro: directed_intros simp: encloses_def)

lemma rounded_matrix:
  assumes "collect_results (\<lambda>v. mi_new (round_rational L Down p (lower v)) (round_rational L Up p (upper v))) M = Inr M'"
    "length M = n * n" "\<And>i j. i < n \<Longrightarrow> j < n \<Longrightarrow> encloses (M ! (i * n + j)) (R i j)"
  shows "i < n \<Longrightarrow> j < n \<Longrightarrow> mi_encloses (M' ! (i * n + j)) (R i j)"
  using collect_results_Inr[OF assms(1)] rounded_entry[of p "M ! (i * n + j)"] assms(2,3) row_major_less[of i n j] by auto

lemma route_impl:
  assumes "\<not> (\<not> (32 \<le> p \<and> p \<le> 1000000) \<or> n = 0 \<or> checked_mul n n \<noteq> Some (length M))" "symmetric_rows n M (lower_pairs n) = None"
    "collect_results (\<lambda>v. mi_new (round_rational L Down p (lower v)) (round_rational L Up p (upper v))) M = Inr M'"
  shows "inertia_route L env M n p stb =
    bind_result (inertia_impl L env M' n p stb) (\<lambda>result. case result of
          MpfrConclusive positive negative pivot_enclosures \<Rightarrow>
            bind_result (mpfr_records pivot_enclosures) (\<lambda>pivots. Inr (ConclusiveInertia positive negative pivots))
        | MpfrInconclusive pivot_index positive negative unresolved pivot_enclosures reason \<Rightarrow>
            bind_result (mpfr_records pivot_enclosures) (\<lambda>pivots.
              Inr (InconclusiveInertia pivot_index positive negative unresolved pivots reason)))"
  unfolding inertia_route_def if_not_P[OF assms(1)] assms(2,3)
  by (simp add: inertia_owned_def inertia_stable_owned_def inertia_impl_def)

lemma route_cases:
  assumes wf: "\<forall>I \<in> set M. wf_interval I"
  obtains (rejected) e where "inertia_route L env M n p stb = Inl (Raised e)"
  | (conclusive) M' P N pv where "length M = n * n" "0 < n"
      "collect_results (\<lambda>v. mi_new (round_rational L Down p (lower v)) (round_rational L Up p (upper v))) M = Inr M'"
      "inertia_impl L env M' n p stb = Inr (MpfrConclusive P N pv)" "length pv = n" "P + N = n" "list_all mi_ok pv"
      "inertia_route L env M n p stb = Inr (ConclusiveInertia P N (map mi_ri pv))"
  | (inconclusive) k P N pv reason where "k < n" "P + N = k" "length pv = k + 1" "list_all mi_ok pv"
      "inertia_route L env M n p stb = Inr (InconclusiveInertia k P N (n - k) (map mi_ri pv) reason)"
proof (cases "\<not> (32 \<le> p \<and> p \<le> 1000000) \<or> n = 0 \<or> checked_mul n n \<noteq> Some (length M) \<or> symmetric_rows n M (lower_pairs n) \<noteq> None")
  case True
  then have "\<exists>e. inertia_route L env M n p stb = Inl (Raised e)"
    unfolding inertia_route_def by (cases "symmetric_rows n M (lower_pairs n) = None") auto
  then show thesis using rejected by blast
next
  case False
  then have ok: "\<not> (\<not> (32 \<le> p \<and> p \<le> 1000000) \<or> n = 0 \<or> checked_mul n n \<noteq> Some (length M))"
    "symmetric_rows n M (lower_pairs n) = None" by blast+
  then have len: "length M = n * n" "0 < n" by auto
  show thesis
  proof (cases "collect_results (\<lambda>v. mi_new (round_rational L Down p (lower v)) (round_rational L Up p (upper v))) M")
    case (Inl e)
    then have "inertia_route L env M n p stb = Inl (Raised e)"
      unfolding inertia_route_def if_not_P[OF ok(1)] by (simp add: ok(2))
    then show thesis by (rule rejected)
  next
    case (Inr M')
    note route = route_impl[OF ok Inr, of env stb]
    define R where "R i j = real_of_rat (lower (M ! (i * n + j)))" for i j
    have R: "\<And>i j. i < n \<Longrightarrow> j < n \<Longrightarrow> encloses (M ! (i * n + j)) (R i j)"
      unfolding R_def using wf len row_major_less by (intro wf_encloses_lower) auto
    have sym: "\<And>i j. i < n \<Longrightarrow> j < n \<Longrightarrow> R i j = R j i"
      using ok(2) unfolding R_def symmetric_rows_lower by metis
    note box = rounded_matrix[OF Inr len(1) R]
    show thesis
    proof (cases "inertia_impl L env M' n p stb")
      case (Inl e)
      then show thesis
        using inertia_impl_no_panic[of env M' n p stb] route by (cases e) (auto intro: rejected)
    next
      case run: (Inr r)
      show thesis
      proof (cases r)
        case (MpfrConclusive P N pv)
        note sound = mpfr_conclusive_signature[OF run[unfolded MpfrConclusive], of R, OF box sym]
        show thesis
          using conclusive[OF len Inr run[unfolded MpfrConclusive]] sound route run MpfrConclusive by (simp add: records_ok)
      next
        case (MpfrInconclusive k P N un pv reason)
        have "upper_box n 0 False M' R" "symmetric_on n R"
          using inertia_impl_Inr[OF run] box sym by (auto simp: upper_box_def symmetric_on_def)
        with inertia_loop_inconclusive[of env n p stb M' "[]" 0 0 0 False k P N un pv reason R] inertia_impl_Inr[OF run]
        have "k < n \<and> P + N = k \<and> un = n - k \<and> length pv = k + 1 \<and> list_all mi_ok pv" using MpfrInconclusive by simp
        then show thesis using inconclusive[of k P N pv reason] route run MpfrInconclusive by (simp add: records_ok)
      qed
    qed
  qed
qed

lemma route_conclusive:
  assumes "inertia_route L env M n p stb = Inr (ConclusiveInertia P N pv)" "\<forall>I \<in> set M. wf_interval I"
    "\<And>i j. i < n \<Longrightarrow> j < n \<Longrightarrow> encloses (M ! (i * n + j)) (R i j)" "\<And>i j. i < n \<Longrightarrow> j < n \<Longrightarrow> R i j = R j i"
  shows "length pv = n \<and> P + N = n \<and> signature {..<n} (mform {..<n} R) P N"
proof (cases rule: route_cases[OF assms(2), of env n p stb, case_names rejected conclusive inconclusive])
  case (conclusive M' P' N' pv')
  have "signature {..<n} (mform {..<n} R) P' N'"
    using mpfr_conclusive_signature[OF conclusive(4), of R, OF rounded_matrix[OF conclusive(3,1) assms(3)] assms(4)] by blast
  then show ?thesis using conclusive assms(1) by simp
qed (use assms(1) in auto)

lemma route_result:
  assumes "\<forall>I \<in> set M. wf_interval I"
  shows "\<not> panics (inertia_route L env M n p stb) \<and> (\<forall>r. inertia_route L env M n p stb = Inr r \<longrightarrow> accounted n r)"
  by (cases rule: route_cases[OF assms, of env n p stb]) (auto simp: list_all_iff mi_ok_wf)

end

text \<open>C16. The directed MPFR elimination is sound and never panics, for both pivot routes: a conclusive result
  is the inertia of every real symmetric matrix in the interval matrix, so it counts the
  positive and negative eigenvalues of each of them and none is zero.\<close>

theorem mpfr_inertia_counts_eigenvalues:
  assumes "directed_mpfr L"
    and "inertia_impl L env matrix n p stb = Inr (MpfrConclusive positive negative pivots)"
    and "\<And>i j. i < n \<Longrightarrow> j < n \<Longrightarrow> mi_encloses (matrix ! (i * n + j)) (R i j)"
    and "\<And>i j. i < n \<Longrightarrow> j < n \<Longrightarrow> R i j = R j i"
  shows "positive + negative = n \<and> length pivots = n \<and>
    signature {..<n} (mform {..<n} R) positive negative \<and>
    (\<forall>v lam. eigenbasis n R v lam \<longrightarrow>
       card {k. k < n \<and> 0 < lam k} = positive \<and> card {k. k < n \<and> lam k < 0} = negative \<and> (\<forall>k < n. lam k \<noteq> 0)) \<and>
    (\<forall>env' matrix' n' p' stb'. \<not> panics (inertia_impl L env' matrix' n' p' stb'))"
  using directed_mpfr.mpfr_conclusive_signature[OF assms(1-4)] signature_eigenvalues[of n R positive negative]
    directed_mpfr.inertia_impl_no_panic[OF assms(1)] by blast

definition serial_env :: mpfr_env where
  "serial_env = \<lparr>worker_count = 1, caller_bounds = (-1000, 1000), worker_bounds = (\<lambda>_. (-1000, 1000)), row_worker = (\<lambda>_. 0),
     row_schedule = (\<lambda>_. [])\<rparr>"

definition mpfr_saddle :: "MpfrInterval list" where
  "mpfr_saddle = [box_53 1 2, box_53 0 0, box_53 0 0, box_53 (-2) (-1)]"

lemma mpfr_saddle_steps:
  "diagonal_pivot mpfr_saddle 2 0 True = Some 1" "diagonal_pivot mpfr_saddle 2 0 False = Some 0"
  "diagonal_pivot mpfr_saddle 2 1 False = Some 1" "mi_reciprocal reference_rug (mpfr_saddle ! 0) = Inr (box_53 (1/2) 1)"
  "schur_one reference_rug 53 (mpfr_saddle ! 3) (mpfr_saddle ! 2) (mpfr_saddle ! 2) (box_53 (1/2) 1) = Inr (mpfr_saddle ! 3)"
  "mi_is_strictly_positive (mpfr_saddle ! 0)" "\<not> mi_is_strictly_positive (mpfr_saddle ! 3)" "is_ok (mi_validate (mpfr_saddle ! 3))"
  by code_simp+

lemma mpfr_saddle_validated: "validate_inertia_input serial_env mpfr_saddle 2 53 = Inr ()"
  by (simp add: validate_inertia_input_def mpfr_saddle_def lower_pairs_def numeral_2_eq_2 usize_max_def serial_env_def
      checked_mul_def mi_validate_Inr mi_ok_iff box_53_def finite_float_def mi_precision_def float_defs)

lemma mpfr_saddle_update:
  "update_schur_rows serial_env mpfr_saddle 2 1 53 (\<lambda>i j previous. schur_one reference_rug 53 previous
     (map (\<lambda>i. below mpfr_saddle 2 False i 0) [1..<2] ! (i - 0 - 1))
     (map (\<lambda>i. below mpfr_saddle 2 False i 0) [1..<2] ! (j - 0 - 1)) (box_53 (1/2) 1)) = Inr mpfr_saddle"
  using mpfr_saddle_steps(5,8)
  by (simp add: update_schur_rows_def runs_parallel_def row_update_def update_entry_def serial_env_def below_def upt_rec numeral_3_eq_3 numeral_2_eq_2
      list_update_id mi_validate_Inr)

lemma mpfr_saddle_run: "inertia_impl reference_rug serial_env mpfr_saddle 2 53 False =
    Inr (MpfrConclusive 1 1 [mpfr_saddle ! 0, mpfr_saddle ! 3])"
  using mpfr_saddle_steps mpfr_saddle_update
  by (simp add: inertia_impl_def mpfr_saddle_validated inertia_validated_def inertia_loop.simps inertia_swap_def
      count_signed_def numeral_3_eq_3)

lemma mpfr_saddle_box: "i < 2 \<Longrightarrow> j < 2 \<Longrightarrow> mi_encloses (mpfr_saddle ! (i * 2 + j)) (saddle i j)"
  by (auto simp: less_2_cases_nat mpfr_saddle_def saddle_def of_rat_minus intro!: box_53_encloses)

theorem mpfr_inertia_counts_eigenvalues_witness:
  "inertia_impl reference_rug serial_env mpfr_saddle 2 53 False = Inr (MpfrConclusive 1 1 [mpfr_saddle ! 0, mpfr_saddle ! 3]) \<and>
   signature {..<2} (mform {..<2} saddle) 1 1 \<and> card {k. k < 2 \<and> (if k = (0::nat) then 2 else -1 :: real) < 0} = 1"
proof -
  have "saddle i j = saddle j i" for i j by (simp add: saddle_def)
  from mpfr_inertia_counts_eigenvalues[OF ref_mpfr.directed_mpfr_axioms mpfr_saddle_run, of saddle, OF mpfr_saddle_box this]
  show ?thesis using mpfr_saddle_run saddle_eigenbasis by blast
qed

definition env_uniform :: "mpfr_env \<Rightarrow> bool" where
  "env_uniform env \<longleftrightarrow> (\<forall>w < worker_count env. worker_bounds env w = caller_bounds env) \<and>
     (\<forall>i. row_worker env i < worker_count env)"

lemma update_schur_rows_Inl:
  assumes "env_uniform env" "length a = n * n" and run: "update_schur_rows env a n start p upd = Inl e"
  shows "\<exists>i. start \<le> i \<and> i < n \<and> row_alone upd a n i = Inl e"
proof -
  obtain bounds schedule where jobs: "update_schur_rows env a n start p upd =
      map_ok fst (fold_result (row_job_step env bounds n upd) (row_steps schedule n start) (a, \<lambda>i. i))"
    and bounds: "\<forall>i. bounds i = caller_bounds env"
    using update_schur_rows_jobs[of env a n start p upd] assms(1) unfolding env_uniform_def by metis
  then have "fold_result (row_job_step env bounds n upd) (row_steps schedule n start) (a, \<lambda>i. i) = Inl e"
    using run by (cases "fold_result (row_job_step env bounds n upd) (row_steps schedule n start) (a, \<lambda>i. i)") simp_all
  then show ?thesis using row_jobs_Inl[OF _ rows_inv_start[OF assms(2)] row_steps_rows bounds] by blast
qed

lemma collect_results_ok: "\<forall>x \<in> set xs. is_ok (f x) \<Longrightarrow> is_ok (collect_results f xs)"
  by (induction xs) (auto simp: is_ok_iff)

lemma uniform_update_schur_rows:
  assumes "env_uniform env'" "length a = n * n" "update_schur_rows env a n start p upd = Inr b"
  shows "update_schur_rows env' a n start p upd = Inr b"
proof (cases "update_schur_rows env' a n start p upd")
  case (Inl e)
  then obtain i where i: "start \<le> i" "i < n" "row_alone upd a n i = Inl e"
    using update_schur_rows_Inl[OF assms(1,2)] by blast
  have "is_ok (row_alone upd a n i)"
    unfolding row_alone_def using update_schur_rows_Inr[OF assms(3,2)] i by (intro collect_results_ok) auto
  then show ?thesis using i(3) by simp
next
  case (Inr b')
  then show ?thesis using update_schur_rows_Inr[OF assms(3,2)] update_schur_rows_Inr[OF Inr assms(2)] by simp
qed

text \<open>Two computations with the same returned values.\<close>

definition same_ok :: "'e + 'a \<Rightarrow> 'e + 'a \<Rightarrow> bool" where
  "same_ok r r' \<longleftrightarrow> (\<forall>x. r = Inr x \<longleftrightarrow> r' = Inr x)"

lemma same_ok_refl: "same_ok r r"
  by (simp add: same_ok_def)

lemma same_ok_bind:
  "same_ok r r' \<Longrightarrow> (\<And>x. r = Inr x \<Longrightarrow> same_ok (f x) (g x)) \<Longrightarrow> same_ok (bind_result r f) (bind_result r' g)"
  by (auto simp: same_ok_def bind_result_eq_Inr)

lemma same_ok_split:
  "(b \<Longrightarrow> same_ok r r') \<Longrightarrow> (\<not> b \<Longrightarrow> same_ok q q') \<Longrightarrow> same_ok (if b then r else q) (if b then r' else q')"
  "(opt = None \<Longrightarrow> same_ok r r') \<Longrightarrow> (\<And>x. opt = Some x \<Longrightarrow> same_ok (f x) (f' x)) \<Longrightarrow>
     same_ok (case opt of None \<Rightarrow> r | Some x \<Rightarrow> f x) (case opt of None \<Rightarrow> r' | Some x \<Rightarrow> f' x)"
  "(\<And>x y. same_ok (g x y) (g' x y)) \<Longrightarrow> same_ok (case xy of (x, y) \<Rightarrow> g x y) (case xy of (x, y) \<Rightarrow> g' x y)"
  by (auto split: option.split prod.split)

lemma same_ok_update:
  assumes "env_uniform env" "env_uniform env'" "length a = n * n"
  shows "same_ok (map_err Raised (update_schur_rows env a n start p upd)) (map_err Raised (update_schur_rows env' a n start p upd))"
  unfolding same_ok_def map_err_eq_Inr
  by (intro allI iffI) (erule uniform_update_schur_rows[OF assms(2,3)], erule uniform_update_schur_rows[OF assms(1,3)])

lemma update_schur_rows_length: "update_schur_rows env a n start p upd = Inr b \<Longrightarrow> length a = n * n \<Longrightarrow> length b = n * n"
  using update_schur_rows_Inr[of env a n start p upd b] by simp

lemma inertia_loop_uniform:
  assumes u: "env_uniform env" "env_uniform env'" and "length a = n * n"
  shows "same_ok (inertia_loop L env n p stb a pivots counts k u) (inertia_loop L env' n p stb a pivots counts k u)"
  using assms(3)
proof (induction "n - k" arbitrary: a pivots counts k u rule: less_induct)
  case less
  show ?case
  proof (cases "k < n")
    case True
    have IH: "same_ok (inertia_loop L env n p stb b pv c (k + 1) u') (inertia_loop L env' n p stb b pv c (k + 1) u')"
      "same_ok (inertia_loop L env n p stb b pv c (k + 2) u') (inertia_loop L env' n p stb b pv c (k + 2) u')"
      if "length b = n * n" for b pv c u'
      using True that by (intro less.hyps; simp)+
    have after: "length x = n * n" if "map_err Raised (update_schur_rows env b n start p upd) = Inr x" "length b = n * n" for b x start upd
      using that update_schur_rows_length by (auto simp: map_err_eq_Inr)
    show ?thesis
      unfolding inertia_loop.simps[of L env n p stb a pivots counts k u] inertia_loop.simps[of L env' n p stb a pivots counts k u] Let_def
      using True less.prems
      by (intro same_ok_split same_ok_bind same_ok_update[OF u] IH same_ok_refl) (simp_all, (drule after, simp, assumption)+)
  next
    case False
    then show ?thesis by (simp add: inertia_loop.simps same_ok_refl)
  qed
qed

lemma map_fault_simps:
  "map_fault f r = Inr x \<longleftrightarrow> r = Inr x" "panics (map_fault f r) \<longleftrightarrow> panics r"
  by (induction f r rule: map_fault.induct) auto

text \<open>C17. The value of the elimination does not depend on the thread pool. For any two environments whose workers share the
  caller's exponent range, whatever the number of workers, the assignment of rows and the interleaving of the row jobs on the shared
  array, one elimination returns a value exactly when the other returns the same value, and so does every single row update. Only the
  error may differ: it is the error that one of the rows has when it runs alone. With several workers and a differing exponent range no input is
  accepted.\<close>

theorem mpfr_inertia_schedule_independent:
  assumes "env_uniform env" "env_uniform env'"
  shows "(\<forall>r. inertia_impl L env matrix n p stb = Inr r \<longleftrightarrow> inertia_impl L env' matrix n p stb = Inr r) \<and>
    (\<forall>a start upd. length a = n * n \<longrightarrow>
       (\<forall>b. update_schur_rows env a n start p upd = Inr b \<longleftrightarrow> update_schur_rows env' a n start p upd = Inr b) \<and>
       (\<forall>e. update_schur_rows env a n start p upd = Inl e \<longrightarrow> (\<exists>i. start \<le> i \<and> i < n \<and> row_alone upd a n i = Inl e))) \<and>
    (\<forall>bad w. 1 < worker_count bad \<and> w < worker_count bad \<and> worker_bounds bad w \<noteq> caller_bounds bad \<longrightarrow>
       \<not> is_ok (inertia_impl L bad matrix n p stb))"
proof (intro conjI allI impI)
  have val: "validate_inertia_input env matrix n p = validate_inertia_input env' matrix n p"
    using assms by (auto simp: validate_inertia_input_def ensure_uniform_exponent_range_def env_uniform_def)
  have "same_ok (inertia_impl L env matrix n p stb) (inertia_impl L env' matrix n p stb)"
    unfolding inertia_impl_def inertia_validated_def val
    by (intro same_ok_bind same_ok_refl inertia_loop_uniform[OF assms])
      (use validate_inertia_input_Inr in \<open>auto simp: map_err_eq_Inr\<close>)
  then show "inertia_impl L env matrix n p stb = Inr r \<longleftrightarrow> inertia_impl L env' matrix n p stb = Inr r" for r
    by (simp add: same_ok_def)
  show "update_schur_rows env a n start p upd = Inr b \<longleftrightarrow> update_schur_rows env' a n start p upd = Inr b"
    if "length a = n * n" for a start upd b
    using that uniform_update_schur_rows assms by blast
  show "\<exists>i. start \<le> i \<and> i < n \<and> row_alone upd a n i = Inl e"
    if "length a = n * n" "update_schur_rows env a n start p upd = Inl e" for a start upd e
    using that update_schur_rows_Inl[OF assms(1)] by blast
  fix bad :: mpfr_env and w assume bad: "1 < worker_count bad \<and> w < worker_count bad \<and> worker_bounds bad w \<noteq> caller_bounds bad"
  then have "ensure_uniform_exponent_range bad = Inl (Inconclusive ''parallel MPFR workers do not share the caller's exponent range'')"
    by (auto simp: ensure_uniform_exponent_range_def)
  then show "\<not> is_ok (inertia_impl L bad matrix n p stb)" using bad by (auto simp: inertia_impl_def validate_inertia_input_def)
qed

text \<open>Two workers that share the three rows of a matrix, entry by entry and out of order: large enough to run in parallel.\<close>

definition pool_env :: mpfr_env where
  "pool_env = serial_env\<lparr>worker_count := 2, row_worker := (\<lambda>i. i mod 2), row_schedule := (\<lambda>_. [2, 0, 1, 0, 1])\<rparr>"

definition pool_matrix :: "MpfrInterval list" where
  "pool_matrix = replicate 9 (box_53 1 2)"

lemma pool_steps: "runs_parallel pool_env 3 20000" "row_steps (row_schedule pool_env 0) 3 0 = [2, 0, 1, 0, 1, 0, 0, 0, 1, 1, 2]"
  "is_ok (mi_validate (box_53 3 4))"
  by (simp add: runs_parallel_def pool_env_def serial_env_def saturating_mul_def saturating_add_def usize_max_def,
    simp add: row_steps_def pool_env_def serial_env_def eval_nat_numeral, code_simp)

lemma serial_rows: "update_schur_rows serial_env pool_matrix 3 0 20000 (\<lambda>i j _. Inr (box_53 3 4)) =
    Inr (pool_matrix[0 := box_53 3 4, 1 := box_53 3 4, 2 := box_53 3 4, 4 := box_53 3 4, 5 := box_53 3 4, 8 := box_53 3 4])"
  using pool_steps(3)
  by (simp add: update_schur_rows_def runs_parallel_def serial_env_def row_update_def update_entry_def upt_rec is_ok_iff
      pool_matrix_def eval_nat_numeral)

theorem mpfr_inertia_schedule_independent_witness:
  "runs_parallel pool_env 3 20000 \<and> row_steps (row_schedule pool_env 0) 3 0 = [2, 0, 1, 0, 1, 0, 0, 0, 1, 1, 2] \<and>
   update_schur_rows pool_env pool_matrix 3 0 20000 (\<lambda>i j _. Inr (box_53 3 4)) =
     Inr (pool_matrix[0 := box_53 3 4, 1 := box_53 3 4, 2 := box_53 3 4, 4 := box_53 3 4, 5 := box_53 3 4, 8 := box_53 3 4]) \<and>
   inertia_impl reference_rug pool_env mpfr_saddle 2 53 False = Inr (MpfrConclusive 1 1 [mpfr_saddle ! 0, mpfr_saddle ! 3])"
proof -
  have env: "env_uniform serial_env" "env_uniform pool_env" by (auto simp: env_uniform_def serial_env_def pool_env_def)
  have "length pool_matrix = 3 * 3" by (simp add: pool_matrix_def)
  then show ?thesis
    using mpfr_inertia_schedule_independent[OF env, of reference_rug mpfr_saddle 2 53 False]
      mpfr_inertia_schedule_independent[OF env, of reference_rug pool_matrix 3 20000 False] mpfr_saddle_run serial_rows pool_steps(1,2)
    by blast
qed

text \<open>The MPFR route of a certificate is sound over the rational input box: with the outward rounding of the
  endpoints, a conclusive result of either route counts the eigenvalue signs of every real symmetric matrix
  in the box of exact rational intervals; the routes never panic (every recorded pivot is a valid interval) and
  every result accounts for the whole dimension.\<close>

theorem mpfr_certificate_inertia_sound:
  assumes "directed_mpfr L" "\<forall>I \<in> set matrix. wf_interval I"
    and "result \<in> {interval_symmetric_ldlt_inertia_mpfr L env matrix n p,
                   interval_symmetric_ldlt_inertia_mpfr_stable L env matrix n p}"
  shows "\<not> panics result \<and> (\<forall>r. result = Inr r \<longrightarrow> accounted n r) \<and>
    (\<forall>positive negative pivots R v lam. result = Inr (ConclusiveInertia positive negative pivots) \<and>
       (\<forall>i < n. \<forall>j < n. encloses (matrix ! (i * n + j)) (R i j) \<and> R i j = R j i) \<and> eigenbasis n R v lam \<longrightarrow>
       card {k. k < n \<and> 0 < lam k} = positive \<and> card {k. k < n \<and> lam k < 0} = negative \<and> (\<forall>k < n. lam k \<noteq> 0))"
proof -
  obtain f stb where res: "result = map_fault f (inertia_route L env matrix n p stb)"
    using assms(3) by (auto simp: interval_symmetric_ldlt_inertia_mpfr_def interval_symmetric_ldlt_inertia_mpfr_stable_def
        adapter_inertia_def adapter_inertia_stable_def)
  have "\<not> panics result \<and> (\<forall>r. result = Inr r \<longrightarrow> accounted n r)"
    using directed_mpfr.route_result[OF assms(1,2), of env n p stb] by (simp add: res map_fault_simps)
  moreover have "card {k. k < n \<and> 0 < lam k} = P \<and> card {k. k < n \<and> lam k < 0} = N \<and> (\<forall>k < n. lam k \<noteq> 0)"
    if "result = Inr (ConclusiveInertia P N pv)" "\<forall>i < n. \<forall>j < n. encloses (matrix ! (i * n + j)) (R i j) \<and> R i j = R j i"
      "eigenbasis n R v lam" for P N pv R v lam
  proof -
    have "signature {..<n} (mform {..<n} R) P N"
      using directed_mpfr.route_conclusive[OF assms(1) _ assms(2), of env n p stb P N pv R] that(1,2)
      by (simp add: res map_fault_simps)
    then show ?thesis using signature_eigenvalues[of n R P N v lam] that(3) by simp
  qed
  ultimately show ?thesis by (intro conjI allI impI) (elim conjE, simp; fail)+
qed

definition rational_saddle :: "RationalInterval list" where
  "rational_saddle = map mi_ri mpfr_saddle"

lemma rounded_box:
  "mi_new (round_rational reference_rug Down 53 1) (round_rational reference_rug Up 53 2) = Inr (box_53 1 2)"
  "mi_new (round_rational reference_rug Down 53 0) (round_rational reference_rug Up 53 0) = Inr (box_53 0 0)"
  "mi_new (round_rational reference_rug Down 53 (-2)) (round_rational reference_rug Up 53 (-1)) = Inr (box_53 (-2) (-1))"
  by code_simp+

lemma box_53_ri: "mi_ri (box_53 l u) = \<lparr>lower = l, upper = u\<rparr>"
  by (simp add: mi_ri_def box_53_def finite_float_def fval_def)

lemma rational_saddle_steps:
  "symmetric_rows 2 rational_saddle (lower_pairs 2) = None" "length rational_saddle = 4"
  "collect_results (\<lambda>v. mi_new (round_rational reference_rug Down 53 (lower v)) (round_rational reference_rug Up 53 (upper v)))
     rational_saddle = Inr mpfr_saddle"
  by (simp_all add: rational_saddle_def mpfr_saddle_def box_53_ri rounded_box lower_pairs_def numeral_2_eq_2)

lemma rational_saddle_run: "interval_symmetric_ldlt_inertia_mpfr reference_rug serial_env rational_saddle 2 53 =
    Inr (ConclusiveInertia 1 1 [mi_ri (mpfr_saddle ! 0), mi_ri (mpfr_saddle ! 3)])"
proof -
  have "list_all mi_ok [mpfr_saddle ! 0, mpfr_saddle ! 3]"
    by (simp add: mpfr_saddle_def mi_ok_iff box_53_def finite_float_def float_defs)
  moreover have "\<not> (\<not> (32 \<le> (53::nat) \<and> (53::nat) \<le> 1000000) \<or> (2::nat) = 0 \<or> checked_mul 2 2 \<noteq> Some (length rational_saddle))"
    by (simp add: rational_saddle_steps checked_mul_def usize_max_def)
  ultimately show ?thesis
    using ref_mpfr.route_impl[OF _ rational_saddle_steps(1,3), of serial_env False] mpfr_saddle_run
    by (simp add: interval_symmetric_ldlt_inertia_mpfr_def adapter_inertia_def records_ok)
qed

theorem mpfr_certificate_inertia_sound_witness:
  "interval_symmetric_ldlt_inertia_mpfr reference_rug serial_env rational_saddle 2 53 =
     Inr (ConclusiveInertia 1 1 [mi_ri (mpfr_saddle ! 0), mi_ri (mpfr_saddle ! 3)]) \<and>
   card {k. k < 2 \<and> (if k = (0::nat) then 2 else -1 :: real) < 0} = 1"
proof -
  have wf: "\<forall>I \<in> set rational_saddle. wf_interval I"
    by (simp add: rational_saddle_def mpfr_saddle_def mi_ri_def wf_interval_def box_53_def finite_float_def fval_def)
  have "length mpfr_saddle = 4" by (simp add: mpfr_saddle_def)
  then have entry: "encloses (rational_saddle ! (i * 2 + j)) (saddle i j)" if "i < 2" "j < 2" for i j
    using mpfr_saddle_box[OF that] that by (simp add: rational_saddle_def mi_encloses_def)
  have "\<forall>i < 2. \<forall>j < 2. encloses (rational_saddle ! (i * 2 + j)) (saddle i j) \<and> saddle i j = saddle j i"
    using entry by (simp add: saddle_def)
  note sound = mpfr_certificate_inertia_sound[OF ref_mpfr.directed_mpfr_axioms wf insertI1, of serial_env 2 53,
    THEN conjunct2, THEN conjunct2, rule_format, OF conjI, OF rational_saddle_run conjI, OF this saddle_eigenbasis]
  show ?thesis using rational_saddle_run sound by blast
qed

end
