(* ===== verification/Decimal_Literal.thy ===== *)
theory Decimal_Literal
  imports XC_Prelude
begin

text \<open>
  Portable decimal literals, \<open>crates/xc-core/src/target.rs\<close> (\<open>DecimalParts\<close>, \<open>DecimalLiteral\<close>,
  \<open>EigenTarget\<close>) and the configuration error of \<open>error.rs\<close>.

  The parser is modelled stage by stage (sign, mantissa scan, exponent, removal of leading and trailing zeros) with the
  \<open>i64\<close> overflow checks of the source. \<open>decimal_value\<close> is the rational number a parsed literal denotes;
  the comparison routines, which never expand an exponent gap, are proved to compare these numbers. A \<open>BTreeMap\<close> of
  digit sums is an association list with increasing keys. Conversions through \<open>f64\<close> are not modelled.
\<close>

section \<open>Definitions\<close>

record ConfigError =
  config_message :: string

definition config_error :: "string \<Rightarrow> ConfigError" where
  "config_error message = \<lparr>config_message = message\<rparr>"

datatype Ordering = Less | Equal | Greater

fun reverse_order :: "Ordering \<Rightarrow> Ordering" where
  "reverse_order Less = Greater"
| "reverse_order Equal = Equal"
| "reverse_order Greater = Less"

definition cmp :: "'a :: linorder \<Rightarrow> 'a \<Rightarrow> Ordering" where
  "cmp x y = (if x < y then Less else if x = y then Equal else Greater)"

definition i64_max :: int where
  "i64_max = 9223372036854775807"

definition i64_checked :: "int \<Rightarrow> int option" where
  "i64_checked x = (if - i64_max - 1 \<le> x \<and> x \<le> i64_max then Some x else None)"

fun ok_or :: "'a option \<Rightarrow> 'e \<Rightarrow> 'e + 'a" where
  "ok_or (Some x) e = Inr x"
| "ok_or None e = Inl e"

subsection \<open>Parsing\<close>

record DecimalParts =
  sign :: int
  digits :: "nat list"
  scale :: int

definition leading_sign :: "string \<Rightarrow> nat \<times> int" where
  "leading_sign bytes = (case bytes of
     [] \<Rightarrow> (0, 1)
   | b # _ \<Rightarrow> if b = CHR ''+'' then (1, 1) else if b = CHR ''-'' then (1, -1) else (0, 1))"

fun scan_mantissa :: "string \<Rightarrow> nat \<Rightarrow> nat option \<Rightarrow> ConfigError + (nat option \<times> nat option)" where
  "scan_mantissa [] cursor decimal_index = Inr (decimal_index, None)"
| "scan_mantissa (b # bytes) cursor decimal_index =
     (if is_ascii_digit b then scan_mantissa bytes (cursor + 1) decimal_index
      else if b = CHR ''.'' \<and> decimal_index = None then scan_mantissa bytes (cursor + 1) (Some cursor)
      else if b = CHR ''e'' \<or> b = CHR ''E'' then Inr (decimal_index, Some cursor)
      else Inl (config_error ''invalid decimal literal syntax''))"

fun exponent_magnitude :: "string \<Rightarrow> int \<Rightarrow> ConfigError + int" where
  "exponent_magnitude [] magnitude = Inr magnitude"
| "exponent_magnitude (b # bytes) magnitude =
     bind_result (ok_or (Option.bind (i64_checked (magnitude * 10)) (\<lambda>current. i64_checked (current + int (char_digit b))))
         (config_error ''decimal exponent is too large''))
       (exponent_magnitude bytes)"

definition decimal_exponent :: "string \<Rightarrow> nat option \<Rightarrow> ConfigError + int" where
  "decimal_exponent bytes exponent_index = (case exponent_index of
     None \<Rightarrow> Inr 0
   | Some index \<Rightarrow>
       let (skip, exponent_sign) = leading_sign (drop (index + 1) bytes);
           rest = drop (index + 1 + skip) bytes in
       if rest = [] \<or> \<not> list_all is_ascii_digit rest then Inl (config_error ''invalid decimal exponent'')
       else bind_result (exponent_magnitude rest 0) (\<lambda>magnitude.
            ok_or (i64_checked (exponent_sign * magnitude)) (config_error ''decimal exponent is too large'')))"

fun absorb_zeros :: "nat list \<Rightarrow> int \<Rightarrow> ConfigError + (nat list \<times> int)" where
  "absorb_zeros ds scl =
     (if ds \<noteq> [] \<and> last ds = 0
      then bind_result (ok_or (i64_checked (scl + 1)) (config_error ''decimal scale is too large''))
             (\<lambda>scl'. absorb_zeros (butlast ds) scl')
      else Inr (ds, scl))"

declare absorb_zeros.simps [simp del]

definition normalize_parts :: "int \<Rightarrow> nat list \<Rightarrow> int \<Rightarrow> nat \<Rightarrow> ConfigError + DecimalParts" where
  "normalize_parts sg all_digits exponent fractional_digits =
     (if list_all (\<lambda>d. d = 0) all_digits then Inr \<lparr>sign = 0, digits = [0], scale = 0\<rparr>
      else bind_result (ok_or (i64_checked (exponent - int fractional_digits)) (config_error ''decimal scale is too large''))
             (\<lambda>scl. bind_result (absorb_zeros (dropWhile (\<lambda>d. d = 0) all_digits) scl)
             (\<lambda>(ds, scl). Inr \<lparr>sign = sg, digits = ds, scale = scl\<rparr>)))"

definition decimal_parse :: "string \<Rightarrow> ConfigError + DecimalParts" where
  "decimal_parse bytes =
     (if bytes = [] \<or> list_ex is_whitespace bytes
      then Inl (config_error ''decimal literal must be nonempty and contain no whitespace'')
      else let (mantissa_start, sg) = leading_sign bytes in
        if mantissa_start = length bytes then Inl (config_error ''decimal literal has no digits'')
        else bind_result (scan_mantissa (drop mantissa_start bytes) mantissa_start None) (\<lambda>(decimal_index, exponent_index).
          let mantissa_end = (case exponent_index of None \<Rightarrow> length bytes | Some index \<Rightarrow> index);
              mantissa = filter is_ascii_digit (drop mantissa_start (take mantissa_end bytes)) in
          if length mantissa = 0 then Inl (config_error ''decimal literal has no mantissa digits'')
          else bind_result (decimal_exponent bytes exponent_index) (\<lambda>exponent.
            normalize_parts sg (map char_digit mantissa) exponent
              (case decimal_index of None \<Rightarrow> 0 | Some index \<Rightarrow> mantissa_end - (index + 1)))))"

subsection \<open>Comparison\<close>

definition digit_at :: "nat list \<Rightarrow> nat \<Rightarrow> nat" where
  "digit_at ds index = (if index < length ds then ds ! index else 0)"

fun cmp_digits :: "nat list \<Rightarrow> nat list \<Rightarrow> nat list \<Rightarrow> Ordering" where
  "cmp_digits left right [] = Equal"
| "cmp_digits left right (index # rest) =
     (case cmp (digit_at left index) (digit_at right index) of
        Equal \<Rightarrow> cmp_digits left right rest
      | order \<Rightarrow> order)"

definition cmp_magnitude :: "DecimalParts \<Rightarrow> DecimalParts \<Rightarrow> Ordering" where
  "cmp_magnitude a b =
     (case cmp (int (length (digits a)) + scale a) (int (length (digits b)) + scale b) of
        Equal \<Rightarrow> cmp_digits (digits a) (digits b) [0..<max (length (digits a)) (length (digits b))]
      | order \<Rightarrow> order)"

definition parts_cmp_numeric :: "DecimalParts \<Rightarrow> DecimalParts \<Rightarrow> Ordering" where
  "parts_cmp_numeric a b = (case cmp (sign a) (sign b) of
     Equal \<Rightarrow> if sign a = 0 then Equal else if 0 < sign a then cmp_magnitude a b else reverse_order (cmp_magnitude a b)
   | order \<Rightarrow> order)"

datatype DecimalLiteral = DecimalLiteral (as_str: string)

definition literal_new :: "string \<Rightarrow> ConfigError + DecimalLiteral" where
  "literal_new value = bind_result (decimal_parse value) (\<lambda>_. Inr (DecimalLiteral value))"

definition validate_str :: "string \<Rightarrow> ConfigError + unit" where
  "validate_str value = map_ok (\<lambda>_. ()) (decimal_parse value)"

definition literal_validate :: "DecimalLiteral \<Rightarrow> ConfigError + unit" where
  "literal_validate l = map_ok (\<lambda>_. ()) (decimal_parse (as_str l))"

definition canonical :: "DecimalLiteral \<Rightarrow> ConfigError + DecimalLiteral" where
  "canonical l = bind_result (decimal_parse (as_str l)) (\<lambda>parts.
     if sign parts = 0 then Inr (DecimalLiteral ''0'')
     else Inr (DecimalLiteral ((if sign parts < 0 then ''-'' else []) @ map digit_char (digits parts) @
       (if scale parts \<noteq> 0 then ''e'' @ show_int (scale parts) else []))))"

definition literal_cmp_numeric :: "DecimalLiteral \<Rightarrow> DecimalLiteral \<Rightarrow> ConfigError + Ordering" where
  "literal_cmp_numeric a b =
     bind_result (decimal_parse (as_str a)) (\<lambda>left.
     bind_result (decimal_parse (as_str b)) (\<lambda>right. Inr (parts_cmp_numeric left right)))"

subsection \<open>Comparison with a sum\<close>

type_synonym digit_map = "(int \<times> nat) list"

fun entry_add :: "int \<Rightarrow> nat \<Rightarrow> digit_map \<Rightarrow> digit_map" where
  "entry_add place value [] = [(place, value)]"
| "entry_add place value ((q, w) # rest) =
     (if place < q then (place, value) # (q, w) # rest
      else if place = q then (q, w + value) # rest
      else (q, w) # entry_add place value rest)"

definition add_digits :: "int \<Rightarrow> nat list \<Rightarrow> digit_map \<Rightarrow> digit_map" where
  "add_digits scl ds m =
     fold (\<lambda>(offset, digit) m. if digit \<noteq> 0 then entry_add (scl + int offset) digit m else m)
       (zip [0..<length ds] (rev ds)) m"

definition accumulate :: "DecimalLiteral \<times> int \<Rightarrow> digit_map \<times> digit_map \<Rightarrow> ConfigError + digit_map \<times> digit_map" where
  "accumulate signed_literal maps = (case (signed_literal, maps) of ((literal, multiplier), (positive, negative)) \<Rightarrow>
     bind_result (decimal_parse (as_str literal)) (\<lambda>part.
       let sg = sign part * multiplier in
       if sg = 0 then Inr (positive, negative)
       else if 0 < sg then Inr (add_digits (scale part) (digits part) positive, negative)
       else Inr (positive, add_digits (scale part) (digits part) negative)))"

definition map_weight :: "digit_map \<Rightarrow> nat" where
  "map_weight m = sum_list (map snd m) + length m"

lemma map_weight_entry_add: "map_weight (entry_add p v m) \<le> map_weight m + v + 1"
  by (induction p v m rule: entry_add.induct) (auto simp: map_weight_def)

function carry_loop :: "digit_map \<Rightarrow> (int \<times> nat) list \<Rightarrow> (int \<times> nat) list" where
  "carry_loop [] result = result"
| "carry_loop ((place, value) # rest) result =
     carry_loop (if 10 \<le> value then entry_add (place + 1) (value div 10) rest else rest)
       (if value mod 10 \<noteq> 0 then result @ [(place, value mod 10)] else result)"
  by pat_completeness auto
termination
proof (relation "measure (\<lambda>(m, acc). map_weight m)")
  fix place :: int and v :: nat and rest acc :: "(int \<times> nat) list"
  have "v div 10 < v" if "10 \<le> v" using that by simp
  then show "((if 10 \<le> v then entry_add (place + 1) (v div 10) rest else rest,
      if v mod 10 \<noteq> 0 then acc @ [(place, v mod 10)] else acc), (place, v) # rest, acc)
    \<in> measure (\<lambda>(m, acc). map_weight m)"
    using map_weight_entry_add[of "place + 1" "v div 10" rest] by (auto simp: map_weight_def)
qed simp

definition carry :: "digit_map \<Rightarrow> (int \<times> nat) list" where
  "carry m = rev (carry_loop m [])"

fun cmp_expansion :: "(int \<times> nat) list \<Rightarrow> (int \<times> nat) list \<Rightarrow> Ordering" where
  "cmp_expansion [] [] = Equal"
| "cmp_expansion [] (y # ys) = Less"
| "cmp_expansion (x # xs) [] = Greater"
| "cmp_expansion (x # xs) (y # ys) =
     (case cmp (fst x) (fst y) of
        Equal \<Rightarrow> (case cmp (snd x) (snd y) of Equal \<Rightarrow> cmp_expansion xs ys | order \<Rightarrow> order)
      | order \<Rightarrow> order)"

definition cmp_sum_many :: "DecimalLiteral \<Rightarrow> DecimalLiteral list \<Rightarrow> ConfigError + Ordering" where
  "cmp_sum_many l terms =
     bind_result (fold_result accumulate ((l, 1) # map (\<lambda>t. (t, -1)) terms) ([], []))
       (\<lambda>(positive, negative). Inr (cmp_expansion (carry positive) (carry negative)))"

definition cmp_sum :: "DecimalLiteral \<Rightarrow> DecimalLiteral \<Rightarrow> DecimalLiteral \<Rightarrow> ConfigError + Ordering" where
  "cmp_sum l left right = cmp_sum_many l [left, right]"

subsection \<open>Targets\<close>

datatype EigenTarget =
    AlgebraicSmallest
  | AlgebraicLargest
  | SmallestMagnitude
  | ClosestTo DecimalLiteral
  | IndexRange nat nat
  | TargetInterval DecimalLiteral DecimalLiteral

fun target_validate :: "EigenTarget \<Rightarrow> ConfigError + unit" where
  "target_validate (ClosestTo shift) = literal_validate shift"
| "target_validate (IndexRange first final) =
     (if final < first then Inl (config_error ''eigenvalue index range must satisfy first <= last'') else Inr ())"
| "target_validate (TargetInterval lower upper) =
     bind_result (literal_validate lower) (\<lambda>_.
     bind_result (literal_validate upper) (\<lambda>_.
     bind_result (literal_cmp_numeric lower upper) (\<lambda>order.
     if order \<noteq> Less then Inl (config_error ''eigenvalue interval must have lower < upper'') else Inr ())))"
| "target_validate _ = Inr ()"

section \<open>The number a literal denotes\<close>

definition digits_nat :: "nat list \<Rightarrow> nat" where
  "digits_nat ds = foldl (\<lambda>acc d. 10 * acc + d) 0 ds"

definition decimal_value :: "DecimalParts \<Rightarrow> rat" where
  "decimal_value p = of_int (sign p) * of_nat (digits_nat (digits p)) * 10 powi scale p"

text \<open>The invariant of parsed literals: zero has one form, every other number has its first and last digit nonzero.\<close>

definition wf_parts :: "DecimalParts \<Rightarrow> bool" where
  "wf_parts p \<longleftrightarrow> (p = \<lparr>sign = 0, digits = [0], scale = 0\<rparr> \<or>
     (sign p = 1 \<or> sign p = -1) \<and> digits p \<noteq> [] \<and> list_all (\<lambda>d. d < 10) (digits p) \<and>
     hd (digits p) \<noteq> 0 \<and> last (digits p) \<noteq> 0 \<and> - i64_max - 1 \<le> scale p \<and> scale p \<le> i64_max)"

lemma digits_nat_snoc [simp]: "digits_nat (ds @ [d]) = 10 * digits_nat ds + d"
  by (simp add: digits_nat_def)

lemma digits_nat_Nil [simp]: "digits_nat [] = 0"
  by (simp add: digits_nat_def)

lemma digits_nat_append: "digits_nat (xs @ ys) = digits_nat xs * 10 ^ length ys + digits_nat ys"
proof (induction ys rule: rev_induct)
  case (snoc y ys)
  have "digits_nat ((xs @ ys) @ [y]) = 10 * digits_nat (xs @ ys) + y" by (rule digits_nat_snoc)
  then show ?case using snoc by (simp add: algebra_simps)
qed simp

lemma digits_nat_Cons: "digits_nat (x # xs) = x * 10 ^ length xs + digits_nat xs"
  using digits_nat_append[of "[x]" xs] by (simp add: digits_nat_def)

lemma digits_nat_less: "list_all (\<lambda>d. d < 10) ds \<Longrightarrow> digits_nat ds < 10 ^ length ds"
proof (induction ds rule: rev_induct)
  case (snoc d ds)
  then show ?case by simp
qed simp

lemma digits_nat_lower:
  assumes "ds \<noteq> []" "hd ds \<noteq> 0"
  shows "10 ^ (length ds - 1) \<le> digits_nat ds"
proof (cases ds)
  case (Cons d es)
  then have "1 * 10 ^ length es \<le> d * 10 ^ length es" using assms by (intro mult_right_mono) auto
  then have "10 ^ length es \<le> d * 10 ^ length es + digits_nat es" by linarith
  then show ?thesis unfolding Cons digits_nat_Cons by simp
qed (use assms in simp)

lemma digits_nat_zeros: "list_all (\<lambda>d. d = 0) ds \<Longrightarrow> digits_nat ds = 0"
  by (induction ds) (auto simp: digits_nat_Cons)

lemma digits_nat_dropWhile: "digits_nat (dropWhile (\<lambda>d. d = 0) ds) = digits_nat ds"
  by (induction ds) (auto simp: digits_nat_Cons)

lemma digits_value_digits_nat: "digits_value s = digits_nat (map char_digit s)"
  by (simp add: digits_value_def digits_nat_def foldl_map)

lemma char_digit_less: "is_ascii_digit c \<Longrightarrow> char_digit c < 10"
  by (auto simp: is_ascii_digit_def char_digit_def)

section \<open>Normalisation\<close>

lemma i64_checked_Some [simp]: "i64_checked x = Some y \<longleftrightarrow> y = x \<and> - i64_max - 1 \<le> x \<and> x \<le> i64_max"
  by (auto simp: i64_checked_def)

lemma ok_or_Inr [result_simps]: "ok_or r e = Inr y \<longleftrightarrow> r = Some y"
  by (cases r) auto

lemma absorb_zeros_Inr:
  "absorb_zeros ds s = Inr (es, s') \<Longrightarrow> ds \<noteq> [] \<Longrightarrow> hd ds \<noteq> 0 \<Longrightarrow> list_all (\<lambda>d. d < 10) ds \<Longrightarrow>
   - i64_max - 1 \<le> s \<Longrightarrow> s \<le> i64_max \<Longrightarrow>
     es \<noteq> [] \<and> hd es \<noteq> 0 \<and> last es \<noteq> 0 \<and> list_all (\<lambda>d. d < 10) es \<and> - i64_max - 1 \<le> s' \<and> s' \<le> i64_max \<and>
     (of_nat (digits_nat ds) * 10 powi s :: rat) = of_nat (digits_nat es) * 10 powi s'"
proof (induction ds s rule: absorb_zeros.induct)
  case (1 ds s)
  show ?case
  proof (cases "last ds = 0")
    case False
    then show ?thesis using 1 by (simp add: absorb_zeros.simps)
  next
    case True
    then have s1: "absorb_zeros (butlast ds) (s + 1) = Inr (es, s')" "s + 1 \<le> i64_max"
      using 1(2,3) by (auto simp: absorb_zeros.simps[of ds] result_simps)
    have ds: "ds = butlast ds @ [0]" using True 1(3) by (metis append_butlast_last_id)
    have ne: "butlast ds \<noteq> []" using True 1(3,4) ds by (metis append_Nil list.sel(1))
    have "hd (butlast ds) \<noteq> 0" using ne ds 1(4) by (metis hd_append2)
    moreover have "list_all (\<lambda>d. d < 10) (butlast ds)" using 1(5) by (metis ds list_all_append)
    ultimately have IH: "es \<noteq> [] \<and> hd es \<noteq> 0 \<and> last es \<noteq> 0 \<and> list_all (\<lambda>d. d < 10) es \<and> - i64_max - 1 \<le> s' \<and> s' \<le> i64_max \<and>
        (of_nat (digits_nat (butlast ds)) * 10 powi (s + 1) :: rat) = of_nat (digits_nat es) * 10 powi s'"
      using 1(1)[of "s + 1"] s1 ne True 1(3,6) by simp
    have "digits_nat ds = 10 * digits_nat (butlast ds)" by (subst ds) simp
    then have "(of_nat (digits_nat ds) * 10 powi s :: rat) = of_nat (digits_nat (butlast ds)) * 10 powi (s + 1)"
      by (simp add: power_int_add algebra_simps)
    then show ?thesis using IH by simp
  qed
qed

lemma absorb_zeros_ok:
  "- i64_max - 1 \<le> s \<Longrightarrow> s + int (length ds) \<le> i64_max \<Longrightarrow> \<exists>es s'. absorb_zeros ds s = Inr (es, s')"
proof (induction ds s rule: absorb_zeros.induct)
  case (1 ds s)
  show ?case
  proof (cases "ds \<noteq> [] \<and> last ds = 0")
    case True
    then have "s + 1 \<le> i64_max" "0 < length ds" using 1(3) by (cases ds; simp)+
    then have "\<exists>es s'. absorb_zeros (butlast ds) (s + 1) = Inr (es, s')"
      using 1(2,3) True \<open>0 < length ds\<close> by (intro 1(1)) (auto simp: of_nat_diff Suc_le_eq)
    then show ?thesis using True 1(2) \<open>s + 1 \<le> i64_max\<close>
      by (subst absorb_zeros.simps) (simp add: i64_checked_def)
  next
    case False
    then show ?thesis by (subst absorb_zeros.simps) auto
  qed
qed

lemma dropWhile_zeros:
  assumes "\<not> list_all (\<lambda>d. d = 0) ds" "list_all (\<lambda>d. d < (10::nat)) ds"
  shows "dropWhile (\<lambda>d. d = 0) ds \<noteq> []" "hd (dropWhile (\<lambda>d. d = 0) ds) \<noteq> 0"
    "list_all (\<lambda>d. d < 10) (dropWhile (\<lambda>d. d = 0) ds)"
proof -
  show ne: "dropWhile (\<lambda>d. d = 0) ds \<noteq> []" using assms(1) by (auto simp: list_all_iff)
  show "hd (dropWhile (\<lambda>d. d = 0) ds) \<noteq> 0" using hd_dropWhile[OF ne] .
  show "list_all (\<lambda>d. d < 10) (dropWhile (\<lambda>d. d = 0) ds)"
    using assms(2) set_dropWhileD by (force simp: list_all_iff)
qed

lemma normalize_parts_Inr:
  assumes "normalize_parts sg ds e f = Inr p" "list_all (\<lambda>d. d < 10) ds" "sg = 1 \<or> sg = -1"
  shows "wf_parts p \<and> decimal_value p = of_int sg * of_nat (digits_nat ds) * 10 powi (e - int f)"
proof (cases "list_all (\<lambda>d. d = 0) ds")
  case True
  then show ?thesis using assms(1) by (auto simp: normalize_parts_def wf_parts_def decimal_value_def digits_nat_zeros)
next
  case False
  then obtain es s where run: "absorb_zeros (dropWhile (\<lambda>d. d = 0) ds) (e - int f) = Inr (es, s)"
    "p = \<lparr>sign = sg, digits = es, scale = s\<rparr>" "- i64_max - 1 \<le> e - int f" "e - int f \<le> i64_max"
    using assms(1) by (auto simp: normalize_parts_def result_simps)
  note res = absorb_zeros_Inr[OF run(1) dropWhile_zeros[OF False assms(2)] run(3,4)]
  then show ?thesis using assms(3) run(2)
    by (simp add: wf_parts_def decimal_value_def digits_nat_dropWhile mult.assoc)
qed

lemma normalize_parts_ok:
  assumes "- i64_max - 1 \<le> e - int f" "e - int f + int (length ds) \<le> i64_max"
  shows "is_ok (normalize_parts sg ds e f)"
proof -
  have "length (dropWhile (\<lambda>d. d = 0) ds) \<le> length ds" by (rule length_dropWhile_le)
  then have "\<exists>es s'. absorb_zeros (dropWhile (\<lambda>d. d = 0) ds) (e - int f) = Inr (es, s')"
    using assms by (intro absorb_zeros_ok) auto
  then show ?thesis using assms by (auto simp: normalize_parts_def i64_checked_def is_ok_iff)
qed

section \<open>Spellings\<close>

text \<open>\<open>decimal_spelling text sg ip fp e\<close>: the text is an optional sign, the digits \<open>ip\<close>, optionally a point and the digits
  \<open>fp\<close>, and optionally an exponent \<open>e\<close>.\<close>

definition spelled_sign :: "string \<Rightarrow> int \<Rightarrow> bool" where
  "spelled_sign text sg \<longleftrightarrow> text = [] \<and> sg = 1 \<or> text = ''+'' \<and> sg = 1 \<or> text = ''-'' \<and> sg = -1"

definition all_digits :: "string \<Rightarrow> bool" where
  "all_digits s \<longleftrightarrow> list_all is_ascii_digit s"

definition spelled_fraction :: "string \<Rightarrow> string \<Rightarrow> bool" where
  "spelled_fraction text fp \<longleftrightarrow> text = [] \<and> fp = [] \<or> text = CHR ''.'' # fp"

definition spelled_exponent :: "string \<Rightarrow> int \<Rightarrow> bool" where
  "spelled_exponent text e \<longleftrightarrow> text = [] \<and> e = 0 \<or>
     (\<exists>c st sg ds. text = c # st @ ds \<and> (c = CHR ''e'' \<or> c = CHR ''E'') \<and> spelled_sign st sg \<and> ds \<noteq> [] \<and> all_digits ds \<and>
        e = sg * int (digits_value ds))"

definition decimal_spelling :: "string \<Rightarrow> int \<Rightarrow> string \<Rightarrow> string \<Rightarrow> int \<Rightarrow> bool" where
  "decimal_spelling text sg ip fp e \<longleftrightarrow> (\<exists>st pt ex. text = st @ ip @ pt @ ex \<and> spelled_sign st sg \<and> all_digits ip \<and> all_digits fp \<and>
     spelled_fraction pt fp \<and> spelled_exponent ex e \<and> ip @ fp \<noteq> [])"

lemma digit_not_special:
  "is_ascii_digit c \<Longrightarrow> c \<noteq> CHR ''.'' \<and> c \<noteq> CHR ''e'' \<and> c \<noteq> CHR ''E'' \<and> c \<noteq> CHR ''+'' \<and> c \<noteq> CHR ''-'' \<and> \<not> is_whitespace c"
  by (auto simp: is_ascii_digit_def is_whitespace_def)

lemma special_not_digit [simp]:
  "\<not> is_ascii_digit CHR ''.''" "\<not> is_ascii_digit CHR ''e''" "\<not> is_ascii_digit CHR ''E''" "\<not> is_ascii_digit CHR ''+''"
  "\<not> is_ascii_digit CHR ''-''"
  by (auto simp: is_ascii_digit_def)

lemma special_not_whitespace [simp]:
  "\<not> is_whitespace CHR ''.''" "\<not> is_whitespace CHR ''e''" "\<not> is_whitespace CHR ''E''" "\<not> is_whitespace CHR ''+''"
  "\<not> is_whitespace CHR ''-''"
  by (auto simp: is_whitespace_def)

lemma leading_sign_app:
  assumes "spelled_sign st sg" "rest = [] \<or> hd rest \<noteq> CHR ''+'' \<and> hd rest \<noteq> CHR ''-''"
  shows "leading_sign (st @ rest) = (length st, sg)"
  using assms by (cases rest) (auto simp: spelled_sign_def leading_sign_def)

lemma leading_sign_cases:
  obtains st rest sg where "bytes = st @ rest" "spelled_sign st sg" "leading_sign bytes = (length st, sg)"
proof (cases bytes)
  case Nil
  then show ?thesis using that[of "[]" "[]" 1] by (simp add: spelled_sign_def leading_sign_def)
next
  case (Cons b bs)
  consider "b = CHR ''+''" | "b = CHR ''-''" | "b \<noteq> CHR ''+''" "b \<noteq> CHR ''-''" by blast
  then show ?thesis
  proof cases
    case 1 then show ?thesis using that[of "''+''" bs 1] Cons by (simp add: spelled_sign_def leading_sign_def)
  next
    case 2 then show ?thesis using that[of "''-''" bs "-1"] Cons by (simp add: spelled_sign_def leading_sign_def)
  next
    case 3 then show ?thesis using that[of "[]" bytes 1] Cons by (simp add: spelled_sign_def leading_sign_def)
  qed
qed

lemma scan_digits: "all_digits ds \<Longrightarrow> scan_mantissa (ds @ rest) c d = scan_mantissa rest (c + length ds) d"
  by (induction ds arbitrary: c) (auto simp: all_digits_def)

text \<open>What the scan accepts: digits, at most one point, and a rest that is empty or starts with the exponent letter.\<close>

lemma scan_spelled:
  assumes "all_digits ip" "all_digits fp" "spelled_fraction pt fp" "ex = [] \<or> hd ex = CHR ''e'' \<or> hd ex = CHR ''E''"
  shows "scan_mantissa (ip @ pt @ ex) c None =
    Inr (if pt = [] then None else Some (c + length ip), if ex = [] then None else Some (c + length ip + length pt))"
proof -
  have tail: "scan_mantissa ex k d = Inr (d, if ex = [] then None else Some k)" for k d
    using assms(4) by (cases ex) auto
  show ?thesis using assms(1-3) scan_digits[of fp "[]"] by (auto simp: scan_digits spelled_fraction_def tail)
qed

lemma digit_run:
  obtains ds rest where "bytes = ds @ rest" "all_digits ds" "rest = [] \<or> \<not> is_ascii_digit (hd rest)"
proof
  show "bytes = takeWhile is_ascii_digit bytes @ dropWhile is_ascii_digit bytes" by simp
  show "all_digits (takeWhile is_ascii_digit bytes)" using set_takeWhileD by (fastforce simp: all_digits_def list_all_iff)
  show "dropWhile is_ascii_digit bytes = [] \<or> \<not> is_ascii_digit (hd (dropWhile is_ascii_digit bytes))"
    using hd_dropWhile[of is_ascii_digit bytes] by blast
qed

lemma scan_Inr_cases:
  assumes "scan_mantissa bytes c None = Inr r"
  obtains ip pt fp ex where "bytes = ip @ pt @ ex" "all_digits ip" "all_digits fp" "spelled_fraction pt fp"
    "ex = [] \<or> hd ex = CHR ''e'' \<or> hd ex = CHR ''E''"
proof -
  obtain ip rest where ip: "bytes = ip @ rest" "all_digits ip" "rest = [] \<or> \<not> is_ascii_digit (hd rest)" by (rule digit_run)
  show ?thesis
  proof (cases "rest \<noteq> [] \<and> hd rest = CHR ''.''")
    case False
    then have "rest = [] \<or> hd rest = CHR ''e'' \<or> hd rest = CHR ''E''"
      using assms ip by (cases rest) (auto simp: scan_digits split: if_splits)
    then show ?thesis using that[of ip "[]" rest "[]"] ip by (simp add: spelled_fraction_def all_digits_def)
  next
    case True
    then obtain tl where tl: "rest = CHR ''.'' # tl" by (cases rest) auto
    obtain fp ex where fp: "tl = fp @ ex" "all_digits fp" "ex = [] \<or> \<not> is_ascii_digit (hd ex)" by (rule digit_run)
    then have "ex = [] \<or> hd ex = CHR ''e'' \<or> hd ex = CHR ''E''"
      using assms ip tl by (cases ex) (auto simp: scan_digits split: if_splits)
    then show ?thesis using that[of ip "CHR ''.'' # fp" ex fp] ip fp tl by (simp add: spelled_fraction_def)
  qed
qed

subsection \<open>The exponent\<close>

lemma exponent_magnitude_Inr:
  "exponent_magnitude ds m = Inr k \<Longrightarrow> all_digits ds \<Longrightarrow> k = m * 10 ^ length ds + int (digits_value ds)"
proof (induction ds m rule: exponent_magnitude.induct)
  case (2 b bytes m)
  have "digits_value (b # bytes) = char_digit b * 10 ^ length bytes + digits_value bytes"
    by (simp add: digits_value_digits_nat digits_nat_Cons)
  moreover have "k = (m * 10 + int (char_digit b)) * 10 ^ length bytes + int (digits_value bytes)"
    using 2 by (auto simp: result_simps all_digits_def bind_eq_Some_conv)
  ultimately show ?case by (simp add: algebra_simps)
qed simp

lemma exponent_magnitude_ok:
  "0 \<le> m \<Longrightarrow> all_digits ds \<Longrightarrow> m * 10 ^ length ds + int (digits_value ds) \<le> i64_max \<Longrightarrow> is_ok (exponent_magnitude ds m)"
proof (induction ds m rule: exponent_magnitude.induct)
  case (2 b bytes m)
  let ?m = "m * 10 + int (char_digit b)"
  have v: "digits_value (b # bytes) = char_digit b * 10 ^ length bytes + digits_value bytes"
    by (simp add: digits_value_digits_nat digits_nat_Cons)
  then have total: "?m * 10 ^ length bytes + int (digits_value bytes) \<le> i64_max" using 2(4) by (simp add: algebra_simps)
  have "?m * 1 \<le> ?m * 10 ^ length bytes" using 2(2) by (intro mult_left_mono) auto
  also have "\<dots> \<le> i64_max" by (rule order_trans[OF _ total]) simp
  finally have m: "?m \<le> i64_max" by simp
  have "0 \<le> i64_max" by (simp add: i64_max_def)
  then have "Option.bind (i64_checked (m * 10)) (\<lambda>current. i64_checked (current + int (char_digit b))) = Some ?m"
    using m 2(2) by (auto simp: bind_eq_Some_conv)
  moreover have "is_ok (exponent_magnitude bytes ?m)"
    using 2(1)[OF _ _ total] 2(2,3) by (simp add: all_digits_def)
  ultimately show ?case by simp
qed simp

lemma decimal_exponent_Inr:
  assumes "decimal_exponent (front @ ex) (if ex = [] then None else Some (length front)) = Inr e"
    "ex = [] \<or> hd ex = CHR ''e'' \<or> hd ex = CHR ''E''"
  shows "spelled_exponent ex e"
proof (cases ex)
  case (Cons c tl)
  obtain st rest sg where st: "tl = st @ rest" "spelled_sign st sg" "leading_sign tl = (length st, sg)" by (rule leading_sign_cases)
  then have "all_digits rest" "rest \<noteq> []" "e = sg * int (digits_value rest)"
    using assms(1) Cons exponent_magnitude_Inr[of rest 0]
    by (auto simp: decimal_exponent_def result_simps all_digits_def split: if_splits)
  then show ?thesis using assms(2) st(1,2) Cons by (auto simp: spelled_exponent_def)
qed (use assms in \<open>simp add: decimal_exponent_def spelled_exponent_def\<close>)

lemma decimal_exponent_ok:
  assumes "spelled_exponent ex e" "\<bar>e\<bar> \<le> i64_max"
  shows "decimal_exponent (front @ ex) (if ex = [] then None else Some (length front)) = Inr e"
proof (cases "ex = []")
  case False
  then obtain c st sg ds where ex: "ex = c # st @ ds" "spelled_sign st sg" "ds \<noteq> []" "all_digits ds" "e = sg * int (digits_value ds)"
    using assms(1) by (auto simp: spelled_exponent_def)
  have "is_ascii_digit (hd ds)" using ex(3,4) by (cases ds) (auto simp: all_digits_def)
  then have "leading_sign (st @ ds) = (length st, sg)" using ex(2) digit_not_special by (intro leading_sign_app) auto
  moreover have "int (digits_value ds) \<le> i64_max" using assms(2) ex(2,5) by (auto simp: spelled_sign_def abs_mult)
  then obtain k where "exponent_magnitude ds 0 = Inr k" using exponent_magnitude_ok[of 0 ds] ex(4) by (auto simp: is_ok_iff)
  moreover from this have "k = int (digits_value ds)" using exponent_magnitude_Inr[of ds 0 k] ex(4) by simp
  ultimately show ?thesis using ex assms(2) by (auto simp: decimal_exponent_def all_digits_def i64_checked_def)
qed (use assms in \<open>simp add: decimal_exponent_def spelled_exponent_def\<close>)

section \<open>Parsing is exact\<close>

lemma spelled_no_space:
  assumes "decimal_spelling text sg ip fp e"
  shows "\<not> list_ex is_whitespace text" "text \<noteq> []"
proof -
  have digits: "\<not> list_ex is_whitespace ds" if "all_digits ds" for ds
    using that digit_not_special by (auto simp: all_digits_def list_ex_iff list_all_iff)
  obtain st pt ex where parts: "text = st @ ip @ pt @ ex" "spelled_sign st sg" "all_digits ip" "all_digits fp"
    "spelled_fraction pt fp" "spelled_exponent ex e" "ip @ fp \<noteq> []"
    using assms by (auto simp: decimal_spelling_def)
  have sign: "\<not> list_ex is_whitespace st'" if "spelled_sign st' s" for st' s using that by (auto simp: spelled_sign_def)
  have "\<not> list_ex is_whitespace pt" using parts(4,5) digits by (auto simp: spelled_fraction_def)
  moreover have "\<not> list_ex is_whitespace ex" using parts(6) digits sign by (fastforce simp: spelled_exponent_def)
  ultimately show "\<not> list_ex is_whitespace text" using parts(1-3) digits sign by auto
  show "text \<noteq> []" using parts by (auto simp: spelled_fraction_def)
qed

text \<open>The parser on a text already split into its parts.\<close>

lemma decimal_parse_split:
  assumes whole: "text = st @ ip @ pt @ ex" and st: "spelled_sign st sg" and ds: "all_digits ip" "all_digits fp"
    and pt: "spelled_fraction pt fp" and ex: "ex = [] \<or> hd ex = CHR ''e'' \<or> hd ex = CHR ''E''"
    and ne: "ip @ fp \<noteq> []" and sp: "\<not> list_ex is_whitespace text"
  shows "decimal_parse text =
    bind_result (decimal_exponent text (if ex = [] then None else Some (length (st @ ip @ pt)))) (\<lambda>exponent.
      normalize_parts sg (map char_digit (ip @ fp)) exponent (length fp))"
proof -
  have nosign: "ip @ pt @ ex \<noteq> [] \<and> hd (ip @ pt @ ex) \<noteq> CHR ''+'' \<and> hd (ip @ pt @ ex) \<noteq> CHR ''-''"
  proof (cases ip)
    case Nil
    then show ?thesis using pt ne by (auto simp: spelled_fraction_def)
  next
    case (Cons c cs)
    then show ?thesis using ds(1) digit_not_special[of c] by (auto simp: all_digits_def)
  qed
  have lead: "leading_sign text = (length st, sg)"
    unfolding whole by (rule leading_sign_app[OF st]) (use nosign in blast)
  have scan: "scan_mantissa (drop (length st) text) (length st) None =
      Inr (if pt = [] then None else Some (length st + length ip),
           if ex = [] then None else Some (length st + length ip + length pt))"
    unfolding whole using scan_spelled[OF ds pt ex] by simp
  have mant: "filter is_ascii_digit (ip @ pt) = ip @ fp"
    using ds pt by (auto simp: spelled_fraction_def all_digits_def list_all_iff)
  have "text \<noteq> []" "length st \<noteq> length text" using whole nosign by auto
  then show ?thesis
    using sp lead scan mant ne pt
    by (auto simp: decimal_parse_def whole spelled_fraction_def add.assoc intro!: bind_result_cong)
qed

lemma decimal_parse_Inr:
  assumes "decimal_parse text = Inr p"
  obtains sg ip fp e where "decimal_spelling text sg ip fp e" "wf_parts p"
    "decimal_value p = of_int sg * of_nat (digits_value (ip @ fp)) * 10 powi (e - int (length fp))"
proof -
  have sp: "\<not> list_ex is_whitespace text" using assms by (auto simp: decimal_parse_def split: if_splits)
  obtain st rest sg where st: "text = st @ rest" "spelled_sign st sg" "leading_sign text = (length st, sg)" by (rule leading_sign_cases)
  then obtain r where r: "scan_mantissa rest (length st) None = Inr r"
    using assms by (auto simp: decimal_parse_def result_simps split: if_splits)
  then obtain ip pt fp ex where parts: "rest = ip @ pt @ ex" "all_digits ip" "all_digits fp" "spelled_fraction pt fp"
    "ex = [] \<or> hd ex = CHR ''e'' \<or> hd ex = CHR ''E''" by (rule scan_Inr_cases)
  have whole: "text = st @ ip @ pt @ ex" using st(1) parts(1) by simp
  have mant: "filter is_ascii_digit (ip @ pt) = ip @ fp"
    using parts(2-4) by (auto simp: spelled_fraction_def all_digits_def list_all_iff)
  have "ip @ fp \<noteq> []"
  proof
    assume none: "ip @ fp = []"
    then have "scan_mantissa (pt @ ex) (length st) None = Inr (if pt = [] then None else Some (length st),
        if ex = [] then None else Some (length st + length pt))"
      using scan_spelled[OF parts(2-5), of "length st"] by simp
    then show False using assms sp st(3) none mant by (auto simp: decimal_parse_def whole split: if_splits)
  qed
  note run = assms[unfolded decimal_parse_split[OF whole st(2) parts(2-5) this sp]]
  then obtain e where e: "decimal_exponent text (if ex = [] then None else Some (length (st @ ip @ pt))) = Inr e"
    "normalize_parts sg (map char_digit (ip @ fp)) e (length fp) = Inr p" by (auto simp: result_simps)
  have "spelled_exponent ex e" using decimal_exponent_Inr[OF _ parts(5), of "st @ ip @ pt"] e(1) whole by simp
  then have "decimal_spelling text sg ip fp e"
    using whole st(2) parts(2-4) \<open>ip @ fp \<noteq> []\<close> by (auto simp: decimal_spelling_def)
  moreover have "list_all (\<lambda>d. d < 10) (map char_digit (ip @ fp))"
    using parts(2,3) char_digit_less by (auto simp: all_digits_def list_all_iff)
  then have "wf_parts p \<and> decimal_value p = of_int sg * of_nat (digits_value (ip @ fp)) * 10 powi (e - int (length fp))"
    using normalize_parts_Inr[OF e(2)] st(2) by (auto simp: spelled_sign_def digits_value_digits_nat)
  ultimately show ?thesis using that by blast
qed

lemma decimal_parse_ok:
  assumes spell: "decimal_spelling text sg ip fp e" and small: "int (length text) + \<bar>e\<bar> \<le> i64_max"
  shows "\<exists>p. decimal_parse text = Inr p \<and> wf_parts p \<and>
    decimal_value p = of_int sg * of_nat (digits_value (ip @ fp)) * 10 powi (e - int (length fp))"
proof -
  obtain st pt ex where parts: "text = st @ ip @ pt @ ex" "spelled_sign st sg" "all_digits ip" "all_digits fp"
    "spelled_fraction pt fp" "spelled_exponent ex e" "ip @ fp \<noteq> []"
    using spell by (auto simp: decimal_spelling_def)
  have ex: "ex = [] \<or> hd ex = CHR ''e'' \<or> hd ex = CHR ''E''" using parts(6) by (auto simp: spelled_exponent_def)
  have len: "int (length ip) + int (length fp) \<le> int (length text)" using parts(1,5) by (auto simp: spelled_fraction_def)
  have run: "decimal_parse text = normalize_parts sg (map char_digit (ip @ fp)) e (length fp)"
    using decimal_parse_split[OF parts(1-5) ex parts(7) spelled_no_space(1)[OF spell]]
      decimal_exponent_ok[OF parts(6), of "st @ ip @ pt"] small parts(1) by simp
  have "is_ok (decimal_parse text)" unfolding run using small len by (intro normalize_parts_ok) auto
  then obtain p where p: "decimal_parse text = Inr p" by (auto simp: is_ok_iff)
  have "list_all (\<lambda>d. d < 10) (map char_digit (ip @ fp))"
    using parts(3,4) char_digit_less by (auto simp: all_digits_def list_all_iff)
  then show ?thesis
    using normalize_parts_Inr[of sg "map char_digit (ip @ fp)" e "length fp" p] p run parts(2)
    by (auto simp: spelled_sign_def digits_value_digits_nat)
qed

section \<open>Comparison is exact\<close>

lemma cmp_simps [simp]:
  "cmp x y = Less \<longleftrightarrow> x < y" "cmp x y = Equal \<longleftrightarrow> x = y" "cmp x y = Greater \<longleftrightarrow> y < x"
  "Less = cmp x y \<longleftrightarrow> x < y" "Equal = cmp x y \<longleftrightarrow> x = y" "Greater = cmp x y \<longleftrightarrow> y < x"
  by (auto simp: cmp_def)

lemma cmp_cong_mono:
  fixes f :: "'a :: linorder \<Rightarrow> 'b :: linorder"
  assumes "x < y \<Longrightarrow> f x < f y" "y < x \<Longrightarrow> f y < f x"
  shows "cmp (f x) (f y) = cmp x y"
  using assms by (cases x y rule: linorder_cases) (auto simp: cmp_def)

lemma reverse_cmp: "reverse_order (cmp x y) = cmp y x"
  by (auto simp: cmp_def)

lemma cmp_eqI:
  "(o1 = Less \<Longrightarrow> x < y) \<Longrightarrow> (o1 = Equal \<Longrightarrow> x = y) \<Longrightarrow> (o1 = Greater \<Longrightarrow> y < x) \<Longrightarrow> o1 = cmp x (y :: 'a :: linorder)"
  by (cases o1) (auto simp: cmp_def)

text \<open>The digit loop compares the two digit sequences padded with zeros to a common width.\<close>

lemma map_digit_at: "length ds \<le> w \<Longrightarrow> map (digit_at ds) [0..<w] = ds @ replicate (w - length ds) 0"
  by (rule nth_equalityI) (auto simp: digit_at_def nth_append)

lemma digits_nat_pad: "digits_nat (ds @ replicate k 0) = digits_nat ds * 10 ^ k"
  by (simp add: digits_nat_append digits_nat_zeros list_all_iff)

lemma cmp_digits_value:
  assumes "list_all (\<lambda>d. d < 10) left" "list_all (\<lambda>d. d < 10) right"
  shows "cmp_digits left right is = cmp (digits_nat (map (digit_at left) is)) (digits_nat (map (digit_at right) is))"
proof (induction "is")
  case (Cons i "is")
  let ?l = "digits_nat (map (digit_at left) is)" and ?r = "digits_nat (map (digit_at right) is)" and ?P = "10 ^ length is :: nat"
  have "list_all (\<lambda>d. d < 10) (map (digit_at ds) is)" if "list_all (\<lambda>d. d < 10) ds" for ds
    using that by (auto simp: list_all_length digit_at_def)
  then have bound: "?l < ?P" "?r < ?P"
    using assms digits_nat_less[of "map (digit_at left) is"] digits_nat_less[of "map (digit_at right) is"] by auto
  have step: "a * ?P + x < b * ?P + y" if "a < b" "x < ?P" for a b x y :: nat
    using that mult_le_mono1[of "Suc a" b ?P] by simp
  show ?case using Cons bound step[of "digit_at left i" "digit_at right i" ?l ?r] step[of "digit_at right i" "digit_at left i" ?r ?l]
    by (cases "digit_at left i" "digit_at right i" rule: linorder_cases) (auto simp: cmp_def digits_nat_Cons)
qed (simp add: cmp_def)

lemma ten_powi_less: "m < n \<Longrightarrow> (10 :: rat) powi m < 10 powi n"
  by (rule power_int_strict_increasing) auto

definition magnitude_value :: "DecimalParts \<Rightarrow> rat" where
  "magnitude_value p = of_nat (digits_nat (digits p)) * 10 powi scale p"

lemma magnitude_bounds:
  assumes "wf_parts p" "sign p \<noteq> 0"
  shows "10 powi (int (length (digits p)) + scale p - 1) \<le> magnitude_value p"
    "magnitude_value p < 10 powi (int (length (digits p)) + scale p)"
proof -
  have p: "digits p \<noteq> []" "list_all (\<lambda>d. d < 10) (digits p)" "hd (digits p) \<noteq> 0" using assms by (auto simp: wf_parts_def)
  let ?n = "length (digits p)"
  have "(of_nat (10 ^ (?n - 1)) :: rat) \<le> of_nat (digits_nat (digits p))"
    using digits_nat_lower[OF p(1,3)] by (simp only: of_nat_le_iff)
  then have "10 ^ (?n - 1) * 10 powi scale p \<le> magnitude_value p"
    unfolding magnitude_value_def by (intro mult_right_mono) auto
  moreover have "(10 :: rat) ^ (?n - 1) * 10 powi scale p = 10 powi (int ?n + scale p - 1)"
    using p(1) by (cases "digits p") (simp_all add: power_int_add power_int_diff)
  ultimately show "10 powi (int ?n + scale p - 1) \<le> magnitude_value p" by simp
  have "(of_nat (digits_nat (digits p)) :: rat) < of_nat (10 ^ ?n)" using digits_nat_less[OF p(2)] by (simp only: of_nat_less_iff)
  then have "magnitude_value p < 10 ^ ?n * 10 powi scale p" unfolding magnitude_value_def by (intro mult_strict_right_mono) auto
  then show "magnitude_value p < 10 powi (int ?n + scale p)" by (simp add: power_int_add)
qed

lemma magnitude_padded:
  assumes "length (digits p) \<le> w"
  shows "magnitude_value p = of_nat (digits_nat (map (digit_at (digits p)) [0..<w])) *
    10 powi (int (length (digits p)) + scale p - int w)"
proof -
  have "(10 :: rat) ^ (w - length (digits p)) * 10 powi (int (length (digits p)) + scale p - int w) = 10 powi scale p"
    using assms by (simp add: of_nat_diff power_int_add[symmetric] flip: power_int_of_nat)
  then show ?thesis by (simp add: magnitude_value_def map_digit_at[OF assms] digits_nat_pad)
qed

lemma cmp_magnitude_correct:
  assumes a: "wf_parts a" "sign a \<noteq> 0" and b: "wf_parts b" "sign b \<noteq> 0"
  shows "cmp_magnitude a b = cmp (magnitude_value a) (magnitude_value b)"
proof -
  let ?ea = "int (length (digits a)) + scale a" and ?eb = "int (length (digits b)) + scale b"
  have far: "magnitude_value x < magnitude_value y"
    if "wf_parts x" "sign x \<noteq> 0" "wf_parts y" "sign y \<noteq> 0" "int (length (digits x)) + scale x < int (length (digits y)) + scale y" for x y
  proof -
    have "(10 :: rat) powi (int (length (digits x)) + scale x) \<le> 10 powi (int (length (digits y)) + scale y - 1)"
      using that(5) by (intro power_int_increasing) auto
    then show ?thesis using magnitude_bounds[OF that(1,2)] magnitude_bounds[OF that(3,4)] by linarith
  qed
  show ?thesis
  proof (cases ?ea ?eb rule: linorder_cases)
    case equal
    let ?w = "max (length (digits a)) (length (digits b))"
    let ?A = "digits_nat (map (digit_at (digits a)) [0..<?w])" and ?B = "digits_nat (map (digit_at (digits b)) [0..<?w])"
    have "list_all (\<lambda>d. d < 10) (digits a)" "list_all (\<lambda>d. d < 10) (digits b)" using a b by (auto simp: wf_parts_def)
    then have "cmp_magnitude a b = cmp ?A ?B" using equal by (simp add: cmp_magnitude_def cmp_digits_value cmp_def)
    moreover have "magnitude_value a = of_nat ?A * 10 powi (?ea - int ?w)" "magnitude_value b = of_nat ?B * 10 powi (?ea - int ?w)"
      using magnitude_padded[of a ?w] magnitude_padded[of b ?w] equal by simp_all
    ultimately show ?thesis by (auto simp: cmp_def)
  next
    case less
    then show ?thesis using far[OF a b] by (simp add: cmp_magnitude_def cmp_def)
  next
    case greater
    then show ?thesis using far[OF b a] by (simp add: cmp_magnitude_def cmp_def)
  qed
qed

lemma wf_parts_sign: "wf_parts p \<Longrightarrow> sign p = 0 \<or> sign p = 1 \<or> sign p = -1"
  by (auto simp: wf_parts_def)

lemma decimal_value_magnitude: "decimal_value p = of_int (sign p) * magnitude_value p"
  by (simp add: decimal_value_def magnitude_value_def mult.assoc)

lemma magnitude_pos: "wf_parts p \<Longrightarrow> sign p \<noteq> 0 \<Longrightarrow> 0 < magnitude_value p"
  using magnitude_bounds(1)[of p] zero_less_power_int[of "10 :: rat"] by (meson less_le_trans zero_less_numeral)

lemma parts_cmp_numeric_correct:
  assumes "wf_parts a" "wf_parts b"
  shows "parts_cmp_numeric a b = cmp (decimal_value a) (decimal_value b)"
  using wf_parts_sign[OF assms(1)] wf_parts_sign[OF assms(2)] magnitude_pos[OF assms(1)] magnitude_pos[OF assms(2)]
    cmp_magnitude_correct[OF assms(1) _ assms(2)]
  by (auto simp: parts_cmp_numeric_def decimal_value_magnitude reverse_cmp) (auto simp: cmp_def)

section \<open>Sparse sums\<close>

definition map_value :: "(int \<times> nat) list \<Rightarrow> rat" where
  "map_value m = sum_list (map (\<lambda>(p, v). of_nat v * 10 powi p) m)"

lemma map_value_simps [simp]:
  "map_value [] = 0" "map_value ((p, v) # m) = of_nat v * 10 powi p + map_value m" "map_value (xs @ ys) = map_value xs + map_value ys"
  by (simp_all add: map_value_def)

lemma map_value_rev [simp]: "map_value (rev m) = map_value m"
  by (simp add: map_value_def sum_list_rev flip: rev_map)

lemma entry_add_value: "map_value (entry_add p v m) = map_value m + of_nat v * 10 powi p"
  by (induction p v m rule: entry_add.induct) (auto simp: algebra_simps)

lemma entry_add_keys: "fst ` set (entry_add p v m) = insert p (fst ` set m)"
  by (induction p v m rule: entry_add.induct) auto

lemma entry_add_sorted: "sorted_wrt (<) (map fst m) \<Longrightarrow> sorted_wrt (<) (map fst (entry_add p v m))"
proof (induction p v m rule: entry_add.induct)
  case (2 p v q w rest)
  show ?case
  proof (cases "p \<le> q")
    case True
    then show ?thesis using 2(2) by auto
  next
    case False
    then have "\<forall>k \<in> fst ` set (entry_add p v rest). q < k" using 2(2) by (auto simp: entry_add_keys)
    then show ?thesis using False 2 by auto
  qed
qed simp

lemma add_digits_value:
  "map_value (add_digits s ds m) = map_value m + of_nat (digits_nat ds) * 10 powi s"
proof (induction ds arbitrary: m)
  case (Cons d ds)
  have "add_digits s (d # ds) m =
      (if d \<noteq> 0 then entry_add (s + int (length ds)) d (add_digits s ds m) else add_digits s ds m)"
    by (simp add: add_digits_def)
  then show ?case using Cons by (simp add: entry_add_value digits_nat_Cons power_int_add algebra_simps)
qed (simp add: add_digits_def)

lemma add_digits_sorted:
  assumes "sorted_wrt (<) (map fst m)"
  shows "sorted_wrt (<) (map fst (add_digits s ds m))"
proof -
  have "sorted_wrt (<) (map fst (fold (\<lambda>(offset, digit) m. if digit \<noteq> 0 then entry_add (s + int offset) digit m else m) xs m))"
    if "sorted_wrt (<) (map fst m)" for xs m
    using that by (induction xs arbitrary: m) (auto simp: entry_add_sorted)
  then show ?thesis using assms by (simp add: add_digits_def)
qed

text \<open>A decimal expansion: powers strictly decreasing, digits from 1 to 9.\<close>

definition expansion :: "(int \<times> nat) list \<Rightarrow> bool" where
  "expansion xs \<longleftrightarrow> sorted_wrt (>) (map fst xs) \<and> (\<forall>x \<in> set xs. 0 < snd x \<and> snd x < 10)"

lemma carry_loop_expansion:
  "sorted_wrt (<) (map fst m) \<Longrightarrow> expansion (rev acc) \<Longrightarrow> (\<forall>x \<in> set acc. \<forall>y \<in> set m. fst x < fst y) \<Longrightarrow>
   expansion (rev (carry_loop m acc)) \<and> map_value (carry_loop m acc) = map_value m + map_value acc"
proof (induction m acc rule: carry_loop.induct)
  case (2 p v rest acc)
  let ?m = "if 10 \<le> v then entry_add (p + 1) (v div 10) rest else rest"
  let ?a = "if v mod 10 \<noteq> 0 then acc @ [(p, v mod 10)] else acc"
  have keys: "\<forall>y \<in> set ?m. p < fst y"
  proof
    fix y assume "y \<in> set ?m"
    then have "fst y \<in> insert (p + 1) (fst ` set rest)"
      using entry_add_keys[of "p + 1" "v div 10" rest] by (auto split: if_splits)
    then show "p < fst y" using 2(2) by auto
  qed
  have "sorted_wrt (<) (map fst ?m)" using 2(2) entry_add_sorted by auto
  moreover have "expansion (rev ?a)" using 2(3,4) by (auto simp: expansion_def)
  moreover have "\<forall>x \<in> set ?a. \<forall>y \<in> set ?m. fst x < fst y"
  proof (intro ballI)
    fix x y assume "x \<in> set ?a" "y \<in> set ?m"
    then show "fst x < fst y" using keys 2(4) by (force split: if_splits)
  qed
  ultimately have IH: "expansion (rev (carry_loop ?m ?a)) \<and> map_value (carry_loop ?m ?a) = map_value ?m + map_value ?a"
    by (rule 2(1))
  have "(of_nat v :: rat) = of_nat (v div 10 * 10 + v mod 10)" by (simp only: div_mult_mod_eq)
  then have "(of_nat v :: rat) = of_nat (v div 10) * 10 + of_nat (v mod 10)" by (simp only: of_nat_add of_nat_mult of_nat_numeral)
  moreover have "v div 10 = 0" if "\<not> 10 \<le> v" using that by simp
  ultimately have "map_value ?m + map_value ?a = map_value ((p, v) # rest) + map_value acc"
    by (auto simp: entry_add_value power_int_add algebra_simps)
  then show ?case using IH by simp
qed simp

lemma carry_correct:
  assumes "sorted_wrt (<) (map fst m)"
  shows "expansion (carry m)" "map_value (carry m) = map_value m"
  using carry_loop_expansion[OF assms, of "[]"] by (auto simp: carry_def expansion_def)

lemma expansion_Cons: "expansion ((p, d) # xs) \<longleftrightarrow> 0 < d \<and> d < 10 \<and> (\<forall>x \<in> set xs. fst x < p) \<and> expansion xs"
  by (auto simp: expansion_def)

lemma map_value_nonneg: "0 \<le> map_value m"
  by (auto simp: map_value_def intro!: sum_list_nonneg)

lemma expansion_pos: "expansion ((p, d) # xs) \<Longrightarrow> 0 < map_value ((p, d) # xs)"
  using map_value_nonneg[of xs] by (simp add: expansion_Cons add_pos_nonneg)

lemma expansion_bound: "expansion xs \<Longrightarrow> \<forall>x \<in> set xs. fst x < k \<Longrightarrow> map_value xs < 10 powi k"
proof (induction xs arbitrary: k)
  case (Cons x xs)
  obtain p d where x: "x = (p, d)" by (cases x)
  have "map_value xs < 10 powi p" using Cons x by (intro Cons.IH) (auto simp: expansion_Cons)
  moreover have "(of_nat d :: rat) * 10 powi p \<le> 9 * 10 powi p"
    using Cons.prems x by (intro mult_right_mono) (auto simp: expansion_Cons)
  ultimately have "map_value (x # xs) < 10 * 10 powi p" unfolding x map_value_simps by linarith
  also have "\<dots> = 10 powi (p + 1)" by (simp add: power_int_add)
  also have "\<dots> \<le> 10 powi k" using Cons.prems x by (intro power_int_increasing) auto
  finally show ?case .
qed simp

lemma cmp_expansion_correct:
  "expansion xs \<Longrightarrow> expansion ys \<Longrightarrow> cmp_expansion xs ys = cmp (map_value xs) (map_value ys)"
proof (induction xs ys rule: cmp_expansion.induct)
  case (4 x xs y ys)
  obtain p d q e where xy: "x = (p, d)" "y = (q, e)" by (cases x, cases y)
  have less: "map_value ((p, d) # xs) < map_value ((q, e) # ys)"
    if "expansion ((p, d) # xs)" "expansion ((q, e) # ys)" "p < q \<or> p = q \<and> d < e" for p d xs q e ys
  proof (cases "p < q")
    case True
    have "map_value ((p, d) # xs) < 10 powi (p + 1)"
      using that(1) by (intro expansion_bound) (auto simp: expansion_Cons intro: less_trans)
    also have "\<dots> \<le> 1 * 10 powi q" using True by (simp add: power_int_increasing)
    also have "\<dots> \<le> of_nat e * 10 powi q" using that(2) by (intro mult_right_mono) (auto simp: expansion_Cons)
    also have "\<dots> \<le> map_value ((q, e) # ys)" using map_value_nonneg[of ys] by simp
    finally show ?thesis .
  next
    case False
    then have pq: "p = q" "d < e" using that(3) by auto
    have "map_value xs < 1 * 10 powi p" using that(1) expansion_bound[of xs p] by (simp add: expansion_Cons)
    then have "map_value ((p, d) # xs) < (of_nat d + 1) * 10 powi p" by (simp add: algebra_simps)
    also have "\<dots> \<le> of_nat e * 10 powi p" using pq(2) by (intro mult_right_mono) (auto simp flip: of_nat_Suc simp: of_nat_le_iff Suc_le_eq)
    also have "\<dots> \<le> map_value ((q, e) # ys)" using map_value_nonneg[of ys] pq(1) by simp
    finally show ?thesis .
  qed
  note ex = 4(2,3)[unfolded xy]
  consider "p < q \<or> p = q \<and> d < e" | "q < p \<or> q = p \<and> e < d" | "p = q" "d = e" by linarith
  then show ?case
  proof cases
    case 1
    then show ?thesis using less[OF ex] by (auto simp: xy cmp_def)
  next
    case 2
    then show ?thesis using less[OF ex(2,1)] by (auto simp: xy cmp_def)
  next
    case 3
    then show ?thesis using 4 xy by (auto simp: expansion_Cons cmp_def)
  qed
next
  case (2 y ys)
  then show ?case using expansion_pos[of "fst y" "snd y" ys] by (simp add: cmp_def)
next
  case (3 x xs)
  then show ?case using expansion_pos[of "fst x" "snd x" xs] by (auto simp: cmp_def)
qed (simp add: cmp_def)

section \<open>Properties\<close>

definition literal_value :: "DecimalLiteral \<Rightarrow> rat option" where
  "literal_value l = map_option decimal_value (ok_option (decimal_parse (as_str l)))"

lemma literal_value_Some:
  "literal_value l = Some x \<longleftrightarrow> (\<exists>p. decimal_parse (as_str l) = Inr p \<and> wf_parts p \<and> x = decimal_value p)"
  by (cases "decimal_parse (as_str l)") (auto simp: literal_value_def elim: decimal_parse_Inr)

text \<open>C30. Parsing of decimal literals is exact. Every accepted text is a decimal spelling (optional sign, digits with at most
  one point, optional exponent) and is parsed to normalised parts denoting exactly the spelled number; and every spelling whose length
  and exponent together stay within \<open>i64\<close> is accepted.\<close>

theorem decimal_parse_correct:
  "(\<forall>spelling p. decimal_parse spelling = Inr p \<longrightarrow> wf_parts p \<and> (\<exists>sg ip fp e. decimal_spelling spelling sg ip fp e \<and>
      decimal_value p = of_int sg * of_nat (digits_value (ip @ fp)) * 10 powi (e - int (length fp)))) \<and>
   (\<forall>spelling sg ip fp e. decimal_spelling spelling sg ip fp e \<and> int (length spelling) + \<bar>e\<bar> \<le> i64_max \<longrightarrow>
      (\<exists>p. decimal_parse spelling = Inr p \<and>
        decimal_value p = of_int sg * of_nat (digits_value (ip @ fp)) * 10 powi (e - int (length fp))))"
  using decimal_parse_ok by (blast elim: decimal_parse_Inr)

theorem decimal_parse_correct_witness:
  "\<exists>p. decimal_parse ''-1.5e3'' = Inr p \<and> wf_parts p \<and> decimal_value p = -1500"
proof -
  have "decimal_spelling ''-1.5e3'' (-1) ''1'' ''5'' 3"
    unfolding decimal_spelling_def
    by (rule exI[of _ "''-''"], rule exI[of _ "''.5''"], rule exI[of _ "''e3''"])
      (auto simp: spelled_sign_def spelled_fraction_def spelled_exponent_def all_digits_def is_ascii_digit_def digits_value_def char_digit_def
        intro!: exI[of _ "[]"])
  moreover have "int (length ''-1.5e3'') + \<bar>3\<bar> \<le> i64_max" by (simp add: i64_max_def)
  ultimately obtain p where p: "decimal_parse ''-1.5e3'' = Inr p"
    "decimal_value p = of_int (-1) * of_nat (digits_value (''1'' @ ''5'')) * 10 powi (3 - int (length ''5''))"
    using decimal_parse_correct[THEN conjunct2] by blast
  then have "wf_parts p" using decimal_parse_correct[THEN conjunct1] by blast
  then show ?thesis using p by (auto simp: digits_value_def char_digit_def power_int_def)
qed

text \<open>The digit maps of \<open>cmp_sum_many\<close> hold the positive and the negative part of the difference.\<close>

definition sum_state :: "digit_map \<times> digit_map \<Rightarrow> rat \<Rightarrow> bool" where
  "sum_state maps x \<longleftrightarrow> sorted_wrt (<) (map fst (fst maps)) \<and> sorted_wrt (<) (map fst (snd maps)) \<and>
     map_value (fst maps) - map_value (snd maps) = x"

lemma accumulate_step:
  assumes "literal_value l = Some v" "k = 1 \<or> k = -1" "sum_state maps x"
  shows "\<exists>maps'. accumulate (l, k) maps = Inr maps' \<and> sum_state maps' (x + of_int k * v)"
proof -
  obtain p where p: "decimal_parse (as_str l) = Inr p" "wf_parts p" "v = decimal_value p"
    using assms(1) by (auto simp: literal_value_Some)
  obtain P N where maps: "maps = (P, N)" by (cases maps)
  have added: "map_value (add_digits (scale p) (digits p) m) = map_value m + magnitude_value p" for m
    by (simp add: add_digits_value magnitude_value_def)
  show ?thesis using assms(2,3) wf_parts_sign[OF p(2)] p(1,3) maps
    by (auto simp: accumulate_def Let_def sum_state_def added add_digits_sorted decimal_value_magnitude)
qed

lemma accumulate_fold:
  "sum_state maps x \<Longrightarrow> (\<forall>(l, k) \<in> set ts. literal_value l \<noteq> None \<and> (k = 1 \<or> k = -1)) \<Longrightarrow>
   \<exists>maps'. fold_result accumulate ts maps = Inr maps' \<and> sum_state maps' (x + sum_list (map (\<lambda>(l, k). of_int k * the (literal_value l)) ts))"
proof (induction ts arbitrary: maps x)
  case (Cons t ts)
  obtain l k where t: "t = (l, k)" by (cases t)
  with Cons.prems obtain v where v: "literal_value l = Some v" "k = 1 \<or> k = -1" by auto
  obtain maps' where step: "accumulate (l, k) maps = Inr maps'" "sum_state maps' (x + of_int k * v)"
    using accumulate_step[OF v Cons.prems(1)] by blast
  then show ?case using Cons.IH[OF step(2)] Cons.prems(2) v(1) t by (auto simp: add.assoc)
qed simp

lemma cmp_difference: "a - b = x - y \<Longrightarrow> cmp a b = cmp x (y :: rat)"
  by (auto simp: cmp_def)

lemma cmp_sum_many_value:
  assumes "literal_value l = Some x" "\<forall>t \<in> set terms. literal_value t \<noteq> None"
  shows "cmp_sum_many l terms = Inr (cmp x (sum_list (map (\<lambda>t. the (literal_value t)) terms)))"
proof -
  let ?ts = "(l, 1) # map (\<lambda>t. (t, -1)) terms" and ?y = "sum_list (map (\<lambda>t. the (literal_value t)) terms)"
  have "sum_list (map ((\<lambda>(l, k). of_int k * the (literal_value l)) \<circ> (\<lambda>t. (t, - 1))) terms) = - ?y"
    by (induction terms) auto
  then obtain P N where run: "fold_result accumulate ?ts ([], []) = Inr (P, N)" "sum_state (P, N) (x - ?y)"
    using accumulate_fold[of "([], [])" 0 ?ts] assms by (auto simp: sum_state_def)
  then have "cmp (map_value P) (map_value N) = cmp x ?y" by (intro cmp_difference) (simp add: sum_state_def)
  then show ?thesis
    using run carry_correct[of P] carry_correct[of N] by (simp add: cmp_sum_many_def sum_state_def cmp_expansion_correct)
qed

lemma cmp_sum_value:
  assumes "literal_value a = Some x" "literal_value b = Some y" "literal_value c = Some z"
  shows "cmp_sum a b c = Inr (cmp x (y + z))"
  using cmp_sum_many_value[OF assms(1), of "[b, c]"] assms(2,3) by (simp add: cmp_sum_def)

lemma literal_cmp_numeric_value:
  "literal_value a = Some x \<Longrightarrow> literal_value b = Some y \<Longrightarrow> literal_cmp_numeric a b = Inr (cmp x y)"
  by (auto simp: literal_cmp_numeric_def literal_value_Some parts_cmp_numeric_correct)

lemma literal_value_None: "literal_value l = None \<longleftrightarrow> \<not> is_ok (decimal_parse (as_str l))"
  by (cases "decimal_parse (as_str l)") (auto simp: literal_value_def)

lemma literal_new_Inr [result_simps]: "literal_new s = Inr l \<longleftrightarrow> l = DecimalLiteral s \<and> (\<exists>x. literal_value l = Some x)"
  by (cases "decimal_parse s") (auto simp: literal_new_def literal_value_def)

lemma literal_validate_Inr: "literal_validate l = Inr () \<longleftrightarrow> (\<exists>x. literal_value l = Some x)"
  by (cases "decimal_parse (as_str l)") (auto simp: literal_validate_def literal_value_def)

lemma literal_cmp_numeric_Inr [result_simps]:
  "literal_cmp_numeric a b = Inr r \<longleftrightarrow> (\<exists>x y. literal_value a = Some x \<and> literal_value b = Some y \<and> r = cmp x y)"
proof (cases "literal_value a = None \<or> literal_value b = None")
  case True
  then show ?thesis
    by (cases "decimal_parse (as_str a)"; cases "decimal_parse (as_str b)") (auto simp: literal_cmp_numeric_def literal_value_def)
qed (auto simp: literal_cmp_numeric_value)

text \<open>Target validation accepts exactly the meaningful targets: a shift that is a decimal literal, an index range in order, or an
  interval of two literals with the lower number strictly below the upper one.\<close>

theorem target_validate_correct:
  "is_ok (target_validate t) \<longleftrightarrow> (case t of
     ClosestTo shift \<Rightarrow> literal_value shift \<noteq> None
   | IndexRange a b \<Rightarrow> a \<le> b
   | TargetInterval lo up \<Rightarrow> (\<exists>x y. literal_value lo = Some x \<and> literal_value up = Some y \<and> x < y)
   | _ \<Rightarrow> True)"
  by (cases t) (auto simp: is_ok_iff result_simps literal_validate_Inr split: if_splits)

text \<open>C31. Comparison of decimal literals is exact at every scale: the digit comparison of two literals orders the denoted
  rational numbers, and the sparse carry of \<open>cmp_sum_many\<close> orders a literal against the exact sum of the others. The only errors
  are texts that do not parse.\<close>

theorem decimal_comparison_exact:
  assumes "literal_value a = Some x"
  shows "(\<forall>b y. literal_value b = Some y \<longrightarrow> literal_cmp_numeric a b = Inr (cmp x y)) \<and>
    (\<forall>terms. (\<forall>t \<in> set terms. literal_value t \<noteq> None) \<longrightarrow>
       cmp_sum_many a terms = Inr (cmp x (sum_list (map (\<lambda>t. the (literal_value t)) terms)))) \<and>
    (\<forall>b c y z. literal_value b = Some y \<and> literal_value c = Some z \<longrightarrow> cmp_sum a b c = Inr (cmp x (y + z))) \<and>
    (\<forall>b. literal_value b = None \<longrightarrow> \<not> is_ok (literal_cmp_numeric a b) \<and> \<not> is_ok (literal_cmp_numeric b a))"
proof -
  have err: "\<not> is_ok (literal_cmp_numeric a b) \<and> \<not> is_ok (literal_cmp_numeric b a)" if none: "literal_value b = None" for b
  proof -
    obtain e where "decimal_parse (as_str b) = Inl e" using none by (cases "decimal_parse (as_str b)") (auto simp: literal_value_def)
    moreover obtain p where "decimal_parse (as_str a) = Inr p" using assms by (auto simp: literal_value_Some)
    ultimately show ?thesis by (simp add: literal_cmp_numeric_def)
  qed
  show ?thesis using err cmp_sum_value[OF assms] literal_cmp_numeric_value[OF assms] cmp_sum_many_value[OF assms] by blast
qed

theorem decimal_comparison_exact_witness:
  "literal_cmp_numeric (DecimalLiteral ''1.50'') (DecimalLiteral ''15e-1'') = Inr Equal \<and>
   cmp_sum (DecimalLiteral ''1.50'') (DecimalLiteral ''1'') (DecimalLiteral ''4e-1'') = Inr Greater"
proof -
  have parse: "decimal_parse ''1.50'' = Inr \<lparr>sign = 1, digits = [1, 5], scale = -1\<rparr>"
    "decimal_parse ''15e-1'' = Inr \<lparr>sign = 1, digits = [1, 5], scale = -1\<rparr>"
    "decimal_parse ''1'' = Inr \<lparr>sign = 1, digits = [1], scale = 0\<rparr>"
    "decimal_parse ''4e-1'' = Inr \<lparr>sign = 1, digits = [4], scale = -1\<rparr>"
    by code_simp+
  then have vals: "literal_value (DecimalLiteral ''1.50'') = Some (3/2)" "literal_value (DecimalLiteral ''15e-1'') = Some (3/2)"
    "literal_value (DecimalLiteral ''1'') = Some 1" "literal_value (DecimalLiteral ''4e-1'') = Some (2/5)"
    by (simp_all add: literal_value_def decimal_value_def digits_nat_def power_int_def)
  from decimal_comparison_exact[OF vals(1)] vals(2-4)
  have "literal_cmp_numeric (DecimalLiteral ''1.50'') (DecimalLiteral ''15e-1'') = Inr (cmp (3/2 :: rat) (3/2))"
    "cmp_sum (DecimalLiteral ''1.50'') (DecimalLiteral ''1'') (DecimalLiteral ''4e-1'') = Inr (cmp (3/2 :: rat) (1 + 2/5))" by blast+
  then show ?thesis by (simp add: cmp_def)
qed

subsection \<open>Canonical spelling\<close>

lemma digits_nat_inj:
  "length xs = length ys \<Longrightarrow> list_all (\<lambda>d. d < 10) xs \<Longrightarrow> list_all (\<lambda>d. d < 10) ys \<Longrightarrow> digits_nat xs = digits_nat ys \<Longrightarrow> xs = ys"
proof (induction xs arbitrary: ys rule: rev_induct)
  case (snoc x xs)
  then obtain zs y where ys: "ys = zs @ [y]" by (cases ys rule: rev_cases) auto
  have "x = y" "digits_nat xs = digits_nat zs"
    using snoc.prems ys by (auto dest: arg_cong[where f = "\<lambda>n. n mod 10"] arg_cong[where f = "\<lambda>n. n div 10"])
  then show ?case using snoc ys by auto
qed simp

lemma last_nonzero_mod: "ds \<noteq> [] \<Longrightarrow> list_all (\<lambda>d. d < 10) ds \<Longrightarrow> last ds \<noteq> 0 \<Longrightarrow> \<not> 10 dvd digits_nat ds"
  by (cases ds rule: rev_cases) (auto simp: dvd_eq_mod_eq_0 mod_mult_self4)

lemma same_magnitude_scale:
  assumes "wf_parts a" "sign a \<noteq> 0" "magnitude_value a = magnitude_value b"
  shows "scale b \<le> scale a"
proof (rule ccontr)
  assume "\<not> scale b \<le> scale a"
  then have ab: "scale a < scale b" by simp
  have d: "digits a \<noteq> []" "list_all (\<lambda>d. d < 10) (digits a)" "last (digits a) \<noteq> 0" using assms(1,2) by (auto simp: wf_parts_def)
  have "(of_nat (digits_nat (digits a)) :: rat) * 10 powi scale a = of_nat (digits_nat (digits b)) * 10 powi (scale b - scale a) * 10 powi scale a"
    using assms(3) by (simp add: magnitude_value_def power_int_diff)
  then have "(of_nat (digits_nat (digits a)) :: rat) = of_nat (digits_nat (digits b)) * 10 powi (scale b - scale a)" by simp
  also have "(10 :: rat) powi (scale b - scale a) = of_nat (10 ^ nat (scale b - scale a))" using ab by (simp add: power_int_def)
  finally have "digits_nat (digits a) = digits_nat (digits b) * 10 ^ nat (scale b - scale a)"
    by (simp only: of_nat_eq_iff flip: of_nat_mult)
  then have "10 dvd digits_nat (digits a)" using ab by (simp add: dvd_mult dvd_power)
  then show False using last_nonzero_mod[OF d] by simp
qed

lemma decimal_value_inj:
  assumes a: "wf_parts a" and b: "wf_parts b" and eq: "decimal_value a = decimal_value b"
  shows "a = b"
proof -
  have sg: "sign a = sign b"
    using wf_parts_sign[OF a] wf_parts_sign[OF b] magnitude_pos[OF a] magnitude_pos[OF b] eq
    by (auto simp: decimal_value_magnitude)
  show ?thesis
  proof (cases "sign a = 0")
    case True
    then show ?thesis using a b sg by (auto simp: wf_parts_def)
  next
    case False
    then have mag: "magnitude_value a = magnitude_value b" using eq sg by (simp add: decimal_value_magnitude)
    have "cmp_magnitude a b = Equal" using cmp_magnitude_correct[OF a False b] sg False mag by simp
    then have ext: "int (length (digits a)) + scale a = int (length (digits b)) + scale b"
      by (auto simp: cmp_magnitude_def cmp_def split: if_splits)
    have scl: "scale a = scale b"
      using same_magnitude_scale[OF a False mag] same_magnitude_scale[OF b _ mag[symmetric]] sg False by simp
    then have "digits_nat (digits a) = digits_nat (digits b)" using mag by (simp add: magnitude_value_def)
    then have "digits a = digits b" using ext scl a b False sg by (intro digits_nat_inj) (auto simp: wf_parts_def)
    then show ?thesis using sg scl by simp
  qed
qed

lemma normalize_wf:
  assumes "wf_parts p" "sign p \<noteq> 0"
  shows "normalize_parts (sign p) (digits p) (scale p) 0 = Inr p"
proof -
  have p: "digits p \<noteq> []" "hd (digits p) \<noteq> 0" "last (digits p) \<noteq> 0" "- i64_max - 1 \<le> scale p" "scale p \<le> i64_max"
    using assms by (auto simp: wf_parts_def)
  then have "\<not> list_all (\<lambda>d. d = 0) (digits p)" "dropWhile (\<lambda>d. d = 0) (digits p) = digits p" by (cases "digits p"; simp)+
  then show ?thesis using p by (simp add: normalize_parts_def i64_checked_def absorb_zeros.simps)
qed

lemma show_int_exponent: "spelled_exponent (CHR ''e'' # show_int z) z"
proof -
  have "all_digits (show_nat n)" for n using show_nat_digits[of n] by (simp add: all_digits_def list_all_iff)
  then show ?thesis unfolding spelled_exponent_def
    by (intro disjI2 exI[of _ "CHR ''e''"] exI[of _ "if z < 0 then ''-'' else []"] exI[of _ "if z < 0 then -1 else 1"]
        exI[of _ "show_nat (nat \<bar>z\<bar>)"]) (auto simp: show_int_def spelled_sign_def)
qed

lemma canonical_parse:
  assumes l: "canonical l = Inr c" "decimal_parse (as_str l) = Inr p" "wf_parts p" "scale p \<noteq> - i64_max - 1"
  shows "decimal_parse (as_str c) = Inr p"
proof (cases "sign p = 0")
  case True
  then have "as_str c = ''0''" "p = \<lparr>sign = 0, digits = [0], scale = 0\<rparr>" using l by (auto simp: canonical_def wf_parts_def)
  moreover have "decimal_parse ''0'' = Inr \<lparr>sign = 0, digits = [0], scale = 0\<rparr>" by code_simp
  ultimately show ?thesis by simp
next
  case False
  define st where "st = (if sign p < 0 then ''-'' else [])"
  define ip where "ip = map digit_char (digits p)"
  define ex where "ex = (if scale p \<noteq> 0 then CHR ''e'' # show_int (scale p) else [])"
  have p: "digits p \<noteq> []" "list_all (\<lambda>d. d < 10) (digits p)" "sign p = 1 \<or> sign p = -1" "- i64_max - 1 \<le> scale p" "scale p \<le> i64_max"
    using l(3) False by (auto simp: wf_parts_def)
  have c: "as_str c = st @ ip @ [] @ ex" using l(1,2) False by (auto simp: canonical_def st_def ip_def ex_def)
  have st: "spelled_sign st (sign p)" using p(3) by (auto simp: st_def spelled_sign_def)
  have ip: "all_digits ip" using p(2) by (auto simp: ip_def all_digits_def list_all_iff)
  have ex: "spelled_exponent ex (scale p)" using show_int_exponent by (auto simp: ex_def spelled_exponent_def)
  have spell: "decimal_spelling (as_str c) (sign p) ip [] (scale p)"
    unfolding decimal_spelling_def c using st ip ex p(1)
    by (intro exI[of _ st] exI[of _ "[]"] exI[of _ ex]) (auto simp: spelled_fraction_def all_digits_def ip_def)
  have exh: "ex = [] \<or> hd ex = CHR ''e'' \<or> hd ex = CHR ''E''" by (simp add: ex_def)
  have ab: "\<bar>scale p\<bar> \<le> i64_max" using p(4,5) l(4) by linarith
  have "map char_digit ip = digits p" using p(2) by (auto simp: ip_def list_all_iff intro!: map_idI)
  then show ?thesis
    using decimal_parse_split[OF c st ip, of "[]" ] spelled_no_space(1)[OF spell] exh p(1) normalize_wf[OF l(3) False]
      decimal_exponent_ok[OF ex ab, of "st @ ip"] c
    by (auto simp: spelled_fraction_def all_digits_def ip_def)
qed

text \<open>C32. The canonical spelling is an identity of the number. Apart from the one extreme scale \<open>i64::MIN\<close>, the
  canonical text of a literal parses back to the same parts, canonicalisation is idempotent, and two literals have the same canonical text
  exactly when they denote the same number.\<close>

theorem canonical_roundtrip:
  assumes "decimal_parse (as_str a) = Inr p" "scale p \<noteq> - i64_max - 1"
  shows "\<exists>c. canonical a = Inr c \<and> decimal_parse (as_str c) = Inr p \<and> canonical c = Inr c \<and>
    (\<forall>b q. decimal_parse (as_str b) = Inr q \<and> scale q \<noteq> - i64_max - 1 \<longrightarrow>
       (canonical b = Inr c \<longleftrightarrow> decimal_value p = decimal_value q))"
proof -
  have wf: "wf_parts q" if "decimal_parse s = Inr q" for s q using that by (auto elim: decimal_parse_Inr)
  obtain c where c: "canonical a = Inr c" using assms(1) by (cases "sign p = 0") (simp_all add: canonical_def)
  have same: "canonical b = canonical b'" if "decimal_parse (as_str b) = decimal_parse (as_str b')" for b b'
    using that by (simp add: canonical_def)
  have parse: "decimal_parse (as_str c) = Inr p" using canonical_parse[OF c assms(1) wf[OF assms(1)] assms(2)] .
  have iff: "canonical b = Inr c \<longleftrightarrow> decimal_value p = decimal_value q"
    if "decimal_parse (as_str b) = Inr q" "scale q \<noteq> - i64_max - 1" for b q
  proof
    assume "canonical b = Inr c"
    then show "decimal_value p = decimal_value q" using canonical_parse[OF _ that(1) wf[OF that(1)] that(2)] parse by simp
  next
    assume "decimal_value p = decimal_value q"
    then have "p = q" using decimal_value_inj wf assms(1) that(1) by blast
    then show "canonical b = Inr c" using c same[of b a] that(1) assms(1) by simp
  qed
  show ?thesis using c parse iff same[of c a] assms(1) by auto
qed

theorem canonical_roundtrip_witness:
  "\<exists>c. canonical (DecimalLiteral ''+0120.50'') = Inr c \<and> canonical c = Inr c \<and>
     canonical (DecimalLiteral ''1.205e2'') = Inr c"
proof -
  have parse: "decimal_parse ''+0120.50'' = Inr \<lparr>sign = 1, digits = [1, 2, 0, 5], scale = -1\<rparr>"
    "decimal_parse ''1.205e2'' = Inr \<lparr>sign = 1, digits = [1, 2, 0, 5], scale = -1\<rparr>" by code_simp+
  have "(-1 :: int) \<noteq> - i64_max - 1" by (simp add: i64_max_def)
  then obtain c where "canonical (DecimalLiteral ''+0120.50'') = Inr c" "canonical c = Inr c"
    "\<forall>b q. decimal_parse (as_str b) = Inr q \<and> scale q \<noteq> - i64_max - 1 \<longrightarrow>
       (canonical b = Inr c \<longleftrightarrow> decimal_value \<lparr>sign = 1, digits = [1, 2, 0, 5], scale = -1\<rparr> = decimal_value q)"
    using canonical_roundtrip[of "DecimalLiteral ''+0120.50''" "\<lparr>sign = 1, digits = [1, 2, 0, 5], scale = -1\<rparr>"] parse(1) by auto
  moreover from this(3)[rule_format, of "DecimalLiteral ''1.205e2''" "\<lparr>sign = 1, digits = [1, 2, 0, 5], scale = -1\<rparr>"]
  have "canonical (DecimalLiteral ''1.205e2'') = Inr c" using parse(2) \<open>(-1 :: int) \<noteq> _\<close> by simp
  ultimately show ?thesis by blast
qed

lemma digit_chars:
  "digit_char 0 = CHR ''0''" "digit_char 1 = CHR ''1''" "digit_char 2 = CHR ''2''" "digit_char 3 = CHR ''3''" "digit_char 4 = CHR ''4''"
  "digit_char 5 = CHR ''5''" "digit_char 6 = CHR ''6''" "digit_char 7 = CHR ''7''" "digit_char 8 = CHR ''8''" "digit_char 9 = CHR ''9''"
  by code_simp+

lemma exceptional_exponent:
  "decimal_exponent (front @ ''e-9223372036854775808'') (Some (length front)) = Inl (config_error ''decimal exponent is too large'')"
proof -
  have "leading_sign ''-9223372036854775808'' = (1, -1)"
    "exponent_magnitude ''9223372036854775808'' 0 = Inl (config_error ''decimal exponent is too large'')"
    "list_all is_ascii_digit ''9223372036854775808''" by code_simp+
  then show ?thesis by (simp add: decimal_exponent_def)
qed

lemma show_int_exceptional: "show_int (- i64_max - 1) = ''-9223372036854775808''"
  by (simp add: i64_max_def show_int_def show_nat.simps digit_chars)

text \<open>The exceptional scale of the canonical spelling: a literal of scale \<open>i64::MIN\<close> has a canonical form whose exponent is out of
  the parser's range, so the canonical form of a valid literal is not a valid literal; such literals exist.\<close>

theorem canonical_leaves_range:
  assumes "decimal_parse (as_str a) = Inr p" "scale p = - i64_max - 1"
  shows "\<exists>c. canonical a = Inr c \<and> literal_validate c = Inl (config_error ''decimal exponent is too large'')"
proof -
  have wf: "wf_parts p" using assms(1) by (auto elim: decimal_parse_Inr)
  have p: "sign p = 1 \<or> sign p = -1" "digits p \<noteq> []" "list_all (\<lambda>d. d < 10) (digits p)"
    using wf assms(2) by (auto simp: wf_parts_def i64_max_def)
  define st where "st = (if sign p < 0 then ''-'' else [])"
  define ip where "ip = map digit_char (digits p)"
  let ?c = "st @ ip @ [] @ ''e-9223372036854775808''"
  have nz: "scale p \<noteq> 0" "sign p \<noteq> 0" using assms(2) p(1) by (auto simp: i64_max_def)
  have c: "canonical a = Inr (DecimalLiteral ?c)"
    using assms nz by (simp add: canonical_def st_def ip_def show_int_exceptional)
  have st: "spelled_sign st (sign p)" using p(1) by (auto simp: st_def spelled_sign_def)
  have ip: "all_digits ip" "ip \<noteq> []" using p(2,3) by (auto simp: ip_def all_digits_def list_all_iff)
  have "list_all (\<lambda>c. \<not> is_whitespace c) ip" using ip(1) digit_not_special by (auto simp: all_digits_def list_all_iff)
  moreover have "\<not> list_ex is_whitespace ''e-9223372036854775808''" by code_simp
  ultimately have "\<not> list_ex is_whitespace ?c" by (auto simp: st_def list_ex_iff list_all_iff)
  then have "decimal_parse ?c = Inl (config_error ''decimal exponent is too large'')"
    using decimal_parse_split[OF refl st ip(1), of "[]" "[]" "''e-9223372036854775808''"] ip(2) exceptional_exponent[of "st @ ip"]
    by (simp add: all_digits_def spelled_fraction_def)
  then show ?thesis using c by (simp add: literal_validate_def)
qed

theorem canonical_leaves_range_witness:
  "literal_validate (DecimalLiteral ''1.5e-9223372036854775807'') = Inr () \<and>
   (\<exists>c. canonical (DecimalLiteral ''1.5e-9223372036854775807'') = Inr c \<and>
     literal_validate c = Inl (config_error ''decimal exponent is too large''))"
proof -
  have "decimal_parse ''1.5e-9223372036854775807'' = Inr \<lparr>sign = 1, digits = [1, 5], scale = -9223372036854775808\<rparr>" by code_simp
  then show ?thesis
    using canonical_leaves_range[of "DecimalLiteral ''1.5e-9223372036854775807''"] by (simp add: i64_max_def literal_validate_def)
qed

end
