(* ===== verification/Adaptive_Precision.thy ===== *)
theory Adaptive_Precision
  imports Decimal_Literal
begin

text \<open>
  Precision policies and the adaptive precision driver, \<open>crates/xc-core/src/precision.rs\<close>.

  The \<open>u32\<close> fields are naturals; products of two of them are taken in \<open>u64\<close> by the source and never overflow. The attempt
  closure of the driver may mutate its environment, so it is a function that threads a state. The retry loop is a total
  function: \<open>next_bits\<close> strictly increases and never passes \<open>maximum_bits\<close>.
\<close>

section \<open>Definitions\<close>

datatype PrecisionEscalation = Fixed | AddBits nat | Multiply nat nat

definition default_escalation :: PrecisionEscalation where
  "default_escalation = AddBits 256"

record PrecisionPolicy =
  initial_bits :: nat
  maximum_bits :: nat
  guard_bits :: nat
  escalation :: PrecisionEscalation

definition default_policy :: PrecisionPolicy where
  "default_policy = \<lparr>initial_bits = 256, maximum_bits = 8192, guard_bits = 64, escalation = AddBits 256\<rparr>"

definition policy_fixed :: "nat \<Rightarrow> PrecisionPolicy" where
  "policy_fixed bits = \<lparr>initial_bits = bits, maximum_bits = bits, guard_bits = 0, escalation = Fixed\<rparr>"

definition policy_validate :: "PrecisionPolicy \<Rightarrow> ConfigError + unit" where
  "policy_validate policy =
     (if initial_bits policy < 32 then Inl (config_error ''initial_bits must be at least 32'')
      else if maximum_bits policy < initial_bits policy
      then Inl (config_error ''maximum_bits must be greater than or equal to initial_bits'')
      else case escalation policy of
        Fixed \<Rightarrow> Inr ()
      | AddBits bits \<Rightarrow> if bits = 0 then Inl (config_error ''AddBits escalation must be positive'') else Inr ()
      | Multiply numerator denominator \<Rightarrow>
          if denominator = 0 \<or> numerator \<le> denominator
          then Inl (config_error ''Multiply escalation must have numerator > denominator > 0'') else Inr ())"

definition initial_working_bits :: "PrecisionPolicy \<Rightarrow> ConfigError + nat" where
  "initial_working_bits policy = bind_result (policy_validate policy) (\<lambda>_.
     Inr (min (saturating_add_u32 (initial_bits policy) (guard_bits policy)) (maximum_bits policy)))"

definition div_ceil :: "nat \<Rightarrow> nat \<Rightarrow> nat" where
  "div_ceil a b = a div b + (if a mod b = 0 then 0 else 1)"

definition next_bits :: "PrecisionPolicy \<Rightarrow> nat \<Rightarrow> nat option" where
  "next_bits policy current_bits =
     (if \<not> is_ok (policy_validate policy) then None
      else if current_bits = 0 \<or> maximum_bits policy \<le> current_bits then None
      else case (case escalation policy of
           Fixed \<Rightarrow> None
         | AddBits bits \<Rightarrow> Some (current_bits + bits)
         | Multiply numerator denominator \<Rightarrow> Some (div_ceil (current_bits * numerator) denominator)) of
         None \<Rightarrow> None
       | Some candidate \<Rightarrow>
           let next = min candidate (maximum_bits policy) in
           if current_bits < next then Some next else None)"

datatype AdaptivePrecisionDecision = Accepted string | Retry string | TerminalInconclusive string

record 'a AdaptivePrecisionEvaluation =
  evaluation_value :: 'a
  evaluation_decision :: AdaptivePrecisionDecision

record AdaptivePrecisionAttempt =
  attempt_index :: nat
  precision_bits :: nat
  attempt_decision :: AdaptivePrecisionDecision

datatype 'a AdaptivePrecisionOutcome =
    AcceptedOutcome 'a (outcome_attempts: "AdaptivePrecisionAttempt list")
  | InconclusiveOutcome 'a (outcome_attempts: "AdaptivePrecisionAttempt list") string

fun is_accepted :: "'a AdaptivePrecisionOutcome \<Rightarrow> bool" where
  "is_accepted (AcceptedOutcome _ _) = True"
| "is_accepted (InconclusiveOutcome _ _ _) = False"

datatype 'e AdaptivePrecisionRunError = InvalidPolicy ConfigError | Attempt 'e

fun display_run_error :: "('e \<Rightarrow> string) \<Rightarrow> 'e AdaptivePrecisionRunError \<Rightarrow> string" where
  "display_run_error display (InvalidPolicy error) = ''invalid precision policy: '' @ config_message error"
| "display_run_error display (Attempt error) = ''adaptive precision attempt failed: '' @ display error"

lemma next_bits_Some:
  "next_bits policy b = Some b' \<Longrightarrow> b < b' \<and> b' \<le> maximum_bits policy"
  by (auto simp: next_bits_def Let_def split: if_splits option.splits)

type_synonym ('s, 'e, 'a) attempt = "nat \<Rightarrow> 's \<Rightarrow> ('e + 'a AdaptivePrecisionEvaluation) \<times> 's"

function adaptive_loop ::
  "PrecisionPolicy \<Rightarrow> ('s, 'e, 'a) attempt \<Rightarrow> nat \<Rightarrow> AdaptivePrecisionAttempt list \<Rightarrow> 's \<Rightarrow>
     ('e AdaptivePrecisionRunError + 'a AdaptivePrecisionOutcome) \<times> 's" where
  "adaptive_loop policy attempt bits attempts s =
     (case attempt bits s of
        (Inl e, s') \<Rightarrow> (Inl (Attempt e), s')
      | (Inr evaluation, s') \<Rightarrow>
          let attempts' = attempts @ [\<lparr>attempt_index = length attempts + 1, precision_bits = bits,
                                       attempt_decision = evaluation_decision evaluation\<rparr>] in
          (case evaluation_decision evaluation of
             Accepted _ \<Rightarrow> (Inr (AcceptedOutcome (evaluation_value evaluation) attempts'), s')
           | TerminalInconclusive reason \<Rightarrow> (Inr (InconclusiveOutcome (evaluation_value evaluation) attempts' reason), s')
           | Retry reason \<Rightarrow>
               (case next_bits policy bits of
                  None \<Rightarrow> (Inr (InconclusiveOutcome (evaluation_value evaluation) attempts'
                      (''precision ceiling '' @ show_nat (maximum_bits policy) @ '' reached after retry request: '' @ reason)), s')
                | Some bits' \<Rightarrow> adaptive_loop policy attempt bits' attempts' s')))"
  by pat_completeness auto
termination
  by (relation "measure (\<lambda>(policy, _, bits, _). maximum_bits policy - bits)") (auto dest!: next_bits_Some)

declare adaptive_loop.simps [simp del]

definition run_adaptive_precision ::
  "PrecisionPolicy \<Rightarrow> ('s, 'e, 'a) attempt \<Rightarrow> 's \<Rightarrow> ('e AdaptivePrecisionRunError + 'a AdaptivePrecisionOutcome) \<times> 's" where
  "run_adaptive_precision policy attempt s =
     (case initial_working_bits policy of
        Inl e \<Rightarrow> (Inl (InvalidPolicy e), s)
      | Inr bits \<Rightarrow> adaptive_loop policy attempt bits [] s)"

section \<open>The precision schedule\<close>

text \<open>The schedule of a policy: the first working precision and its successors.\<close>

function schedule_from :: "PrecisionPolicy \<Rightarrow> nat \<Rightarrow> nat list" where
  "schedule_from policy bits = bits # (case next_bits policy bits of None \<Rightarrow> [] | Some bits' \<Rightarrow> schedule_from policy bits')"
  by pat_completeness auto
termination
  by (relation "measure (\<lambda>(policy, bits). maximum_bits policy - bits)") (auto dest!: next_bits_Some)

declare schedule_from.simps [simp del]

lemma div_ceil_growth:
  assumes "0 < c" "0 < d" "d < n"
  shows "c < div_ceil (c * n) d"
proof -
  have "c * (d + 1) \<le> c * n" using assms(3) by (intro mult_le_mono2) simp
  then have "c * d + 1 \<le> c * n" using assms(1) by simp
  then have "c \<le> (c * n) div d" using assms(2,3) by (simp add: less_eq_div_iff_mult_less_eq)
  moreover have "(c * n) mod d \<noteq> 0" if "(c * n) div d = c"
  proof
    assume "(c * n) mod d = 0"
    then have "c * n = c * d" using that by (metis add.right_neutral div_mult_mod_eq)
    then show False using \<open>c * d + 1 \<le> c * n\<close> by linarith
  qed
  ultimately show ?thesis by (cases "(c * n) div d = c") (auto simp: div_ceil_def)
qed

lemma next_bits_None:
  assumes "policy_validate policy = Inr ()" "0 < b"
  shows "next_bits policy b = None \<longleftrightarrow> maximum_bits policy \<le> b \<or> escalation policy = Fixed"
proof (cases "escalation policy")
  case (Multiply n d)
  then have "0 < d" "d < n" using assms(1) by (auto simp: policy_validate_def split: if_splits)
  then show ?thesis using assms Multiply div_ceil_growth[OF assms(2), of d n] by (auto simp: next_bits_def Let_def)
next
  case (AddBits k)
  then have "0 < k" using assms(1) by (auto simp: policy_validate_def split: if_splits)
  then show ?thesis using assms AddBits by (auto simp: next_bits_def Let_def)
qed (use assms in \<open>auto simp: next_bits_def\<close>)

lemma schedule_sorted: "b \<le> maximum_bits policy \<Longrightarrow>
   sorted_wrt (<) (schedule_from policy b) \<and> (\<forall>x \<in> set (schedule_from policy b). b \<le> x \<and> x \<le> maximum_bits policy)"
proof (induction policy b rule: schedule_from.induct)
  case (1 policy b)
  show ?case
  proof (cases "next_bits policy b")
    case (Some b')
    then have "b < b'" "b' \<le> maximum_bits policy" using next_bits_Some by auto
    moreover note 1(1)[OF Some \<open>b' \<le> _\<close>]
    ultimately show ?thesis using 1(2) Some by (subst (1 2) schedule_from.simps) fastforce
  qed (use 1(2) in \<open>simp add: schedule_from.simps\<close>)
qed

lemma sorted_less_bound:
  assumes "sorted_wrt (<) xs" "\<forall>x \<in> set xs. a \<le> x \<and> x \<le> (m :: nat)"
  shows "length xs \<le> m + 1 - a"
proof -
  have "distinct xs" using assms(1) by (simp add: strict_sorted_iff)
  moreover have "set xs \<subseteq> {a..m}" using assms(2) by auto
  ultimately show ?thesis using card_mono[of "{a..m}" "set xs"] by (simp add: distinct_card)
qed

lemma schedule_last:
  assumes "policy_validate policy = Inr ()" "escalation policy \<noteq> Fixed"
  shows "0 < b \<Longrightarrow> b \<le> maximum_bits policy \<Longrightarrow> last (schedule_from policy b) = maximum_bits policy"
proof (induction "maximum_bits policy - b" arbitrary: b rule: less_induct)
  case less
  show ?case
  proof (cases "next_bits policy b")
    case None
    then show ?thesis using next_bits_None[OF assms(1) less.prems(1)] assms(2) less.prems(2) by (simp add: schedule_from.simps)
  next
    case (Some b')
    then have b': "b < b'" "b' \<le> maximum_bits policy" using next_bits_Some by auto
    have "schedule_from policy b' \<noteq> []" by (subst schedule_from.simps) simp
    then show ?thesis using less.hyps[of b'] b' Some by (subst schedule_from.simps) simp
  qed
qed

lemma working_bits:
  assumes "initial_working_bits policy = Inr b"
  shows "policy_validate policy = Inr ()" "initial_bits policy \<le> u32_max \<Longrightarrow> 32 \<le> b" "b \<le> maximum_bits policy"
  using assms by (auto simp: initial_working_bits_def result_simps policy_validate_def saturating_add_u32_def split: if_splits)

section \<open>Properties\<close>

text \<open>C34. The precision schedule of every valid policy is finite and strictly increasing: it starts at the guarded initial
  precision (at least 32 bits), never exceeds \<open>maximum_bits\<close>, reaches it exactly unless escalation is fixed, and has at most
  \<open>maximum_bits - b + 1\<close> steps; with fixed escalation there is a single step.\<close>

theorem precision_schedule_bounds:
  assumes "initial_working_bits policy = Inr b" "initial_bits policy \<le> u32_max"
  shows "sorted_wrt (<) (schedule_from policy b) \<and> hd (schedule_from policy b) = b \<and>
    (\<forall>x \<in> set (schedule_from policy b). 32 \<le> x \<and> x \<le> maximum_bits policy) \<and>
    length (schedule_from policy b) \<le> maximum_bits policy + 1 - b \<and>
    (if escalation policy = Fixed then schedule_from policy b = [b] else last (schedule_from policy b) = maximum_bits policy)"
proof -
  note w = working_bits[OF assms(1)]
  have s: "sorted_wrt (<) (schedule_from policy b)" "\<forall>x \<in> set (schedule_from policy b). b \<le> x \<and> x \<le> maximum_bits policy"
    using schedule_sorted[OF w(3)] by auto
  have "schedule_from policy b = [b]" if "escalation policy = Fixed"
    using next_bits_None[OF w(1), of b] w(2) assms(2) that by (simp add: schedule_from.simps)
  moreover have "hd (schedule_from policy b) = b" by (subst schedule_from.simps) simp
  ultimately show ?thesis
    using s sorted_less_bound[OF s] w(2)[OF assms(2)] schedule_last[OF w(1), of b] w(3) by force
qed

theorem precision_schedule_bounds_witness:
  "initial_working_bits default_policy = Inr 320 \<and> last (schedule_from default_policy 320) = 8192"
proof -
  have "initial_working_bits default_policy = Inr 320"
    by (simp add: initial_working_bits_def policy_validate_def default_policy_def saturating_add_u32_def u32_max_def)
  from precision_schedule_bounds[OF this] this show ?thesis by (simp add: default_policy_def u32_max_def)
qed

text \<open>The reference behaviour of the driver: run the attempts at the given precisions one after the other.\<close>

fun replay :: "('s, 'e, 'a) attempt \<Rightarrow> nat list \<Rightarrow> 's \<Rightarrow> ('e + 'a AdaptivePrecisionEvaluation list) \<times> 's" where
  "replay attempt [] s = (Inr [], s)"
| "replay attempt (b # bs) s = (case attempt b s of
     (Inl e, s') \<Rightarrow> (Inl e, s')
   | (Inr v, s') \<Rightarrow> (case replay attempt bs s' of (Inl e, s'') \<Rightarrow> (Inl e, s'') | (Inr vs, s'') \<Rightarrow> (Inr (v # vs), s'')))"

fun is_retry :: "AdaptivePrecisionDecision \<Rightarrow> bool" where
  "is_retry (Retry _) = True"
| "is_retry _ = False"

text \<open>\<open>driver_result\<close> states what the driver returns: the evaluations \<open>vs\<close> at a prefix \<open>bs\<close> of the schedule, all but the last asking
  for a retry, and a verdict read off the last one.\<close>

definition driver_result ::
  "nat list \<Rightarrow> ('s, 'e, 'a) attempt \<Rightarrow> 's \<Rightarrow> nat list \<Rightarrow> 'a AdaptivePrecisionEvaluation list \<Rightarrow> 'a AdaptivePrecisionOutcome \<Rightarrow> 's \<Rightarrow> bool" where
  "driver_result schedule attempt s bs vs outcome s' \<longleftrightarrow> bs \<noteq> [] \<and> take (length bs) schedule = bs \<and>
     replay attempt bs s = (Inr vs, s') \<and> length vs = length bs \<and>
     (\<forall>v \<in> set (butlast vs). is_retry (evaluation_decision v)) \<and>
     (case outcome of
        AcceptedOutcome x attempts \<Rightarrow> x = evaluation_value (last vs) \<and> (\<exists>d. evaluation_decision (last vs) = Accepted d)
      | InconclusiveOutcome x attempts reason \<Rightarrow> x = evaluation_value (last vs) \<and>
          (evaluation_decision (last vs) = TerminalInconclusive reason \<or> is_retry (evaluation_decision (last vs)) \<and> bs = schedule))"

lemma replay_length: "replay attempt bs s = (Inr vs, s') \<Longrightarrow> length vs = length bs"
  by (induction attempt bs s arbitrary: vs s' rule: replay.induct) (auto split: prod.splits sum.splits)

lemma driver_result_Cons:
  assumes "attempt b s = (Inr v, s1)" "is_retry (evaluation_decision v)" "driver_result sch attempt s1 bs vs outcome s'"
  shows "driver_result (b # sch) attempt s (b # bs) (v # vs) outcome s'"
  using assms by (cases outcome) (auto simp: driver_result_def)

definition attempt_records :: "nat \<Rightarrow> nat list \<Rightarrow> 'a AdaptivePrecisionEvaluation list \<Rightarrow> AdaptivePrecisionAttempt list" where
  "attempt_records k bs vs = map (\<lambda>i. \<lparr>attempt_index = k + i + 1, precision_bits = bs ! i,
     attempt_decision = evaluation_decision (vs ! i)\<rparr>) [0..<length bs]"

lemma attempt_records_Cons:
  "attempt_records k (b # bs) (v # vs) =
     \<lparr>attempt_index = k + 1, precision_bits = b, attempt_decision = evaluation_decision v\<rparr> # attempt_records (k + 1) bs vs"
  by (simp add: attempt_records_def upt_conv_Cons map_Suc_upt[symmetric] del: upt_Suc)

lemma adaptive_loop_stop:
  assumes "attempt b s = (Inr v, s1)" "is_retry (evaluation_decision v) \<longrightarrow> next_bits policy b = None"
  shows "\<exists>outcome. adaptive_loop policy attempt b attempts s = (Inr outcome, s1) \<and>
    driver_result (schedule_from policy b) attempt s [b] [v] outcome s1 \<and>
    outcome_attempts outcome = attempts @ attempt_records (length attempts) [b] [v]"
  using assms
  by (cases "evaluation_decision v"; subst adaptive_loop.simps, subst schedule_from.simps)
    (auto simp: Let_def driver_result_def attempt_records_def)

lemma adaptive_loop_step:
  assumes "attempt b s = (Inr v, s1)" "is_retry (evaluation_decision v)" "next_bits policy b = Some b'"
  shows "adaptive_loop policy attempt b attempts s = adaptive_loop policy attempt b' (attempts @ attempt_records (length attempts) [b] [v]) s1"
  using assms by (cases "evaluation_decision v"; subst adaptive_loop.simps) (auto simp: Let_def attempt_records_def)

lemma adaptive_loop_correct:
  "case adaptive_loop policy attempt b attempts s of
     (Inl e, s') \<Rightarrow> (\<exists>bs e'. e = Attempt e' \<and> take (length bs) (schedule_from policy b) = bs \<and> replay attempt bs s = (Inl e', s'))
   | (Inr outcome, s') \<Rightarrow> (\<exists>bs vs. driver_result (schedule_from policy b) attempt s bs vs outcome s' \<and>
        outcome_attempts outcome = attempts @ attempt_records (length attempts) bs vs)"
proof (induction "maximum_bits policy - b" arbitrary: b attempts s rule: less_induct)
  case less
  consider (failed) e s1 where "attempt b s = (Inl e, s1)"
    | (stop) v s1 where "attempt b s = (Inr v, s1)" "is_retry (evaluation_decision v) \<longrightarrow> next_bits policy b = None"
    | (step) v s1 b' where "attempt b s = (Inr v, s1)" "is_retry (evaluation_decision v)" "next_bits policy b = Some b'"
    by (cases "attempt b s"; cases "fst (attempt b s)"; cases "next_bits policy b") auto
  then show ?case
  proof cases
    case failed
    then show ?thesis by (subst adaptive_loop.simps, subst schedule_from.simps) (auto intro!: exI[of _ "[b]"])
  next
    case stop
    from adaptive_loop_stop[where attempt = attempt, OF stop, of attempts]
    obtain outcome where "adaptive_loop policy attempt b attempts s = (Inr outcome, s1)"
      "driver_result (schedule_from policy b) attempt s [b] [v] outcome s1"
      "outcome_attempts outcome = attempts @ attempt_records (length attempts) [b] [v]" by blast
    then show ?thesis by auto
  next
    case step
    let ?rec = "attempt_records (length attempts) [b] [v]"
    have sch: "schedule_from policy b = b # schedule_from policy b'" using step(3) by (subst schedule_from.simps) simp
    have len: "length (attempts @ ?rec) = length attempts + 1" by (simp add: attempt_records_def)
    have "maximum_bits policy - b' < maximum_bits policy - b" using next_bits_Some[OF step(3)] by auto
    note IH = less.hyps[OF this, of s1 "attempts @ ?rec", unfolded len]
    obtain r s' where res: "adaptive_loop policy attempt b' (attempts @ ?rec) s1 = (r, s')" by fastforce
    then have run: "adaptive_loop policy attempt b attempts s = (r, s')" using adaptive_loop_step[where attempt = attempt, OF step] by simp
    show ?thesis
    proof (cases r)
      case (Inl e)
      then obtain bs e' where "e = Attempt e'" "take (length bs) (schedule_from policy b') = bs" "replay attempt bs s1 = (Inl e', s')"
        using IH res by auto
      then show ?thesis using run Inl step(1) sch by (auto intro!: exI[of _ "b # bs"])
    next
      case (Inr outcome)
      then obtain bs vs where o: "driver_result (schedule_from policy b') attempt s1 bs vs outcome s'"
        "outcome_attempts outcome = (attempts @ ?rec) @ attempt_records (length attempts + 1) bs vs"
        using IH res by auto
      have "attempt_records (length attempts) (b # bs) (v # vs) = ?rec @ attempt_records (length attempts + 1) bs vs"
        unfolding attempt_records_Cons by (simp add: attempt_records_def)
      then show ?thesis using run Inr sch o driver_result_Cons[where attempt = attempt, OF step(1,2) o(1)]
        by (auto intro!: exI[of _ "b # bs"] exI[of _ "v # vs"])
    qed
  qed
qed

text \<open>C33. The adaptive driver refines the sequential replay of its precision schedule: an invalid policy is rejected before
  any attempt runs; otherwise it runs the attempts at a nonempty prefix of the schedule, stops at the first failure or non-retry
  decision, records index, precision and decision of every attempt in order, returns the last value, and reports exhaustion only after
  the whole schedule was tried.\<close>

theorem run_adaptive_precision_refines:
  "(\<forall>e. initial_working_bits policy = Inl e \<longrightarrow> run_adaptive_precision policy attempt s = (Inl (InvalidPolicy e), s)) \<and>
   (\<forall>b. initial_working_bits policy = Inr b \<longrightarrow>
     (case run_adaptive_precision policy attempt s of
        (Inl e, s') \<Rightarrow> (\<exists>bs e'. e = Attempt e' \<and> take (length bs) (schedule_from policy b) = bs \<and> replay attempt bs s = (Inl e', s'))
      | (Inr outcome, s') \<Rightarrow> (\<exists>bs vs. driver_result (schedule_from policy b) attempt s bs vs outcome s' \<and>
           outcome_attempts outcome = attempt_records 0 bs vs)))"
  using adaptive_loop_correct[where policy = policy and attempt = attempt and s = s and attempts = "[]", unfolded append_Nil list.size(3)] by (simp add: run_adaptive_precision_def)

theorem run_adaptive_precision_refines_witness:
  "\<exists>outcome. run_adaptive_precision (policy_fixed 64) (\<lambda>b s. (Inr \<lparr>evaluation_value = b, evaluation_decision = Retry ''width''\<rparr>, s + 1))
      (0 :: nat) = (Inr outcome :: string AdaptivePrecisionRunError + _, 1) \<and> map precision_bits (outcome_attempts outcome) = [64] \<and>
      \<not> is_accepted outcome"
proof -
  let ?attempt = "\<lambda>b (s :: nat). (Inr \<lparr>evaluation_value = b, evaluation_decision = Retry ''width''\<rparr> :: string + _, s + 1)"
  have w: "initial_working_bits (policy_fixed 64) = Inr 64"
    by (simp add: initial_working_bits_def policy_validate_def policy_fixed_def saturating_add_u32_def u32_max_def)
  have sch: "schedule_from (policy_fixed 64) 64 = [64]"
    by (simp add: schedule_from.simps next_bits_def policy_fixed_def)
  have none: "next_bits (policy_fixed 64) 64 = None" by (simp add: next_bits_def policy_fixed_def)
  then obtain outcome where run: "run_adaptive_precision (policy_fixed 64) ?attempt 0 = (Inr outcome, 1)"
    by (simp add: run_adaptive_precision_def w adaptive_loop.simps Let_def)
  from run_adaptive_precision_refines[of "policy_fixed 64" ?attempt 0, THEN conjunct2, rule_format, OF w, unfolded run sch]
  obtain bs vs where d: "driver_result [64] ?attempt 0 bs vs outcome 1" "outcome_attempts outcome = attempt_records 0 bs vs" by auto
  then have "bs = [64]" by (cases bs) (auto simp: driver_result_def)
  then have "vs = [\<lparr>evaluation_value = 64, evaluation_decision = Retry ''width''\<rparr>]" using d(1) by (auto simp: driver_result_def)
  then have "\<not> is_accepted outcome" using d(1) by (cases outcome) (auto simp: driver_result_def)
  then show ?thesis using run d(2) \<open>bs = [64]\<close> by (auto simp: attempt_records_def)
qed

end
