(* ===== verification/Certificate_Records.thy ===== *)
theory Certificate_Records
  imports Decimal_Literal Interval_Inertia
begin

text \<open>
  The portable records of \<open>crates/xc-certify/src/lib.rs\<close>: decimal intervals, exact rationals, error budgets, inertia,
  enclosure and gap records with their validation, and the conversions between records and exact values. The digest syntax check is
  \<open>ContentDigest::validate\<close> of \<open>crates/xc-cache/src/lib.rs\<close>.

  \<open>rug::Rational::parse\<close> is the parameter \<open>rational_parse\<close>; the locale \<open>rational_text\<close> states its documented behaviour on a
  decimal fraction, and \<open>reference_parse\<close> is an instance.
\<close>

section \<open>Definitions\<close>

subsection \<open>Decimal intervals\<close>

record DecimalInterval =
  decimal_lower :: string
  decimal_upper :: string

definition di_endpoints :: "DecimalInterval \<Rightarrow> CertificateError + DecimalLiteral \<times> DecimalLiteral" where
  "di_endpoints I =
     bind_result (map_err (\<lambda>e. InvalidCertificate (''invalid lower decimal endpoint: '' @ config_message e)) (literal_new (decimal_lower I))) (\<lambda>lo.
     bind_result (map_err (\<lambda>e. InvalidCertificate (''invalid upper decimal endpoint: '' @ config_message e)) (literal_new (decimal_upper I))) (\<lambda>up.
     Inr (lo, up)))"

definition decimal_cmp :: "DecimalLiteral \<Rightarrow> DecimalLiteral \<Rightarrow> CertificateError + Ordering" where
  "decimal_cmp a b = map_err (\<lambda>e. InvalidCertificate (''invalid decimal interval: '' @ config_message e)) (literal_cmp_numeric a b)"

definition validate_order :: "DecimalInterval \<Rightarrow> CertificateError + unit" where
  "validate_order I =
     bind_result (di_endpoints I) (\<lambda>(lo, up).
     bind_result (decimal_cmp lo up) (\<lambda>order.
     if order = Greater then Inl (InvalidCertificate ''decimal interval must satisfy lower <= upper'') else Inr ()))"

definition is_disjoint_from :: "DecimalInterval \<Rightarrow> DecimalInterval \<Rightarrow> CertificateError + bool" where
  "is_disjoint_from I J =
     bind_result (validate_order I) (\<lambda>_.
     bind_result (validate_order J) (\<lambda>_.
     bind_result (di_endpoints I) (\<lambda>(self_lower, self_upper).
     bind_result (di_endpoints J) (\<lambda>(other_lower, other_upper).
     bind_result (decimal_cmp self_upper other_lower) (\<lambda>left.
     bind_result (decimal_cmp other_upper self_lower) (\<lambda>right.
     Inr (left = Less \<or> right = Less)))))))"

subsection \<open>Exact rationals\<close>

record ExactRationalRecord =
  numerator :: string
  denominator :: string

record ExactRationalIntervalRecord =
  record_lower :: ExactRationalRecord
  record_upper :: ExactRationalRecord

definition valid_integer :: "string \<Rightarrow> bool \<Rightarrow> bool" where
  "valid_integer bytes allow_negative =
     (if bytes = [] then False
      else let start = (if allow_negative \<and> hd bytes = CHR ''-'' then 1 else 0) in
        start < length bytes \<and> list_all is_ascii_digit (drop start bytes))"

definition validate_syntax :: "ExactRationalRecord \<Rightarrow> CertificateError + unit" where
  "validate_syntax r =
     (if \<not> valid_integer (numerator r) True then Inl (InvalidCertificate ''invalid exact rational numerator'')
      else if \<not> valid_integer (denominator r) False \<or> dropWhile (\<lambda>c. c = CHR ''0'') (denominator r) = []
      then Inl (InvalidCertificate ''exact rational denominator must be a positive integer'')
      else Inr ())"

definition interval_validate_syntax :: "ExactRationalIntervalRecord \<Rightarrow> CertificateError + unit" where
  "interval_validate_syntax r = bind_result (validate_syntax (record_lower r)) (\<lambda>_. validate_syntax (record_upper r))"

definition parse_record :: "(string \<Rightarrow> string + rat) \<Rightarrow> ExactRationalRecord \<Rightarrow> CertificateError + rat" where
  "parse_record rational_parse r =
     bind_result (validate_syntax r) (\<lambda>_.
     map_err (\<lambda>e. InvalidCertificate (''failed to parse exact rational: '' @ e))
       (rational_parse (numerator r @ ''/'' @ denominator r)))"

definition rational_record :: "rat \<Rightarrow> ExactRationalRecord" where
  "rational_record x = \<lparr>numerator = show_int (fst (quotient_of x)), denominator = show_int (snd (quotient_of x))\<rparr>"

definition interval_record :: "RationalInterval \<Rightarrow> ExactRationalIntervalRecord" where
  "interval_record I = \<lparr>record_lower = rational_record (lower I), record_upper = rational_record (upper I)\<rparr>"

definition parse_interval :: "(string \<Rightarrow> string + rat) \<Rightarrow> ExactRationalIntervalRecord \<Rightarrow> CertificateError + RationalInterval" where
  "parse_interval rational_parse r =
     bind_result (interval_validate_syntax r) (\<lambda>_.
     bind_result (parse_record rational_parse (record_lower r)) (\<lambda>lo.
     bind_result (parse_record rational_parse (record_upper r)) (\<lambda>up.
     map_err (\<lambda>e. InvalidCertificate (display_IntervalError e)) (ri_new lo up))))"

subsection \<open>Digests and error budgets\<close>

datatype ContentDigest = ContentDigest (digest_text: string)

definition digest_validate :: "ContentDigest \<Rightarrow> bool" where
  "digest_validate d \<longleftrightarrow> length (digest_text d) = 64 \<and>
     list_all (\<lambda>c. is_ascii_digit c \<or> 97 \<le> (of_char c :: nat) \<and> (of_char c :: nat) \<le> 102) (digest_text d)"

datatype CertificationErrorSource = MatrixAssembly | Quadrature | Truncation | Banding | Basis | Transformation | Rounding

definition error_sources :: "CertificationErrorSource list" where
  "error_sources = [MatrixAssembly, Quadrature, Truncation, Banding, Basis, Transformation, Rounding]"

fun debug_source :: "CertificationErrorSource \<Rightarrow> string" where
  "debug_source MatrixAssembly = ''MatrixAssembly''"
| "debug_source Quadrature = ''Quadrature''"
| "debug_source Truncation = ''Truncation''"
| "debug_source Banding = ''Banding''"
| "debug_source Basis = ''Basis''"
| "debug_source Transformation = ''Transformation''"
| "debug_source Rounding = ''Rounding''"

fun debug_list :: "string list \<Rightarrow> string" where
  "debug_list [] = []"
| "debug_list [x] = x"
| "debug_list (x # xs) = x @ '', '' @ debug_list xs"

record CertificationErrorComponent =
  component_source :: CertificationErrorSource
  absolute_bound :: ExactRationalRecord
  affects_claim :: bool
  evidence_digest :: ContentDigest
  component_method :: string

record CertificationErrorBudget =
  required_sources :: "CertificationErrorSource list"
  budget_components :: "CertificationErrorComponent list"

definition check_component ::
  "CertificationErrorSource list \<Rightarrow> CertificationErrorComponent \<Rightarrow> CertificationErrorSource list \<Rightarrow>
     CertificateError + CertificationErrorSource list" where
  "check_component required component observed =
     bind_result (validate_syntax (absolute_bound component)) (\<lambda>_.
     let text = numerator (absolute_bound component) in
     if text \<noteq> [] \<and> hd text = CHR ''-'' \<and> list_ex (\<lambda>b. b \<noteq> CHR ''0'') (tl text)
     then Inl (InvalidCertificate ''absolute error bounds must be nonnegative'')
     else if \<not> digest_validate (evidence_digest component) \<or> blank (component_method component)
     then Inl (InvalidCertificate ''certification error component lacks evidence or method'')
     else if component_source component \<in> set observed
     then Inl (InvalidCertificate ''certification error budget repeats a component source'')
     else if (component_source component \<in> set required) \<noteq> affects_claim component
     then Inl (InvalidCertificate (''error source '' @ debug_source (component_source component) @ '' has inconsistent claim-impact declaration''))
     else Inr (component_source component # observed))"

definition validate_declared_coverage :: "CertificationErrorBudget \<Rightarrow> CertificateError + unit" where
  "validate_declared_coverage budget =
     (if length (remdups (required_sources budget)) \<noteq> length (required_sources budget)
      then Inl (InvalidCertificate ''certification error budget repeats a required source'')
      else bind_result (fold_result (check_component (required_sources budget)) (budget_components budget) []) (\<lambda>observed.
        let missing = filter (\<lambda>s. s \<in> set (required_sources budget) \<and> s \<notin> set observed) error_sources in
        if missing \<noteq> []
        then Inl (VerificationFailed (''certification error budget omits required sources: ['' @ debug_list (map debug_source missing) @ '']''))
        else Inr ()))"

definition combined_certification_error_bound ::
  "(string \<Rightarrow> string + rat) \<Rightarrow> CertificationErrorBudget \<Rightarrow> CertificateError + rat" where
  "combined_certification_error_bound rational_parse budget =
     bind_result (validate_declared_coverage budget) (\<lambda>_.
     fold_result (\<lambda>component acc.
       bind_result (parse_record rational_parse (absolute_bound component)) (\<lambda>bound.
       if bound < 0
       then Inl (InvalidCertificate (''error bound for '' @ debug_source (component_source component) @ '' is negative''))
       else if affects_claim component then Inr (acc + bound) else Inr acc))
       (budget_components budget) 0)"

definition verify_rayleigh_lower_bound ::
  "(string \<Rightarrow> string + rat) \<Rightarrow> ExactRationalRecord \<Rightarrow> ExactRationalRecord \<Rightarrow> ExactRationalRecord \<Rightarrow> CertificateError + unit" where
  "verify_rayleigh_lower_bound rational_parse num den claimed_lower =
     bind_result (parse_record rational_parse num) (\<lambda>n.
     bind_result (parse_record rational_parse den) (\<lambda>d.
     bind_result (parse_record rational_parse claimed_lower) (\<lambda>claimed.
     if d \<le> 0 then Inl (InvalidCertificate ''Rayleigh denominator must be positive'')
     else if n / d < claimed
     then Inl (VerificationFailed ''exact Rayleigh quotient is below the claimed lower bound'')
     else Inr ())))"

subsection \<open>Inertia, enclosure and gap records\<close>

record InertiaCertificate =
  ic_dimension :: nat
  ic_positive :: nat
  ic_negative :: nat
  ic_zero_or_unresolved :: nat
  ic_matrix_digest :: ContentDigest
  ic_scalar_backend :: string
  ic_precision_bits :: nat
  ic_pivot_enclosures_digest :: "ContentDigest option"

definition inertia_certificate_validate :: "InertiaCertificate \<Rightarrow> CertificateError + unit" where
  "inertia_certificate_validate c =
     (if Option.bind (checked_add (ic_positive c) (ic_negative c)) (\<lambda>n. checked_add n (ic_zero_or_unresolved c)) \<noteq> Some (ic_dimension c)
      then Inl (InvalidCertificate ''inertia counts do not sum to matrix dimension'')
      else if ic_precision_bits c < 32 then Inl (InvalidCertificate ''certificate precision is implausibly small'')
      else if \<not> digest_validate (ic_matrix_digest c) \<or>
        (case ic_pivot_enclosures_digest c of None \<Rightarrow> False | Some d \<Rightarrow> \<not> digest_validate d)
      then Inl (InvalidCertificate ''matrix or pivot digest is not a valid SHA-256 digest'')
      else Inr ())"

definition certifies_positive_definite :: "InertiaCertificate \<Rightarrow> bool" where
  "certifies_positive_definite c \<longleftrightarrow> 0 < ic_dimension c \<and> ic_positive c = ic_dimension c \<and> ic_negative c = 0 \<and>
     ic_zero_or_unresolved c = 0"

record EigenvalueEnclosure =
  first_index :: nat
  last_index :: nat
  enclosure_interval :: DecimalInterval
  multiplicity_lower :: nat
  multiplicity_upper :: nat

definition enclosure_validate :: "EigenvalueEnclosure \<Rightarrow> CertificateError + unit" where
  "enclosure_validate c =
     (if last_index c < first_index c then Inl (InvalidCertificate ''eigenvalue enclosure index range is reversed'')
      else case checked_add (last_index c - first_index c) 1 of
        None \<Rightarrow> Inl (InvalidCertificate ''indexed eigenvalue count overflows usize'')
      | Some count \<Rightarrow>
          if multiplicity_lower c = 0 \<or> count < multiplicity_lower c \<or> multiplicity_upper c < count
          then Inl (InvalidCertificate ''multiplicity bounds do not contain the indexed eigenvalue count'')
          else validate_order (enclosure_interval c))"

record SpectralGapCertificate =
  gap_lower_cluster :: EigenvalueEnclosure
  gap_upper_cluster :: EigenvalueEnclosure
  gap_lower_bound :: string

definition config_invalid :: "string \<Rightarrow> ConfigError + 'a \<Rightarrow> CertificateError + 'a" where
  "config_invalid message = map_err (\<lambda>e. InvalidCertificate (message @ config_message e))"

definition gap_validate :: "SpectralGapCertificate \<Rightarrow> CertificateError + unit" where
  "gap_validate c =
     bind_result (enclosure_validate (gap_lower_cluster c)) (\<lambda>_.
     bind_result (enclosure_validate (gap_upper_cluster c)) (\<lambda>_.
     bind_result (is_disjoint_from (enclosure_interval (gap_lower_cluster c)) (enclosure_interval (gap_upper_cluster c))) (\<lambda>disjoint.
     if \<not> disjoint then Inl (VerificationFailed ''eigenvalue clusters overlap'')
     else
     bind_result (config_invalid ''invalid gap lower bound: '' (literal_new (gap_lower_bound c))) (\<lambda>bound.
     bind_result (config_invalid ''invalid gap lower bound: '' (literal_cmp_numeric bound (DecimalLiteral ''0''))) (\<lambda>order.
     if order \<noteq> Greater then Inl (VerificationFailed ''gap lower bound must be strictly positive'')
     else if checked_add (last_index (gap_lower_cluster c)) 1 \<noteq> Some (first_index (gap_upper_cluster c))
     then Inl (VerificationFailed ''gap clusters are not adjacent in the ordered spectrum'')
     else
     bind_result (config_invalid [] (literal_new (decimal_upper (enclosure_interval (gap_lower_cluster c))))) (\<lambda>lower_upper.
     bind_result (config_invalid [] (literal_new (decimal_lower (enclosure_interval (gap_upper_cluster c))))) (\<lambda>upper_lower.
     bind_result (config_invalid [] (cmp_sum upper_lower lower_upper bound)) (\<lambda>order.
     if order = Less then Inl (VerificationFailed ''claimed gap exceeds the ordered endpoint separation'')
     else Inr ()))))))))"

section \<open>Decimal intervals and gap records\<close>

definition decimal_contains :: "DecimalInterval \<Rightarrow> real \<Rightarrow> bool" where
  "decimal_contains I x \<longleftrightarrow> (\<exists>l u. literal_value (DecimalLiteral (decimal_lower I)) = Some l \<and>
     literal_value (DecimalLiteral (decimal_upper I)) = Some u \<and> real_of_rat l \<le> x \<and> x \<le> real_of_rat u)"

lemma di_endpoints_Inr [result_simps]:
  "di_endpoints I = Inr r \<longleftrightarrow> (\<exists>l u. literal_value (DecimalLiteral (decimal_lower I)) = Some l \<and>
     literal_value (DecimalLiteral (decimal_upper I)) = Some u \<and> r = (DecimalLiteral (decimal_lower I), DecimalLiteral (decimal_upper I)))"
  by (auto simp: di_endpoints_def result_simps)

lemma decimal_cmp_Inr [result_simps]:
  "decimal_cmp a b = Inr r \<longleftrightarrow> (\<exists>x y. literal_value a = Some x \<and> literal_value b = Some y \<and> r = cmp x y)"
  by (auto simp: decimal_cmp_def result_simps)

lemma validate_order_Inr [result_simps]:
  "validate_order I = Inr r \<longleftrightarrow> (\<exists>l u. literal_value (DecimalLiteral (decimal_lower I)) = Some l \<and>
     literal_value (DecimalLiteral (decimal_upper I)) = Some u \<and> l \<le> u)"
  by (auto simp: validate_order_def result_simps not_less) (metis cmp_simps(3) linorder_not_less)

lemma is_disjoint_from_Inr:
  "is_disjoint_from I J = Inr True \<longleftrightarrow> (\<exists>l u l' u'. literal_value (DecimalLiteral (decimal_lower I)) = Some l \<and>
     literal_value (DecimalLiteral (decimal_upper I)) = Some u \<and> l \<le> u \<and> literal_value (DecimalLiteral (decimal_lower J)) = Some l' \<and>
     literal_value (DecimalLiteral (decimal_upper J)) = Some u' \<and> l' \<le> u' \<and> (u < l' \<or> u' < l))"
  by (auto simp: is_disjoint_from_def result_simps)

lemma enclosure_validate_Inr [result_simps]:
  "enclosure_validate c = Inr r \<longleftrightarrow> first_index c \<le> last_index c \<and> last_index c - first_index c + 1 \<le> usize_max \<and>
     0 < multiplicity_lower c \<and> multiplicity_lower c \<le> last_index c - first_index c + 1 \<and>
     last_index c - first_index c + 1 \<le> multiplicity_upper c \<and> validate_order (enclosure_interval c) = Inr ()"
  by (auto simp: enclosure_validate_def checked_add_def)

lemma config_invalid_Inr [result_simps]: "config_invalid m r = Inr x \<longleftrightarrow> r = Inr x"
  by (cases r) (auto simp: config_invalid_def)

lemma literal_value_zero: "literal_value (DecimalLiteral ''0'') = Some 0"
proof -
  have "decimal_parse ''0'' = Inr \<lparr>sign = 0, digits = [0], scale = 0\<rparr>" by code_simp
  then show ?thesis by (simp add: literal_value_def decimal_value_def)
qed

lemma cmp_sum_Inr:
  assumes "literal_value a = Some x" "literal_value b = Some y" "literal_value c = Some z"
  shows "cmp_sum a b c = Inr r \<longleftrightarrow> r = cmp x (y + z)"
  using cmp_sum_value[OF assms] by auto

lemma gap_validate_Inr:
  "gap_validate c = Inr () \<longleftrightarrow> enclosure_validate (gap_lower_cluster c) = Inr () \<and> enclosure_validate (gap_upper_cluster c) = Inr () \<and>
     last_index (gap_lower_cluster c) + 1 = first_index (gap_upper_cluster c) \<and> last_index (gap_lower_cluster c) < usize_max \<and>
     (\<exists>u l g. literal_value (DecimalLiteral (decimal_upper (enclosure_interval (gap_lower_cluster c)))) = Some u \<and>
        literal_value (DecimalLiteral (decimal_lower (enclosure_interval (gap_upper_cluster c)))) = Some l \<and>
        literal_value (DecimalLiteral (gap_lower_bound c)) = Some g \<and> 0 < g \<and> u + g \<le> l)"
  (is "?L \<longleftrightarrow> ?R")
proof
  assume ?L
  then show ?R
    by (auto simp: gap_validate_def result_simps literal_value_zero cmp_sum_Inr not_less is_disjoint_from_def split: if_splits)
next
  assume R: ?R
  then obtain u l g where v: "literal_value (DecimalLiteral (decimal_upper (enclosure_interval (gap_lower_cluster c)))) = Some u"
    "literal_value (DecimalLiteral (decimal_lower (enclosure_interval (gap_upper_cluster c)))) = Some l"
    "literal_value (DecimalLiteral (gap_lower_bound c)) = Some g" "0 < g" "u + g \<le> l" by blast
  then have "is_disjoint_from (enclosure_interval (gap_lower_cluster c)) (enclosure_interval (gap_upper_cluster c)) = Inr True"
    using R by (auto simp: is_disjoint_from_Inr enclosure_validate_Inr validate_order_Inr)
  moreover have "literal_new (gap_lower_bound c) = Inr (DecimalLiteral (gap_lower_bound c))"
    "literal_new (decimal_upper (enclosure_interval (gap_lower_cluster c))) = Inr (DecimalLiteral (decimal_upper (enclosure_interval (gap_lower_cluster c))))"
    "literal_new (decimal_lower (enclosure_interval (gap_upper_cluster c))) = Inr (DecimalLiteral (decimal_lower (enclosure_interval (gap_upper_cluster c))))"
    using v by (simp_all add: literal_new_Inr)
  ultimately show ?L
    using R v by (simp add: gap_validate_def config_invalid_def literal_cmp_numeric_value[OF v(3) literal_value_zero] cmp_sum_value[OF v(2,1,3)] checked_add_def)
qed

section \<open>Exact rational records\<close>

definition spelled_integer :: "string \<Rightarrow> int \<Rightarrow> bool" where
  "spelled_integer s z \<longleftrightarrow> (\<exists>ds. ds \<noteq> [] \<and> all_digits ds \<and> (s = ds \<and> z = int (digits_value ds) \<or> s = CHR ''-'' # ds \<and> z = - int (digits_value ds)))"

locale rational_text =
  fixes rational_parse :: "string \<Rightarrow> string + rat"
  assumes parse_fraction: "spelled_integer n a \<Longrightarrow> d \<noteq> [] \<Longrightarrow> all_digits d \<Longrightarrow> digits_value d \<noteq> 0 \<Longrightarrow>
    rational_parse (n @ ''/'' @ d) = Inr (of_int a / of_nat (digits_value d))"

lemma valid_integer_spelled: "valid_integer s True \<longleftrightarrow> (\<exists>z. spelled_integer s z)"
proof (cases s)
  case (Cons c cs)
  then show ?thesis
    by (cases "c = CHR ''-''") (auto simp: valid_integer_def spelled_integer_def all_digits_def)
qed (simp add: valid_integer_def spelled_integer_def)

lemma valid_integer_digits: "valid_integer s False \<longleftrightarrow> s \<noteq> [] \<and> all_digits s"
  by (auto simp: valid_integer_def all_digits_def)

lemma digits_value_zero: "all_digits s \<Longrightarrow> digits_value s = 0 \<longleftrightarrow> list_all (\<lambda>c. c = CHR ''0'') s"
proof (induction s rule: rev_induct)
  case (snoc c s)
  have "char_digit c = 0 \<longleftrightarrow> c = CHR ''0''" if "is_ascii_digit c"
  proof
    assume "char_digit c = 0"
    then have "of_char c = (of_char CHR ''0'' :: nat)" using that by (simp add: char_digit_def is_ascii_digit_def)
    then show "c = CHR ''0''" by (simp only: of_char_eq_iff)
  qed (simp add: char_digit_def)
  then show ?case using snoc by (auto simp: all_digits_def)
qed simp

definition record_value :: "ExactRationalRecord \<Rightarrow> rat \<Rightarrow> bool" where
  "record_value r x \<longleftrightarrow> (\<exists>a. spelled_integer (numerator r) a \<and> denominator r \<noteq> [] \<and> all_digits (denominator r) \<and>
     digits_value (denominator r) \<noteq> 0 \<and> x = of_int a / of_nat (digits_value (denominator r)))"

lemma validate_syntax_Inr: "validate_syntax r = Inr u \<longleftrightarrow> (\<exists>x. record_value r x)"
proof -
  have "dropWhile (\<lambda>c. c = CHR ''0'') (denominator r) = [] \<longleftrightarrow> list_all (\<lambda>c. c = CHR ''0'') (denominator r)"
    by (simp add: list_all_iff)
  then show ?thesis
    using digits_value_zero[of "denominator r"]
    by (auto simp: validate_syntax_def record_value_def valid_integer_spelled valid_integer_digits)
qed

lemma spelled_show_int: "spelled_integer (show_int z) z"
  unfolding spelled_integer_def
  by (rule exI[of _ "show_nat (nat \<bar>z\<bar>)"]) (use show_nat_digits in \<open>auto simp: show_int_def all_digits_def list_all_iff\<close>)

lemma record_value_rational: "record_value (rational_record x) x"
proof -
  obtain a b where q: "quotient_of x = (a, b)" by (cases "quotient_of x")
  then have b: "0 < b" "x = of_int a / of_int b" using quotient_of_denom_pos quotient_of_div by auto
  moreover have "show_int b = show_nat (nat b)" using b by (simp add: show_int_def)
  moreover have "(of_nat (nat b) :: rat) = of_int b" using b by simp
  ultimately show ?thesis
    using q spelled_show_int[of a] show_nat_digits[of "nat b"]
    by (auto simp: record_value_def rational_record_def all_digits_def list_all_iff)
qed

lemma record_value_unique: "record_value r x \<Longrightarrow> record_value r y \<Longrightarrow> x = y"
  by (auto simp: record_value_def spelled_integer_def all_digits_def)

context rational_text
begin

lemma parse_record_Inr: "parse_record rational_parse r = Inr x \<longleftrightarrow> record_value r x"
proof (cases "\<exists>y. record_value r y")
  case True
  then obtain y where y: "record_value r y" by blast
  then have "validate_syntax r = Inr ()" using validate_syntax_Inr by blast
  moreover have "rational_parse (numerator r @ ''/'' @ denominator r) = Inr y" using y parse_fraction by (auto simp: record_value_def)
  ultimately show ?thesis using y record_value_unique by (auto simp: parse_record_def)
next
  case False
  then show ?thesis using validate_syntax_Inr[of r] by (auto simp: parse_record_def result_simps)
qed

lemma parse_rational_record [simp]: "parse_record rational_parse (rational_record x) = Inr x"
  by (simp add: parse_record_Inr record_value_rational)

lemma parse_interval_Inr:
  "parse_interval rational_parse r = Inr I \<longleftrightarrow>
     record_value (record_lower r) (lower I) \<and> record_value (record_upper r) (upper I) \<and> wf_interval I"
proof -
  have "interval_validate_syntax r = Inr u \<longleftrightarrow> (\<exists>x y. record_value (record_lower r) x \<and> record_value (record_upper r) y)" for u
    using validate_syntax_Inr by (auto simp: interval_validate_syntax_def result_simps)
  then show ?thesis
    by (cases I) (fastforce simp: parse_interval_def result_simps parse_record_Inr ri_new_def wf_interval_def not_less split: if_splits)
qed

lemma parse_interval_record: "wf_interval I \<Longrightarrow> parse_interval rational_parse (interval_record I) = Inr I"
  by (simp add: parse_interval_Inr interval_record_def record_value_rational)

lemma parse_interval_records:
  "\<forall>I \<in> set Is. wf_interval I \<Longrightarrow> collect_results (parse_interval rational_parse) (map interval_record Is) = Inr Is"
  by (induction Is) (auto simp: parse_interval_record)

end

text \<open>An instance of the parser: split at the slash and read the two integers.\<close>

definition integer_value :: "string \<Rightarrow> int" where
  "integer_value s = (if s \<noteq> [] \<and> hd s = CHR ''-'' then - int (digits_value (tl s)) else int (digits_value s))"

definition reference_parse :: "string \<Rightarrow> string + rat" where
  "reference_parse s = (let n = takeWhile (\<lambda>c. c \<noteq> CHR ''/'') s; d = drop (length n + 1) s in
     if digits_value d = 0 then Inl ''denominator is zero'' else Inr (of_int (integer_value n) / of_nat (digits_value d)))"

lemma digits_no_slash: "all_digits s \<Longrightarrow> \<forall>c \<in> set s. c \<noteq> CHR ''/'' \<and> c \<noteq> CHR ''-''"
  by (auto simp: all_digits_def list_all_iff is_ascii_digit_def)

lemma spelled_integer_value: "spelled_integer s z \<Longrightarrow> integer_value s = z \<and> (\<forall>c \<in> set s. c \<noteq> CHR ''/'')"
proof -
  assume "spelled_integer s z"
  then obtain ds where ds: "ds \<noteq> []" "all_digits ds"
    "s = ds \<and> z = int (digits_value ds) \<or> s = CHR ''-'' # ds \<and> z = - int (digits_value ds)"
    by (auto simp: spelled_integer_def)
  then have "hd ds \<noteq> CHR ''-''" using digits_no_slash[OF ds(2)] hd_in_set by blast
  with ds(3) have "integer_value s = z" by (elim disjE) (simp_all add: integer_value_def)
  moreover have "\<forall>c \<in> set s. c \<noteq> CHR ''/''" using ds(3) digits_no_slash[OF ds(2)] by (elim disjE) simp_all
  ultimately show ?thesis by blast
qed

interpretation ref_text: rational_text reference_parse
proof
  fix n d :: string and a :: int
  assume n: "spelled_integer n a" and d: "d \<noteq> []" "all_digits d" "digits_value d \<noteq> 0"
  have "takeWhile (\<lambda>c. c \<noteq> CHR ''/'') (n @ ''/'' @ d) = n"
    using spelled_integer_value[OF n] by (simp add: takeWhile_append2)
  then show "reference_parse (n @ ''/'' @ d) = Inr (of_int a / of_nat (digits_value d))"
    using d(3) spelled_integer_value[OF n] by (simp add: reference_parse_def Let_def)
qed

section \<open>Error budgets\<close>

definition component_ok :: "CertificationErrorSource list \<Rightarrow> CertificationErrorComponent \<Rightarrow> bool" where
  "component_ok required c \<longleftrightarrow> (\<exists>x. record_value (absolute_bound c) x \<and> 0 \<le> x) \<and> digest_validate (evidence_digest c) \<and>
     \<not> blank (component_method c) \<and> (component_source c \<in> set required \<longleftrightarrow> affects_claim c)"

lemma negative_text:
  assumes "record_value r x"
  shows "(numerator r \<noteq> [] \<and> hd (numerator r) = CHR ''-'' \<and> list_ex (\<lambda>b. b \<noteq> CHR ''0'') (tl (numerator r))) \<longleftrightarrow> x < 0"
proof -
  obtain a where a: "spelled_integer (numerator r) a" "digits_value (denominator r) \<noteq> 0" "x = of_int a / of_nat (digits_value (denominator r))"
    using assms by (auto simp: record_value_def)
  obtain ds where ds: "ds \<noteq> []" "all_digits ds"
    "numerator r = ds \<and> a = int (digits_value ds) \<or> numerator r = CHR ''-'' # ds \<and> a = - int (digits_value ds)"
    using a(1) by (auto simp: spelled_integer_def)
  have "hd ds \<noteq> CHR ''-''" using digits_no_slash[OF ds(2)] ds(1) by simp
  moreover have "x < 0 \<longleftrightarrow> a < 0" using a(2,3) by (simp add: divide_less_0_iff)
  moreover have "list_ex (\<lambda>b. b \<noteq> CHR ''0'') ds \<longleftrightarrow> digits_value ds \<noteq> 0"
    using digits_value_zero[OF ds(2)] by (auto simp: list_ex_iff list_all_iff)
  ultimately show ?thesis using ds(3) by auto
qed

lemma check_component_Inr:
  "check_component required c observed = Inr observed' \<longleftrightarrow>
     component_ok required c \<and> component_source c \<notin> set observed \<and> observed' = component_source c # observed"
proof (cases "\<exists>x. record_value (absolute_bound c) x")
  case True
  then obtain x where x: "record_value (absolute_bound c) x" by blast
  have "(\<exists>y. record_value (absolute_bound c) y \<and> 0 \<le> y) \<longleftrightarrow> \<not> x < 0" using x by (metis not_less record_value_unique)
  moreover have "validate_syntax (absolute_bound c) = Inr ()" using x validate_syntax_Inr by blast
  ultimately show ?thesis using negative_text[OF x] unfolding check_component_def component_ok_def Let_def
    by (simp split del: if_split) (simp only: if_bool_eq_disj split: if_splits; auto)
next
  case False
  then show ?thesis using validate_syntax_Inr[of "absolute_bound c"] by (auto simp: check_component_def component_ok_def result_simps)
qed

lemma check_components_Inr:
  "fold_result (check_component required) cs observed = Inr observed' \<longleftrightarrow>
     (\<forall>c \<in> set cs. component_ok required c) \<and> distinct (map component_source cs) \<and>
     set observed \<inter> component_source ` set cs = {} \<and> observed' = rev (map component_source cs) @ observed"
  by (induction cs arbitrary: observed) (auto simp: result_simps check_component_Inr)

lemma validate_declared_coverage_Inr:
  "validate_declared_coverage b = Inr u \<longleftrightarrow> distinct (required_sources b) \<and> (\<forall>c \<in> set (budget_components b). component_ok (required_sources b) c) \<and>
     distinct (map component_source (budget_components b)) \<and>
     set (required_sources b) \<subseteq> component_source ` set (budget_components b)"
proof -
  have all: "s \<in> set error_sources" for s by (cases s) (simp_all add: error_sources_def)
  then have "filter (\<lambda>s. s \<in> set R \<and> s \<notin> set O') error_sources = [] \<longleftrightarrow> set R \<subseteq> set O'" for R O'
    by (auto simp: filter_empty_conv)
  moreover have "length (remdups xs) = length xs \<longleftrightarrow> distinct xs" for xs :: "CertificationErrorSource list"
    by (metis distinct_remdups length_remdups_eq remdups_id_iff_distinct)
  ultimately show ?thesis
    by (auto simp: validate_declared_coverage_def result_simps check_components_Inr Let_def split: if_splits)
qed

lemma fold_bounds:
  assumes "\<forall>c \<in> set cs. parse_record rp (absolute_bound c) = Inr (val c) \<and> 0 \<le> val c"
  shows "fold_result (\<lambda>component acc. bind_result (parse_record rp (absolute_bound component)) (\<lambda>bound.
       if bound < 0 then Inl (E component) else if affects_claim component then Inr (acc + bound) else Inr acc)) cs acc =
     Inr (acc + sum_list (map val (filter affects_claim cs)))"
  using assms by (induction cs arbitrary: acc) (auto simp: not_less add.assoc)

section \<open>Properties\<close>

text \<open>C28. Records and exact values are inverse to each other: a record is read back as the number it spells (leading
  zeros and unreduced fractions included) and rejected exactly when it is not a fraction of integers with positive denominator; the record
  written for a rational, for an ordered interval and for a list of them reads back as the same value.\<close>

theorem record_roundtrip:
  assumes "rational_text rational_parse"
  shows "parse_record rational_parse (rational_record x) = Inr x \<and>
    (wf_interval I \<longrightarrow> parse_interval rational_parse (interval_record I) = Inr I) \<and>
    ((\<forall>J \<in> set Js. wf_interval J) \<longrightarrow> collect_results (parse_interval rational_parse) (map interval_record Js) = Inr Js) \<and>
    (\<forall>r y. parse_record rational_parse r = Inr y \<longleftrightarrow> record_value r y) \<and>
    (\<forall>r. is_ok (parse_record rational_parse r) \<longleftrightarrow> validate_syntax r = Inr ())"
  using rational_text.parse_rational_record[OF assms] rational_text.parse_interval_record[OF assms]
    rational_text.parse_interval_records[OF assms] rational_text.parse_record_Inr[OF assms] validate_syntax_Inr
  by (auto simp: is_ok_iff)

theorem record_roundtrip_witness:
  "parse_record reference_parse (rational_record (-6/4)) = Inr (-3/2) \<and>
   parse_interval reference_parse (interval_record \<lparr>lower = -1, upper = 2\<rparr>) = Inr \<lparr>lower = -1, upper = 2\<rparr> \<and>
   is_ok (parse_record reference_parse \<lparr>numerator = ''-007'', denominator = ''14''\<rparr>)"
proof -
  have "wf_interval \<lparr>lower = -1, upper = 2\<rparr>" by (simp add: wf_interval_def)
  moreover have "validate_syntax \<lparr>numerator = ''-007'', denominator = ''14''\<rparr> = Inr ()" by code_simp
  ultimately show ?thesis
    using record_roundtrip[OF ref_text.rational_text_axioms, of "-6/4" "\<lparr>lower = -1, upper = 2\<rparr>" "[]"] by (simp del: ref_text.parse_rational_record)
qed

text \<open>C27. A validated gap record is exact decimal evidence: both clusters are ordered decimal intervals with consistent index
  ranges and multiplicities, the clusters are adjacent in the spectrum, the bound is positive, and any number in the upper interval exceeds any
  number in the lower interval by at least the bound.\<close>

theorem gap_certificate_separates:
  assumes "gap_validate c = Inr ()"
  shows "\<exists>g. literal_value (DecimalLiteral (gap_lower_bound c)) = Some g \<and> 0 < g \<and>
    (\<forall>x y. decimal_contains (enclosure_interval (gap_lower_cluster c)) x \<and> decimal_contains (enclosure_interval (gap_upper_cluster c)) y \<longrightarrow>
       real_of_rat g \<le> y - x) \<and>
    first_index (gap_upper_cluster c) = last_index (gap_lower_cluster c) + 1 \<and>
    (\<forall>e \<in> {gap_lower_cluster c, gap_upper_cluster c}. first_index e \<le> last_index e \<and>
       multiplicity_lower e \<le> last_index e - first_index e + 1 \<and> last_index e - first_index e + 1 \<le> multiplicity_upper e \<and>
       (\<exists>x. decimal_contains (enclosure_interval e) x))"
proof -
  obtain u l g where v: "literal_value (DecimalLiteral (decimal_upper (enclosure_interval (gap_lower_cluster c)))) = Some u"
    "literal_value (DecimalLiteral (decimal_lower (enclosure_interval (gap_upper_cluster c)))) = Some l"
    "literal_value (DecimalLiteral (gap_lower_bound c)) = Some g" "0 < g" "u + g \<le> l"
    using assms by (auto simp: gap_validate_Inr)
  have "real_of_rat g \<le> y - x" if "decimal_contains (enclosure_interval (gap_lower_cluster c)) x"
    "decimal_contains (enclosure_interval (gap_upper_cluster c)) y" for x y
  proof -
    have "x \<le> real_of_rat u" "real_of_rat l \<le> y" using that v(1,2) by (auto simp: decimal_contains_def)
    moreover have "real_of_rat u + real_of_rat g \<le> real_of_rat l" using v(5) by (simp flip: of_rat_add)
    ultimately show ?thesis by linarith
  qed
  moreover have "\<exists>x. decimal_contains I x" if "validate_order I = Inr ()" for I
    using that by (fastforce simp: decimal_contains_def validate_order_Inr)
  ultimately show ?thesis using assms v(3,4) by (auto simp: gap_validate_Inr enclosure_validate_Inr)
qed

definition sample_gap :: SpectralGapCertificate where
  "sample_gap = \<lparr>gap_lower_cluster = \<lparr>first_index = 0, last_index = 1, enclosure_interval = \<lparr>decimal_lower = ''0.9'', decimal_upper = ''1.1''\<rparr>,
       multiplicity_lower = 1, multiplicity_upper = 2\<rparr>,
     gap_upper_cluster = \<lparr>first_index = 2, last_index = 2, enclosure_interval = \<lparr>decimal_lower = ''2'', decimal_upper = ''3e0''\<rparr>,
       multiplicity_lower = 1, multiplicity_upper = 1\<rparr>,
     gap_lower_bound = ''0.9''\<rparr>"

theorem gap_certificate_separates_witness:
  "gap_validate sample_gap = Inr () \<and>
   decimal_contains (enclosure_interval (gap_lower_cluster sample_gap)) 1 \<and>
   decimal_contains (enclosure_interval (gap_upper_cluster sample_gap)) 2 \<and> real_of_rat (9/10) \<le> 2 - 1"
proof -
  have parse: "decimal_parse ''0.9'' = Inr \<lparr>sign = 1, digits = [9], scale = -1\<rparr>" "decimal_parse ''1.1'' = Inr \<lparr>sign = 1, digits = [1, 1], scale = -1\<rparr>"
    "decimal_parse ''2'' = Inr \<lparr>sign = 1, digits = [2], scale = 0\<rparr>" "decimal_parse ''3e0'' = Inr \<lparr>sign = 1, digits = [3], scale = 0\<rparr>"
    by code_simp+
  then have v: "literal_value (DecimalLiteral ''0.9'') = Some (9/10)" "literal_value (DecimalLiteral ''1.1'') = Some (11/10)"
    "literal_value (DecimalLiteral ''2'') = Some 2" "literal_value (DecimalLiteral ''3e0'') = Some 3"
    by (simp_all add: literal_value_def decimal_value_def digits_nat_def power_int_def)
  then have ok: "gap_validate sample_gap = Inr ()"
    by (auto simp: gap_validate_Inr enclosure_validate_Inr validate_order_Inr sample_gap_def usize_max_def
        simp del: divide_eq_eq_numeral1 eq_divide_eq_numeral1)
  have one: "decimal_contains (enclosure_interval (gap_lower_cluster sample_gap)) 1"
    "decimal_contains (enclosure_interval (gap_upper_cluster sample_gap)) 2"
    using v by (auto simp: decimal_contains_def sample_gap_def of_rat_divide simp del: divide_eq_eq_numeral1 eq_divide_eq_numeral1)
  obtain g where g: "literal_value (DecimalLiteral (gap_lower_bound sample_gap)) = Some g"
    and sep: "\<forall>x y. decimal_contains (enclosure_interval (gap_lower_cluster sample_gap)) x \<and>
       decimal_contains (enclosure_interval (gap_upper_cluster sample_gap)) y \<longrightarrow> real_of_rat g \<le> y - x"
    using gap_certificate_separates[OF ok] by blast
  have "gap_lower_bound sample_gap = ''0.9''" by (simp add: sample_gap_def)
  then have "g = 9/10" using g v(1) by (metis option.inject)
  then show ?thesis using ok one sep by blast
qed

text \<open>C29. The combined error bound is complete and sound: it is produced exactly for budgets that cover every required
  source once (the negative-bound error of the summation is unreachable), it is nonnegative, and it bounds the absolute total of the required
  errors whenever each component bounds its own.\<close>

theorem combined_error_bound_sound:
  assumes "rational_text rational_parse"
  shows "(is_ok (combined_certification_error_bound rational_parse budget) \<longleftrightarrow> validate_declared_coverage budget = Inr ()) \<and>
    (\<forall>total. combined_certification_error_bound rational_parse budget = Inr total \<longrightarrow> 0 \<le> total \<and>
       (\<forall>err. (\<forall>c \<in> set (budget_components budget). \<forall>x. record_value (absolute_bound c) x \<longrightarrow> \<bar>err (component_source c)\<bar> \<le> real_of_rat x) \<longrightarrow>
          \<bar>\<Sum>s \<in> set (required_sources budget). err s\<bar> \<le> real_of_rat total))"
proof (cases "validate_declared_coverage budget = Inr ()")
  case False
  then show ?thesis
    by (cases "validate_declared_coverage budget") (auto simp: combined_certification_error_bound_def)
next
  case True
  let ?cs = "budget_components budget"
  note cov = True[unfolded validate_declared_coverage_Inr]
  have "\<forall>c \<in> set ?cs. \<exists>x. record_value (absolute_bound c) x \<and> 0 \<le> x" using cov by (auto simp: component_ok_def)
  then obtain val where val: "\<forall>c \<in> set ?cs. record_value (absolute_bound c) (val c) \<and> 0 \<le> val c" by (rule bchoice[THEN exE])
  let ?T = "sum_list (map val (filter affects_claim ?cs))"
  have run: "combined_certification_error_bound rational_parse budget = Inr ?T"
    using True val fold_bounds[of ?cs rational_parse val _ 0]
    by (simp add: combined_certification_error_bound_def rational_text.parse_record_Inr[OF assms])
  have "0 \<le> ?T" using val by (intro sum_list_nonneg) auto
  moreover have "\<bar>\<Sum>s \<in> set (required_sources budget). err s\<bar> \<le> real_of_rat ?T"
    if "\<forall>c \<in> set ?cs. \<forall>x. record_value (absolute_bound c) x \<longrightarrow> \<bar>err (component_source c)\<bar> \<le> real_of_rat x" for err
  proof -
    let ?A = "filter affects_claim ?cs"
    have "set (required_sources budget) = component_source ` set ?A"
      using cov by (auto simp: component_ok_def)
    moreover have inj: "distinct (map component_source ?A)" using cov by (simp add: distinct_map_filter)
    ultimately have "(\<Sum>s \<in> set (required_sources budget). err s) = sum_list (map err (map component_source ?A))"
      using sum_list_distinct_conv_sum_set[OF inj, of err] by simp
    moreover have "\<bar>sum_list (map err (map component_source as))\<bar> \<le> real_of_rat (sum_list (map val as))" if "set as \<subseteq> set ?cs" for as
      using that
    proof (induction as)
      case (Cons a as)
      then have "\<bar>err (component_source a)\<bar> \<le> real_of_rat (val a)"
        using val \<open>\<forall>c \<in> set ?cs. \<forall>x. record_value (absolute_bound c) x \<longrightarrow> \<bar>err (component_source c)\<bar> \<le> real_of_rat x\<close> by simp
      then show ?case using Cons by (simp add: of_rat_add)
    qed simp
    ultimately show ?thesis by simp
  qed
  ultimately show ?thesis using run True by auto
qed

definition sample_budget :: CertificationErrorBudget where
  "sample_budget = \<lparr>required_sources = [Rounding], budget_components =
     [\<lparr>component_source = Rounding, absolute_bound = \<lparr>numerator = ''1'', denominator = ''100''\<rparr>, affects_claim = True,
       evidence_digest = ContentDigest (replicate 64 CHR ''a''), component_method = ''interval''\<rparr>]\<rparr>"

theorem combined_error_bound_sound_witness:
  "\<exists>total. combined_certification_error_bound reference_parse sample_budget = Inr total \<and> 0 \<le> total"
proof -
  have "record_value \<lparr>numerator = ''1'', denominator = ''100''\<rparr> (1/100)"
    by (auto simp: record_value_def spelled_integer_def all_digits_def is_ascii_digit_def digits_value_def char_digit_def)
  moreover have "digest_validate (ContentDigest (replicate 64 CHR ''a''))" "\<not> blank ''interval''" by code_simp+
  ultimately have "validate_declared_coverage sample_budget = Inr ()"
    by (auto simp: validate_declared_coverage_Inr sample_budget_def component_ok_def intro!: exI[of _ "1/100"])
  then show ?thesis
    using combined_error_bound_sound[OF ref_text.rational_text_axioms, of sample_budget] by (auto simp: is_ok_iff)
qed

text \<open>The Rayleigh check accepts exactly the true claims: it succeeds if and only if the three records are rationals, the
  denominator is positive and the exact quotient is at least the claimed bound.\<close>

theorem verify_rayleigh_lower_bound_exact:
  assumes "rational_text rational_parse"
  shows "verify_rayleigh_lower_bound rational_parse num den claimed = Inr () \<longleftrightarrow>
    (\<exists>n d c. record_value num n \<and> record_value den d \<and> record_value claimed c \<and> 0 < d \<and> c \<le> n / d)"
  by (auto simp: verify_rayleigh_lower_bound_def result_simps rational_text.parse_record_Inr[OF assms] not_less not_le
      simp flip: not_less split: if_splits; blast)

theorem verify_rayleigh_lower_bound_exact_witness:
  "verify_rayleigh_lower_bound reference_parse (rational_record 3) (rational_record 2) (rational_record (3/2)) = Inr ()"
  unfolding verify_rayleigh_lower_bound_exact[OF ref_text.rational_text_axioms]
  by (rule exI[of _ 3], rule exI[of _ 2], rule exI[of _ "3/2"]) (simp add: record_value_rational)

end
