(* ===== verification/Eigenvalue_Count.thy ===== *)
theory Eigenvalue_Count
  imports Certificate_Records Mpfr_Inertia
begin

text \<open>
  Eigenvalue counting and enclosure of \<open>crates/xc-certify/src/lib.rs\<close>: shifted-inertia boundaries, counts below a threshold and in
  an open interval, the bisection that encloses one selected eigenvalue, the replaying verifiers and the exact spectral gap.

  \<open>certify_env\<close> gathers what the code takes from elsewhere: the integer square root and the MPFR operations of rug, the thread pool, rational
  parsing, and the digest of the JSON text of a matrix. The closures \<open>boundary\<close>, \<open>replay_boundary\<close> and \<open>matches_boundary\<close> of the
  source are definitions with their captured variables as arguments.
\<close>

section \<open>Definitions\<close>

record certify_env =
  isqrt_op :: "int \<Rightarrow> int"
  rug_op :: rug
  threads :: mpfr_env
  parse_op :: "string \<Rightarrow> string + rat"
  matrix_digest_op :: "nat \<Rightarrow> ExactRationalIntervalRecord list \<Rightarrow> string + ContentDigest"

text \<open>\<open>match r { Ok(x) => x, Err(e) => return on_err(e) }\<close>, with panics passed on.\<close>

fun or_return :: "'e fault + 'a \<Rightarrow> ('e \<Rightarrow> 'b) \<Rightarrow> ('a \<Rightarrow> 'f fault + 'b) \<Rightarrow> 'f fault + 'b" where
  "or_return (Inr x) on_err k = k x"
| "or_return (Inl (Raised e)) on_err k = Inr (on_err e)"
| "or_return (Inl (Panicked m)) on_err k = Inl (Panicked m)"

subsection \<open>Boundaries and counts\<close>

record EigenvalueCountBoundaryCertificate =
  threshold :: ExactRationalRecord
  count_below :: nat
  positive_above :: nat
  boundary_pivots :: "ExactRationalIntervalRecord list"

record IntervalEigenvalueCountCertificate =
  count_dimension :: nat
  count_lower_boundary :: "EigenvalueCountBoundaryCertificate option"
  count_upper_boundary :: EigenvalueCountBoundaryCertificate
  eigenvalue_count :: nat
  interval_semantics :: string

datatype IntervalEigenvalueCountResult =
    ConclusiveCount IntervalEigenvalueCountCertificate
  | InconclusiveCount string string

definition shift_diagonal :: "RationalInterval list \<Rightarrow> nat \<Rightarrow> rat \<Rightarrow> RationalInterval list" where
  "shift_diagonal matrix dimension t =
     fold (\<lambda>diagonal shifted. let index = diagonal * dimension + diagonal in
       if index < length shifted then shifted[index := ri_sub (shifted ! index) (ri_point t)] else shifted) [0..<dimension] matrix"

definition eigenvalue_count_boundary_route ::
  "certify_env \<Rightarrow> RationalInterval list \<Rightarrow> nat \<Rightarrow> rat \<Rightarrow> string \<Rightarrow> bool \<Rightarrow> bool \<Rightarrow> nat option \<Rightarrow>
     (string \<times> string) fault + EigenvalueCountBoundaryCertificate" where
  "eigenvalue_count_boundary_route E matrix dimension t boundary_name scale_invariant enforce_budget precision =
     (if dimension = 0 \<or> checked_mul dimension dimension \<noteq> Some (length matrix)
      then Inl (Raised (boundary_name, ''eigenvalue count requires a nonempty square matrix''))
      else
        let shifted = shift_diagonal matrix dimension t;
            result = (case precision of
                Some p \<Rightarrow> map_fault (failed ''MPFR selected inertia: '') (adapter_inertia_stable (rug_op E) (threads E) shifted dimension p)
              | None \<Rightarrow> interval_symmetric_ldlt_inertia_with_budget (isqrt_op E) shifted dimension scale_invariant enforce_budget) in
        case result of
          Inr (ConclusiveInertia positive negative pivots) \<Rightarrow>
            Inr \<lparr>threshold = rational_record t, count_below = negative, positive_above = positive,
                 boundary_pivots = map interval_record pivots\<rparr>
        | Inr (InconclusiveInertia _ _ _ _ _ reason) \<Rightarrow> Inl (Raised (boundary_name, reason))
        | Inl (Raised e) \<Rightarrow> Inl (Raised (boundary_name, display_CertificateError e))
        | Inl (Panicked m) \<Rightarrow> Inl (Panicked m))"

definition eigenvalue_count_boundary_impl ::
  "certify_env \<Rightarrow> RationalInterval list \<Rightarrow> nat \<Rightarrow> rat \<Rightarrow> string \<Rightarrow> bool \<Rightarrow> (string \<times> string) fault + EigenvalueCountBoundaryCertificate" where
  "eigenvalue_count_boundary_impl E matrix dimension t boundary_name scale_invariant =
     eigenvalue_count_boundary_route E matrix dimension t boundary_name scale_invariant True None"

definition eigenvalue_count_boundary ::
  "certify_env \<Rightarrow> RationalInterval list \<Rightarrow> nat \<Rightarrow> rat \<Rightarrow> string \<Rightarrow> (string \<times> string) fault + EigenvalueCountBoundaryCertificate" where
  "eigenvalue_count_boundary E matrix dimension t boundary_name =
     eigenvalue_count_boundary_impl E matrix dimension t boundary_name True"

definition below_result ::
  "nat \<Rightarrow> (string \<times> string) fault + EigenvalueCountBoundaryCertificate \<Rightarrow> unit fault + IntervalEigenvalueCountResult" where
  "below_result dimension boundary =
     or_return boundary (\<lambda>(b, reason). InconclusiveCount b reason) (\<lambda>upper_boundary.
       Inr (ConclusiveCount \<lparr>count_dimension = dimension, count_lower_boundary = None, count_upper_boundary = upper_boundary,
         eigenvalue_count = count_below upper_boundary, interval_semantics = ''(-infinity, upper)''\<rparr>))"

definition certify_interval_matrix_eigenvalues_below ::
  "certify_env \<Rightarrow> RationalInterval list \<Rightarrow> nat \<Rightarrow> rat \<Rightarrow> unit fault + IntervalEigenvalueCountResult" where
  "certify_interval_matrix_eigenvalues_below E matrix dimension t =
     below_result dimension (eigenvalue_count_boundary E matrix dimension t ''upper'')"

definition certify_interval_matrix_eigenvalues_below_mpfr ::
  "certify_env \<Rightarrow> RationalInterval list \<Rightarrow> nat \<Rightarrow> rat \<Rightarrow> nat \<Rightarrow> unit fault + IntervalEigenvalueCountResult" where
  "certify_interval_matrix_eigenvalues_below_mpfr E matrix dimension t p =
     below_result dimension (eigenvalue_count_boundary_route E matrix dimension t ''upper'' True True (Some p))"

definition open_interval_result ::
  "nat \<Rightarrow> string \<Rightarrow> (string \<times> string) fault + EigenvalueCountBoundaryCertificate \<Rightarrow>
     (string \<times> string) fault + EigenvalueCountBoundaryCertificate \<Rightarrow> unit fault + IntervalEigenvalueCountResult" where
  "open_interval_result dimension decreased lower_run upper_run =
     or_return lower_run (\<lambda>(b, reason). InconclusiveCount b reason) (\<lambda>lower_boundary.
     or_return upper_run (\<lambda>(b, reason). InconclusiveCount b reason) (\<lambda>upper_boundary.
     case checked_sub (count_below upper_boundary) (count_below lower_boundary) of
       None \<Rightarrow> Inr (InconclusiveCount ''reconciliation'' decreased)
     | Some count \<Rightarrow> Inr (ConclusiveCount \<lparr>count_dimension = dimension, count_lower_boundary = Some lower_boundary,
         count_upper_boundary = upper_boundary, eigenvalue_count = count, interval_semantics = ''(lower, upper)''\<rparr>)))"

definition certify_interval_matrix_eigenvalues_in_open_interval ::
  "certify_env \<Rightarrow> RationalInterval list \<Rightarrow> nat \<Rightarrow> rat \<Rightarrow> rat \<Rightarrow> unit fault + IntervalEigenvalueCountResult" where
  "certify_interval_matrix_eigenvalues_in_open_interval E matrix dimension lo up =
     (if up \<le> lo
      then Inr (InconclusiveCount ''configuration'' ''eigenvalue count interval requires lower < upper'')
      else open_interval_result dimension ''shifted inertia count decreased across ordered thresholds''
        (eigenvalue_count_boundary E matrix dimension lo ''lower'') (eigenvalue_count_boundary E matrix dimension up ''upper''))"

definition certify_interval_matrix_eigenvalues_in_open_interval_mpfr ::
  "certify_env \<Rightarrow> RationalInterval list \<Rightarrow> nat \<Rightarrow> rat \<Rightarrow> rat \<Rightarrow> nat \<Rightarrow> unit fault + IntervalEigenvalueCountResult" where
  "certify_interval_matrix_eigenvalues_in_open_interval_mpfr E matrix dimension lo up p =
     (if up \<le> lo then Inr (InconclusiveCount ''configuration'' ''lower must precede upper'')
      else open_interval_result dimension ''counts decreased''
        (eigenvalue_count_boundary_route E matrix dimension lo ''lower'' True True (Some p))
        (eigenvalue_count_boundary_route E matrix dimension up ''upper'' True True (Some p)))"

subsection \<open>Selected eigenvalues\<close>

record ExactSelectedEigenvalueEnclosure =
  inertia_precision_bits :: "nat option"
  enclosure_dimension :: nat
  enclosure_matrix_digest :: ContentDigest
  requested_index :: nat
  first_enclosed_index :: nat
  last_enclosed_index :: nat
  enclosure_lower :: ExactRationalRecord
  enclosure_upper :: ExactRationalRecord
  lower_boundary :: EigenvalueCountBoundaryCertificate
  upper_boundary :: EigenvalueCountBoundaryCertificate
  bisection_steps :: nat
  simple :: bool

datatype SelectedEigenvalueEnclosureResult =
    ConclusiveSelected ExactSelectedEigenvalueEnclosure
  | InconclusiveSelected string string

type_synonym boundary_fun = "rat \<Rightarrow> string \<Rightarrow> (string \<times> string) fault + EigenvalueCountBoundaryCertificate"

fun admit_split ::
  "boundary_fun \<Rightarrow> rat \<Rightarrow> rat \<Rightarrow> rat list \<Rightarrow> unit fault + (rat \<times> EigenvalueCountBoundaryCertificate) option" where
  "admit_split boundary lo width [] = Inr None"
| "admit_split boundary lo width (d # ds) =
     (let point = lo + width / d in
      case boundary point ''interior split'' of
        Inr evidence \<Rightarrow> Inr (Some (point, evidence))
      | Inl (Raised _) \<Rightarrow> admit_split boundary lo width ds
      | Inl (Panicked m) \<Rightarrow> Inl (Panicked m))"

record bisection_state =
  bis_lower :: rat
  bis_upper :: rat
  bis_lower_boundary :: EigenvalueCountBoundaryCertificate
  bis_upper_boundary :: EigenvalueCountBoundaryCertificate
  bis_steps :: nat

text \<open>The bisection loop. The source tests \<open>bisection_steps == maximum_bisection_steps\<close>; the counter starts at 0 and grows by one.\<close>

function bisect ::
  "boundary_fun \<Rightarrow> nat \<Rightarrow> rat \<Rightarrow> nat \<Rightarrow> bisection_state \<Rightarrow> unit fault + ((string \<times> string) + bisection_state)" where
  "bisect boundary index target_width maximum_bisection_steps s =
     (if \<not> (bis_upper s - bis_lower s > target_width) then Inr (Inr s)
      else if maximum_bisection_steps \<le> bis_steps s
      then Inr (Inl (''bisection'', ''target width was not reached within '' @ show_nat maximum_bisection_steps @ '' steps''))
      else bind_result (admit_split boundary (bis_lower s) (bis_upper s - bis_lower s) [2, 3, 5, 7, 11, 13, 17, 19]) (\<lambda>admitted.
        case admitted of
          None \<Rightarrow> Inr (Inl (''interior splits'', ''all bounded exact interior split proofs were unresolved''))
        | Some (midpoint, midpoint_boundary) \<Rightarrow>
            bisect boundary index target_width maximum_bisection_steps
              (if count_below midpoint_boundary \<le> index
               then s\<lparr>bis_lower := midpoint, bis_lower_boundary := midpoint_boundary, bis_steps := bis_steps s + 1\<rparr>
               else s\<lparr>bis_upper := midpoint, bis_upper_boundary := midpoint_boundary, bis_steps := bis_steps s + 1\<rparr>)))"
  by pat_completeness auto
termination
  by (relation "measure (\<lambda>(_, _, _, maximum, s). maximum - bis_steps s)") auto

declare bisect.simps [simp del]

definition exact_interval_matrix_digest :: "certify_env \<Rightarrow> RationalInterval list \<Rightarrow> nat \<Rightarrow> CertificateError + ContentDigest" where
  "exact_interval_matrix_digest E matrix dimension =
     map_err (\<lambda>e. InvalidCertificate (''failed to serialize selected-eigenvalue matrix: '' @ e))
       (matrix_digest_op E dimension (map interval_record matrix))"

definition selected_result ::
  "certify_env \<Rightarrow> RationalInterval list \<Rightarrow> nat \<Rightarrow> nat \<Rightarrow> nat option \<Rightarrow> bisection_state \<Rightarrow> SelectedEigenvalueEnclosureResult" where
  "selected_result E matrix dimension index precision s =
     (case checked_sub (count_below (bis_upper_boundary s)) (count_below (bis_lower_boundary s)) of
        None \<Rightarrow> InconclusiveSelected ''reconciliation'' ''shifted-inertia count decreased across the final enclosure''
      | Some enclosed_count \<Rightarrow>
          if enclosed_count = 0
          then InconclusiveSelected ''reconciliation'' ''final enclosure contains no certified eigenvalue''
          else (case exact_interval_matrix_digest E matrix dimension of
             Inl e \<Rightarrow> InconclusiveSelected ''serialization'' (display_CertificateError e)
           | Inr digest \<Rightarrow> ConclusiveSelected
               \<lparr>inertia_precision_bits = precision, enclosure_dimension = dimension, enclosure_matrix_digest = digest,
                requested_index = index, first_enclosed_index = count_below (bis_lower_boundary s),
                last_enclosed_index = count_below (bis_upper_boundary s) - 1,
                enclosure_lower = rational_record (bis_lower s), enclosure_upper = rational_record (bis_upper s),
                lower_boundary = bis_lower_boundary s, upper_boundary = bis_upper_boundary s,
                bisection_steps = bis_steps s, simple = (enclosed_count = 1)\<rparr>))"

definition certify_selected_interval_eigenvalue_route ::
  "certify_env \<Rightarrow> RationalInterval list \<Rightarrow> nat \<Rightarrow> nat \<Rightarrow> rat \<Rightarrow> rat \<Rightarrow> rat \<Rightarrow> nat \<Rightarrow> nat option \<Rightarrow>
     unit fault + SelectedEigenvalueEnclosureResult" where
  "certify_selected_interval_eigenvalue_route E matrix dimension index lo up target_width maximum_bisection_steps precision =
     (if (case precision of None \<Rightarrow> False | Some p \<Rightarrow> \<not> (32 \<le> p \<and> p \<le> 1000000)) \<or> dimension = 0 \<or>
         length matrix \<noteq> saturating_mul dimension dimension \<or> dimension \<le> index \<or> up \<le> lo \<or> target_width \<le> 0 \<or>
         maximum_bisection_steps = 0
      then Inr (InconclusiveSelected ''configuration'' ''selected-eigenvalue certification requires a square nonempty matrix, a valid zero-based index, lower < upper, positive target width, and a positive step limit'')
      else
        let boundary = (\<lambda>x name. eigenvalue_count_boundary_route E matrix dimension x name True True precision) in
        or_return (boundary lo ''lower'') (\<lambda>(b, reason). InconclusiveSelected b reason) (\<lambda>lb.
        or_return (boundary up ''upper'') (\<lambda>(b, reason). InconclusiveSelected b reason) (\<lambda>ub.
        if index < count_below lb \<or> count_below ub \<le> index
        then Inr (InconclusiveSelected ''bracket'' (''initial shifted-inertia counts ['' @ show_nat (count_below lb) @ '', '' @
          show_nat (count_below ub) @ ''] do not enclose eigenvalue index '' @ show_nat index))
        else bind_result (bisect boundary index target_width maximum_bisection_steps
            \<lparr>bis_lower = lo, bis_upper = up, bis_lower_boundary = lb, bis_upper_boundary = ub, bis_steps = 0\<rparr>) (\<lambda>outcome.
          case outcome of
            Inl e \<Rightarrow> Inr (InconclusiveSelected (fst e) (snd e))
          | Inr s \<Rightarrow> Inr (selected_result E matrix dimension index precision s)))))"

definition certify_selected_interval_eigenvalue ::
  "certify_env \<Rightarrow> RationalInterval list \<Rightarrow> nat \<Rightarrow> nat \<Rightarrow> rat \<Rightarrow> rat \<Rightarrow> rat \<Rightarrow> nat \<Rightarrow> unit fault + SelectedEigenvalueEnclosureResult" where
  "certify_selected_interval_eigenvalue E matrix dimension index lo up target_width maximum_bisection_steps =
     certify_selected_interval_eigenvalue_route E matrix dimension index lo up target_width maximum_bisection_steps None"

definition certify_selected_interval_eigenvalue_mpfr ::
  "certify_env \<Rightarrow> RationalInterval list \<Rightarrow> nat \<Rightarrow> nat \<Rightarrow> rat \<Rightarrow> rat \<Rightarrow> rat \<Rightarrow> nat \<Rightarrow> nat \<Rightarrow> unit fault + SelectedEigenvalueEnclosureResult" where
  "certify_selected_interval_eigenvalue_mpfr E matrix dimension index lo up target_width maximum_bisection_steps p =
     certify_selected_interval_eigenvalue_route E matrix dimension index lo up target_width maximum_bisection_steps (Some p)"

lemma or_return_Inr [result_simps]:
  "or_return r on_err k = Inr y \<longleftrightarrow> (\<exists>x. r = Inr x \<and> k x = Inr y) \<or> (\<exists>e. r = Inl (Raised e) \<and> y = on_err e)"
proof (cases r)
  case (Inl e)
  then show ?thesis by (cases e) auto
qed auto

lemma or_return_panics: "panics (or_return r on_err k) \<longleftrightarrow> panics r \<or> (\<exists>x. r = Inr x \<and> panics (k x))"
proof (cases r)
  case (Inl e)
  then show ?thesis by (cases e) auto
qed auto

lemma case_outcome_Inr:
  "(case r of Inl e \<Rightarrow> Inr (f e) | Inr s \<Rightarrow> Inr (g s)) = Inr y \<longleftrightarrow> (\<exists>e. r = Inl e \<and> y = f e) \<or> (\<exists>s. r = Inr s \<and> y = g s)"
  by (cases r) auto

section \<open>The inertia interface\<close>

text \<open>What the counting code relies on: an elimination that never panics, accounts for the whole dimension, and whose conclusive
  results are the signature of every symmetric matrix in the box. Both the exact and the MPFR elimination provide it.\<close>

definition in_matrix :: "RationalInterval list \<Rightarrow> nat \<Rightarrow> (nat \<Rightarrow> nat \<Rightarrow> real) \<Rightarrow> bool" where
  "in_matrix M n R \<longleftrightarrow> (\<forall>i < n. \<forall>j < n. encloses (M ! (i * n + j)) (R i j) \<and> R i j = R j i)"

definition wf_matrix :: "RationalInterval list \<Rightarrow> bool" where
  "wf_matrix M \<longleftrightarrow> fits_slice M \<and> (\<forall>I \<in> set M. wf_interval I)"

locale inertia_kernel =
  fixes eliminate :: "RationalInterval list \<Rightarrow> nat \<Rightarrow> 'e fault + IntervalInertiaResult"
  assumes kernel_signature: "eliminate M n = Inr (ConclusiveInertia P N pv) \<Longrightarrow> wf_matrix M \<Longrightarrow> in_matrix M n R \<Longrightarrow>
      signature {..<n} (mform {..<n} R) P N"
    and kernel_accounted: "eliminate M n = Inr r \<Longrightarrow> wf_matrix M \<Longrightarrow> accounted n r"
    and kernel_no_panic: "wf_matrix M \<Longrightarrow> \<not> panics (eliminate M n)"

sublocale integer_sqrt \<subseteq> exact_kernel: inertia_kernel "\<lambda>M n. interval_symmetric_ldlt_inertia_with_budget isqrt M n si eb" for si eb
proof
  fix M n P N pv R r
  show "interval_symmetric_ldlt_inertia_with_budget isqrt M n si eb = Inr (ConclusiveInertia P N pv) \<Longrightarrow> wf_matrix M \<Longrightarrow>
    in_matrix M n R \<Longrightarrow> signature {..<n} (mform {..<n} R) P N"
    using conclusive_signature[of M n si eb P N pv R] by (simp add: wf_matrix_def in_matrix_def)
  assume "wf_matrix M"
  then have wf: "fits_slice M" "\<forall>I \<in> set M. wf_interval I" by (auto simp: wf_matrix_def)
  show "interval_symmetric_ldlt_inertia_with_budget isqrt M n si eb = Inr r \<Longrightarrow> accounted n r"
    using budget_returns[OF wf, of n si eb] by (auto split: if_splits)
  show "\<not> panics (interval_symmetric_ldlt_inertia_with_budget isqrt M n si eb)"
    using budget_returns[OF wf, of n si eb] by (auto split: if_splits)
qed

sublocale directed_mpfr \<subseteq> mpfr_kernel: inertia_kernel "\<lambda>M n. inertia_route L env M n p stb" for env p stb
proof
  fix M n P N pv R r
  show "inertia_route L env M n p stb = Inr (ConclusiveInertia P N pv) \<Longrightarrow> wf_matrix M \<Longrightarrow>
    in_matrix M n R \<Longrightarrow> signature {..<n} (mform {..<n} R) P N"
    using route_conclusive[of env M n p stb P N pv R] by (simp add: wf_matrix_def in_matrix_def)
  assume "wf_matrix M"
  then have wf: "\<forall>I \<in> set M. wf_interval I" by (simp add: wf_matrix_def)
  show "inertia_route L env M n p stb = Inr r \<Longrightarrow> accounted n r" "\<not> panics (inertia_route L env M n p stb)"
    using route_result[OF wf, of env n p stb] by auto
qed

context integer_sqrt
begin

lemma exact_is_kernel: "inertia_kernel (\<lambda>M n. interval_symmetric_ldlt_inertia_with_budget isqrt M n si eb)"
  by (rule exact_kernel.inertia_kernel_axioms)

end

context directed_mpfr
begin

lemma mpfr_is_kernel: "inertia_kernel (\<lambda>M n. inertia_route L env M n p stb)"
  by (rule mpfr_kernel.inertia_kernel_axioms)

end

section \<open>Shifted matrices\<close>

lemma shift_diagonal_length [simp]: "length (shift_diagonal M n t) = length M"
proof -
  have "length (fold (\<lambda>d S. let i = d * n + d in if i < length S then S[i := ri_sub (S ! i) (ri_point t)] else S) ds M) = length M" for ds
    by (induction ds arbitrary: M) (auto simp: Let_def)
  then show ?thesis by (simp add: shift_diagonal_def)
qed

lemma shift_diagonal_entry:
  assumes "length M = n * n" "i < n" "j < n"
  shows "shift_diagonal M n t ! (i * n + j) = (if i = j then ri_sub (M ! (i * n + j)) (ri_point t) else M ! (i * n + j))"
proof -
  let ?f = "\<lambda>d S. let i = d * n + d in if i < length S then S[i := ri_sub (S ! i) (ri_point t)] else S"
  have "length (fold ?f [0..<k] M) = n * n \<and> fold ?f [0..<k] M ! (i * n + j) =
      (if i = j \<and> i < k then ri_sub (M ! (i * n + j)) (ri_point t) else M ! (i * n + j))" if "k \<le> n" for k
    using that
  proof (induction k)
    case (Suc k)
    let ?S = "fold ?f [0..<k] M"
    have "k * n + k < n * n" using Suc.prems row_major_less by simp
    then show ?case using Suc assms by (auto simp: Let_def nth_list_update)
  qed (use assms in simp)
  then show ?thesis using assms by (simp add: shift_diagonal_def)
qed

definition shifted_real :: "(nat \<Rightarrow> nat \<Rightarrow> real) \<Rightarrow> real \<Rightarrow> nat \<Rightarrow> nat \<Rightarrow> real" where
  "shifted_real R t i j = R i j - (if i = j then t else 0)"

lemma shifted_in_matrix:
  assumes "length M = n * n" "in_matrix M n R"
  shows "in_matrix (shift_diagonal M n t) n (shifted_real R (real_of_rat t))"
  using assms encloses_sub[OF _ encloses_point] by (auto simp: in_matrix_def shift_diagonal_entry shifted_real_def)

lemma wf_matrix_shift:
  assumes "length M = n * n" "wf_matrix M"
  shows "wf_matrix (shift_diagonal M n t)"
proof -
  let ?S = "shift_diagonal M n t"
  have entry: "wf_interval (?S ! k)" if k: "k < n * n" for k
  proof -
    have n: "0 < n" using k by (cases n) auto
    then obtain i j where ij: "i < n" "j < n" "k = i * n + j"
      using k that[of "k div n" "k mod n"] by (auto simp: less_mult_imp_div_less)
    have "wf_interval (M ! (i * n + j))" using assms k ij(3) by (simp add: wf_matrix_def)
    then show ?thesis unfolding ij(3) shift_diagonal_entry[OF assms(1) ij(1,2)] by (auto intro: wf_intros)
  qed
  then show ?thesis using assms by (auto simp: wf_matrix_def fits_slice_def in_set_conv_nth)
qed

lemma eigenbasis_shift:
  assumes "eigenbasis n R v lam"
  shows "eigenbasis n (shifted_real R t) v (\<lambda>k. lam k - t)"
proof -
  have "(\<Sum>j < n. shifted_real R t i j * v k j) = (lam k - t) * v k i" if "k < n" "i < n" for k i
  proof -
    have "(\<Sum>j < n. shifted_real R t i j * v k j) = (\<Sum>j < n. R i j * v k j) - (\<Sum>j < n. if i = j then t * v k j else 0)"
      unfolding sum_subtractf[symmetric] by (rule sum.cong) (auto simp: shifted_real_def algebra_simps)
    also have "\<dots> = (lam k - t) * v k i" using assms that by (simp add: eigenbasis_def algebra_simps)
    finally show ?thesis .
  qed
  then show ?thesis using assms by (simp add: eigenbasis_def)
qed

text \<open>What a boundary says: how many eigenvalues lie on either side of the threshold, and that none is equal to it.\<close>

definition counts_at :: "nat \<Rightarrow> (nat \<Rightarrow> real) \<Rightarrow> real \<Rightarrow> nat \<Rightarrow> nat \<Rightarrow> bool" where
  "counts_at n lam t N P \<longleftrightarrow> card {k. k < n \<and> lam k < t} = N \<and> card {k. k < n \<and> t < lam k} = P \<and> (\<forall>k < n. lam k \<noteq> t)"

context inertia_kernel
begin

lemma shifted_counts:
  assumes run: "eliminate (shift_diagonal M n t) n = Inr (ConclusiveInertia P N pv)" and M: "wf_matrix M" "length M = n * n"
    and R: "in_matrix M n R" "eigenbasis n R v lam"
  shows "counts_at n lam (real_of_rat t) N P"
proof -
  have "signature {..<n} (mform {..<n} (shifted_real R (real_of_rat t))) P N"
    using kernel_signature[OF run wf_matrix_shift[OF M(2,1)] shifted_in_matrix[OF M(2) R(1)]] .
  from signature_eigenvalues[OF this eigenbasis_shift[OF R(2)]]
  show ?thesis by (auto simp: counts_at_def)
qed

lemma shifted_accounted:
  assumes "eliminate (shift_diagonal M n t) n = Inr (ConclusiveInertia P N pv)" "wf_matrix M" "length M = n * n"
  shows "P + N = n \<and> length pv = n \<and> (\<forall>I \<in> set pv. wf_interval I)"
  using kernel_accounted[OF assms(1) wf_matrix_shift[OF assms(3,2)]] by (simp add: list_all_iff)

lemma shifted_no_panic: "wf_matrix M \<Longrightarrow> length M = n * n \<Longrightarrow> \<not> panics (eliminate (shift_diagonal M n t) n)"
  by (rule kernel_no_panic) (rule wf_matrix_shift)

end

text \<open>The environment of the certifier: the laws of its parts.\<close>

locale certify_context =
  fixes E :: certify_env
  assumes env_sqrt: "integer_sqrt (isqrt_op E)" and env_mpfr: "directed_mpfr (rug_op E)" and env_text: "rational_text (parse_op E)"
    and env_digest: "matrix_digest_op E n records = Inr d \<Longrightarrow> digest_validate d"

lemma map_fault_Inr: "map_fault f r = Inr x \<longleftrightarrow> r = Inr x" and map_fault_panics: "panics (map_fault f r) \<longleftrightarrow> panics r"
  by (simp_all add: map_fault_simps)

text \<open>The boundary as a function of the elimination it runs.\<close>

definition boundary_of :: "rat \<Rightarrow> nat \<Rightarrow> nat \<Rightarrow> RationalInterval list \<Rightarrow> EigenvalueCountBoundaryCertificate" where
  "boundary_of t P N pv = \<lparr>threshold = rational_record t, count_below = N, positive_above = P, boundary_pivots = map interval_record pv\<rparr>"

definition sound_boundary :: "RationalInterval list \<Rightarrow> nat \<Rightarrow> rat \<Rightarrow> EigenvalueCountBoundaryCertificate \<Rightarrow> bool" where
  "sound_boundary M n t b \<longleftrightarrow> length M = n * n \<and> 0 < n \<and> threshold b = rational_record t \<and> count_below b + positive_above b = n \<and>
     (\<exists>pv. boundary_pivots b = map interval_record pv \<and> length pv = n \<and> (\<forall>I \<in> set pv. wf_interval I)) \<and>
     (\<forall>R v lam. in_matrix M n R \<and> eigenbasis n R v lam \<longrightarrow> counts_at n lam (real_of_rat t) (count_below b) (positive_above b))"

lemma sound_boundaryI:
  assumes "inertia_kernel eliminate" "eliminate (shift_diagonal M n t) n = Inr (ConclusiveInertia P N pv)" "wf_matrix M" "length M = n * n" "0 < n"
  shows "sound_boundary M n t (boundary_of t P N pv)"
  using inertia_kernel.shifted_accounted[OF assms(1-4)] inertia_kernel.shifted_counts[OF assms(1-4)] assms(4,5)
  by (auto simp: sound_boundary_def boundary_of_def)

context certify_context
begin

lemma route_kernel:
  assumes "wf_matrix M" "length M = n * n"
  obtains eliminate :: "RationalInterval list \<Rightarrow> nat \<Rightarrow> CertificateError fault + IntervalInertiaResult" where "inertia_kernel eliminate"
    "\<And>t. (case precision of
        Some p \<Rightarrow> map_fault (failed ''MPFR selected inertia: '') (adapter_inertia_stable (rug_op E) (threads E) (shift_diagonal M n t) n p)
      | None \<Rightarrow> interval_symmetric_ldlt_inertia_with_budget (isqrt_op E) (shift_diagonal M n t) n si eb) = eliminate (shift_diagonal M n t) n"
proof (cases precision)
  case None
  then show ?thesis using that[OF integer_sqrt.exact_is_kernel[OF env_sqrt, of si eb]] by simp
next
  case (Some p)
  let ?k = "\<lambda>M n. map_fault (failed ''MPFR selected inertia: '') (inertia_route (rug_op E) (threads E) M n p True)"
  have "inertia_kernel ?k"
  proof
    fix M n P N pv R r
    show "?k M n = Inr (ConclusiveInertia P N pv) \<Longrightarrow> wf_matrix M \<Longrightarrow> in_matrix M n R \<Longrightarrow> signature {..<n} (mform {..<n} R) P N"
      unfolding map_fault_Inr by (rule inertia_kernel.kernel_signature[OF directed_mpfr.mpfr_is_kernel[OF env_mpfr]])
    show "?k M n = Inr r \<Longrightarrow> wf_matrix M \<Longrightarrow> accounted n r" "wf_matrix M \<Longrightarrow> \<not> panics (?k M n)"
      using inertia_kernel.kernel_accounted[OF directed_mpfr.mpfr_is_kernel[OF env_mpfr, of "threads E" p True], of M n r]
        inertia_kernel.kernel_no_panic[OF directed_mpfr.mpfr_is_kernel[OF env_mpfr, of "threads E" p True], of M n]
      by (auto simp: map_fault_Inr map_fault_panics)
  qed
  then show ?thesis using that[of ?k] Some by (simp add: adapter_inertia_stable_def)
qed

lemma route_cases:
  assumes "wf_matrix M"
  obtains (sound) b where "\<And>name. eigenvalue_count_boundary_route E M n t name si eb precision = Inr b" "sound_boundary M n t b"
  | (raised) "\<And>name. \<exists>reason. eigenvalue_count_boundary_route E M n t name si eb precision = Inl (Raised (name, reason))"
proof (cases "n = 0 \<or> checked_mul n n \<noteq> Some (length M)")
  case True
  then show ?thesis using raised by (auto simp: eigenvalue_count_boundary_route_def)
next
  case False
  then have len: "length M = n * n" "0 < n" by auto
  obtain eliminate :: "RationalInterval list \<Rightarrow> nat \<Rightarrow> CertificateError fault + IntervalInertiaResult" where k: "inertia_kernel eliminate"
    "\<And>t. (case precision of
        Some p \<Rightarrow> map_fault (failed ''MPFR selected inertia: '') (adapter_inertia_stable (rug_op E) (threads E) (shift_diagonal M n t) n p)
      | None \<Rightarrow> interval_symmetric_ldlt_inertia_with_budget (isqrt_op E) (shift_diagonal M n t) n si eb) = eliminate (shift_diagonal M n t) n"
    using route_kernel[OF assms len(1), where precision = precision and si = si and eb = eb] by blast
  have run: "eigenvalue_count_boundary_route E M n t name si eb precision = (case eliminate (shift_diagonal M n t) n of
      Inr (ConclusiveInertia P N pv) \<Rightarrow> Inr (boundary_of t P N pv)
    | Inr (InconclusiveInertia _ _ _ _ _ reason) \<Rightarrow> Inl (Raised (name, reason))
    | Inl (Raised e) \<Rightarrow> Inl (Raised (name, display_CertificateError e))
    | Inl (Panicked m) \<Rightarrow> Inl (Panicked m))" for name
    unfolding eigenvalue_count_boundary_route_def Let_def k(2) boundary_of_def using False by (simp del: checked_mul_Some)
  have np: "\<not> panics (eliminate (shift_diagonal M n t) n)" by (rule inertia_kernel.shifted_no_panic[OF k(1) assms len(1)])
  show ?thesis
  proof (cases "eliminate (shift_diagonal M n t) n")
    case (Inl e)
    then show ?thesis using np raised run by (cases e) auto
  next
    case (Inr r)
    then show ?thesis using sound sound_boundaryI[OF k(1) _ assms len] run raised by (cases r) auto
  qed
qed

lemma route_sound:
  assumes "eigenvalue_count_boundary_route E M n t name si eb precision = Inr b" "wf_matrix M"
  shows "sound_boundary M n t b" "eigenvalue_count_boundary_route E M n t name' si eb precision = Inr b"
proof -
  have "sound_boundary M n t b \<and> eigenvalue_count_boundary_route E M n t name' si eb precision = Inr b"
    by (rule route_cases[OF assms(2), where n = n and t = t and si = si and eb = eb and precision = precision])
      (use assms(1) in \<open>metis Inl_Inr_False sum.inject(2)\<close>)+
  then show "sound_boundary M n t b" "eigenvalue_count_boundary_route E M n t name' si eb precision = Inr b" by auto
qed

lemma route_no_panic: "wf_matrix M \<Longrightarrow> \<not> panics (eigenvalue_count_boundary_route E M n t name si eb precision)"
  by (erule route_cases[where n = n and t = t and si = si and eb = eb and precision = precision]; metis panics.simps(2,3))

end

section \<open>The ordered spectrum\<close>

definition spectrum :: "nat \<Rightarrow> (nat \<Rightarrow> real) \<Rightarrow> real list" where
  "spectrum n lam = sort (map lam [0..<n])"

lemma spectrum_length [simp]: "length (spectrum n lam) = n"
  by (simp add: spectrum_def)

lemma sorted_count_below: "sorted es \<Longrightarrow> k < length es \<Longrightarrow> es ! k < t \<longleftrightarrow> k < length (filter (\<lambda>x. x < t) es)"
proof (induction es arbitrary: k)
  case (Cons e es)
  show ?case
  proof (cases "e < t")
    case True
    then show ?thesis using Cons by (cases k) auto
  next
    case False
    then have "filter (\<lambda>x. x < t) (e # es) = []" using Cons.prems(1) by (auto simp: filter_empty_conv)
    moreover have "e \<le> (e # es) ! k" using Cons.prems by (cases k) auto
    ultimately show ?thesis using False by (auto simp only: list.size(3) not_less_zero not_less)
  qed
qed simp

lemma spectrum_below:
  assumes "counts_at n lam t N P" "k < n"
  shows "spectrum n lam ! k < t \<longleftrightarrow> k < N" "t < spectrum n lam ! k \<longleftrightarrow> N \<le> k"
proof -
  have "length (filter (\<lambda>x. x < t) (spectrum n lam)) = length (filter (\<lambda>x. x < t) (map lam [0..<n]))"
    unfolding spectrum_def filter_sort by simp
  also have "\<dots> = card {k. k < n \<and> lam k < t}" by (simp add: length_filter_conv_card cong: conj_cong)
  finally show less: "spectrum n lam ! k < t \<longleftrightarrow> k < N"
    using sorted_count_below[of "spectrum n lam" k t] assms by (simp add: spectrum_def counts_at_def)
  have "spectrum n lam ! k \<in> lam ` {..<n}" using nth_mem[of k "spectrum n lam"] assms(2) by (auto simp: spectrum_def)
  then have "spectrum n lam ! k \<noteq> t" using assms(1) by (auto simp: counts_at_def)
  then show "t < spectrum n lam ! k \<longleftrightarrow> N \<le> k" using less by auto
qed

lemma count_between:
  assumes "counts_at n lam lo N P" "counts_at n lam up N' P'" "lo < up"
  shows "N \<le> N'" "card {k. k < n \<and> lo < lam k \<and> lam k < up} = N' - N"
proof -
  have "{k. k < n \<and> lam k < up} = {k. k < n \<and> lam k < lo} \<union> {k. k < n \<and> lo < lam k \<and> lam k < up}"
    using assms by (auto simp: counts_at_def linorder_neq_iff)
  moreover have "card ({k. k < n \<and> lam k < lo} \<union> {k. k < n \<and> lo < lam k \<and> lam k < up}) =
      card {k. k < n \<and> lam k < lo} + card {k. k < n \<and> lo < lam k \<and> lam k < up}"
    by (rule card_Un_disjoint) auto
  ultimately show "N \<le> N'" "card {k. k < n \<and> lo < lam k \<and> lam k < up} = N' - N" using assms(1,2) by (auto simp: counts_at_def)
qed

text \<open>The meaning of an enclosure: for every symmetric matrix in the box, the ordered eigenvalues strictly between the ends are
  exactly those with index \<open>first\<close> to \<open>last\<close>.\<close>

definition encloses_indices :: "RationalInterval list \<Rightarrow> nat \<Rightarrow> rat \<Rightarrow> rat \<Rightarrow> nat \<Rightarrow> nat \<Rightarrow> bool" where
  "encloses_indices M n lo up i j \<longleftrightarrow> (\<forall>R v lam. in_matrix M n R \<and> eigenbasis n R v lam \<longrightarrow> (\<forall>k < n.
     real_of_rat lo < spectrum n lam ! k \<and> spectrum n lam ! k < real_of_rat up \<longleftrightarrow> i \<le> k \<and> k \<le> j))"

lemma sound_boundary_counts:
  "sound_boundary M n t b \<Longrightarrow> in_matrix M n R \<Longrightarrow> eigenbasis n R v lam \<Longrightarrow> counts_at n lam (real_of_rat t) (count_below b) (positive_above b)"
  by (auto simp: sound_boundary_def)

lemma sound_boundaries_enclose:
  assumes "sound_boundary M n lo lb" "sound_boundary M n up ub" "0 < count_below ub"
  shows "encloses_indices M n lo up (count_below lb) (count_below ub - 1)"
  unfolding encloses_indices_def
proof (intro allI impI, elim conjE)
  fix R v lam k assume k: "k < n" and R: "in_matrix M n R" "eigenbasis n R v lam"
  note lb = spectrum_below[OF sound_boundary_counts[OF assms(1) R] k] and ub = spectrum_below[OF sound_boundary_counts[OF assms(2) R] k]
  show "real_of_rat lo < spectrum n lam ! k \<and> spectrum n lam ! k < real_of_rat up \<longleftrightarrow> count_below lb \<le> k \<and> k \<le> count_below ub - 1"
    using lb(2) ub(1) assms(3) by auto
qed

section \<open>Bisection\<close>

lemma admit_split_Some:
  "admit_split f lo w ds = Inr (Some (x, b)) \<Longrightarrow> f x ''interior split'' = Inr b \<and> (\<exists>d \<in> set ds. x = lo + w / d)"
  by (induction f lo w ds rule: admit_split.induct) (auto simp: Let_def split: sum.splits fault.splits)

lemma admit_split_no_panic: "(\<And>x name. \<not> panics (f x name)) \<Longrightarrow> \<exists>r. admit_split f lo w ds = Inr r"
  by (induction ds) (auto simp: Let_def split: sum.splits fault.splits dest: arg_cong[where f = panics])

definition bisection_inv :: "boundary_fun \<Rightarrow> nat \<Rightarrow> rat \<Rightarrow> rat \<Rightarrow> nat \<Rightarrow> bisection_state \<Rightarrow> bool" where
  "bisection_inv f index lo up maximum s \<longleftrightarrow> (\<exists>name. f (bis_lower s) name = Inr (bis_lower_boundary s)) \<and>
     (\<exists>name. f (bis_upper s) name = Inr (bis_upper_boundary s)) \<and>
     count_below (bis_lower_boundary s) \<le> index \<and> index < count_below (bis_upper_boundary s) \<and>
     bis_lower s < bis_upper s \<and> lo \<le> bis_lower s \<and> bis_upper s \<le> up \<and> bis_steps s \<le> maximum"

lemma bisection_step:
  assumes "bisection_inv f index lo up maximum s" "bis_steps s < maximum"
    "admit_split f (bis_lower s) (bis_upper s - bis_lower s) [2, 3, 5, 7, 11, 13, 17, 19] = Inr (Some (x, b))"
  shows "bisection_inv f index lo up maximum
    (if count_below b \<le> index then s\<lparr>bis_lower := x, bis_lower_boundary := b, bis_steps := bis_steps s + 1\<rparr>
     else s\<lparr>bis_upper := x, bis_upper_boundary := b, bis_steps := bis_steps s + 1\<rparr>)"
proof -
  obtain d where d: "d \<in> set [2, 3, 5, 7, 11, 13, 17, 19]" "x = bis_lower s + (bis_upper s - bis_lower s) / d" and
    b: "f x ''interior split'' = Inr b" using admit_split_Some[OF assms(3)] by blast
  have w: "0 < bis_upper s - bis_lower s" using assms(1) by (simp add: bisection_inv_def)
  have "1 < d" using d(1) by auto
  then have "0 < (bis_upper s - bis_lower s) / d" "(bis_upper s - bis_lower s) / d < bis_upper s - bis_lower s"
    using w by (simp_all add: divide_less_eq)
  then have "bis_lower s < x" "x < bis_upper s" using d(2) by linarith+
  then show ?thesis using assms(1,2) b by (auto simp: bisection_inv_def)
qed

lemma bisect_correct:
  assumes np: "\<And>x name. \<not> panics (f x name)"
  shows "bisection_inv f index lo up maximum s \<Longrightarrow> \<exists>r. bisect f index width maximum s = Inr r \<and>
    (\<forall>s'. r = Inr s' \<longrightarrow> bisection_inv f index lo up maximum s' \<and> bis_upper s' - bis_lower s' \<le> width) \<and>
    (\<forall>e. r = Inl e \<longrightarrow> fst e \<in> {''bisection'', ''interior splits''})"
proof (induction "maximum - bis_steps s" arbitrary: s rule: less_induct)
  case less
  show ?case
  proof (cases "width < bis_upper s - bis_lower s \<and> bis_steps s < maximum")
    case False
    then show ?thesis using less.prems by (subst bisect.simps) auto
  next
    case True
    obtain r where r: "admit_split f (bis_lower s) (bis_upper s - bis_lower s) [2, 3, 5, 7, 11, 13, 17, 19] = Inr r"
      using admit_split_no_panic[of f, OF np] by blast
    show ?thesis
    proof (cases r)
      case None
      then show ?thesis using True r by (subst bisect.simps) simp
    next
      case (Some xb)
      obtain x b where xb: "xb = (x, b)" by (cases xb)
      let ?s = "if count_below b \<le> index then s\<lparr>bis_lower := x, bis_lower_boundary := b, bis_steps := bis_steps s + 1\<rparr>
        else s\<lparr>bis_upper := x, bis_upper_boundary := b, bis_steps := bis_steps s + 1\<rparr>"
      have step: "bisect f index width maximum s = bisect f index width maximum ?s"
        using True r Some xb by (subst bisect.simps) simp
      show ?thesis unfolding step
        using True less.prems r Some xb by (intro less.hyps bisection_step) auto
    qed
  qed
qed

context certify_context
begin

lemma route_returns:
  assumes "wf_matrix M"
  shows "(\<exists>b. eigenvalue_count_boundary_route E M n t name si eb precision = Inr b) \<or>
    (\<exists>reason. eigenvalue_count_boundary_route E M n t name si eb precision = Inl (Raised (name, reason)))"
  by (rule route_cases[OF assms, where n = n and t = t and si = si and eb = eb and precision = precision]) blast+

text \<open>A run of the selected-eigenvalue certifier either stops with a message or ends in a bisection state that keeps the invariant.\<close>

lemma selected_run:
  assumes "wf_matrix M"
  obtains (stopped) b reason where "b \<noteq> ''reconciliation''"
    "certify_selected_interval_eigenvalue_route E M n index lo up width maximum precision = Inr (InconclusiveSelected b reason)"
  | (done_) s where "bis_upper s - bis_lower s \<le> width"
    "bisection_inv (\<lambda>x name. eigenvalue_count_boundary_route E M n x name True True precision) index lo up maximum s"
    "certify_selected_interval_eigenvalue_route E M n index lo up width maximum precision = Inr (selected_result E M n index precision s)"
proof -
  let ?f = "\<lambda>x name. eigenvalue_count_boundary_route E M n x name True True precision"
  let ?run = "certify_selected_interval_eigenvalue_route E M n index lo up width maximum precision"
  show ?thesis
  proof (cases "\<exists>b reason. b \<noteq> ''reconciliation'' \<and> ?run = Inr (InconclusiveSelected b reason)")
    case True
    then show ?thesis using stopped by blast
  next
    case False
    have stop: "\<not> (\<exists>reason. ?run = Inr (InconclusiveSelected b reason))" if "b \<noteq> ''reconciliation''" for b using False that by blast
    have lt: "lo < up" using stop[of "''configuration''"] by (cases "up \<le> lo") (simp_all add: certify_selected_interval_eigenvalue_route_def)
    have run: "?run = or_return (?f lo ''lower'') (\<lambda>(b, reason). InconclusiveSelected b reason) (\<lambda>lb.
        or_return (?f up ''upper'') (\<lambda>(b, reason). InconclusiveSelected b reason) (\<lambda>ub.
        if index < count_below lb \<or> count_below ub \<le> index
        then Inr (InconclusiveSelected ''bracket'' (''initial shifted-inertia counts ['' @ show_nat (count_below lb) @ '', '' @
          show_nat (count_below ub) @ ''] do not enclose eigenvalue index '' @ show_nat index))
        else bind_result (bisect ?f index width maximum
            \<lparr>bis_lower = lo, bis_upper = up, bis_lower_boundary = lb, bis_upper_boundary = ub, bis_steps = 0\<rparr>) (\<lambda>outcome.
          case outcome of
            Inl e \<Rightarrow> Inr (InconclusiveSelected (fst e) (snd e))
          | Inr s \<Rightarrow> Inr (selected_result E M n index precision s))))"
      using stop[of "''configuration''"] unfolding certify_selected_interval_eigenvalue_route_def Let_def by (simp split: if_split_asm)
    obtain lb where lb: "?f lo ''lower'' = Inr lb"
      using route_returns[OF assms, of n lo "''lower''" True True precision] stop[of "''lower''"] run by auto
    obtain ub where ub: "?f up ''upper'' = Inr ub"
      using route_returns[OF assms, of n up "''upper''" True True precision] stop[of "''upper''"] run lb by auto
    let ?s = "\<lparr>bis_lower = lo, bis_upper = up, bis_lower_boundary = lb, bis_upper_boundary = ub, bis_steps = 0\<rparr>"
    have idx: "count_below lb \<le> index" "index < count_below ub" using stop[of "''bracket''"] run lb ub by (auto split: if_splits)
    have "bisection_inv ?f index lo up maximum ?s" using lb ub idx lt by (auto simp: bisection_inv_def)
    from bisect_correct[of ?f, OF route_no_panic[OF assms] this, of width] obtain r where
      r: "bisect ?f index width maximum ?s = Inr r" "\<And>e. r = Inl e \<Longrightarrow> fst e \<in> {''bisection'', ''interior splits''}"
        "\<And>s. r = Inr s \<Longrightarrow> bisection_inv ?f index lo up maximum s \<and> bis_upper s - bis_lower s \<le> width" by blast
    show ?thesis
    proof (cases r)
      case (Inl e)
      then show ?thesis using stop[of "fst e"] run lb ub idx r(1) r(2)[OF Inl] by auto
    next
      case (Inr s)
      then show ?thesis using done_[of s] run lb ub idx r by simp
    qed
  qed
qed

lemma selected_route_sound:
  assumes "certify_selected_interval_eigenvalue_route E M n index lo up width maximum precision = Inr (ConclusiveSelected c)" "wf_matrix M"
  obtains lo' up' where "lo \<le> lo'" "lo' < up'" "up' \<le> up" "up' - lo' \<le> width" "bisection_steps c \<le> maximum"
    "enclosure_lower c = rational_record lo'" "enclosure_upper c = rational_record up'" "inertia_precision_bits c = precision"
    "eigenvalue_count_boundary_route E M n lo' ''lower'' True True precision = Inr (lower_boundary c)"
    "eigenvalue_count_boundary_route E M n up' ''upper'' True True precision = Inr (upper_boundary c)"
    "count_below (lower_boundary c) \<le> index" "index < count_below (upper_boundary c)"
    "first_enclosed_index c = count_below (lower_boundary c)" "last_enclosed_index c = count_below (upper_boundary c) - 1"
    "requested_index c = index" "enclosure_dimension c = n" "simple c \<longleftrightarrow> first_enclosed_index c = last_enclosed_index c"
    "exact_interval_matrix_digest E M n = Inr (enclosure_matrix_digest c)"
proof -
  let ?f = "\<lambda>x name. eigenvalue_count_boundary_route E M n x name True True precision"
  obtain s where inv: "bisection_inv ?f index lo up maximum s" "bis_upper s - bis_lower s \<le> width"
    and fin: "selected_result E M n index precision s = ConclusiveSelected c"
    by (rule selected_run[OF assms(2), where n = n and index = index and lo = lo and up = up and width = width and maximum = maximum
          and precision = precision]) (use assms(1) in auto)
  then obtain na nb where at: "?f (bis_lower s) na = Inr (bis_lower_boundary s)" "?f (bis_upper s) nb = Inr (bis_upper_boundary s)"
    by (auto simp: bisection_inv_def)
  have "count_below (bis_upper_boundary s) - count_below (bis_lower_boundary s) = Suc 0 \<longleftrightarrow>
      count_below (bis_lower_boundary s) = count_below (bis_upper_boundary s) - Suc 0"
    using inv(1) by (auto simp: bisection_inv_def)
  then show ?thesis
    using that[of "bis_lower s" "bis_upper s"] inv fin route_sound(2)[OF at(1) assms(2), of "''lower''"] route_sound(2)[OF at(2) assms(2), of "''upper''"]
    by (auto simp: bisection_inv_def selected_result_def checked_sub_def split: if_splits sum.splits)
qed

lemma selected_route_total:
  assumes "wf_matrix M"
  shows "\<not> panics (certify_selected_interval_eigenvalue_route E M n index lo up width maximum precision)"
    "certify_selected_interval_eigenvalue_route E M n index lo up width maximum precision \<noteq> Inr (InconclusiveSelected ''reconciliation'' reason)"
proof -
  have "selected_result E M n index precision s \<noteq> InconclusiveSelected ''reconciliation'' reason"
    if "bisection_inv f index lo up maximum s" for f s
    using that by (auto simp: bisection_inv_def selected_result_def checked_sub_def split: sum.splits)
  then show "\<not> panics (certify_selected_interval_eigenvalue_route E M n index lo up width maximum precision)"
    "certify_selected_interval_eigenvalue_route E M n index lo up width maximum precision \<noteq> Inr (InconclusiveSelected ''reconciliation'' reason)"
    by (rule_tac [!] selected_run[OF assms, where n = n and index = index and lo = lo and up = up and width = width and maximum = maximum
          and precision = precision]) auto
qed

end

section \<open>Properties\<close>

lemma below_result_Inr:
  "below_result n r = Inr (ConclusiveCount c) \<longleftrightarrow> (\<exists>b. r = Inr b \<and> c = \<lparr>count_dimension = n, count_lower_boundary = None, count_upper_boundary = b,
     eigenvalue_count = count_below b, interval_semantics = ''(-infinity, upper)''\<rparr>)"
  by (auto simp: below_result_def result_simps)

lemma open_interval_result_Inr:
  assumes "open_interval_result n m r r' = Inr (ConclusiveCount c)"
  obtains lb ub where "r = Inr lb" "r' = Inr ub" "count_below lb \<le> count_below ub" "eigenvalue_count c = count_below ub - count_below lb"
  using assms by (auto simp: open_interval_result_def result_simps checked_sub_def split: if_splits)

text \<open>C18. Certified eigenvalue counts are correct, for the exact and the MPFR route: when a count is reported below a threshold or
  inside an open interval, every symmetric matrix in the interval matrix has exactly that many eigenvalues there (with multiplicity), and
  none on the threshold. No route panics.\<close>

theorem eigenvalue_counts_sound:
  assumes "certify_context E" "wf_matrix M" "in_matrix M n R" "eigenbasis n R v lam"
    and left_run: "left_run \<in> {certify_interval_matrix_eigenvalues_below E M n t, certify_interval_matrix_eigenvalues_below_mpfr E M n t p}"
    and window_run: "window_run \<in> {certify_interval_matrix_eigenvalues_in_open_interval E M n lo up,
      certify_interval_matrix_eigenvalues_in_open_interval_mpfr E M n lo up p}"
  shows "(\<forall>c. left_run = Inr (ConclusiveCount c) \<longrightarrow>
      card {k. k < n \<and> lam k < real_of_rat t} = eigenvalue_count c \<and> (\<forall>k < n. lam k \<noteq> real_of_rat t)) \<and>
    (\<forall>c. window_run = Inr (ConclusiveCount c) \<longrightarrow>
      card {k. k < n \<and> real_of_rat lo < lam k \<and> lam k < real_of_rat up} = eigenvalue_count c) \<and>
    \<not> panics left_run \<and> \<not> panics window_run"
proof (intro conjI allI impI)
  let ?r = "\<lambda>x name q. eigenvalue_count_boundary_route E M n x name True True q"
  note sound = certify_context.route_sound(1)[OF assms(1) _ assms(2), THEN sound_boundary_counts, OF _ assms(3,4)]
  note np = certify_context.route_no_panic[OF assms(1,2)]
  obtain q where left_run': "left_run = below_result n (?r t ''upper'' q)"
    using left_run by (auto simp: certify_interval_matrix_eigenvalues_below_def certify_interval_matrix_eigenvalues_below_mpfr_def
        eigenvalue_count_boundary_def eigenvalue_count_boundary_impl_def)
  obtain q' m m' where window_run': "window_run = (if up \<le> lo then Inr (InconclusiveCount ''configuration'' m)
      else open_interval_result n m' (?r lo ''lower'' q') (?r up ''upper'' q'))"
    using window_run unfolding certify_interval_matrix_eigenvalues_in_open_interval_def certify_interval_matrix_eigenvalues_in_open_interval_mpfr_def
      eigenvalue_count_boundary_def eigenvalue_count_boundary_impl_def by blast
  { fix c assume "left_run = Inr (ConclusiveCount c)"
    then have "counts_at n lam (real_of_rat t) (eigenvalue_count c) (positive_above (count_upper_boundary c))"
      using sound by (auto simp: left_run' below_result_Inr)
    then show "card {k. k < n \<and> lam k < real_of_rat t} = eigenvalue_count c" "\<And>k. k < n \<Longrightarrow> lam k \<noteq> real_of_rat t"
      by (auto simp: counts_at_def) }
  { fix c assume "window_run = Inr (ConclusiveCount c)"
    then have lt: "lo < up" and run: "open_interval_result n m' (?r lo ''lower'' q') (?r up ''upper'' q') = Inr (ConclusiveCount c)"
      by (auto simp: window_run' split: if_splits)
    from run obtain lb ub where b: "?r lo ''lower'' q' = Inr lb" "?r up ''upper'' q' = Inr ub" "eigenvalue_count c = count_below ub - count_below lb"
      by (rule open_interval_result_Inr)
    show "card {k. k < n \<and> real_of_rat lo < lam k \<and> lam k < real_of_rat up} = eigenvalue_count c"
      using count_between(2)[OF sound[OF b(1)] sound[OF b(2)]] lt b(3) by (simp add: of_rat_less) }
  show "\<not> panics left_run" "\<not> panics window_run"
    using np by (auto simp: left_run' below_result_def window_run' open_interval_result_def or_return_panics split: option.splits)
qed

definition sample_env :: certify_env where
  "sample_env = \<lparr>isqrt_op = isqrt_ref, rug_op = reference_rug, threads = serial_env, parse_op = reference_parse,
     matrix_digest_op = (\<lambda>n records. Inr (ContentDigest (replicate 64 CHR ''0'')))\<rparr>"

lemma sample_digest: "digest_validate (ContentDigest (replicate 64 CHR ''0''))"
  by code_simp

interpretation sample: certify_context sample_env
  using sample_digest ref_sqrt.integer_sqrt_axioms ref_mpfr.directed_mpfr_axioms ref_text.rational_text_axioms
  by (auto simp: sample_env_def intro!: certify_context.intro)

lemma saddle_wf: "wf_matrix saddle_box"
  by (simp add: wf_matrix_def saddle_box_def fits_slice_def isize_max_def wf_interval_def)

lemma saddle_in_matrix: "in_matrix saddle_box 2 saddle"
  using saddle_in_box by (auto simp: in_matrix_def saddle_def)

lemma saddle_shift_zero: "shift_diagonal saddle_box 2 0 = saddle_box"
  by (simp add: shift_diagonal_def saddle_box_def numeral_2_eq_2 ri_sub_def ri_point_def)

lemma saddle_boundary_zero:
  "\<exists>b. eigenvalue_count_boundary_route sample_env saddle_box 2 0 name True True None = Inr b \<and> count_below b = 1"
proof -
  obtain pv where "interval_symmetric_ldlt_inertia isqrt_ref saddle_box 2 = Inr (ConclusiveInertia 1 1 pv)" using saddle_box_conclusive by blast
  then have "interval_symmetric_ldlt_inertia_with_budget isqrt_ref saddle_box 2 True True = Inr (ConclusiveInertia 1 1 pv)"
    by (simp add: ldlt_entry_defs)
  moreover have "checked_mul 2 2 = Some (length saddle_box)" by (simp add: saddle_box_def usize_max_def)
  ultimately show ?thesis
    by (simp add: eigenvalue_count_boundary_route_def saddle_shift_zero sample_env_def del: checked_mul_Some)
qed

theorem eigenvalue_counts_sound_witness:
  "\<exists>c. certify_interval_matrix_eigenvalues_below sample_env saddle_box 2 0 = Inr (ConclusiveCount c) \<and> eigenvalue_count c = 1 \<and>
     card {k. k < 2 \<and> (if k = (0::nat) then 2 else -1 :: real) < 0} = eigenvalue_count c"
proof -
  obtain b where b: "eigenvalue_count_boundary_route sample_env saddle_box 2 0 ''upper'' True True None = Inr b" "count_below b = 1"
    using saddle_boundary_zero by blast
  then obtain c where c: "certify_interval_matrix_eigenvalues_below sample_env saddle_box 2 0 = Inr (ConclusiveCount c)" "eigenvalue_count c = 1"
    by (simp add: certify_interval_matrix_eigenvalues_below_def eigenvalue_count_boundary_def eigenvalue_count_boundary_impl_def below_result_def)
  from eigenvalue_counts_sound[OF sample.certify_context_axioms saddle_wf saddle_in_matrix saddle_eigenbasis insertI1 insertI1, of 0, THEN conjunct1, rule_format, OF c(1)]
  show ?thesis using c by auto
qed

text \<open>C19. A selected-eigenvalue certificate encloses what it says: for every symmetric matrix in the interval matrix, the ordered
  eigenvalues strictly inside the returned interval are exactly those with the recorded first to last index; the requested index is among them, the
  interval lies in the initial bracket, is no wider than the target, took at most the allowed steps, and is simple exactly when it holds one
  eigenvalue. The bisection always ends, without a panic, and its reconciliation failures are unreachable.\<close>

theorem selected_enclosure_sound:
  assumes "certify_context E" "wf_matrix M"
    and run: "run = certify_selected_interval_eigenvalue_route E M n index lo up width maximum precision"
  shows "\<not> panics run \<and> (\<forall>reason. run \<noteq> Inr (InconclusiveSelected ''reconciliation'' reason)) \<and>
   (\<forall>c. run = Inr (ConclusiveSelected c) \<longrightarrow> (\<exists>lo' up'. enclosure_lower c = rational_record lo' \<and> enclosure_upper c = rational_record up' \<and>
    lo \<le> lo' \<and> lo' < up' \<and> up' \<le> up \<and> up' - lo' \<le> width \<and> bisection_steps c \<le> maximum \<and>
    first_enclosed_index c \<le> index \<and> index \<le> last_enclosed_index c \<and> last_enclosed_index c < n \<and>
    (simple c \<longleftrightarrow> first_enclosed_index c = last_enclosed_index c) \<and>
    encloses_indices M n lo' up' (first_enclosed_index c) (last_enclosed_index c)))"
proof (intro conjI allI impI)
  show "\<not> panics run" "\<And>reason. run \<noteq> Inr (InconclusiveSelected ''reconciliation'' reason)"
    unfolding run by (rule certify_context.selected_route_total[OF assms(1,2)])+
  fix c assume c: "run = Inr (ConclusiveSelected c)"
  obtain lo' up' where s: "lo \<le> lo'" "lo' < up'" "up' \<le> up" "up' - lo' \<le> width" "bisection_steps c \<le> maximum"
    "enclosure_lower c = rational_record lo'" "enclosure_upper c = rational_record up'"
    "eigenvalue_count_boundary_route E M n lo' ''lower'' True True precision = Inr (lower_boundary c)"
    "eigenvalue_count_boundary_route E M n up' ''upper'' True True precision = Inr (upper_boundary c)"
    "count_below (lower_boundary c) \<le> index" "index < count_below (upper_boundary c)"
    "first_enclosed_index c = count_below (lower_boundary c)" "last_enclosed_index c = count_below (upper_boundary c) - 1"
    "simple c \<longleftrightarrow> first_enclosed_index c = last_enclosed_index c"
    using certify_context.selected_route_sound[OF assms(1) c[unfolded run] assms(2)] by metis
  note b = certify_context.route_sound(1)[OF assms(1) s(8) assms(2)] certify_context.route_sound(1)[OF assms(1) s(9) assms(2)]
  have "count_below (upper_boundary c) \<le> n" using b(2) by (auto simp: sound_boundary_def)
  then show "\<exists>lo' up'. enclosure_lower c = rational_record lo' \<and> enclosure_upper c = rational_record up' \<and>
    lo \<le> lo' \<and> lo' < up' \<and> up' \<le> up \<and> up' - lo' \<le> width \<and> bisection_steps c \<le> maximum \<and>
    first_enclosed_index c \<le> index \<and> index \<le> last_enclosed_index c \<and> last_enclosed_index c < n \<and>
    (simple c \<longleftrightarrow> first_enclosed_index c = last_enclosed_index c) \<and>
    encloses_indices M n lo' up' (first_enclosed_index c) (last_enclosed_index c)"
    using s sound_boundaries_enclose[OF b] by (intro exI[of _ lo'] exI[of _ up']) auto
qed

text \<open>A sample run on the one-entry matrix with entry 1: the midpoint 1 of the bracket from 0 to 2 is itself the eigenvalue, so the
  third is taken instead, and a second split reaches the target width 1.\<close>

lemma unit_quotients:
  "quotient_of (1 / 3) = (1, 3)" "quotient_of (- 1 / 3) = (-1, 3)" "quotient_of (- 1) = (-1, 1)" "quotient_of 1 = (1, 1)" "quotient_of 0 = (0, 1)"
  by code_simp+

lemma unit_admitted:
  "exact_interval_workspace_admitted [ri_point 0]" "exact_interval_workspace_admitted [ri_point 1]"
  "exact_interval_workspace_admitted [ri_point (-1)]" "exact_interval_workspace_admitted [ri_point (1/3)]"
  "exact_interval_workspace_admitted [ri_point (-1/3)]"
  unfolding exact_interval_workspace_admitted_def ri_point_def
  by (simp_all add: unit_quotients[simplified] significant_bits_def significant_bits_nat.simps)

lemma unit_box_steps: "symmetric_rows 1 [I] (lower_pairs 1) = None" "one_by_one_update 1 0 I [I] = Inr [I]"
  by code_simp+

lemmas unit_box_defs = interval_symmetric_ldlt_inertia_with_budget_def saturating_mul_def usize_max_def ldlt_loop.simps

lemma unit_box_run:
  assumes "exact_interval_workspace_admitted [ri_point x]"
  shows "0 < x \<Longrightarrow> interval_symmetric_ldlt_inertia_with_budget s [ri_point x] 1 True True = Inr (ConclusiveInertia 1 0 [ri_point x])"
    "x < 0 \<Longrightarrow> interval_symmetric_ldlt_inertia_with_budget s [ri_point x] 1 True True = Inr (ConclusiveInertia 0 1 [ri_point x])"
  using assms unit_box_steps
  by (simp_all add: unit_box_defs symmetric_swap_def count_sign_def strict_sign_def ri_point_def ri_is_strictly_positive_def ri_is_strictly_negative_def)

lemma unit_zero_run:
  "\<exists>a b c d e f. interval_symmetric_ldlt_inertia_with_budget s [ri_point 0] 1 True True = Inr (InconclusiveInertia a b c d e f)"
proof -
  have "search_pairs 0 1 = []" "find (\<lambda>candidate. strict_sign ([ri_point 0] ! (candidate * 1 + candidate))) [0..<1] = None" by code_simp+
  then show ?thesis using unit_admitted(1) unit_box_steps by (simp add: unit_box_defs)
qed

definition unit_box :: "RationalInterval list" where
  "unit_box = [ri_point 1]"

lemma unit_shift: "shift_diagonal unit_box (Suc 0) t = [ri_point (1 - t)]"
  by (simp add: shift_diagonal_def unit_box_def ri_sub_def ri_point_def)

lemma unit_size: "checked_mul (Suc 0) (Suc 0) = Some (length unit_box)"
  by (simp add: unit_box_def usize_max_def)

definition unit_boundary :: "rat \<Rightarrow> nat \<Rightarrow> EigenvalueCountBoundaryCertificate" where
  "unit_boundary t N = boundary_of t (1 - N) N [ri_point (1 - t)]"

lemma unit_boundary_run:
  assumes "exact_interval_workspace_admitted [ri_point (1 - t)]"
  shows "t < 1 \<Longrightarrow> eigenvalue_count_boundary_route sample_env unit_box 1 t name True True None = Inr (unit_boundary t 0)"
    "1 < t \<Longrightarrow> eigenvalue_count_boundary_route sample_env unit_box 1 t name True True None = Inr (unit_boundary t 1)"
  using unit_box_run[OF assms]
  by (simp_all add: eigenvalue_count_boundary_route_def unit_shift unit_size sample_env_def unit_boundary_def boundary_of_def del: checked_mul_Some)

lemma unit_boundary_runs:
  "eigenvalue_count_boundary_route sample_env unit_box 1 0 name True True None = Inr (unit_boundary 0 0)"
  "eigenvalue_count_boundary_route sample_env unit_box 1 2 name True True None = Inr (unit_boundary 2 1)"
  "eigenvalue_count_boundary_route sample_env unit_box 1 (2/3) name True True None = Inr (unit_boundary (2/3) 0)"
  "eigenvalue_count_boundary_route sample_env unit_box 1 (4/3) name True True None = Inr (unit_boundary (4/3) 1)"
  using unit_boundary_run unit_admitted by simp_all

lemma unit_boundary_one: "\<exists>reason. eigenvalue_count_boundary_route sample_env unit_box 1 1 name True True None = Inl (Raised (name, reason))"
  using unit_zero_run[of isqrt_ref] by (auto simp: eigenvalue_count_boundary_route_def unit_shift unit_size sample_env_def simp del: checked_mul_Some)

lemma unit_selected_run:
  "\<exists>c. certify_selected_interval_eigenvalue_route sample_env unit_box 1 0 0 2 1 5 None = Inr (ConclusiveSelected c) \<and>
     enclosure_lower c = rational_record (2/3) \<and> enclosure_upper c = rational_record (4/3) \<and> bisection_steps c = 2 \<and> simple c"
proof -
  let ?f = "\<lambda>x name. eigenvalue_count_boundary_route sample_env unit_box 1 x name True True None"
  obtain reason where one: "?f 1 ''interior split'' = Inl (Raised (''interior split'', reason))" using unit_boundary_one by blast
  have splits: "admit_split ?f 0 2 [2, 3, 5, 7, 11, 13, 17, 19] = Inr (Some (2/3, unit_boundary (2/3) 0))"
    "admit_split ?f (2/3) (4/3) [2, 3, 5, 7, 11, 13, 17, 19] = Inr (Some (4/3, unit_boundary (4/3) 1))"
    using one unit_boundary_runs by (simp_all add: Let_def)
  have counts: "count_below (unit_boundary t N) = N" for t N by (simp add: unit_boundary_def boundary_of_def)
  have "bisect ?f 0 1 5 \<lparr>bis_lower = 0, bis_upper = 2, bis_lower_boundary = unit_boundary 0 0, bis_upper_boundary = unit_boundary 2 1, bis_steps = 0\<rparr>
     = bisect ?f 0 1 5 \<lparr>bis_lower = 2/3, bis_upper = 2, bis_lower_boundary = unit_boundary (2/3) 0, bis_upper_boundary = unit_boundary 2 1, bis_steps = 1\<rparr>"
    by (subst bisect.simps) (simp add: splits[simplified] counts)
  also have "\<dots> = bisect ?f 0 1 5
      \<lparr>bis_lower = 2/3, bis_upper = 4/3, bis_lower_boundary = unit_boundary (2/3) 0, bis_upper_boundary = unit_boundary (4/3) 1, bis_steps = 2\<rparr>"
    by (subst bisect.simps) (simp add: splits[simplified] counts numeral_2_eq_2)
  also have "\<dots> = Inr (Inr
      \<lparr>bis_lower = 2/3, bis_upper = 4/3, bis_lower_boundary = unit_boundary (2/3) 0, bis_upper_boundary = unit_boundary (4/3) 1, bis_steps = 2\<rparr>)"
    by (subst bisect.simps) simp
  finally have bis: "bisect ?f 0 1 5 \<lparr>bis_lower = 0, bis_upper = 2, bis_lower_boundary = unit_boundary 0 0, bis_upper_boundary = unit_boundary 2 1, bis_steps = 0\<rparr> = \<dots>" .
  have "length unit_box = saturating_mul 1 1" by (simp add: unit_box_def saturating_mul_def usize_max_def)
  then show ?thesis using bis unit_boundary_runs
    by (simp add: certify_selected_interval_eigenvalue_route_def counts selected_result_def checked_sub_def exact_interval_matrix_digest_def sample_env_def)
qed

lemma rational_record_inject: "rational_record x = rational_record y \<Longrightarrow> x = y"
  by (metis ref_text.parse_rational_record sum.inject(2))

lemma unit_wf: "wf_matrix unit_box"
  by (simp add: wf_matrix_def unit_box_def fits_slice_def isize_max_def wf_interval_def ri_point_def)

theorem selected_enclosure_sound_witness:
  "\<exists>c. certify_selected_interval_eigenvalue_route sample_env unit_box 1 0 0 2 1 5 None = Inr (ConclusiveSelected c) \<and>
     bisection_steps c = 2 \<and> first_enclosed_index c = 0 \<and> last_enclosed_index c = 0 \<and> encloses_indices unit_box 1 (2/3) (4/3) 0 0"
proof -
  obtain c where c: "certify_selected_interval_eigenvalue_route sample_env unit_box 1 0 0 2 1 5 None = Inr (ConclusiveSelected c)"
     "enclosure_lower c = rational_record (2/3)" "enclosure_upper c = rational_record (4/3)" "bisection_steps c = 2" "simple c"
    using unit_selected_run by blast
  from selected_enclosure_sound[OF sample.certify_context_axioms unit_wf refl, THEN conjunct2, THEN conjunct2, rule_format, OF c(1)]
  obtain lo' up' where e: "rational_record (2/3) = rational_record lo'" "rational_record (4/3) = rational_record up'"
     "first_enclosed_index c = 0" "last_enclosed_index c = 0" "encloses_indices unit_box 1 lo' up' 0 0"
    using c by auto
  then have "lo' = 2/3" "up' = 4/3" using rational_record_inject by blast+
  then show ?thesis using e c by blast
qed

end
