(* ===== verification/Eigenvalue_Certificates.thy ===== *)
theory Eigenvalue_Certificates
  imports Eigenvalue_Count
begin

text \<open>
  The replaying verifiers of \<open>crates/xc-certify/src/lib.rs\<close>: the structural check of a selected-eigenvalue enclosure, its replay
  against a matrix, the portable certificate that carries its own matrix, and the exact spectral gap between two enclosures.

  The theorems take the certificate as it comes, from anywhere: acceptance alone makes the claim about the matrix true. The producer's own
  certificates are accepted.
\<close>

section \<open>Definitions\<close>

record VerificationReport =
  valid :: bool
  mathematical_claim_verified :: bool
  checks :: "string list"
  warnings :: "string list"
  errors :: "string list"

text \<open>The report of a failed check, with its one error message.\<close>

definition failure_report :: "string \<Rightarrow> VerificationReport" where
  "failure_report message =
     \<lparr>valid = False, mathematical_claim_verified = False, checks = [], warnings = [], errors = [message]\<rparr>"

text \<open>\<open>r.is_ok_and(p)\<close>, with panics passed on.\<close>

fun is_ok_and :: "'e fault + 'a \<Rightarrow> ('a \<Rightarrow> bool) \<Rightarrow> 'f fault + bool" where
  "is_ok_and (Inr x) p = Inr (p x)"
| "is_ok_and (Inl (Raised e)) p = Inr False"
| "is_ok_and (Inl (Panicked m)) p = Inl (Panicked m)"

subsection \<open>Selected eigenvalues\<close>

definition validate_selected_eigenvalue_enclosure ::
  "certify_env \<Rightarrow> ExactSelectedEigenvalueEnclosure \<Rightarrow> CertificateError + rat \<times> rat" where
  "validate_selected_eigenvalue_enclosure E c =
     (if enclosure_dimension c = 0 \<or> enclosure_dimension c \<le> requested_index c \<or> requested_index c < first_enclosed_index c \<or>
         last_enclosed_index c < requested_index c \<or> enclosure_dimension c \<le> last_enclosed_index c
      then Inl (InvalidCertificate ''selected-eigenvalue certificate has inconsistent dimensions or indices'')
      else if \<not> digest_validate (enclosure_matrix_digest c)
      then Inl (InvalidCertificate ''selected-eigenvalue certificate has an invalid matrix digest'')
      else if count_below (lower_boundary c) \<noteq> first_enclosed_index c \<or>
         count_below (upper_boundary c) \<noteq> saturating_add (last_enclosed_index c) 1 \<or>
         checked_add (count_below (lower_boundary c)) (positive_above (lower_boundary c)) \<noteq> Some (enclosure_dimension c) \<or>
         checked_add (count_below (upper_boundary c)) (positive_above (upper_boundary c)) \<noteq> Some (enclosure_dimension c) \<or>
         length (boundary_pivots (lower_boundary c)) \<noteq> enclosure_dimension c \<or>
         length (boundary_pivots (upper_boundary c)) \<noteq> enclosure_dimension c \<or>
         simple c \<noteq> (first_enclosed_index c = last_enclosed_index c)
      then Inl (VerificationFailed ''selected-eigenvalue index, count, pivot, or multiplicity evidence is inconsistent'')
      else
        let mismatch = Inl (VerificationFailed ''selected-eigenvalue endpoints and boundary thresholds are inconsistent'') in
        bind_result (parse_record (parse_op E) (enclosure_lower c)) (\<lambda>lo.
        bind_result (parse_record (parse_op E) (enclosure_upper c)) (\<lambda>up.
        if up \<le> lo then mismatch else
        bind_result (parse_record (parse_op E) (threshold (lower_boundary c))) (\<lambda>lt.
        if lt \<noteq> lo then mismatch else
        bind_result (parse_record (parse_op E) (threshold (upper_boundary c))) (\<lambda>ut.
        if ut \<noteq> up then mismatch else
        bind_result (collect_results (parse_interval (parse_op E)) (boundary_pivots (lower_boundary c) @ boundary_pivots (upper_boundary c)))
          (\<lambda>_. Inr (lo, up)))))))"

definition replay_boundary ::
  "certify_env \<Rightarrow> ExactSelectedEigenvalueEnclosure \<Rightarrow> RationalInterval list \<Rightarrow> rat \<Rightarrow> string \<Rightarrow>
     CertificateError fault + EigenvalueCountBoundaryCertificate" where
  "replay_boundary E c matrix t name =
     map_fault (\<lambda>(b, reason). VerificationFailed (b @ '' shifted-inertia replay was inconclusive: '' @ reason))
       (eigenvalue_count_boundary_route E matrix (enclosure_dimension c) t name True True (inertia_precision_bits c))"

definition matches_boundary ::
  "certify_env \<Rightarrow> ExactSelectedEigenvalueEnclosure \<Rightarrow> RationalInterval list \<Rightarrow> bool \<Rightarrow> rat \<Rightarrow> string \<Rightarrow>
     EigenvalueCountBoundaryCertificate \<Rightarrow> CertificateError fault + bool" where
  "matches_boundary E c matrix allow_historical_replay t name recorded =
     bind_result (is_ok_and (replay_boundary E c matrix t name) (\<lambda>b. b = recorded)) (\<lambda>same.
     if same then Inr True
     else if inertia_precision_bits c \<noteq> None \<or> \<not> allow_historical_replay then Inr False
     else
       let historical = (\<lambda>scale_invariant. is_ok_and
         (eigenvalue_count_boundary_route E matrix (enclosure_dimension c) t name scale_invariant False None) (\<lambda>b. b = recorded)) in
       bind_result (historical True) (\<lambda>found. if found then Inr True else historical False))"

definition replay_enclosure ::
  "certify_env \<Rightarrow> ExactSelectedEigenvalueEnclosure \<Rightarrow> RationalInterval list \<Rightarrow> bool \<Rightarrow> CertificateError fault + unit" where
  "replay_enclosure E c matrix allow_historical_replay =
     bind_result (map_err Raised (validate_selected_eigenvalue_enclosure E c)) (\<lambda>(lo, up).
     let foreign = Inl (Raised (VerificationFailed ''selected-eigenvalue matrix does not match its certified digest''));
         differs = Inl (Raised (VerificationFailed ''selected-eigenvalue shifted-inertia replay differs from recorded boundaries'')) in
     if length matrix \<noteq> saturating_mul (enclosure_dimension c) (enclosure_dimension c) then foreign else
     bind_result (map_err Raised (exact_interval_matrix_digest E matrix (enclosure_dimension c))) (\<lambda>digest.
     if digest \<noteq> enclosure_matrix_digest c then foreign else
     bind_result (matches_boundary E c matrix allow_historical_replay lo ''lower'' (lower_boundary c)) (\<lambda>lower_matches.
     if \<not> lower_matches then differs else
     bind_result (matches_boundary E c matrix allow_historical_replay up ''upper'' (upper_boundary c)) (\<lambda>upper_matches.
     if \<not> upper_matches then differs else Inr ()))))"

definition verify_selected_interval_eigenvalue_enclosure_with_policy ::
  "certify_env \<Rightarrow> ExactSelectedEigenvalueEnclosure \<Rightarrow> RationalInterval list \<Rightarrow> bool \<Rightarrow> CertificateError fault + VerificationReport" where
  "verify_selected_interval_eigenvalue_enclosure_with_policy E c matrix allow_historical_replay =
     or_return (replay_enclosure E c matrix allow_historical_replay) (\<lambda>e. failure_report (display_CertificateError e)) (\<lambda>_.
       Inr \<lparr>valid = True, mathematical_claim_verified = True,
         checks = [''selected index, enclosure, and multiplicity structure verified'', ''exact interval-matrix digest verified'',
           ''both shifted-inertia boundaries independently replayed''], warnings = [], errors = []\<rparr>)"

definition verify_selected_interval_eigenvalue_enclosure ::
  "certify_env \<Rightarrow> ExactSelectedEigenvalueEnclosure \<Rightarrow> RationalInterval list \<Rightarrow> CertificateError fault + VerificationReport" where
  "verify_selected_interval_eigenvalue_enclosure E c matrix =
     verify_selected_interval_eigenvalue_enclosure_with_policy E c matrix True"

record PortableSelectedEigenvalueCertificate =
  portable_schema :: nat
  matrix_row_major :: "ExactRationalIntervalRecord list"
  portable_enclosure :: ExactSelectedEigenvalueEnclosure

definition verify_portable_selected_eigenvalue_certificate ::
  "certify_env \<Rightarrow> PortableSelectedEigenvalueCertificate \<Rightarrow> CertificateError fault + VerificationReport" where
  "verify_portable_selected_eigenvalue_certificate E portable =
     (if \<not> (1 \<le> portable_schema portable \<and> portable_schema portable \<le> 3) \<or>
         (portable_schema portable = 2) \<noteq> (inertia_precision_bits (portable_enclosure portable) \<noteq> None)
      then Inr (failure_report ''unsupported portable selected-eigenvalue schema'')
      else case collect_results (parse_interval (parse_op E)) (matrix_row_major portable) of
        Inl e \<Rightarrow> Inr (failure_report (display_CertificateError e))
      | Inr matrix \<Rightarrow> verify_selected_interval_eigenvalue_enclosure_with_policy E (portable_enclosure portable) matrix
          (portable_schema portable = 1))"

text \<open>\<open>errors.join("; ")\<close>\<close>

fun join_errors :: "string list \<Rightarrow> string" where
  "join_errors [] = []"
| "join_errors [e] = e"
| "join_errors (e # es) = e @ ''; '' @ join_errors es"

definition build_portable_selected_eigenvalue_certificate ::
  "certify_env \<Rightarrow> RationalInterval list \<Rightarrow> ExactSelectedEigenvalueEnclosure \<Rightarrow>
     CertificateError fault + PortableSelectedEigenvalueCertificate" where
  "build_portable_selected_eigenvalue_certificate E matrix c =
     (let portable = \<lparr>portable_schema = (if inertia_precision_bits c \<noteq> None then 2 else 3),
            matrix_row_major = map interval_record matrix, portable_enclosure = c\<rparr> in
      bind_result (verify_portable_selected_eigenvalue_certificate E portable) (\<lambda>report.
      if valid report then Inr portable else Inl (Raised (VerificationFailed (join_errors (errors report))))))"

subsection \<open>Spectral gaps\<close>

record ExactSpectralGapCertificate =
  exact_lower_cluster :: ExactSelectedEigenvalueEnclosure
  exact_upper_cluster :: ExactSelectedEigenvalueEnclosure
  exact_lower_bound :: ExactRationalRecord

definition certify_exact_spectral_gap ::
  "certify_env \<Rightarrow> ExactSelectedEigenvalueEnclosure \<Rightarrow> ExactSelectedEigenvalueEnclosure \<Rightarrow> CertificateError + ExactSpectralGapCertificate" where
  "certify_exact_spectral_gap E lower_cluster upper_cluster =
     bind_result (validate_selected_eigenvalue_enclosure E lower_cluster) (\<lambda>(_, lower_upper).
     bind_result (validate_selected_eigenvalue_enclosure E upper_cluster) (\<lambda>(upper_lower, _).
     if enclosure_dimension lower_cluster \<noteq> enclosure_dimension upper_cluster \<or>
        enclosure_matrix_digest lower_cluster \<noteq> enclosure_matrix_digest upper_cluster
     then Inl (InvalidCertificate ''spectral-gap clusters refer to different matrices'')
     else if checked_add (last_enclosed_index lower_cluster) 1 \<noteq> Some (first_enclosed_index upper_cluster)
     then Inl (InvalidCertificate ''spectral-gap clusters are not adjacent in algebraic order'')
     else if upper_lower - lower_upper \<le> 0
     then Inl (VerificationFailed ''certified cluster enclosures do not have positive separation'')
     else Inr \<lparr>exact_lower_cluster = lower_cluster, exact_upper_cluster = upper_cluster,
       exact_lower_bound = rational_record (upper_lower - lower_upper)\<rparr>))"

definition verify_exact_spectral_gap_certificate :: "certify_env \<Rightarrow> ExactSpectralGapCertificate \<Rightarrow> VerificationReport" where
  "verify_exact_spectral_gap_certificate E g =
     (case certify_exact_spectral_gap E (exact_lower_cluster g) (exact_upper_cluster g) of
        Inr recomputed \<Rightarrow>
          if recomputed = g
          then \<lparr>valid = True, mathematical_claim_verified = False,
            checks = [''cluster structure, adjacency, and common matrix identity verified'',
              ''strictly positive exact gap lower bound recomputed''], warnings = [], errors = []\<rparr>
          else failure_report ''spectral-gap lower bound differs from exact recomputation''
      | Inl e \<Rightarrow> failure_report (display_CertificateError e))"

fun replay_clusters ::
  "certify_env \<Rightarrow> RationalInterval list \<Rightarrow> ExactSelectedEigenvalueEnclosure list \<Rightarrow> CertificateError fault + VerificationReport option" where
  "replay_clusters E matrix [] = Inr None"
| "replay_clusters E matrix (cluster # rest) =
     bind_result (verify_selected_interval_eigenvalue_enclosure E cluster matrix) (\<lambda>report.
     if \<not> valid report then Inr (Some report) else replay_clusters E matrix rest)"

definition verify_exact_spectral_gap_with_matrix ::
  "certify_env \<Rightarrow> ExactSpectralGapCertificate \<Rightarrow> RationalInterval list \<Rightarrow> CertificateError fault + VerificationReport" where
  "verify_exact_spectral_gap_with_matrix E g matrix =
     bind_result (replay_clusters E matrix [exact_lower_cluster g, exact_upper_cluster g]) (\<lambda>failed_replay.
     case failed_replay of
       Some report \<Rightarrow> Inr report
     | None \<Rightarrow>
         let report = verify_exact_spectral_gap_certificate E g;
             report = report\<lparr>mathematical_claim_verified := valid report\<rparr> in
         Inr (if valid report
              then report\<lparr>checks := checks report @ [''both cluster boundaries replayed against the supplied matrix'']\<rparr>
              else report))"

section \<open>Acceptance\<close>

lemma is_ok_and_Inr [result_simps]: "is_ok_and r p = Inr y \<longleftrightarrow> (\<exists>x. r = Inr x \<and> y = p x) \<or> (\<exists>e. r = Inl (Raised e) \<and> \<not> y)"
proof (cases r)
  case (Inl e)
  then show ?thesis by (cases e) auto
qed auto

lemma is_ok_and_panics: "panics (is_ok_and r p) \<longleftrightarrow> panics r"
proof (cases r)
  case (Inl e)
  then show ?thesis by (cases e) auto
qed auto

lemma failure_not_valid [simp]: "\<not> valid (failure_report m)" "\<not> mathematical_claim_verified (failure_report m)"
  by (simp_all add: failure_report_def)

definition consistent_enclosure :: "ExactSelectedEigenvalueEnclosure \<Rightarrow> rat \<Rightarrow> rat \<Rightarrow> bool" where
  "consistent_enclosure c lo up \<longleftrightarrow> first_enclosed_index c \<le> requested_index c \<and> requested_index c \<le> last_enclosed_index c \<and>
     last_enclosed_index c < enclosure_dimension c \<and> enclosure_dimension c \<le> usize_max \<and> digest_validate (enclosure_matrix_digest c) \<and>
     count_below (lower_boundary c) = first_enclosed_index c \<and> count_below (upper_boundary c) = last_enclosed_index c + 1 \<and>
     count_below (lower_boundary c) + positive_above (lower_boundary c) = enclosure_dimension c \<and>
     count_below (upper_boundary c) + positive_above (upper_boundary c) = enclosure_dimension c \<and>
     length (boundary_pivots (lower_boundary c)) = enclosure_dimension c \<and> length (boundary_pivots (upper_boundary c)) = enclosure_dimension c \<and>
     (simple c \<longleftrightarrow> first_enclosed_index c = last_enclosed_index c) \<and> lo < up \<and>
     record_value (enclosure_lower c) lo \<and> record_value (enclosure_upper c) up \<and>
     record_value (threshold (lower_boundary c)) lo \<and> record_value (threshold (upper_boundary c)) up"

context certify_context
begin

lemma parse_op_Inr: "parse_record (parse_op E) r = Inr x \<longleftrightarrow> record_value r x"
  by (rule rational_text.parse_record_Inr[OF env_text])

lemma validate_enclosure_Inr:
  "validate_selected_eigenvalue_enclosure E c = Inr (lo, up) \<longleftrightarrow> consistent_enclosure c lo up \<and>
     (\<exists>ps. collect_results (parse_interval (parse_op E)) (boundary_pivots (lower_boundary c) @ boundary_pivots (upper_boundary c)) = Inr ps)"
  unfolding validate_selected_eigenvalue_enclosure_def consistent_enclosure_def Let_def
  by (auto simp: result_simps parse_op_Inr saturating_add_def min_def not_less not_le split: if_split_asm)

lemma matches_sound:
  assumes "matches_boundary E c M allow t name b = Inr True" "wf_matrix M"
  shows "sound_boundary M (enclosure_dimension c) t b"
proof -
  obtain si eb p where "eigenvalue_count_boundary_route E M (enclosure_dimension c) t name si eb p = Inr b"
    using assms(1) unfolding matches_boundary_def replay_boundary_def Let_def
    by (auto simp: result_simps map_fault_Inr split: if_split_asm)
  then show ?thesis using route_sound(1) assms(2) by blast
qed

lemma matches_first:
  assumes "eigenvalue_count_boundary_route E M (enclosure_dimension c) t name True True (inertia_precision_bits c) = Inr b"
  shows "matches_boundary E c M allow t name b = Inr True"
  using assms by (simp add: matches_boundary_def replay_boundary_def)

lemma matches_no_panic: "wf_matrix M \<Longrightarrow> \<not> panics (matches_boundary E c M allow t name b)"
  using route_no_panic by (auto simp: matches_boundary_def replay_boundary_def panics_bind is_ok_and_panics map_fault_panics Let_def)

lemma replay_Inr:
  "replay_enclosure E c M allow = Inr () \<longleftrightarrow> (\<exists>lo up. validate_selected_eigenvalue_enclosure E c = Inr (lo, up) \<and>
     length M = saturating_mul (enclosure_dimension c) (enclosure_dimension c) \<and>
     exact_interval_matrix_digest E M (enclosure_dimension c) = Inr (enclosure_matrix_digest c) \<and>
     matches_boundary E c M allow lo ''lower'' (lower_boundary c) = Inr True \<and>
     matches_boundary E c M allow up ''upper'' (upper_boundary c) = Inr True)"
  unfolding replay_enclosure_def Let_def by (auto simp: result_simps split: if_split_asm)

lemma replay_no_panic: "wf_matrix M \<Longrightarrow> \<not> panics (replay_enclosure E c M allow)"
  using matches_no_panic by (auto simp: replay_enclosure_def panics_bind panics_map_err Let_def split: if_splits prod.splits)

lemma policy_report:
  assumes "wf_matrix M"
  obtains report where "verify_selected_interval_eigenvalue_enclosure_with_policy E c M allow = Inr report"
    "valid report \<longleftrightarrow> replay_enclosure E c M allow = Inr ()" "mathematical_claim_verified report \<longleftrightarrow> valid report"
proof (cases "replay_enclosure E c M allow")
  case (Inl e)
  then show ?thesis
    using that replay_no_panic[OF assms, of c allow] by (cases e) (auto simp: verify_selected_interval_eigenvalue_enclosure_with_policy_def)
next
  case (Inr u)
  then show ?thesis using that by (auto simp: verify_selected_interval_eigenvalue_enclosure_with_policy_def)
qed

text \<open>Acceptance gives the meaning of the certificate.\<close>

lemma replay_sound:
  assumes "replay_enclosure E c M allow = Inr ()" "wf_matrix M"
  obtains lo up where "consistent_enclosure c lo up" "encloses_indices M (enclosure_dimension c) lo up (first_enclosed_index c) (last_enclosed_index c)"
    "length M = enclosure_dimension c * enclosure_dimension c"
    "exact_interval_matrix_digest E M (enclosure_dimension c) = Inr (enclosure_matrix_digest c)"
proof -
  obtain lo up where v: "validate_selected_eigenvalue_enclosure E c = Inr (lo, up)"
    and digest: "exact_interval_matrix_digest E M (enclosure_dimension c) = Inr (enclosure_matrix_digest c)"
    and m: "matches_boundary E c M allow lo ''lower'' (lower_boundary c) = Inr True" "matches_boundary E c M allow up ''upper'' (upper_boundary c) = Inr True"
    using assms(1) by (auto simp: replay_Inr)
  have c: "consistent_enclosure c lo up" using v by (simp add: validate_enclosure_Inr)
  note b = matches_sound[OF m(1) assms(2)] matches_sound[OF m(2) assms(2)]
  have "encloses_indices M (enclosure_dimension c) lo up (first_enclosed_index c) (last_enclosed_index c)"
    using sound_boundaries_enclose[OF b] c by (simp add: consistent_enclosure_def)
  then show ?thesis using that c b(1) digest by (auto simp: sound_boundary_def)
qed

text \<open>What the producer returns is accepted.\<close>

lemma produced_replays:
  assumes run: "certify_selected_interval_eigenvalue_route E M n index lo up width maximum precision = Inr (ConclusiveSelected c)" and wf: "wf_matrix M"
  shows "replay_enclosure E c M allow = Inr ()" "inertia_precision_bits c = precision"
proof -
  obtain lo' up' where s: "lo' < up'"
    "enclosure_lower c = rational_record lo'" "enclosure_upper c = rational_record up'" "inertia_precision_bits c = precision"
    "eigenvalue_count_boundary_route E M n lo' ''lower'' True True precision = Inr (lower_boundary c)"
    "eigenvalue_count_boundary_route E M n up' ''upper'' True True precision = Inr (upper_boundary c)"
    "count_below (lower_boundary c) \<le> index" "index < count_below (upper_boundary c)"
    "first_enclosed_index c = count_below (lower_boundary c)" "last_enclosed_index c = count_below (upper_boundary c) - 1"
    "requested_index c = index" "enclosure_dimension c = n" "simple c \<longleftrightarrow> first_enclosed_index c = last_enclosed_index c"
    "exact_interval_matrix_digest E M n = Inr (enclosure_matrix_digest c)"
    by (rule selected_route_sound[OF run wf])
  note b = route_sound(1)[OF s(5) wf] route_sound(1)[OF s(6) wf]
  have len: "length M = n * n" "0 < n" using b(1) by (auto simp: sound_boundary_def)
  then have big: "n * n \<le> usize_max" using wf by (simp add: wf_matrix_def fits_slice_def isize_max_def usize_max_def)
  then have n: "n \<le> usize_max" using len(2) by (metis le_square order_trans)
  obtain ps where ps: "boundary_pivots (lower_boundary c) = map interval_record ps" "length ps = n" "\<forall>I \<in> set ps. wf_interval I"
    using b(1) unfolding sound_boundary_def by blast
  obtain qs where qs: "boundary_pivots (upper_boundary c) = map interval_record qs" "length qs = n" "\<forall>I \<in> set qs. wf_interval I"
    using b(2) unfolding sound_boundary_def by blast
  have "digest_validate (enclosure_matrix_digest c)" using s(14) env_digest by (auto simp: exact_interval_matrix_digest_def result_simps)
  then have "consistent_enclosure c lo' up'"
    using s b n ps qs by (auto simp: consistent_enclosure_def sound_boundary_def record_value_rational)
  moreover have "collect_results (parse_interval (parse_op E)) (boundary_pivots (lower_boundary c) @ boundary_pivots (upper_boundary c)) = Inr (ps @ qs)"
    using rational_text.parse_interval_records[OF env_text, of "ps @ qs"] ps qs by auto
  ultimately have "validate_selected_eigenvalue_enclosure E c = Inr (lo', up')" by (simp add: validate_enclosure_Inr)
  then show "replay_enclosure E c M allow = Inr ()"
    using s len big matches_first by (auto simp: replay_Inr saturating_mul_def)
  show "inertia_precision_bits c = precision" by (rule s(4))
qed

end

section \<open>Properties\<close>

text \<open>What a selected-eigenvalue certificate claims of a matrix.\<close>

definition certifies :: "RationalInterval list \<Rightarrow> ExactSelectedEigenvalueEnclosure \<Rightarrow> bool" where
  "certifies M c \<longleftrightarrow> (\<exists>lo up. record_value (enclosure_lower c) lo \<and> record_value (enclosure_upper c) up \<and> lo < up \<and>
     first_enclosed_index c \<le> requested_index c \<and> requested_index c \<le> last_enclosed_index c \<and> last_enclosed_index c < enclosure_dimension c \<and>
     (simple c \<longleftrightarrow> first_enclosed_index c = last_enclosed_index c) \<and> length M = enclosure_dimension c * enclosure_dimension c \<and>
     encloses_indices M (enclosure_dimension c) lo up (first_enclosed_index c) (last_enclosed_index c))"

context certify_context
begin

lemma replay_certifies: "replay_enclosure E c M allow = Inr () \<Longrightarrow> wf_matrix M \<Longrightarrow> certifies M c"
  by (erule replay_sound) (auto simp: certifies_def consistent_enclosure_def)

lemma policy_valid:
  assumes "verify_selected_interval_eigenvalue_enclosure_with_policy E c M allow = Inr r" "wf_matrix M"
  shows "valid r \<longleftrightarrow> replay_enclosure E c M allow = Inr ()" "mathematical_claim_verified r \<longleftrightarrow> valid r"
  using policy_report[OF assms(2), of c allow] assms(1) by auto

lemma parsed_matrix_wf:
  assumes "collect_results (parse_interval (parse_op E)) rs = Inr M" "fits_slice rs"
  shows "wf_matrix M"
proof -
  have "length M = length rs \<and> (\<forall>I \<in> set M. wf_interval I)" using assms(1)
    by (induction rs arbitrary: M) (auto simp: result_simps rational_text.parse_interval_Inr[OF env_text])
  then show ?thesis using assms(2) by (simp add: wf_matrix_def fits_slice_def)
qed

lemma portable_valid:
  assumes "verify_portable_selected_eigenvalue_certificate E p = Inr r" "valid r"
  obtains M where "collect_results (parse_interval (parse_op E)) (matrix_row_major p) = Inr M"
    "verify_selected_interval_eigenvalue_enclosure_with_policy E (portable_enclosure p) M (portable_schema p = 1) = Inr r"
  using assms unfolding verify_portable_selected_eigenvalue_certificate_def by (auto split: if_split_asm sum.split_asm)

end

text \<open>C20. Acceptance by a verifier makes a selected-eigenvalue certificate true, wherever it came from: when the replay against a
  matrix, under the current or the historical policy, reports valid, or when a portable certificate is reported valid, then for every symmetric
  matrix in the interval matrix (for the portable one, the matrix written in it) the ordered eigenvalues strictly between the recorded end points
  are exactly those of the recorded indices, the requested one among them.\<close>

theorem accepted_enclosure_sound:
  assumes "certify_context E"
  shows "(wf_matrix M \<and> verify_selected_interval_eigenvalue_enclosure_with_policy E c M allow = Inr r \<and> valid r \<longrightarrow>
      mathematical_claim_verified r \<and> certifies M c) \<and>
    (fits_slice (matrix_row_major p) \<and> verify_portable_selected_eigenvalue_certificate E p = Inr r' \<and> valid r' \<longrightarrow>
      (\<exists>M'. collect_results (parse_interval (parse_op E)) (matrix_row_major p) = Inr M' \<and> certifies M' (portable_enclosure p)))"
proof (intro conjI impI; elim conjE)
  note valid = certify_context.policy_valid[OF assms] and true = certify_context.replay_certifies[OF assms]
  assume "wf_matrix M" "verify_selected_interval_eigenvalue_enclosure_with_policy E c M allow = Inr r" "valid r"
  then show "mathematical_claim_verified r" "certifies M c" using valid true by blast+
next
  note valid = certify_context.policy_valid[OF assms] and true = certify_context.replay_certifies[OF assms]
  assume p: "fits_slice (matrix_row_major p)" "verify_portable_selected_eigenvalue_certificate E p = Inr r'" "valid r'"
  obtain M' where M': "collect_results (parse_interval (parse_op E)) (matrix_row_major p) = Inr M'"
    "verify_selected_interval_eigenvalue_enclosure_with_policy E (portable_enclosure p) M' (portable_schema p = 1) = Inr r'"
    using certify_context.portable_valid[OF assms p(2,3)] by blast
  then show "\<exists>M'. collect_results (parse_interval (parse_op E)) (matrix_row_major p) = Inr M' \<and> certifies M' (portable_enclosure p)"
    using certify_context.parsed_matrix_wf[OF assms M'(1) p(1)] valid true p(3) by blast
qed

theorem accepted_enclosure_sound_witness:
  "\<exists>c r. verify_selected_interval_eigenvalue_enclosure_with_policy sample_env c unit_box True = Inr r \<and> valid r \<and>
     mathematical_claim_verified r \<and> certifies unit_box c \<and> bisection_steps c = 2"
proof -
  obtain c where c: "certify_selected_interval_eigenvalue_route sample_env unit_box 1 0 0 2 1 5 None = Inr (ConclusiveSelected c)" "bisection_steps c = 2"
    using unit_selected_run by blast
  obtain r where r: "verify_selected_interval_eigenvalue_enclosure_with_policy sample_env c unit_box True = Inr r" "valid r"
    using sample.policy_report[OF unit_wf, of c True] sample.produced_replays(1)[OF c(1) unit_wf] by blast
  then show ?thesis using c(2) unit_wf accepted_enclosure_sound[OF sample.certify_context_axioms, THEN conjunct1, rule_format, of unit_box c True r] by blast
qed

text \<open>C21. Every certificate the selected-eigenvalue search produces is accepted: by the direct replay, by the portable builder, and by
  the portable verifier, which reads the matrix back from the certificate.\<close>

theorem produced_enclosure_accepted:
  assumes "certify_context E" "wf_matrix M"
    and run: "certify_selected_interval_eigenvalue_route E M n index lo up width maximum precision = Inr (ConclusiveSelected c)"
  shows "\<exists>r p. verify_selected_interval_eigenvalue_enclosure E c M = Inr r \<and> valid r \<and>
    build_portable_selected_eigenvalue_certificate E M c = Inr p \<and> portable_enclosure p = c \<and>
    verify_portable_selected_eigenvalue_certificate E p = Inr r"
proof -
  note replay = certify_context.produced_replays[OF assms(1) run assms(2)]
  let ?p = "\<lparr>portable_schema = (if inertia_precision_bits c \<noteq> None then 2 else 3), matrix_row_major = map interval_record M, portable_enclosure = c\<rparr>"
  let ?ok = "\<lparr>valid = True, mathematical_claim_verified = True,
         checks = [''selected index, enclosure, and multiplicity structure verified'', ''exact interval-matrix digest verified'',
           ''both shifted-inertia boundaries independently replayed''], warnings = [], errors = []\<rparr>"
  have ok: "verify_selected_interval_eigenvalue_enclosure_with_policy E c M allow = Inr ?ok" for allow
    by (simp add: verify_selected_interval_eigenvalue_enclosure_with_policy_def replay(1))
  have "collect_results (parse_interval (parse_op E)) (map interval_record M) = Inr M"
    using rational_text.parse_interval_records[OF certify_context.env_text[OF assms(1)]] assms(2) by (simp add: wf_matrix_def)
  then have portable: "verify_portable_selected_eigenvalue_certificate E ?p = Inr ?ok"
    by (auto simp: verify_portable_selected_eigenvalue_certificate_def ok)
  then have "build_portable_selected_eigenvalue_certificate E M c = Inr ?p"
    by (simp add: build_portable_selected_eigenvalue_certificate_def Let_def)
  then show ?thesis using ok portable by (auto simp: verify_selected_interval_eigenvalue_enclosure_def)
qed

theorem produced_enclosure_accepted_witness:
  "\<exists>c r p. certify_selected_interval_eigenvalue_route sample_env unit_box 1 0 0 2 1 5 None = Inr (ConclusiveSelected c) \<and>
     verify_selected_interval_eigenvalue_enclosure sample_env c unit_box = Inr r \<and> valid r \<and>
     build_portable_selected_eigenvalue_certificate sample_env unit_box c = Inr p \<and>
     verify_portable_selected_eigenvalue_certificate sample_env p = Inr r"
proof -
  obtain c where c: "certify_selected_interval_eigenvalue_route sample_env unit_box 1 0 0 2 1 5 None = Inr (ConclusiveSelected c)"
    using unit_selected_run by blast
  from produced_enclosure_accepted[OF sample.certify_context_axioms unit_wf c] c show ?thesis by blast
qed

context certify_context
begin

lemma gap_Inr:
  assumes "certify_exact_spectral_gap E lc uc = Inr g"
  obtains lo up lo' up' where "consistent_enclosure lc lo up" "consistent_enclosure uc lo' up'" "enclosure_dimension lc = enclosure_dimension uc"
    "last_enclosed_index lc + 1 = first_enclosed_index uc" "up < lo'"
    "g = \<lparr>exact_lower_cluster = lc, exact_upper_cluster = uc, exact_lower_bound = rational_record (lo' - up)\<rparr>"
  using assms that unfolding certify_exact_spectral_gap_def
  by (auto simp: result_simps validate_enclosure_Inr split: if_split_asm prod.split_asm)

lemma replay_clusters_None:
  "wf_matrix M \<Longrightarrow> replay_clusters E M cs = Inr None \<longleftrightarrow> (\<forall>c \<in> set cs. replay_enclosure E c M True = Inr ())"
proof (induction cs)
  case (Cons c cs)
  obtain r where "verify_selected_interval_eigenvalue_enclosure_with_policy E c M True = Inr r" "valid r \<longleftrightarrow> replay_enclosure E c M True = Inr ()"
    using policy_report[OF Cons.prems, of c True] by blast
  then show ?case using Cons by (simp add: verify_selected_interval_eigenvalue_enclosure_def)
qed simp

lemma replay_clusters_Some:
  "wf_matrix M \<Longrightarrow> replay_clusters E M cs = Inr (Some r) \<Longrightarrow> \<not> valid r \<and> \<not> mathematical_claim_verified r"
  by (induction cs) (auto simp: result_simps verify_selected_interval_eigenvalue_enclosure_def policy_valid split: if_split_asm)

lemma gap_certificate_valid: "valid (verify_exact_spectral_gap_certificate E g) \<longleftrightarrow>
    certify_exact_spectral_gap E (exact_lower_cluster g) (exact_upper_cluster g) = Inr g"
  by (auto simp: verify_exact_spectral_gap_certificate_def split: sum.splits)

lemma gap_with_matrix_report:
  assumes "verify_exact_spectral_gap_with_matrix E g M = Inr r" "wf_matrix M"
  shows "valid r \<longleftrightarrow> (\<forall>c \<in> {exact_lower_cluster g, exact_upper_cluster g}. replay_enclosure E c M True = Inr ()) \<and>
      certify_exact_spectral_gap E (exact_lower_cluster g) (exact_upper_cluster g) = Inr g"
    "mathematical_claim_verified r \<longleftrightarrow> valid r"
proof -
  let ?replay = "replay_clusters E M [exact_lower_cluster g, exact_upper_cluster g]"
  have none: "?replay = Inr None \<longleftrightarrow> (\<forall>c \<in> {exact_lower_cluster g, exact_upper_cluster g}. replay_enclosure E c M True = Inr ())"
    unfolding replay_clusters_None[OF assms(2)] by (simp only: list.set)
  obtain f where f: "?replay = Inr f" and r: "(case f of Some report \<Rightarrow> Inr report | None \<Rightarrow>
         let report = verify_exact_spectral_gap_certificate E g; report = report\<lparr>mathematical_claim_verified := valid report\<rparr> in
         Inr (if valid report then report\<lparr>checks := checks report @ [''both cluster boundaries replayed against the supplied matrix'']\<rparr>
              else report)) = (Inr r :: CertificateError fault + VerificationReport)"
    using assms(1) unfolding verify_exact_spectral_gap_with_matrix_def bind_result_eq_Inr by blast
  have "(valid r \<longleftrightarrow> (\<forall>c \<in> {exact_lower_cluster g, exact_upper_cluster g}. replay_enclosure E c M True = Inr ()) \<and>
      certify_exact_spectral_gap E (exact_lower_cluster g) (exact_upper_cluster g) = Inr g) \<and> (mathematical_claim_verified r \<longleftrightarrow> valid r)"
  proof (cases f)
    case None
    then show ?thesis unfolding none[symmetric] using r f by (auto simp: Let_def gap_certificate_valid simp del: replay_clusters.simps split: if_split_asm if_split)
  next
    case (Some report)
    then have "r = report" using r by simp
    then show ?thesis unfolding none[symmetric] using Some f replay_clusters_Some[OF assms(2)] by (auto simp del: replay_clusters.simps)
  qed
  then show "valid r \<longleftrightarrow> (\<forall>c \<in> {exact_lower_cluster g, exact_upper_cluster g}. replay_enclosure E c M True = Inr ()) \<and>
      certify_exact_spectral_gap E (exact_lower_cluster g) (exact_upper_cluster g) = Inr g" "mathematical_claim_verified r \<longleftrightarrow> valid r" by blast+
qed

lemma gap_true:
  assumes "certify_exact_spectral_gap E lc uc = Inr g" "replay_enclosure E lc M a = Inr ()" "replay_enclosure E uc M b = Inr ()" "wf_matrix M"
    and "n = enclosure_dimension lc" "i = last_enclosed_index lc"
  obtains bound where "first_enclosed_index uc = i + 1" "i + 1 < n" "record_value (exact_lower_bound g) bound" "0 < bound"
    "\<And>R v lam. in_matrix M n R \<Longrightarrow> eigenbasis n R v lam \<Longrightarrow> spectrum n lam ! i + real_of_rat bound < spectrum n lam ! (i + 1)"
proof -
  obtain lo up lo' up' where g: "consistent_enclosure lc lo up" "consistent_enclosure uc lo' up'" "enclosure_dimension lc = enclosure_dimension uc"
    "last_enclosed_index lc + 1 = first_enclosed_index uc" "up < lo'" "exact_lower_bound g = rational_record (lo' - up)"
    by (rule gap_Inr[OF assms(1)]) auto
  have same: "x = lo \<and> y = up" if "consistent_enclosure lc x y" for x y using that g(1) record_value_unique by (auto simp: consistent_enclosure_def)
  have same': "x = lo' \<and> y = up'" if "consistent_enclosure uc x y" for x y using that g(2) record_value_unique by (auto simp: consistent_enclosure_def)
  have e: "encloses_indices M n lo up (first_enclosed_index lc) i" using replay_sound[OF assms(2,4)] same assms(5,6) by metis
  have e': "encloses_indices M n lo' up' (first_enclosed_index uc) (last_enclosed_index uc)"
    using replay_sound[OF assms(3,4)] same' assms(5) g(3) by metis
  have n: "i + 1 < n" "first_enclosed_index lc \<le> i" "first_enclosed_index uc = i + 1" "i + 1 \<le> last_enclosed_index uc"
    using g(1-4) assms(5,6) by (auto simp: consistent_enclosure_def)
  have "spectrum n lam ! i + real_of_rat (lo' - up) < spectrum n lam ! (i + 1)" if R: "in_matrix M n R" "eigenbasis n R v lam" for R v lam
  proof -
    have "i < n" using n(1) by simp
    then have "spectrum n lam ! i < real_of_rat up" using e R n(2) unfolding encloses_indices_def by blast
    moreover have "real_of_rat lo' < spectrum n lam ! (i + 1)" using e' R n unfolding encloses_indices_def by (metis le_refl)
    ultimately show ?thesis by (simp add: of_rat_diff)
  qed
  then show ?thesis using that[of "lo' - up"] n g(5,6) record_value_rational by auto
qed

end

text \<open>C22. A spectral gap verified against its matrix is real: in every symmetric matrix of the interval matrix the last ordered
  eigenvalue of the lower cluster and the next one differ by more than the recorded bound, which is positive. The report claims a mathematical
  verification exactly when it is valid, and a gap computed from two replayed clusters of the matrix is always verified.\<close>

theorem verified_gap_separates:
  assumes "certify_context E" "wf_matrix M" and run: "verify_exact_spectral_gap_with_matrix E g M = Inr r"
    and "n = enclosure_dimension (exact_lower_cluster g)" "i = last_enclosed_index (exact_lower_cluster g)"
  shows "(valid r \<longrightarrow> mathematical_claim_verified r \<and> first_enclosed_index (exact_upper_cluster g) = i + 1 \<and> i + 1 < n \<and>
      (\<exists>bound. record_value (exact_lower_bound g) bound \<and> 0 < bound \<and>
        (\<forall>R v lam. in_matrix M n R \<and> eigenbasis n R v lam \<longrightarrow> spectrum n lam ! i + real_of_rat bound < spectrum n lam ! (i + 1)))) \<and>
    (certify_exact_spectral_gap E (exact_lower_cluster g) (exact_upper_cluster g) = Inr g \<and>
      replay_enclosure E (exact_lower_cluster g) M True = Inr () \<and> replay_enclosure E (exact_upper_cluster g) M True = Inr () \<longrightarrow> valid r)"
proof (intro conjI impI)
  note report = certify_context.gap_with_matrix_report[OF assms(1) run assms(2)]
  assume v: "valid r"
  then show "mathematical_claim_verified r" using report(2) by blast
  obtain bound where "first_enclosed_index (exact_upper_cluster g) = i + 1" "i + 1 < n" "record_value (exact_lower_bound g) bound" "0 < bound"
    "\<And>R v lam. in_matrix M n R \<Longrightarrow> eigenbasis n R v lam \<Longrightarrow> spectrum n lam ! i + real_of_rat bound < spectrum n lam ! (i + 1)"
    using certify_context.gap_true[OF assms(1) _ _ _ assms(2,4,5)] v report(1) by blast
  then show "first_enclosed_index (exact_upper_cluster g) = i + 1" "i + 1 < n" "\<exists>bound. record_value (exact_lower_bound g) bound \<and> 0 < bound \<and>
        (\<forall>R v lam. in_matrix M n R \<and> eigenbasis n R v lam \<longrightarrow> spectrum n lam ! i + real_of_rat bound < spectrum n lam ! (i + 1))" by blast+
qed (use certify_context.gap_with_matrix_report(1)[OF assms(1) run assms(2)] in blast)

text \<open>A sample: the diagonal matrix with entries 1 and 4, whose eigenvalues the thresholds 0, 2, 3 and 5 separate.\<close>

definition diag_box :: "rat \<Rightarrow> rat \<Rightarrow> RationalInterval list" where
  "diag_box a b = [ri_point a, ri_point 0, ri_point 0, ri_point b]"

lemma diag_run:
  assumes "exact_interval_workspace_admitted (diag_box a b)" "a \<noteq> 0" "b \<noteq> 0"
    and "one_by_one_update 2 0 (ri_point a) (diag_box a b) = Inr (diag_box a b)"
  shows "interval_symmetric_ldlt_inertia_with_budget s (diag_box a b) 2 True True =
    Inr (ConclusiveInertia (of_bool (0 < a) + of_bool (0 < b)) (of_bool (a < 0) + of_bool (b < 0)) [ri_point a, ri_point b])"
proof -
  have sgns: "ri_is_strictly_positive (ri_point x) \<longleftrightarrow> 0 < x" "ri_is_strictly_negative (ri_point x) \<longleftrightarrow> x < 0" for x
    by (simp_all add: ri_is_strictly_positive_def ri_is_strictly_negative_def ri_point_def)
  have "symmetric_rows 2 (diag_box a b) (lower_pairs 2) = None" by (simp add: lower_pairs_def numeral_2_eq_2 diag_box_def)
  moreover have "one_by_one_update 2 1 (ri_point b) (diag_box a b) = Inr (diag_box a b)"
    by (simp add: one_by_one_update_def symmetric_update_def)
  moreover have "find (\<lambda>candidate. strict_sign (diag_box a b ! (candidate * 2 + candidate))) [0..<2] = Some 0"
    "find (\<lambda>candidate. strict_sign (diag_box a b ! (candidate * 2 + candidate))) [1..<2] = Some 1"
    using assms(2,3) by (auto simp: numeral_2_eq_2 diag_box_def strict_sign_def sgns)
  moreover have "length (diag_box a b) = 4" "diag_box a b ! 0 = ri_point a" "diag_box a b ! 3 = ri_point b" by (simp_all add: diag_box_def)
  ultimately show ?thesis using assms
    by (cases "a < 0"; cases "b < 0"; simp add: unit_box_defs symmetric_swap_def count_sign_def numeral_3_eq_3 sgns)
qed

lemma diag_quotients: "quotient_of (- 4) = (-4, 1)" "quotient_of 4 = (4, 1)" "quotient_of (- 2) = (-2, 1)" "quotient_of 2 = (2, 1)"
  by code_simp+

lemma diag_admitted:
  "exact_interval_workspace_admitted (diag_box 1 4)" "exact_interval_workspace_admitted (diag_box (-1) 2)"
  "exact_interval_workspace_admitted (diag_box (-2) 1)" "exact_interval_workspace_admitted (diag_box (-4) (-1))"
  unfolding exact_interval_workspace_admitted_def ri_point_def diag_box_def
  by (simp_all add: diag_quotients[simplified] unit_quotients[simplified] significant_bits_def significant_bits_nat.simps)

lemma diag_updates:
  "one_by_one_update 2 0 (ri_point 1) (diag_box 1 4) = Inr (diag_box 1 4)"
  "one_by_one_update 2 0 (ri_point (-1)) (diag_box (-1) 2) = Inr (diag_box (-1) 2)"
  "one_by_one_update 2 0 (ri_point (-2)) (diag_box (-2) 1) = Inr (diag_box (-2) 1)"
  "one_by_one_update 2 0 (ri_point (-4)) (diag_box (-4) (-1)) = Inr (diag_box (-4) (-1))"
  by code_simp+

lemma diag_shift: "shift_diagonal (diag_box 1 4) 2 t = diag_box (1 - t) (4 - t)"
  by (simp add: shift_diagonal_def diag_box_def numeral_2_eq_2 ri_sub_def ri_point_def)

lemma diag_boundaries:
  "\<exists>b. eigenvalue_count_boundary_route sample_env (diag_box 1 4) 2 0 name True True None = Inr b \<and> count_below b = 0"
  "\<exists>b. eigenvalue_count_boundary_route sample_env (diag_box 1 4) 2 2 name True True None = Inr b \<and> count_below b = 1"
  "\<exists>b. eigenvalue_count_boundary_route sample_env (diag_box 1 4) 2 3 name True True None = Inr b \<and> count_below b = 1"
  "\<exists>b. eigenvalue_count_boundary_route sample_env (diag_box 1 4) 2 5 name True True None = Inr b \<and> count_below b = Suc 1"
proof -
  have size: "checked_mul 2 2 = Some (length (diag_box 1 4))" by (simp add: diag_box_def usize_max_def)
  note runs = diag_run[OF diag_admitted(1) _ _ diag_updates(1)] diag_run[OF diag_admitted(2) _ _ diag_updates(2)]
    diag_run[OF diag_admitted(3) _ _ diag_updates(3)] diag_run[OF diag_admitted(4) _ _ diag_updates(4)]
  show "\<exists>b. eigenvalue_count_boundary_route sample_env (diag_box 1 4) 2 0 name True True None = Inr b \<and> count_below b = 0"
  "\<exists>b. eigenvalue_count_boundary_route sample_env (diag_box 1 4) 2 2 name True True None = Inr b \<and> count_below b = 1"
  "\<exists>b. eigenvalue_count_boundary_route sample_env (diag_box 1 4) 2 3 name True True None = Inr b \<and> count_below b = 1"
  "\<exists>b. eigenvalue_count_boundary_route sample_env (diag_box 1 4) 2 5 name True True None = Inr b \<and> count_below b = Suc 1"
    by (simp_all add: eigenvalue_count_boundary_route_def diag_shift size runs sample_env_def del: checked_mul_Some)
qed

lemma diag_wf: "wf_matrix (diag_box 1 4)"
  by (simp add: wf_matrix_def diag_box_def fits_slice_def isize_max_def wf_interval_def ri_point_def)

text \<open>A bracket that already meets the target width is returned as it is.\<close>

lemma selected_without_split:
  assumes "eigenvalue_count_boundary_route sample_env M n lo ''lower'' True True None = Inr lb"
    "eigenvalue_count_boundary_route sample_env M n up ''upper'' True True None = Inr ub"
    and "count_below lb = index" "count_below ub = index + 1" "lo < up" "up - lo \<le> width" "0 < maximum" "index < n"
    and "length M = saturating_mul n n"
  shows "\<exists>c. certify_selected_interval_eigenvalue_route sample_env M n index lo up width maximum None = Inr (ConclusiveSelected c) \<and>
    first_enclosed_index c = index \<and> last_enclosed_index c = index \<and> enclosure_dimension c = n \<and>
    enclosure_matrix_digest c = ContentDigest (replicate 64 CHR ''0'') \<and> enclosure_lower c = rational_record lo \<and> enclosure_upper c = rational_record up"
proof -
  let ?f = "\<lambda>x name. eigenvalue_count_boundary_route sample_env M n x name True True None"
  have "bisect ?f index width maximum \<lparr>bis_lower = lo, bis_upper = up, bis_lower_boundary = lb, bis_upper_boundary = ub, bis_steps = 0\<rparr> =
     Inr (Inr \<lparr>bis_lower = lo, bis_upper = up, bis_lower_boundary = lb, bis_upper_boundary = ub, bis_steps = 0\<rparr>)"
    using assms by (subst bisect.simps) simp
  moreover have "0 < width" using assms by simp
  ultimately show ?thesis using assms
    by (simp add: certify_selected_interval_eigenvalue_route_def selected_result_def checked_sub_def exact_interval_matrix_digest_def sample_env_def)
qed

lemma diag_clusters:
  obtains lc uc where "replay_enclosure sample_env lc (diag_box 1 4) True = Inr ()" "replay_enclosure sample_env uc (diag_box 1 4) True = Inr ()"
    "last_enclosed_index lc = 0" "enclosure_dimension lc = 2"
    "certify_exact_spectral_gap sample_env lc uc = Inr \<lparr>exact_lower_cluster = lc, exact_upper_cluster = uc, exact_lower_bound = rational_record 1\<rparr>"
proof -
  have len: "length (diag_box 1 4) = saturating_mul 2 2" by (simp add: diag_box_def saturating_mul_def usize_max_def)
  obtain lc where lc: "certify_selected_interval_eigenvalue_route sample_env (diag_box 1 4) 2 0 0 2 2 1 None = Inr (ConclusiveSelected lc)"
    "first_enclosed_index lc = 0" "last_enclosed_index lc = 0" "enclosure_dimension lc = 2"
    "enclosure_matrix_digest lc = ContentDigest (replicate 64 CHR ''0'')" "enclosure_lower lc = rational_record 0" "enclosure_upper lc = rational_record 2"
    using diag_boundaries(1)[of "''lower''"] diag_boundaries(2)[of "''upper''"]
      selected_without_split[of "diag_box 1 4" 2 0 _ 2 _ 0 2 1, OF _ _ _ _ _ _ _ _ len] by auto
  obtain uc where uc: "certify_selected_interval_eigenvalue_route sample_env (diag_box 1 4) 2 1 3 5 2 1 None = Inr (ConclusiveSelected uc)"
    "first_enclosed_index uc = 1" "last_enclosed_index uc = 1" "enclosure_dimension uc = 2"
    "enclosure_matrix_digest uc = ContentDigest (replicate 64 CHR ''0'')" "enclosure_lower uc = rational_record 3" "enclosure_upper uc = rational_record 5"
    using diag_boundaries(3)[of "''lower''"] diag_boundaries(4)[of "''upper''"]
      selected_without_split[of "diag_box 1 4" 2 3 _ 5 _ 1 2 1, OF _ _ _ _ _ _ _ _ len] by auto
  note replays = sample.produced_replays(1)[OF lc(1) diag_wf, of True] sample.produced_replays(1)[OF uc(1) diag_wf, of True]
  have ends: "validate_selected_eigenvalue_enclosure sample_env c = Inr (x, y)"
    if replay: "replay_enclosure sample_env c (diag_box 1 4) True = Inr ()" and "enclosure_lower c = rational_record x" "enclosure_upper c = rational_record y" for c x y
  proof -
    obtain x' y' where v: "validate_selected_eigenvalue_enclosure sample_env c = Inr (x', y')" using replay unfolding sample.replay_Inr by blast
    then have "consistent_enclosure c x' y'" by (simp add: sample.validate_enclosure_Inr)
    then have "x' = x" "y' = y" using that record_value_rational record_value_unique by (auto simp: consistent_enclosure_def)
    then show ?thesis using v by simp
  qed
  have "certify_exact_spectral_gap sample_env lc uc = Inr \<lparr>exact_lower_cluster = lc, exact_upper_cluster = uc, exact_lower_bound = rational_record 1\<rparr>"
    using ends[OF replays(1) lc(6,7)] ends[OF replays(2) uc(6,7)] lc(2-5) uc(2-5) by (simp add: certify_exact_spectral_gap_def checked_add_def usize_max_def)
  then show ?thesis using that replays lc(3,4) by blast
qed

theorem verified_gap_separates_witness:
  "\<exists>g r. verify_exact_spectral_gap_with_matrix sample_env g (diag_box 1 4) = Inr r \<and> valid r \<and> mathematical_claim_verified r \<and>
     exact_lower_bound g = rational_record 1 \<and> first_enclosed_index (exact_upper_cluster g) = 1"
proof -
  obtain lc uc where c: "replay_enclosure sample_env lc (diag_box 1 4) True = Inr ()" "replay_enclosure sample_env uc (diag_box 1 4) True = Inr ()"
    "last_enclosed_index lc = 0" "enclosure_dimension lc = 2"
    "certify_exact_spectral_gap sample_env lc uc = Inr \<lparr>exact_lower_cluster = lc, exact_upper_cluster = uc, exact_lower_bound = rational_record 1\<rparr>"
    by (rule diag_clusters)
  let ?g = "\<lparr>exact_lower_cluster = lc, exact_upper_cluster = uc, exact_lower_bound = rational_record 1\<rparr>"
  have "replay_clusters sample_env (diag_box 1 4) [lc, uc] = Inr None" unfolding sample.replay_clusters_None[OF diag_wf] using c by simp
  then obtain r where r: "verify_exact_spectral_gap_with_matrix sample_env ?g (diag_box 1 4) = Inr r"
    by (simp add: verify_exact_spectral_gap_with_matrix_def Let_def del: replay_clusters.simps)
  note gap = verified_gap_separates[OF sample.certify_context_axioms diag_wf r refl refl]
  have "valid r" using gap[THEN conjunct2] c by simp
  then show ?thesis using gap[THEN conjunct1] r c(3) by (intro exI[of _ ?g] exI[of _ r]) simp
qed

end
