(* ===== verification/Toolkit_Version.thy ===== *)
theory Toolkit_Version
  imports Decimal_Literal "HOL-Library.Word" "HOL-Library.Product_Lexorder"
begin

text \<open>
  \<open>ToolkitVersion\<close> and \<open>CacheError\<close> of \<open>crates/xc-cache/src/lib.rs\<close>: the parser, the validator, the printer and the precedence
  order of semantic versions.

  \<open>comparison\<close> is what Rust's \<open>Ord\<close> asks of \<open>cmp\<close>; the order on identifiers, on prerelease labels and on versions are built
  from each other and each is an instance. A string is the list of its bytes; \<open>debug_text\<close> is Rust's quoted form of ASCII text.
\<close>

section \<open>Definitions\<close>

datatype CacheError =
    CacheIo string
  | CacheSerialization string
  | InvalidManifest string
  | DigestMismatch string string
  | CacheNotFound string
  | ReadOnlyLayer string
  | NoWritableShard string
  | InvalidTransition string
  | ResourceLimit string
  | CacheCancelled string
  | CacheAuthentication string
  | PermissionDenied string

definition hex_char :: "nat \<Rightarrow> char" where
  "hex_char d = (if d < 10 then digit_char d else char_of (87 + d))"

definition debug_char :: "char \<Rightarrow> string" where
  "debug_char c =
     (let code = of_char c :: nat in
      if c = CHR 0x22 then [CHR 0x5C, CHR 0x22]
      else if c = CHR 0x5C then [CHR 0x5C, CHR 0x5C]
      else if code = 0 then [CHR 0x5C, CHR ''0'']
      else if code = 9 then [CHR 0x5C, CHR ''t'']
      else if code = 10 then [CHR 0x5C, CHR ''n'']
      else if code = 13 then [CHR 0x5C, CHR ''r'']
      else if code < 16 then [CHR 0x5C] @ ''u{'' @ [hex_char code] @ ''}''
      else if code < 32 \<or> code = 127 then [CHR 0x5C] @ ''u{'' @ [hex_char (code div 16), hex_char (code mod 16)] @ ''}''
      else [c])"

definition debug_text :: "string \<Rightarrow> string" where
  "debug_text s = [CHR 0x22] @ concat (map debug_char s) @ [CHR 0x22]"

fun display_CacheError :: "CacheError \<Rightarrow> string" where
  "display_CacheError (CacheIo message) = ''cache I/O error: '' @ message"
| "display_CacheError (CacheSerialization message) = ''cache serialization error: '' @ message"
| "display_CacheError (InvalidManifest message) = ''invalid cache manifest: '' @ message"
| "display_CacheError (DigestMismatch expected actual) = ''cache digest mismatch: expected '' @ expected @ '', got '' @ actual"
| "display_CacheError (CacheNotFound message) = ''cache artifact not found: '' @ message"
| "display_CacheError (ReadOnlyLayer layer) = ''cache layer '' @ debug_text layer @ '' is read-only''"
| "display_CacheError (NoWritableShard message) = ''no writable cache shard: '' @ message"
| "display_CacheError (InvalidTransition message) = ''invalid cache state transition: '' @ message"
| "display_CacheError (ResourceLimit message) = ''cache resource limit reached: '' @ message"
| "display_CacheError (CacheCancelled message) = ''cache operation cancelled: '' @ message"
| "display_CacheError (CacheAuthentication message) = ''cache authentication failed: '' @ message"
| "display_CacheError (PermissionDenied message) = ''cache publication permission denied: '' @ message"

subsection \<open>Text helpers\<close>

text \<open>\<open>str::split(d)\<close> and \<open>str::split_once(d)\<close> for a one-byte separator.\<close>

fun split_on :: "char \<Rightarrow> string \<Rightarrow> string list" where
  "split_on d [] = [[]]"
| "split_on d (c # cs) = (if c = d then [] # split_on d cs else (c # hd (split_on d cs)) # tl (split_on d cs))"

definition split_once :: "char \<Rightarrow> string \<Rightarrow> (string \<times> string) option" where
  "split_once d s = (case dropWhile (\<lambda>c. c \<noteq> d) s of [] \<Rightarrow> None | _ # rest \<Rightarrow> Some (takeWhile (\<lambda>c. c \<noteq> d) s, rest))"

definition is_ascii_alphanumeric :: "char \<Rightarrow> bool" where
  "is_ascii_alphanumeric c \<longleftrightarrow> is_ascii_digit c \<or> (let code = of_char c :: nat in 65 \<le> code \<and> code \<le> 90 \<or> 97 \<le> code \<and> code \<le> 122)"

definition all_ascii_digits :: "string \<Rightarrow> bool" where
  "all_ascii_digits s \<longleftrightarrow> list_all is_ascii_digit s"

text \<open>\<open>part.len() > 1 && part.starts_with('0')\<close>\<close>

definition leading_zero :: "string \<Rightarrow> bool" where
  "leading_zero part \<longleftrightarrow> 1 < length part \<and> hd part = CHR ''0''"

text \<open>\<open>str::parse::<u64>\<close> on a nonempty text of digits.\<close>

definition parse_u64 :: "string \<Rightarrow> 64 word option" where
  "parse_u64 part = (if digits_value part < 2 ^ 64 then Some (word_of_nat (digits_value part)) else None)"

subsection \<open>Versions\<close>

datatype ToolkitVersion = ToolkitVersion (major: "64 word") (minor: "64 word") (patch: "64 word") (prerelease: "string option")

definition bad_identifier :: "string \<Rightarrow> bool" where
  "bad_identifier part \<longleftrightarrow> part = [] \<or> \<not> list_all (\<lambda>c. is_ascii_alphanumeric c \<or> c = CHR ''-'') part \<or>
     (leading_zero part \<and> all_ascii_digits part)"

definition version_validate :: "ToolkitVersion \<Rightarrow> CacheError + unit" where
  "version_validate v =
     (if (case prerelease v of None \<Rightarrow> False | Some label \<Rightarrow> list_ex bad_identifier (split_on CHR ''.'' label))
      then Inl (InvalidManifest ''invalid toolkit prerelease identifier'') else Inr ())"

definition parse_number :: "string \<Rightarrow> string \<Rightarrow> CacheError + 64 word" where
  "parse_number whole part =
     (if part = [] \<or> \<not> all_ascii_digits part \<or> leading_zero part
      then Inl (InvalidManifest (''invalid toolkit version '' @ debug_text whole))
      else case parse_u64 part of
        None \<Rightarrow> Inl (InvalidManifest (''invalid toolkit version '' @ debug_text whole))
      | Some n \<Rightarrow> Inr n)"

definition version_parse :: "string \<Rightarrow> CacheError + ToolkitVersion" where
  "version_parse input =
     bind_result (case split_once CHR ''-'' input of
         Some (core, label) \<Rightarrow>
           if label \<noteq> [] then Inr (core, Some label) else Inl (InvalidManifest (''invalid toolkit version '' @ debug_text input))
       | None \<Rightarrow> Inr (input, None)) (\<lambda>(core, label).
     let parts = split_on CHR ''.'' core in
     if length parts \<noteq> 3 then Inl (InvalidManifest (''toolkit version must be major.minor.patch: '' @ debug_text input))
     else
       bind_result (parse_number input (parts ! 0)) (\<lambda>a.
       bind_result (parse_number input (parts ! 1)) (\<lambda>b.
       bind_result (parse_number input (parts ! 2)) (\<lambda>c.
       let result = ToolkitVersion a b c label in
       bind_result (version_validate result) (\<lambda>_. Inr result)))))"

definition version_display :: "ToolkitVersion \<Rightarrow> string" where
  "version_display v =
     show_nat (unat (major v)) @ ''.'' @ show_nat (unat (minor v)) @ ''.'' @ show_nat (unat (patch v)) @
     (case prerelease v of None \<Rightarrow> [] | Some label \<Rightarrow> ''-'' @ label)"

subsection \<open>Precedence\<close>

fun then_with :: "Ordering \<Rightarrow> Ordering \<Rightarrow> Ordering" where
  "then_with Equal other = other"
| "then_with Less other = Less"
| "then_with Greater other = Greater"

text \<open>The comparison loop over two iterators: the first difference decides, a proper prefix is less.\<close>

fun list_cmp :: "('a \<Rightarrow> 'a \<Rightarrow> Ordering) \<Rightarrow> 'a list \<Rightarrow> 'a list \<Rightarrow> Ordering" where
  "list_cmp f [] [] = Equal"
| "list_cmp f [] (b # bs) = Less"
| "list_cmp f (a # as) [] = Greater"
| "list_cmp f (a # as) (b # bs) = (let order = f a b in if order \<noteq> Equal then order else list_cmp f as bs)"

text \<open>\<open>str::cmp\<close> compares the bytes.\<close>

definition byte_cmp :: "char \<Rightarrow> char \<Rightarrow> Ordering" where
  "byte_cmp a b = cmp (of_char a :: nat) (of_char b)"

definition str_cmp :: "string \<Rightarrow> string \<Rightarrow> Ordering" where
  "str_cmp = list_cmp byte_cmp"

definition identifier_cmp :: "string \<Rightarrow> string \<Rightarrow> Ordering" where
  "identifier_cmp a b =
     (case (all_ascii_digits a, all_ascii_digits b) of
        (True, True) \<Rightarrow> then_with (cmp (length a) (length b)) (str_cmp a b)
      | (True, False) \<Rightarrow> Less
      | (False, True) \<Rightarrow> Greater
      | (False, False) \<Rightarrow> str_cmp a b)"

definition prerelease_cmp :: "string option \<Rightarrow> string option \<Rightarrow> Ordering" where
  "prerelease_cmp a b =
     (case (a, b) of
        (None, None) \<Rightarrow> Equal
      | (None, Some _) \<Rightarrow> Greater
      | (Some _, None) \<Rightarrow> Less
      | (Some l, Some r) \<Rightarrow> list_cmp identifier_cmp (split_on CHR ''.'' l) (split_on CHR ''.'' r))"

definition version_cmp :: "ToolkitVersion \<Rightarrow> ToolkitVersion \<Rightarrow> Ordering" where
  "version_cmp v w =
     then_with (cmp (major v, minor v, patch v) (major w, minor w, patch w)) (prerelease_cmp (prerelease v) (prerelease w))"

definition version_partial_cmp :: "ToolkitVersion \<Rightarrow> ToolkitVersion \<Rightarrow> Ordering option" where
  "version_partial_cmp v w = Some (version_cmp v w)"

section \<open>Comparisons\<close>

locale comparison =
  fixes c :: "'a \<Rightarrow> 'a \<Rightarrow> Ordering"
  assumes equal_iff: "c a b = Equal \<longleftrightarrow> a = b"
    and reversed: "c b a = reverse_order (c a b)"
    and less_trans: "c a b = Less \<Longrightarrow> c b d = Less \<Longrightarrow> c a d = Less"
begin

lemma greater_iff: "c a b = Greater \<longleftrightarrow> c b a = Less"
  unfolding reversed[of b a] by (cases "c a b") auto

lemma refl_equal [simp]: "c a a = Equal"
  by (simp add: equal_iff)

lemma not_greater_trans: "c a b \<noteq> Greater \<Longrightarrow> c b d \<noteq> Greater \<Longrightarrow> c a d \<noteq> Greater"
  using less_trans[of a b d] equal_iff by (metis Ordering.exhaust Ordering.distinct(3))

lemma not_greater_antisym: "c a b \<noteq> Greater \<Longrightarrow> c b a \<noteq> Greater \<Longrightarrow> a = b"
  using equal_iff greater_iff by (metis Ordering.exhaust)

lemma not_greater_linear: "c a b \<noteq> Greater \<or> c b a \<noteq> Greater"
  using greater_iff by (metis Ordering.distinct(3))

lemma inj_comparison:
  assumes "inj f"
  shows "comparison (\<lambda>x y. c (f x) (f y))"
  using assms less_trans by unfold_locales (auto simp: equal_iff reversed[symmetric] inj_eq)

lemma list_comparison: "comparison (list_cmp c)"
proof
  show "list_cmp c a b = Equal \<longleftrightarrow> a = b" for a b
  proof (induction a arbitrary: b)
    case Nil
    then show ?case by (cases b) auto
  next
    case (Cons x xs)
    then show ?case by (cases b) (auto simp: Let_def equal_iff)
  qed
  show "list_cmp c b a = reverse_order (list_cmp c a b)" for a b
  proof (induction a arbitrary: b)
    case Nil
    then show ?case by (cases b) auto
  next
    case (Cons x xs)
    then show ?case
    proof (cases b)
      case (Cons y ys)
      then show ?thesis using \<open>\<And>b. list_cmp c b xs = reverse_order (list_cmp c xs b)\<close> reversed[where a = x and b = y] by (cases "c x y") (auto simp: Let_def)
    qed simp
  qed
  show "list_cmp c a b = Less \<Longrightarrow> list_cmp c b d = Less \<Longrightarrow> list_cmp c a d = Less" for a b d
  proof (induction a arbitrary: b d)
    case Nil
    then show ?case by (cases b; cases d) auto
  next
    case (Cons x xs)
    then obtain y ys z zs where "b = y # ys" "d = z # zs" by (cases b; cases d) auto
    then show ?case using Cons less_trans[of x y z] equal_iff[of x y] equal_iff[of y z] by (auto simp: Let_def split: if_splits)
  qed
qed

end

lemma then_with_Equal: "then_with a b = Equal \<longleftrightarrow> a = Equal \<and> b = Equal"
  by (cases a) auto

lemma then_with_Less: "then_with a b = Less \<longleftrightarrow> a = Less \<or> a = Equal \<and> b = Less"
  by (cases a) auto

lemma reverse_then_with: "reverse_order (then_with a b) = then_with (reverse_order a) (reverse_order b)"
  by (cases a) auto

text \<open>Two keys compared in turn.\<close>

lemma then_with_comparison:
  assumes "comparison f" "comparison g" and "\<And>x y. p x = p y \<Longrightarrow> q x = q y \<Longrightarrow> x = y"
  shows "comparison (\<lambda>x y. then_with (f (p x) (p y)) (g (q x) (q y)))"
proof -
  note f = comparison.equal_iff[OF assms(1)] comparison.less_trans[OF assms(1)]
    and g = comparison.equal_iff[OF assms(2)] comparison.less_trans[OF assms(2)]
  show ?thesis
  proof
    fix a b d
    show "then_with (f (p a) (p b)) (g (q a) (q b)) = Equal \<longleftrightarrow> a = b" using assms(3) by (auto simp: then_with_Equal f(1) g(1))
    show "then_with (f (p b) (p a)) (g (q b) (q a)) = reverse_order (then_with (f (p a) (p b)) (g (q a) (q b)))"
      by (simp add: reverse_then_with comparison.reversed[OF assms(1), of "p b"] comparison.reversed[OF assms(2), of "q b"])
    assume "then_with (f (p a) (p b)) (g (q a) (q b)) = Less" "then_with (f (p b) (p d)) (g (q b) (q d)) = Less"
    then show "then_with (f (p a) (p d)) (g (q a) (q d)) = Less"
      using f(2)[of "p a" "p b" "p d"] g(2)[of "q a" "q b" "q d"] by (auto simp: then_with_Less f(1))
  qed
qed

lemma cmp_comparison: "comparison (cmp :: 'a :: linorder \<Rightarrow> 'a \<Rightarrow> Ordering)"
  by unfold_locales (auto simp: cmp_def split: if_splits)

interpretation byte: comparison byte_cmp
  unfolding byte_cmp_def using comparison.inj_comparison[OF cmp_comparison, of "of_char :: char \<Rightarrow> nat"] by (simp add: inj_def)

interpretation str: comparison str_cmp
  unfolding str_cmp_def by (rule byte.list_comparison)

text \<open>A linear choice between two comparisons: all of one kind before all of the other.\<close>

lemma tagged_comparison:
  assumes "comparison f" "comparison g"
  shows "comparison (\<lambda>a b. if P a then (if P b then f a b else Less) else if P b then Greater else g a b)"
proof -
  note f = comparison.equal_iff[OF assms(1)] comparison.less_trans[OF assms(1)]
    and g = comparison.equal_iff[OF assms(2)] comparison.less_trans[OF assms(2)]
  show ?thesis
  proof
    fix a b d
    show "(if P b then if P a then f b a else Less else if P a then Greater else g b a) =
        reverse_order (if P a then if P b then f a b else Less else if P b then Greater else g a b)"
      using comparison.reversed[OF assms(1), of b a] comparison.reversed[OF assms(2), of b a] by simp
  qed (auto simp: f(1) g(1) split: if_splits intro: f(2) g(2))
qed

lemma identifier_cmp_eq:
  "identifier_cmp = (\<lambda>a b. if all_ascii_digits a then (if all_ascii_digits b then then_with (cmp (length a) (length b)) (str_cmp a b) else Less)
     else if all_ascii_digits b then Greater else str_cmp a b)"
  by (intro ext) (auto simp: identifier_cmp_def split: bool.splits)

interpretation ident: comparison identifier_cmp
  unfolding identifier_cmp_eq
  using then_with_comparison[OF cmp_comparison str.comparison_axioms, of length "\<lambda>s. s"] str.comparison_axioms
  by (intro tagged_comparison) auto

lemma split_on_not_Nil [simp]: "split_on d s \<noteq> []" "[] \<noteq> split_on d s"
  by (cases s; simp)+

lemma split_on_inj: "split_on d s = split_on d t \<Longrightarrow> s = t"
proof (induction s arbitrary: t)
  case Nil
  then show ?case by (cases t) (auto split: if_splits)
next
  case (Cons c cs)
  then obtain e es where t: "t = e # es" by (cases t) (auto split: if_splits)
  have "hd (split_on d cs) = hd (split_on d es) \<Longrightarrow> tl (split_on d cs) = tl (split_on d es) \<Longrightarrow> cs = es"
    using Cons.IH[of es] list.expand[of "split_on d cs" "split_on d es"] by simp
  then show ?case using Cons t by (auto split: if_splits)
qed

interpretation label: comparison "\<lambda>l r. list_cmp identifier_cmp (split_on CHR ''.'' l) (split_on CHR ''.'' r)"
  by (rule comparison.inj_comparison[OF ident.list_comparison]) (auto intro: injI split_on_inj)

interpretation pre: comparison prerelease_cmp
proof
  fix a b d
  show "prerelease_cmp a b = Equal \<longleftrightarrow> a = b" by (auto simp: prerelease_cmp_def label.equal_iff split: option.splits)
  show "prerelease_cmp b a = reverse_order (prerelease_cmp a b)"
    by (cases a; cases b) (auto simp: prerelease_cmp_def intro: label.reversed)
  show "prerelease_cmp a b = Less \<Longrightarrow> prerelease_cmp b d = Less \<Longrightarrow> prerelease_cmp a d = Less"
    by (auto simp: prerelease_cmp_def split: option.splits intro: label.less_trans)
qed

interpretation version: comparison version_cmp
  unfolding version_cmp_def
  by (rule then_with_comparison[OF cmp_comparison pre.comparison_axioms, where p = "\<lambda>v. (major v, minor v, patch v)" and q = prerelease])
    (auto intro: ToolkitVersion.expand)

lemma partial_cmp_le: "version_partial_cmp v w \<in> {Some Less, Some Equal} \<longleftrightarrow> version_cmp v w \<noteq> Greater"
  by (cases "version_cmp v w") (simp_all add: version_partial_cmp_def)

text \<open>The operators \<open><=\<close> and \<open><\<close>, which \<open>PartialOrd\<close> provides from \<open>partial_cmp\<close>, are a linear order of the type.\<close>

instantiation ToolkitVersion :: linorder
begin

definition less_eq_ToolkitVersion :: "ToolkitVersion \<Rightarrow> ToolkitVersion \<Rightarrow> bool" where
  "v \<le> w \<longleftrightarrow> version_partial_cmp v w \<in> {Some Less, Some Equal}"

definition less_ToolkitVersion :: "ToolkitVersion \<Rightarrow> ToolkitVersion \<Rightarrow> bool" where
  "v < w \<longleftrightarrow> version_partial_cmp v w = Some Less"

instance
proof
  fix u v w :: ToolkitVersion
  note le = less_eq_ToolkitVersion_def partial_cmp_le
  show "u < v \<longleftrightarrow> u \<le> v \<and> \<not> v \<le> u"
    using version.greater_iff[of v u] unfolding le by (auto simp: less_ToolkitVersion_def version_partial_cmp_def)
  show "u \<le> u" unfolding le by simp
  show "u \<le> v \<Longrightarrow> v \<le> w \<Longrightarrow> u \<le> w" unfolding le by (rule version.not_greater_trans)
  show "u \<le> v \<Longrightarrow> v \<le> u \<Longrightarrow> u = v" unfolding le by (rule version.not_greater_antisym)
  show "u \<le> v \<or> v \<le> u" unfolding le by (rule version.not_greater_linear)
qed

end

section \<open>Reading and printing\<close>

lemma split_on_single: "d \<notin> set s \<Longrightarrow> split_on d s = [s]"
  by (induction s) auto

lemma split_on_app: "d \<notin> set a \<Longrightarrow> split_on d (a @ d # s) = a # split_on d s"
  by (induction a) auto

lemma split_on_parts: "p \<in> set (split_on d s) \<Longrightarrow> d \<notin> set p"
proof (induction s arbitrary: p)
  case (Cons c cs)
  have "set (split_on d cs) = insert (hd (split_on d cs)) (set (tl (split_on d cs)))"
    by (metis list.collapse list.simps(15) split_on_not_Nil(1))
  then show ?case using Cons by (auto split: if_splits)
qed simp

lemma split_on_three: "split_on d s = [a, b, c] \<longleftrightarrow> s = a @ d # b @ d # c \<and> d \<notin> set a \<and> d \<notin> set b \<and> d \<notin> set c"
proof
  assume s: "split_on d s = [a, b, c]"
  then have "d \<notin> set a" "d \<notin> set b" "d \<notin> set c" using split_on_parts[of _ d s] by auto
  moreover then have "split_on d (a @ d # b @ d # c) = [a, b, c]" by (simp add: split_on_app split_on_single)
  ultimately show "s = a @ d # b @ d # c \<and> d \<notin> set a \<and> d \<notin> set b \<and> d \<notin> set c" using s split_on_inj by metis
qed (simp add: split_on_app split_on_single)

lemma split_once_None: "split_once d s = None \<longleftrightarrow> d \<notin> set s"
proof (cases "d \<in> set s")
  case True
  then have "dropWhile (\<lambda>c. c \<noteq> d) s \<noteq> []" by (auto simp: dropWhile_eq_Nil_conv)
  then show ?thesis using True by (auto simp: split_once_def split: list.split)
next
  case False
  then have e: "dropWhile (\<lambda>c. c \<noteq> d) s = []" by (auto simp: dropWhile_eq_Nil_conv)
  show ?thesis unfolding split_once_def e using False by simp
qed

lemma split_once_Some: "split_once d s = Some (a, b) \<longleftrightarrow> s = a @ d # b \<and> d \<notin> set a"
proof -
  have "split_once d (a @ d # b) = Some (a, b)" if "d \<notin> set a" for a b
    using that by (induction a) (auto simp: split_once_def split: list.splits)
  moreover have "\<exists>a b. s = a @ d # b \<and> d \<notin> set a" if "d \<in> set s" using that split_list_first by metis
  ultimately show ?thesis using split_once_None[of d s] by fastforce
qed

lemma digit_char_digit: "is_ascii_digit c \<Longrightarrow> digit_char (char_digit c) = c"
proof -
  assume "is_ascii_digit c"
  then have "of_char (digit_char (char_digit c)) = (of_char c :: nat)"
    using of_char_digit_char[OF char_digit_less[of c]] by (simp add: is_ascii_digit_def char_digit_def)
  then show ?thesis by (simp only: of_char_eq_iff)
qed

lemma show_digits_value:
  "all_ascii_digits p \<Longrightarrow> p \<noteq> [] \<Longrightarrow> \<not> leading_zero p \<Longrightarrow> show_nat (digits_value p) = p"
proof (induction p rule: rev_induct)
  case (snoc c q)
  have c: "is_ascii_digit c" "char_digit c < 10" using snoc.prems by (auto simp: all_ascii_digits_def char_digit_less)
  show ?case
  proof (cases "q = []")
    case True
    then show ?thesis using c digit_char_digit by (subst show_nat.simps) (simp add: digits_value_def)
  next
    case False
    then have q: "all_ascii_digits q" "\<not> leading_zero q" "hd q \<noteq> CHR ''0''"
      using snoc.prems by (auto simp: all_ascii_digits_def leading_zero_def)
    then have IH: "show_nat (digits_value q) = q" using snoc.IH False by blast
    have "digits_value q \<noteq> 0"
    proof
      assume "digits_value q = 0"
      then have "q = ''0''" using IH by (simp add: show_nat.simps digit_chars(1))
      then show False using q(3) by simp
    qed
    then show ?thesis using IH c digit_char_digit by (subst show_nat.simps) (auto simp: mod_Suc)
  qed
qed simp

lemma show_nat_no_leading_zero: "\<not> leading_zero (show_nat n)"
proof (induction n rule: show_nat.induct)
  case (1 n)
  show ?case
  proof (cases "n < 10")
    case True
    then show ?thesis by (subst show_nat.simps) (simp add: leading_zero_def)
  next
    case False
    then have *: "show_nat n = show_nat (n div 10) @ [digit_char (n mod 10)]" "\<not> leading_zero (show_nat (n div 10))"
      by (subst show_nat.simps, simp) (rule 1[OF False])
    have "hd (show_nat (n div 10)) \<noteq> CHR ''0''"
    proof (cases "n div 10 < 10")
      case True
      then have "show_nat (n div 10) = [digit_char (n div 10)]" by (subst show_nat.simps) simp
      moreover have "digit_char (n div 10) \<noteq> digit_char 0"
      proof
        assume "digit_char (n div 10) = digit_char 0"
        then have "n div 10 = 0" using True char_digit_digit_char[of "n div 10"] char_digit_digit_char[of 0] by simp
        then show False using False by simp
      qed
      ultimately show ?thesis by (simp add: digit_chars(1))
    next
      case False
      then have "1 < length (show_nat (n div 10))" by (subst show_nat.simps) (simp add: Suc_le_eq)
      then show ?thesis using *(2) by (simp add: leading_zero_def)
    qed
    then show ?thesis using * by (simp add: leading_zero_def)
  qed
qed

lemma parse_number_Inr: "parse_number w part = Inr n \<longleftrightarrow> part = show_nat (unat n)"
proof
  assume r: "parse_number w part = Inr n"
  then have p: "all_ascii_digits part" "part \<noteq> []" "\<not> leading_zero part" "digits_value part < 2 ^ 64" "n = word_of_nat (digits_value part)"
    by (auto simp: parse_number_def parse_u64_def split: if_splits)
  then have "unat n = digits_value part" by (simp add: unsigned_of_nat take_bit_nat_eq_self)
  then show "part = show_nat (unat n)" using show_digits_value[OF p(1-3)] by simp
next
  have "unat n < 2 ^ 64" using unsigned_less[of n] by simp
  moreover assume "part = show_nat (unat n)"
  ultimately show "parse_number w part = Inr n"
    using show_nat_digits[of "unat n"] show_nat_no_leading_zero[of "unat n"]
    by (simp add: parse_number_def parse_u64_def all_ascii_digits_def list_all_iff)
qed

section \<open>Properties\<close>

lemma show_nat_no_mark: "c \<in> {CHR ''.'', CHR ''-''} \<Longrightarrow> c \<notin> set (show_nat n)"
  using show_nat_digits[of n] by (auto simp: is_ascii_digit_def)

lemma three_parts: "length ps = 3 \<and> ps ! 0 = a \<and> ps ! 1 = b \<and> ps ! 2 = c \<longleftrightarrow> ps = [a, b, c]"
  by (auto simp: numeral_3_eq_3 numeral_2_eq_2 length_Suc_conv)

text \<open>C35. A text parses as a toolkit version exactly when it is the printed form of that version and the version is valid: printing and
  parsing are inverse to each other, so no two spellings denote one version and no accepted text loses anything.\<close>

theorem version_parse_display: "version_parse s = Inr v \<longleftrightarrow> version_validate v = Inr () \<and> s = version_display v"
proof -
  obtain a b c label where v: "v = ToolkitVersion a b c label" by (cases v)
  define number where "number = show_nat (unat a) @ CHR ''.'' # show_nat (unat b) @ CHR ''.'' # show_nat (unat c)"
  have dash: "CHR ''-'' \<notin> set number" using show_nat_no_mark by (auto simp: number_def)
  have display: "version_display v = number @ (case label of None \<Rightarrow> [] | Some l \<Rightarrow> CHR ''-'' # l)"
    by (cases label) (simp_all add: v version_display_def number_def)
  have parts: "length (split_on CHR ''.'' core) = 3 \<and> parse_number s (split_on CHR ''.'' core ! 0) = Inr a \<and>
      parse_number s (split_on CHR ''.'' core ! 1) = Inr b \<and> parse_number s (split_on CHR ''.'' core ! 2) = Inr c \<longleftrightarrow> core = number" for core
  proof -
    show ?thesis unfolding parse_number_Inr three_parts split_on_three number_def using show_nat_no_mark by auto
  qed
  have empty_label: "version_validate (ToolkitVersion a b c (Some [])) \<noteq> Inr ()" by (simp add: version_validate_def bad_identifier_def)
  have inner: "(let parts = split_on CHR ''.'' core in
     if length parts \<noteq> 3 then Inl (InvalidManifest (''toolkit version must be major.minor.patch: '' @ debug_text s))
     else bind_result (parse_number s (parts ! 0)) (\<lambda>a. bind_result (parse_number s (parts ! 1)) (\<lambda>b. bind_result (parse_number s (parts ! 2)) (\<lambda>c.
       let result = ToolkitVersion a b c l in bind_result (version_validate result) (\<lambda>_. Inr result))))) = Inr v \<longleftrightarrow>
      core = number \<and> l = label \<and> version_validate v = Inr ()" for core l
    unfolding parts[of core, symmetric] v Let_def by (auto simp only: result_simps ToolkitVersion.inject sum.inject sum.distinct split: if_splits) simp
  show ?thesis
  proof (cases "split_once CHR ''-'' s")
    case None
    then have "version_parse s = Inr v \<longleftrightarrow> s = number \<and> None = label \<and> version_validate v = Inr ()"
      unfolding version_parse_def by (simp add: inner)
    then show ?thesis using None dash by (cases label) (auto simp: display split_once_None)
  next
    case (Some xl)
    obtain x l where xl: "xl = (x, l)" by (cases xl)
    then have s: "s = x @ CHR ''-'' # l" "CHR ''-'' \<notin> set x" using Some by (auto simp: split_once_Some)
    have "version_parse s = Inr v \<longleftrightarrow> l \<noteq> [] \<and> x = number \<and> Some l = label \<and> version_validate v = Inr ()"
      unfolding version_parse_def using Some xl by (simp add: inner)
    moreover have "s = version_display v \<longleftrightarrow> x = number \<and> Some l = label"
    proof (cases label)
      case (Some l')
      then have "s = version_display v \<longleftrightarrow> split_once CHR ''-'' s = Some (number, l')" using dash by (simp add: display split_once_Some)
      then show ?thesis using Some \<open>split_once CHR ''-'' s = Some xl\<close> xl by auto
    qed (use s dash in \<open>auto simp: display\<close>)
    ultimately show ?thesis using empty_label v by auto
  qed
qed

lemma str_cmp_digits:
  "list_all is_ascii_digit a \<Longrightarrow> list_all is_ascii_digit b \<Longrightarrow> length a = length b \<Longrightarrow> str_cmp a b = cmp (digits_value a) (digits_value b)"
proof (induction a arbitrary: b)
  case (Cons x a)
  then obtain y b' where b: "b = y # b'" by (cases b) auto
  have dv: "digits_value (c # s) = char_digit c * 10 ^ length s + digits_value s" for c s
    by (simp add: digits_value_digits_nat digits_nat_Cons)
  have bound: "digits_value s < 10 ^ length s" if "list_all is_ascii_digit s" for s
    using that digits_nat_less[of "map char_digit s"] char_digit_less by (auto simp: digits_value_digits_nat list_all_iff)
  have step: "i * m + u < j * m + w" if "i < j" "u < m" for i j m u w :: nat
  proof -
    have "i * m + u < Suc i * m" using that(2) by simp
    also have "\<dots> \<le> j * m" using that(1) by (intro mult_le_mono1) simp
    finally show ?thesis by simp
  qed
  have tail: "list_all is_ascii_digit a" "list_all is_ascii_digit b'" "length a = length b'" and IH: "str_cmp a b' = cmp (digits_value a) (digits_value b')"
    using Cons b by auto
  have heads: "byte_cmp x y = cmp (char_digit x) (char_digit y)"
  proof -
    have "cmp (i - 48) (j - 48) = cmp i j" if "48 \<le> i" "48 \<le> j" for i j :: nat using that by (auto simp: cmp_def)
    then show ?thesis using Cons.prems b by (simp add: byte_cmp_def is_ascii_digit_def char_digit_def)
  qed
  show ?case
  proof (cases "byte_cmp x y")
    case Less
    then have "digits_value (x # a) < digits_value (y # b')" unfolding dv tail(3) using heads step bound[OF tail(1)] tail(3) by simp
    then show ?thesis using Less b by (simp add: str_cmp_def Let_def cmp_def)
  next
    case Greater
    then have "digits_value (y # b') < digits_value (x # a)" unfolding dv tail(3) using heads step bound[OF tail(2)] by simp
    then show ?thesis using Greater b by (simp add: str_cmp_def Let_def cmp_def)
  next
    case Equal
    then have "char_digit x = char_digit y" using heads by simp
    then show ?thesis using Equal IH b tail(3) dv by (simp add: str_cmp_def Let_def cmp_def)
  qed
qed (simp add: str_cmp_def cmp_def)

lemma identifier_cmp_numeric:
  assumes "all_ascii_digits a" "all_ascii_digits b" "a \<noteq> []" "b \<noteq> []" "\<not> leading_zero a" "\<not> leading_zero b"
  shows "identifier_cmp a b = cmp (digits_value a) (digits_value b)"
proof -
  have less: "digits_value s < digits_value t" if "length s < length t" "all_ascii_digits s" "all_ascii_digits t" "s \<noteq> []" "\<not> leading_zero t" for s t
  proof -
    have "digits_value s < 10 ^ length s"
      using that(2) digits_nat_less[of "map char_digit s"] char_digit_less by (auto simp: digits_value_digits_nat list_all_iff all_ascii_digits_def)
    also have "\<dots> \<le> 10 ^ (length t - 1)" using that(1) by (intro power_increasing) auto
    also have "\<dots> \<le> digits_value t"
    proof -
      have t: "t \<noteq> []" "1 < length t" using that(1,4) by (cases s; auto)+
      then have "hd t \<noteq> CHR ''0''" using that(5) by (simp add: leading_zero_def)
      moreover have "is_ascii_digit (hd t)" using that(3) t(1) by (cases t) (auto simp: all_ascii_digits_def)
      ultimately have "char_digit (hd t) \<noteq> 0" using digit_char_digit[of "hd t"] digit_chars(1) by metis
      then show ?thesis using digits_nat_lower[of "map char_digit t"] t(1) by (simp add: digits_value_digits_nat hd_map)
    qed
    finally show ?thesis .
  qed
  show ?thesis
  proof (cases "length a" "length b" rule: linorder_cases)
    case equal
    then show ?thesis using assms str_cmp_digits by (simp add: identifier_cmp_def all_ascii_digits_def cmp_def)
  qed (use assms less[of a b] less[of b a] in \<open>auto simp: identifier_cmp_def cmp_def\<close>)
qed

text \<open>Version precedence is a total order that agrees with equality: \<open>cmp\<close> gives \<open>Equal\<close> only on equal versions, reverses
  when its arguments are exchanged, and is transitive; the numbers decide first, a release comes after each of its prereleases, a numeric
  identifier comes before any other, and two of them compare by their value.\<close>

theorem version_precedence:
  fixes u v w :: ToolkitVersion
  shows "(version_cmp v w = Equal \<longleftrightarrow> v = w) \<and> version_cmp w v = reverse_order (version_cmp v w) \<and>
    (version_cmp u v = Less \<and> version_cmp v w = Less \<longrightarrow> version_cmp u w = Less) \<and>
    ((major v, minor v, patch v) < (major w, minor w, patch w) \<longrightarrow> version_cmp v w = Less) \<and>
    version_cmp (ToolkitVersion a b c (Some label)) (ToolkitVersion a b c None) = Less \<and>
    (all_ascii_digits s \<and> \<not> all_ascii_digits t \<longrightarrow> identifier_cmp s t = Less) \<and>
    (all_ascii_digits s \<and> all_ascii_digits t \<and> \<not> bad_identifier s \<and> \<not> bad_identifier t \<longrightarrow>
      identifier_cmp s t = cmp (digits_value s) (digits_value t))"
proof (intro conjI impI)
  show "version_cmp v w = Equal \<longleftrightarrow> v = w" "version_cmp w v = reverse_order (version_cmp v w)" by (rule version.equal_iff version.reversed)+
  show "version_cmp u v = Less \<and> version_cmp v w = Less \<Longrightarrow> version_cmp u w = Less" using version.less_trans by blast
  show "(major v, minor v, patch v) < (major w, minor w, patch w) \<Longrightarrow> version_cmp v w = Less"
    unfolding version_cmp_def then_with_Less cmp_simps by blast
  show "version_cmp (ToolkitVersion a b c (Some label)) (ToolkitVersion a b c None) = Less" by (simp add: version_cmp_def prerelease_cmp_def cmp_def)
  show "all_ascii_digits s \<and> \<not> all_ascii_digits t \<Longrightarrow> identifier_cmp s t = Less" by (simp add: identifier_cmp_def)
  show "all_ascii_digits s \<and> all_ascii_digits t \<and> \<not> bad_identifier s \<and> \<not> bad_identifier t \<Longrightarrow>
      identifier_cmp s t = cmp (digits_value s) (digits_value t)"
    using identifier_cmp_numeric[of s t] by (auto simp: bad_identifier_def)
qed

theorem version_precedence_witness:
  "version_cmp (ToolkitVersion 1 2 3 (Some ''rc.9'')) (ToolkitVersion 1 3 0 None) = Less \<and>
   version_cmp (ToolkitVersion 1 3 0 (Some ''rc.1'')) (ToolkitVersion 1 3 0 None) = Less \<and>
   identifier_cmp ''9'' ''10'' = Less \<and> identifier_cmp ''10'' ''alpha'' = Less"
proof -
  have ids: "all_ascii_digits ''9''" "all_ascii_digits ''10''" "\<not> all_ascii_digits ''alpha''" "\<not> bad_identifier ''9''" "\<not> bad_identifier ''10''"
    "digits_value ''9'' = 9" "digits_value ''10'' = 10"
    by code_simp+
  note p = version_precedence[of "ToolkitVersion 1 2 3 (Some ''rc.9'')" "ToolkitVersion 1 3 0 None" _ 1 3 0 "''rc.1''"]
  show ?thesis using p[of _ "''9''" "''10''"] p[of _ "''10''" "''alpha''"] ids by (simp add: cmp_def)
qed

end
