(* ===== verification/Portable_Inertia.thy ===== *)
theory Portable_Inertia
  imports Eigenvalue_Certificates Toolkit_Version
begin

text \<open>
  Self-contained inertia certificates of \<open>crates/xc-certify/src/lib.rs\<close>: the record that carries its matrix, its identity, its structural
  check, the builders for the four elimination routes, and the verifier that parses the matrix back and repeats the elimination.

  The digest of the JSON text of a certificate is an operation of the environment, as the digest of a matrix is. \<open>configuration\<close> is
  the list of the entries of the map in key order.
\<close>

section \<open>Definitions\<close>

record PortableIntervalInertiaCertificate =
  schema_version :: nat
  certificate_id :: ContentDigest
  toolkit_version :: ToolkitVersion
  configuration :: "(string \<times> string) list"
  inertia_dimension :: nat
  precision_bits :: nat
  scalar_backend :: string
  inertia_matrix_digest :: ContentDigest
  assembly_evidence_digest :: ContentDigest
  inertia_matrix :: "ExactRationalIntervalRecord list"
  certified_positive :: nat
  certified_negative :: nat
  zero_or_unresolved :: nat
  certified_pivots :: "ExactRationalIntervalRecord list"
  certificate_notes :: "string list"

record portable_env =
  certifier :: certify_env
  certificate_digest_op :: "PortableIntervalInertiaCertificate \<Rightarrow> string + ContentDigest"

definition zero_digest :: ContentDigest where
  "zero_digest = ContentDigest (replicate 64 CHR ''0'')"

definition cargo_pkg_version :: string where
  "cargo_pkg_version = ''0.17.0''"

definition computed_matrix_digest :: "portable_env \<Rightarrow> PortableIntervalInertiaCertificate \<Rightarrow> CertificateError + ContentDigest" where
  "computed_matrix_digest E c =
     map_err (\<lambda>e. InvalidCertificate (''failed to serialize interval matrix: '' @ e))
       (matrix_digest_op (certifier E) (inertia_dimension c) (inertia_matrix c))"

definition computed_certificate_id :: "portable_env \<Rightarrow> PortableIntervalInertiaCertificate \<Rightarrow> CertificateError + ContentDigest" where
  "computed_certificate_id E c =
     map_err (\<lambda>e. InvalidCertificate (''failed to serialize portable inertia certificate: '' @ e))
       (certificate_digest_op E (c\<lparr>certificate_id := zero_digest\<rparr>))"

definition refresh_certificate_id ::
  "portable_env \<Rightarrow> PortableIntervalInertiaCertificate \<Rightarrow> CertificateError + PortableIntervalInertiaCertificate" where
  "refresh_certificate_id E c = bind_result (computed_certificate_id E c) (\<lambda>d. Inr (c\<lparr>certificate_id := d\<rparr>))"

definition validate_inertia_structure :: "portable_env \<Rightarrow> PortableIntervalInertiaCertificate \<Rightarrow> CertificateError + unit" where
  "validate_inertia_structure E c =
     (if \<not> (1 \<le> schema_version c \<and> schema_version c \<le> 4) \<or> inertia_dimension c = 0 \<or>
         length (inertia_matrix c) \<noteq> saturating_mul (inertia_dimension c) (inertia_dimension c)
      then Inl (InvalidCertificate ''portable inertia certificate has invalid schema or dimensions'')
      else if precision_bits c < 32 \<or> (schema_version c \<in> {2, 4} \<and> 1000000 < precision_bits c) \<or> blank (scalar_backend c) \<or>
         configuration c = []
      then Inl (InvalidCertificate ''portable inertia certificate lacks a valid precision or backend'')
      else if Option.bind (checked_add (certified_positive c) (certified_negative c)) (\<lambda>n. checked_add n (zero_or_unresolved c)) \<noteq>
         Some (inertia_dimension c)
      then Inl (InvalidCertificate ''portable inertia counts do not sum to the matrix dimension'')
      else if length (certified_pivots c) \<noteq>
         (inertia_dimension c - zero_or_unresolved c) + (if 0 < zero_or_unresolved c then 1 else 0)
      then Inl (InvalidCertificate ''portable inertia pivot count is inconsistent with its unresolved suffix'')
      else bind_result (collect_results interval_validate_syntax (inertia_matrix c @ certified_pivots c)) (\<lambda>_.
        if \<not> digest_validate (inertia_matrix_digest c) \<or> \<not> digest_validate (assembly_evidence_digest c) \<or> \<not> digest_validate (certificate_id c)
        then Inl (InvalidCertificate ''portable inertia certificate contains an invalid digest'')
        else bind_result (computed_matrix_digest E c) (\<lambda>matrix_digest.
        if matrix_digest \<noteq> inertia_matrix_digest c
        then Inl (VerificationFailed ''portable inertia matrix digest mismatch'')
        else bind_result (computed_certificate_id E c) (\<lambda>identifier.
        if identifier \<noteq> certificate_id c
        then Inl (VerificationFailed ''portable inertia certificate identifier mismatch'')
        else Inr ()))))"

text \<open>The counts, the unresolved suffix and the pivots of an elimination.\<close>

fun inertia_summary :: "IntervalInertiaResult \<Rightarrow> nat \<times> nat \<times> nat \<times> RationalInterval list" where
  "inertia_summary (ConclusiveInertia positive negative pivots) = (positive, negative, 0, pivots)"
| "inertia_summary (InconclusiveInertia _ positive negative unresolved pivots _) = (positive, negative, unresolved, pivots)"

definition build_inertia ::
  "portable_env \<Rightarrow> RationalInterval list \<Rightarrow> nat \<Rightarrow> nat \<Rightarrow> nat \<Rightarrow> CertificateError fault + IntervalInertiaResult" where
  "build_inertia E matrix dimension bits schema =
     (let B = certifier E in
      if schema = 1 then interval_symmetric_ldlt_inertia_impl (isqrt_op B) matrix dimension False
      else if schema = 3 then interval_symmetric_ldlt_inertia (isqrt_op B) matrix dimension
      else if schema = 2 then interval_symmetric_ldlt_inertia_mpfr (rug_op B) (threads B) matrix dimension bits
      else if schema = 4 then interval_symmetric_ldlt_inertia_mpfr_stable (rug_op B) (threads B) matrix dimension bits
      else Inl (Raised (InvalidCertificate ''unsupported inertia schema'')))"

definition build_portable_interval_inertia_with_schema ::
  "portable_env \<Rightarrow> RationalInterval list \<Rightarrow> nat \<Rightarrow> nat \<Rightarrow> string \<Rightarrow> ContentDigest \<Rightarrow> (string \<times> string) list \<Rightarrow> string list \<Rightarrow> nat \<Rightarrow>
     CertificateError fault + PortableIntervalInertiaCertificate" where
  "build_portable_interval_inertia_with_schema E matrix dimension bits backend evidence config note_list schema =
     (if \<not> digest_validate evidence then Inl (Raised (InvalidCertificate ''assembly evidence digest is invalid''))
      else bind_result (build_inertia E matrix dimension bits schema) (\<lambda>inertia.
        let (positive, negative, unresolved, pivots) = inertia_summary inertia in
        bind_result (map_err Raised (map_err (\<lambda>e. InvalidCertificate (''invalid toolkit package version: '' @ display_CacheError e))
          (version_parse cargo_pkg_version))) (\<lambda>version.
        let c = \<lparr>schema_version = schema, certificate_id = zero_digest, toolkit_version = version, configuration = config,
              inertia_dimension = dimension, precision_bits = bits, scalar_backend = backend, inertia_matrix_digest = zero_digest,
              assembly_evidence_digest = evidence, inertia_matrix = map interval_record matrix, certified_positive = positive,
              certified_negative = negative, zero_or_unresolved = unresolved, certified_pivots = map interval_record pivots, certificate_notes = note_list\<rparr> in
        map_err Raised (bind_result (computed_matrix_digest E c) (\<lambda>d.
          bind_result (refresh_certificate_id E (c\<lparr>inertia_matrix_digest := d\<rparr>)) (\<lambda>c.
          bind_result (validate_inertia_structure E c) (\<lambda>_. Inr c)))))))"

definition build_portable_interval_inertia_certificate where
  "build_portable_interval_inertia_certificate E matrix dimension bits backend evidence config note_list =
     build_portable_interval_inertia_with_schema E matrix dimension bits backend evidence config note_list 3"

definition build_portable_interval_inertia_certificate_mpfr where
  "build_portable_interval_inertia_certificate_mpfr E matrix dimension bits backend evidence config note_list =
     build_portable_interval_inertia_with_schema E matrix dimension bits backend evidence config note_list 2"

definition build_portable_interval_inertia_certificate_mpfr_stable where
  "build_portable_interval_inertia_certificate_mpfr_stable E matrix dimension bits backend evidence config note_list =
     build_portable_interval_inertia_with_schema E matrix dimension bits backend evidence config note_list 4"

text \<open>The replay differs from the builder in schema 1, which is repeated without the resource budget.\<close>

definition replay_inertia ::
  "portable_env \<Rightarrow> RationalInterval list \<Rightarrow> nat \<Rightarrow> nat \<Rightarrow> nat \<Rightarrow> CertificateError fault + IntervalInertiaResult" where
  "replay_inertia E matrix dimension bits schema =
     (let B = certifier E in
      if schema = 1 then interval_symmetric_ldlt_inertia_with_budget (isqrt_op B) matrix dimension False False
      else if schema = 3 then interval_symmetric_ldlt_inertia (isqrt_op B) matrix dimension
      else if schema = 2 then interval_symmetric_ldlt_inertia_mpfr (rug_op B) (threads B) matrix dimension bits
      else if schema = 4 then interval_symmetric_ldlt_inertia_mpfr_stable (rug_op B) (threads B) matrix dimension bits
      else Inl (Raised (InvalidCertificate ''unsupported inertia replay schema'')))"

definition verify_portable_interval_inertia_exact :: "portable_env \<Rightarrow> PortableIntervalInertiaCertificate \<Rightarrow> CertificateError fault + unit" where
  "verify_portable_interval_inertia_exact E c =
     bind_result (map_err Raised (validate_inertia_structure E c)) (\<lambda>_.
     bind_result (map_err Raised (collect_results (parse_interval (parse_op (certifier E))) (inertia_matrix c))) (\<lambda>matrix.
     bind_result (replay_inertia E matrix (inertia_dimension c) (precision_bits c) (schema_version c)) (\<lambda>recomputed.
     let (positive, negative, unresolved, pivots) = inertia_summary recomputed in
     bind_result (map_err Raised (collect_results (parse_interval (parse_op (certifier E))) (certified_pivots c))) (\<lambda>recorded_pivots.
     if (positive, negative, unresolved) \<noteq> (certified_positive c, certified_negative c, zero_or_unresolved c) \<or> pivots \<noteq> recorded_pivots
     then Inl (Raised (VerificationFailed ''independent interval LDLT replay differs from the recorded inertia proof''))
     else Inr ()))))"

definition verify_portable_interval_inertia_certificate ::
  "portable_env \<Rightarrow> PortableIntervalInertiaCertificate \<Rightarrow> CertificateError fault + VerificationReport" where
  "verify_portable_interval_inertia_certificate E c =
     or_return (verify_portable_interval_inertia_exact E c) (\<lambda>e. failure_report (display_CertificateError e)) (\<lambda>_.
       Inr \<lparr>valid = True, mathematical_claim_verified = True,
         checks = [''certificate and matrix digests verified'', ''exact matrix endpoint ordering and symmetry verified'',
           ''interval LDLT inertia and every pivot enclosure independently replayed''], warnings = [], errors = []\<rparr>)"

section \<open>Replay\<close>

locale portable_context =
  fixes E :: portable_env
  assumes env_certifier: "certify_context (certifier E)"
    and env_certificate_digest: "certificate_digest_op E c = Inr d \<Longrightarrow> digest_validate d"

lemma map_fault_kernel:
  assumes "inertia_kernel eliminate"
  shows "inertia_kernel (\<lambda>M n. map_fault f (eliminate M n))"
  using inertia_kernel.kernel_signature[OF assms] inertia_kernel.kernel_accounted[OF assms] inertia_kernel.kernel_no_panic[OF assms]
  by unfold_locales (auto simp: map_fault_Inr map_fault_panics)

lemma toolkit_version_known: "version_parse cargo_pkg_version = Inr (ToolkitVersion 0 17 0 None)"
proof -
  have shown: "show_nat 0 = ''0''" "show_nat 17 = ''17''" by code_simp+
  have numbers: "parse_number w ''0'' = Inr 0" "parse_number w ''17'' = Inr 17" for w by (simp_all add: parse_number_Inr shown)
  have parts: "split_once CHR ''-'' cargo_pkg_version = None" "split_on CHR ''.'' cargo_pkg_version = [''0'', ''17'', ''0'']" by code_simp+
  show ?thesis unfolding version_parse_def parts by (simp add: parts numbers version_validate_def)
qed

context portable_context
begin

lemmas env_parse = certify_context.parse_op_Inr[OF env_certifier]
  and env_interval = rational_text.parse_interval_Inr[OF certify_context.env_text[OF env_certifier]]
  and env_records = rational_text.parse_interval_records[OF certify_context.env_text[OF env_certifier]]

lemma replay_kernel:
  assumes "schema \<in> {1, 2, 3, 4}"
  shows "inertia_kernel (\<lambda>M n. replay_inertia E M n bits schema)"
proof -
  note exact = integer_sqrt.exact_is_kernel[OF certify_context.env_sqrt[OF env_certifier]]
    and mpfr = directed_mpfr.mpfr_is_kernel[OF certify_context.env_mpfr[OF env_certifier]]
  consider "schema = 1" | "schema = 2" | "schema = 3" | "schema = 4" using assms by blast
  then show ?thesis
  proof cases
    case 1
    then show ?thesis using exact by (simp add: replay_inertia_def)
  next
    case 2
    then show ?thesis using map_fault_kernel[OF mpfr]
      by (simp add: replay_inertia_def Let_def interval_symmetric_ldlt_inertia_mpfr_def adapter_inertia_def)
  next
    case 3
    then show ?thesis using exact by (simp add: replay_inertia_def interval_symmetric_ldlt_inertia_def interval_symmetric_ldlt_inertia_impl_def)
  next
    case 4
    then show ?thesis using map_fault_kernel[OF mpfr]
      by (simp add: replay_inertia_def Let_def interval_symmetric_ldlt_inertia_mpfr_stable_def adapter_inertia_stable_def)
  qed
qed

lemma build_replays: "schema \<in> {2, 3, 4} \<Longrightarrow> build_inertia E M n bits schema = replay_inertia E M n bits schema"
  by (auto simp: build_inertia_def replay_inertia_def)

lemma validate_structure_Inr:
  assumes "validate_inertia_structure E c = Inr u"
  shows "schema_version c \<in> {1, 2, 3, 4}" "0 < inertia_dimension c"
    "length (inertia_matrix c) = saturating_mul (inertia_dimension c) (inertia_dimension c)"
    "certified_positive c + certified_negative c + zero_or_unresolved c = inertia_dimension c"
    "computed_matrix_digest E c = Inr (inertia_matrix_digest c)" "computed_certificate_id E c = Inr (certificate_id c)"
  using assms unfolding validate_inertia_structure_def by (auto simp: result_simps split: if_split_asm bind_splits)

lemma exact_Inr:
  "verify_portable_interval_inertia_exact E c = Inr () \<longleftrightarrow> validate_inertia_structure E c = Inr () \<and>
     (\<exists>M r pv. collect_results (parse_interval (parse_op (certifier E))) (inertia_matrix c) = Inr M \<and>
       replay_inertia E M (inertia_dimension c) (precision_bits c) (schema_version c) = Inr r \<and>
       collect_results (parse_interval (parse_op (certifier E))) (certified_pivots c) = Inr pv \<and>
       inertia_summary r = (certified_positive c, certified_negative c, zero_or_unresolved c, pv))"
  unfolding verify_portable_interval_inertia_exact_def Let_def
  by (auto simp: result_simps split: if_split_asm prod.split_asm)

lemma exact_no_panic:
  assumes "fits_slice (inertia_matrix c)"
  shows "\<not> panics (verify_portable_interval_inertia_exact E c)"
proof -
  have "\<not> panics (replay_inertia E M (inertia_dimension c) (precision_bits c) (schema_version c))"
    if "validate_inertia_structure E c = Inr u" "collect_results (parse_interval (parse_op (certifier E))) (inertia_matrix c) = Inr M" for u M
    using inertia_kernel.kernel_no_panic[OF replay_kernel[OF validate_structure_Inr(1)[OF that(1)]]]
      certify_context.parsed_matrix_wf[OF env_certifier that(2) assms] by blast
  then show ?thesis
    by (auto simp: verify_portable_interval_inertia_exact_def panics_bind panics_map_err Let_def map_err_eq_Inr split: prod.splits)
qed

lemma exact_sound:
  assumes "verify_portable_interval_inertia_exact E c = Inr ()" "fits_slice (inertia_matrix c)" "zero_or_unresolved c = 0"
  obtains M where "collect_results (parse_interval (parse_op (certifier E))) (inertia_matrix c) = Inr M"
    "length M = inertia_dimension c * inertia_dimension c" "certified_positive c + certified_negative c = inertia_dimension c"
    "\<And>R v lam. in_matrix M (inertia_dimension c) R \<Longrightarrow> eigenbasis (inertia_dimension c) R v lam \<Longrightarrow>
       counts_at (inertia_dimension c) lam 0 (certified_negative c) (certified_positive c)"
proof -
  obtain M r pv where v: "validate_inertia_structure E c = Inr ()"
    and M: "collect_results (parse_interval (parse_op (certifier E))) (inertia_matrix c) = Inr M"
    and r: "replay_inertia E M (inertia_dimension c) (precision_bits c) (schema_version c) = Inr r"
    and s: "inertia_summary r = (certified_positive c, certified_negative c, 0, pv)"
    using assms(1,3) unfolding exact_Inr by auto
  note parts = validate_structure_Inr[OF v]
  note kernel_facts = replay_kernel[OF parts(1), of "precision_bits c"]
  have wf: "wf_matrix M" by (rule certify_context.parsed_matrix_wf[OF env_certifier M assms(2)])
  have acc: "accounted (inertia_dimension c) r" using inertia_kernel.kernel_accounted[OF kernel_facts r wf] .
  then have r': "r = ConclusiveInertia (certified_positive c) (certified_negative c) pv" using s by (cases r) auto
  have "length M = length (inertia_matrix c)" using M by (induction "inertia_matrix c" arbitrary: M) (auto simp: collect_results_Inr)
  then have len: "length M = inertia_dimension c * inertia_dimension c" using parts(3) saturating_mul_slice[OF assms(2)] by simp
  have "counts_at (inertia_dimension c) lam 0 (certified_negative c) (certified_positive c)"
    if R: "in_matrix M (inertia_dimension c) R" "eigenbasis (inertia_dimension c) R v lam" for R v lam
    using signature_eigenvalues[OF inertia_kernel.kernel_signature[OF kernel_facts r[unfolded r'] wf R(1)] R(2)] by (simp add: counts_at_def)
  then show ?thesis using that M len parts(4) assms(3) by auto
qed

lemma build_accepted:
  assumes build: "build_portable_interval_inertia_with_schema E M n bits backend evidence config note_list schema = Inr c"
    and wf: "wf_matrix M" and schema: "schema \<in> {2, 3, 4}"
  shows "verify_portable_interval_inertia_exact E c = Inr ()" "inertia_matrix c = map interval_record M" "inertia_dimension c = n"
proof -
  obtain r P N u pv where r: "replay_inertia E M n bits schema = Inr r" "inertia_summary r = (P, N, u, pv)"
  proof -
    obtain r where "build_inertia E M n bits schema = Inr r"
      using build unfolding build_portable_interval_inertia_with_schema_def by (auto simp: result_simps split: if_split_asm)
    then show ?thesis using that[of r] build_replays[OF schema] by (cases "inertia_summary r") auto
  qed
  have c: "validate_inertia_structure E c = Inr ()" "inertia_matrix c = map interval_record M" "inertia_dimension c = n" "precision_bits c = bits"
      "schema_version c = schema" "certified_pivots c = map interval_record pv" "certified_positive c = P" "certified_negative c = N" "zero_or_unresolved c = u"
    using build unfolding build_portable_interval_inertia_with_schema_def build_replays[OF schema] refresh_certificate_id_def Let_def
    by (auto simp: result_simps r toolkit_version_known split: if_split_asm)
  have "accounted n r" using inertia_kernel.kernel_accounted[OF replay_kernel r(1) wf] schema by blast
  then have "\<forall>I \<in> set pv. wf_interval I" using r(2) by (cases r) (auto simp: list_all_iff)
  then have "collect_results (parse_interval (parse_op (certifier E))) (certified_pivots c) = Inr pv" using env_records c(6) by simp
  moreover have "collect_results (parse_interval (parse_op (certifier E))) (inertia_matrix c) = Inr M" using env_records wf c(2) by (simp add: wf_matrix_def)
  ultimately show "verify_portable_interval_inertia_exact E c = Inr ()" unfolding exact_Inr using r c by auto
  show "inertia_matrix c = map interval_record M" "inertia_dimension c = n" by (rule c)+
qed

end

section \<open>Properties\<close>

text \<open>C23. Portable inertia certificates, for the exact and the directed routes. Verification ends in a report without a panic. An accepted
  certificate without an unresolved part is true, whatever produced it: every symmetric matrix in the interval matrix written in it has exactly
  the recorded numbers of positive and negative eigenvalues and none is zero, and the recorded digests are those of the matrix and of the
  certificate. Whatever the builders return is accepted, and carries the given matrix.\<close>

theorem portable_inertia_certificates:
  assumes "portable_context E"
  shows "(fits_slice (inertia_matrix c) \<longrightarrow> (\<exists>r. verify_portable_interval_inertia_certificate E c = Inr r \<and>
      (valid r \<and> zero_or_unresolved c = 0 \<longrightarrow> computed_certificate_id E c = Inr (certificate_id c) \<and>
        computed_matrix_digest E c = Inr (inertia_matrix_digest c) \<and>
        (\<exists>M. collect_results (parse_interval (parse_op (certifier E))) (inertia_matrix c) = Inr M \<and>
          length M = inertia_dimension c * inertia_dimension c \<and>
          (\<forall>R v lam. in_matrix M (inertia_dimension c) R \<and> eigenbasis (inertia_dimension c) R v lam \<longrightarrow>
            card {k. k < inertia_dimension c \<and> 0 < lam k} = certified_positive c \<and>
            card {k. k < inertia_dimension c \<and> lam k < 0} = certified_negative c \<and> (\<forall>k < inertia_dimension c. lam k \<noteq> 0)))))) \<and>
    (wf_matrix M' \<and> run \<in> {build_portable_interval_inertia_certificate E M' n bits backend evidence config note_list,
        build_portable_interval_inertia_certificate_mpfr E M' n bits backend evidence config note_list,
        build_portable_interval_inertia_certificate_mpfr_stable E M' n bits backend evidence config note_list} \<and> run = Inr c' \<longrightarrow>
      inertia_matrix c' = map interval_record M' \<and> inertia_dimension c' = n \<and>
      (\<exists>r. verify_portable_interval_inertia_certificate E c' = Inr r \<and> valid r))"
proof (intro conjI impI; (elim conjE)?)
  assume fits: "fits_slice (inertia_matrix c)"
  let ?exact = "verify_portable_interval_inertia_exact E c"
  obtain r where r: "verify_portable_interval_inertia_certificate E c = Inr r" "valid r \<longleftrightarrow> ?exact = Inr ()"
  proof (cases ?exact)
    case (Inl e)
    then show ?thesis using that portable_context.exact_no_panic[OF assms fits]
      by (cases e) (auto simp: verify_portable_interval_inertia_certificate_def)
  qed (use that in \<open>auto simp: verify_portable_interval_inertia_certificate_def\<close>)
  show "\<exists>r. verify_portable_interval_inertia_certificate E c = Inr r \<and>
      (valid r \<and> zero_or_unresolved c = 0 \<longrightarrow> computed_certificate_id E c = Inr (certificate_id c) \<and>
        computed_matrix_digest E c = Inr (inertia_matrix_digest c) \<and>
        (\<exists>M. collect_results (parse_interval (parse_op (certifier E))) (inertia_matrix c) = Inr M \<and>
          length M = inertia_dimension c * inertia_dimension c \<and>
          (\<forall>R v lam. in_matrix M (inertia_dimension c) R \<and> eigenbasis (inertia_dimension c) R v lam \<longrightarrow>
            card {k. k < inertia_dimension c \<and> 0 < lam k} = certified_positive c \<and>
            card {k. k < inertia_dimension c \<and> lam k < 0} = certified_negative c \<and> (\<forall>k < inertia_dimension c. lam k \<noteq> 0))))"
  proof (intro exI[of _ r] conjI impI; (elim conjE)?)
    show "verify_portable_interval_inertia_certificate E c = Inr r" by (rule r(1))
    assume "valid r" and z: "zero_or_unresolved c = 0"
    then have ok: "?exact = Inr ()" using r(2) by blast
    then have "validate_inertia_structure E c = Inr ()" unfolding portable_context.exact_Inr[OF assms] by blast
    from portable_context.validate_structure_Inr(5,6)[OF assms this]
    show "computed_certificate_id E c = Inr (certificate_id c)" "computed_matrix_digest E c = Inr (inertia_matrix_digest c)" by blast+
    show "\<exists>M. collect_results (parse_interval (parse_op (certifier E))) (inertia_matrix c) = Inr M \<and>
          length M = inertia_dimension c * inertia_dimension c \<and>
          (\<forall>R v lam. in_matrix M (inertia_dimension c) R \<and> eigenbasis (inertia_dimension c) R v lam \<longrightarrow>
            card {k. k < inertia_dimension c \<and> 0 < lam k} = certified_positive c \<and>
            card {k. k < inertia_dimension c \<and> lam k < 0} = certified_negative c \<and> (\<forall>k < inertia_dimension c. lam k \<noteq> 0))"
      by (rule portable_context.exact_sound[OF assms ok fits z]) (auto simp: counts_at_def)
  qed
next
  assume wf: "wf_matrix M'" and run: "run = Inr c'" "run \<in> {build_portable_interval_inertia_certificate E M' n bits backend evidence config note_list,
        build_portable_interval_inertia_certificate_mpfr E M' n bits backend evidence config note_list,
        build_portable_interval_inertia_certificate_mpfr_stable E M' n bits backend evidence config note_list}"
  then obtain schema where build: "build_portable_interval_inertia_with_schema E M' n bits backend evidence config note_list schema = Inr c'"
    "schema \<in> {2, 3, 4}"
    by (auto simp: build_portable_interval_inertia_certificate_def build_portable_interval_inertia_certificate_mpfr_def
        build_portable_interval_inertia_certificate_mpfr_stable_def)
  note accepted = portable_context.build_accepted[OF assms build(1) wf build(2)]
  show "inertia_matrix c' = map interval_record M'" "inertia_dimension c' = n" by (rule accepted)+
  show "\<exists>r. verify_portable_interval_inertia_certificate E c' = Inr r \<and> valid r"
    using accepted(1) by (simp add: verify_portable_interval_inertia_certificate_def)
qed

definition sample_portable :: portable_env where
  "sample_portable = \<lparr>certifier = sample_env, certificate_digest_op = (\<lambda>c. Inr zero_digest)\<rparr>"

interpretation sample_portable: portable_context sample_portable
  using sample.certify_context_axioms sample_digest
  by (auto simp: sample_portable_def zero_digest_def intro!: portable_context.intro)

lemma sample_build:
  "\<exists>c. build_portable_interval_inertia_certificate sample_portable unit_box 1 53 ''rug'' zero_digest [(''mode'', ''exact'')] [] = Inr c \<and>
     certified_positive c = 1 \<and> zero_or_unresolved c = 0 \<and> fits_slice (inertia_matrix c)"
proof -
  have run: "build_inertia sample_portable unit_box 1 53 3 = Inr (ConclusiveInertia 1 0 [ri_point 1])"
    using unit_box_run(1)[OF unit_admitted(2), of isqrt_ref]
    by (simp add: build_inertia_def sample_portable_def sample_env_def interval_symmetric_ldlt_inertia_def interval_symmetric_ldlt_inertia_impl_def unit_box_def)
  have texts: "interval_validate_syntax (interval_record (ri_point 1)) = Inr ()" "\<not> blank ''rug''" by code_simp+
  have digest: "digest_validate zero_digest" using sample_digest by (simp add: zero_digest_def)
  show ?thesis
    using digest unfolding build_portable_interval_inertia_certificate_def build_portable_interval_inertia_with_schema_def run refresh_certificate_id_def
      toolkit_version_known
    by (simp add: validate_inertia_structure_def computed_matrix_digest_def computed_certificate_id_def sample_portable_def sample_env_def
        texts unit_box_def saturating_mul_def checked_add_def usize_max_def fits_slice_def isize_max_def zero_digest_def)
qed

theorem portable_inertia_certificates_witness:
  "\<exists>c r. build_portable_interval_inertia_certificate sample_portable unit_box 1 53 ''rug'' zero_digest [(''mode'', ''exact'')] [] = Inr c \<and>
     inertia_matrix c = map interval_record unit_box \<and> verify_portable_interval_inertia_certificate sample_portable c = Inr r \<and> valid r \<and>
     computed_certificate_id sample_portable c = Inr (certificate_id c)"
proof -
  obtain c where c: "build_portable_interval_inertia_certificate sample_portable unit_box 1 53 ''rug'' zero_digest [(''mode'', ''exact'')] [] = Inr c"
    "zero_or_unresolved c = 0" "fits_slice (inertia_matrix c)" using sample_build by blast
  note p = portable_inertia_certificates[OF sample_portable.portable_context_axioms]
  have built: "inertia_matrix c = map interval_record unit_box" "\<exists>r. verify_portable_interval_inertia_certificate sample_portable c = Inr r \<and> valid r"
    using p[THEN conjunct2, rule_format, of unit_box _ 1 53 "''rug''" zero_digest "[(''mode'', ''exact'')]" "[]" c] unit_wf c(1) by auto
  moreover obtain r where "verify_portable_interval_inertia_certificate sample_portable c = Inr r"
    "valid r \<Longrightarrow> computed_certificate_id sample_portable c = Inr (certificate_id c)"
    using p[of c, THEN conjunct1, rule_format, OF c(3)] c(2) by blast
  ultimately show ?thesis using c(1) by auto
qed

end
