(* ===== verification/Exact_Ldlt.thy ===== *)
theory Exact_Ldlt
  imports Interval_Inertia
begin

text \<open>
  The unpivoted exact \<open>LDL\<^sup>T\<close> inertia of a rational matrix, \<open>exact_symmetric_ldlt_inertia\<close> of \<open>crates/xc-certify/src/lib.rs\<close>.

  The code computes the factor row by row from the entries of the matrix; the proof follows the Schur complements \<open>schur_at\<close> that the
  factor entries describe, so that the signature argument of the interval elimination applies to it.
\<close>

section \<open>Definitions\<close>

record ExactInertia =
  ei_positive :: nat
  ei_negative :: nat
  ei_zero_or_unresolved :: nat

record factor_state =
  factor_lower :: "rat list"
  factor_diagonal :: "rat list"
  factor_positive :: nat
  factor_negative :: nat

text \<open>\<open>for prior in 0..pivot_index { start -= lower[row, prior] * lower[pivot, prior] * diagonal[prior] }\<close>\<close>

definition subtract_prior :: "nat \<Rightarrow> rat list \<Rightarrow> rat list \<Rightarrow> nat \<Rightarrow> nat \<Rightarrow> rat \<Rightarrow> rat" where
  "subtract_prior dimension low diagonal row pivot_index start =
     fold (\<lambda>prior acc. acc - low ! (row * dimension + prior) * low ! (pivot_index * dimension + prior) * diagonal ! prior)
       [0..<pivot_index] start"

definition factor_step :: "rat list \<Rightarrow> nat \<Rightarrow> nat \<Rightarrow> factor_state \<Rightarrow> CertificateError + factor_state" where
  "factor_step matrix dimension pivot_index s =
     (let low = (factor_lower s)[pivot_index * dimension + pivot_index := 1];
          pivot = subtract_prior dimension low (factor_diagonal s) pivot_index pivot_index (matrix ! (pivot_index * dimension + pivot_index)) in
      if pivot = 0
      then Inl (Unsupported (''exact LDL^T encountered a zero pivot at index '' @ show_nat pivot_index @ ''; use a pivoted certified backend''))
      else
        let (positive, negative) = (if 0 < pivot then (factor_positive s + 1, factor_negative s) else (factor_positive s, factor_negative s + 1));
            diagonal = (factor_diagonal s)[pivot_index := pivot];
            low = fold (\<lambda>row low.
              low[row * dimension + pivot_index :=
                subtract_prior dimension low diagonal row pivot_index (matrix ! (row * dimension + pivot_index)) / diagonal ! pivot_index])
              [pivot_index + 1..<dimension] low in
        Inr \<lparr>factor_lower = low, factor_diagonal = diagonal, factor_positive = positive, factor_negative = negative\<rparr>)"

definition exact_symmetric_ldlt_inertia :: "rat list \<Rightarrow> nat \<Rightarrow> CertificateError + ExactInertia" where
  "exact_symmetric_ldlt_inertia matrix dimension =
     (if dimension = 0 \<or> length matrix \<noteq> saturating_mul dimension dimension
      then Inl (InvalidCertificate (''exact matrix length '' @ show_nat (length matrix) @ '' does not match dimension '' @ show_nat dimension))
      else case symmetric_rows dimension matrix (lower_pairs dimension) of
        Some (row, column) \<Rightarrow>
          Inl (InvalidCertificate (''exact matrix is not symmetric at ('' @ show_nat row @ '', '' @ show_nat column @ '')''))
      | None \<Rightarrow>
          bind_result (fold_result (factor_step matrix dimension) [0..<dimension]
            \<lparr>factor_lower = replicate (dimension * dimension) 0, factor_diagonal = replicate dimension 0,
             factor_positive = 0, factor_negative = 0\<rparr>) (\<lambda>s.
          Inr \<lparr>ei_positive = factor_positive s, ei_negative = factor_negative s, ei_zero_or_unresolved = 0\<rparr>))"

section \<open>Schur complements\<close>

fun schur_at :: "(nat \<Rightarrow> nat \<Rightarrow> 'a :: field) \<Rightarrow> nat \<Rightarrow> nat \<Rightarrow> nat \<Rightarrow> 'a" where
  "schur_at A 0 i j = A i j"
| "schur_at A (Suc k) i j = schur_at A k i j - schur_at A k i k * schur_at A k j k / schur_at A k k k"

lemma schur_at_sum:
  "schur_at A k i j = A i j - (\<Sum>p < k. schur_at A p i p * schur_at A p j p / schur_at A p p p)"
  by (induction k) auto

lemma schur_at_sym: "(\<And>i j. i < n \<Longrightarrow> j < n \<Longrightarrow> A i j = A j i) \<Longrightarrow> k \<le> n \<Longrightarrow> i < n \<Longrightarrow> j < n \<Longrightarrow> schur_at A k i j = schur_at A k j i"
  by (induction k arbitrary: i j) (auto simp: mult.commute)

text \<open>Eliminated rows and columns vanish.\<close>

lemma schur_at_zero:
  assumes "\<And>i j. i < n \<Longrightarrow> j < n \<Longrightarrow> A i j = A j i" "k \<le> n" "\<And>p. p < k \<Longrightarrow> schur_at A p p p \<noteq> 0" "i < k" "j < n"
  shows "schur_at A k i j = 0"
  using assms(2-5)
proof (induction k arbitrary: j)
  case (Suc k)
  show ?case
  proof (cases "i < k")
    case True
    then show ?thesis using Suc.prems Suc.IH[of j] Suc.IH[of k] by simp
  next
    case False
    then have "i = k" using Suc.prems by simp
    then show ?thesis using Suc.prems schur_at_sym[where A = A and n = n and k = k and i = k and j = j, OF assms(1)] by simp
  qed
qed simp

lemma schur_at_of_rat: "schur_at (\<lambda>i j. real_of_rat (A i j)) k i j = real_of_rat (schur_at A k i j)"
  by (induction k arbitrary: i j) (simp_all add: of_rat_diff of_rat_mult of_rat_divide)

section \<open>The factor entries\<close>

definition entry :: "rat list \<Rightarrow> nat \<Rightarrow> nat \<Rightarrow> nat \<Rightarrow> rat" where
  "entry M n i j = M ! (i * n + j)"

text \<open>After \<open>k\<close> steps the diagonal holds the pivots and the factor columns the quotients.\<close>

definition factor_inv :: "rat list \<Rightarrow> nat \<Rightarrow> nat \<Rightarrow> factor_state \<Rightarrow> bool" where
  "factor_inv M n k s \<longleftrightarrow> length (factor_lower s) = n * n \<and> length (factor_diagonal s) = n \<and>
     (\<forall>p < k. schur_at (entry M n) p p p \<noteq> 0 \<and> factor_diagonal s ! p = schur_at (entry M n) p p p \<and>
        (\<forall>i. p \<le> i \<and> i < n \<longrightarrow> factor_lower s ! (i * n + p) = schur_at (entry M n) p i p / schur_at (entry M n) p p p)) \<and>
     factor_positive s = card {p. p < k \<and> 0 < schur_at (entry M n) p p p} \<and>
     factor_negative s = card {p. p < k \<and> schur_at (entry M n) p p p < 0}"

lemma subtract_prior_sum:
  "subtract_prior n low d i k x = x - (\<Sum>p < k. low ! (i * n + p) * low ! (k * n + p) * d ! p)"
proof -
  have "fold (\<lambda>p acc. acc - low ! (i * n + p) * low ! (m * n + p) * d ! p) [0..<k] x = x - (\<Sum>p < k. low ! (i * n + p) * low ! (m * n + p) * d ! p)" for m
    by (induction k) auto
  then show ?thesis by (simp add: subtract_prior_def)
qed

lemma subtract_prior_schur:
  assumes "\<And>p. p < k \<Longrightarrow> schur_at (entry M n) p p p \<noteq> 0 \<and> d ! p = schur_at (entry M n) p p p \<and>
      low ! (i * n + p) = schur_at (entry M n) p i p / schur_at (entry M n) p p p \<and>
      low ! (k * n + p) = schur_at (entry M n) p k p / schur_at (entry M n) p p p"
  shows "subtract_prior n low d i k (M ! (i * n + k)) = schur_at (entry M n) k i k"
proof -
  have "(\<Sum>p < k. low ! (i * n + p) * low ! (k * n + p) * d ! p) = (\<Sum>p < k. schur_at (entry M n) p i p * schur_at (entry M n) p k p / schur_at (entry M n) p p p)"
    by (rule sum.cong) (use assms in auto)
  then show ?thesis unfolding subtract_prior_sum by (subst schur_at_sum) (simp add: entry_def)
qed

lemma column_update:
  assumes "length low = n * n" "k < n"
  shows "length (fold (\<lambda>row low. low[row * n + k := f row low]) [k + 1..<n] low) = n * n"
    "\<And>i p. i < n \<Longrightarrow> p < n \<Longrightarrow> \<not> (p = k \<and> k < i) \<Longrightarrow> fold (\<lambda>row low. low[row * n + k := f row low]) [k + 1..<n] low ! (i * n + p) = low ! (i * n + p)"
    "\<And>i. k < i \<Longrightarrow> i < n \<Longrightarrow> \<exists>low'. length low' = n * n \<and> (\<forall>i' < n. \<forall>p < n. p \<noteq> k \<longrightarrow> low' ! (i' * n + p) = low ! (i' * n + p)) \<and>
       fold (\<lambda>row low. low[row * n + k := f row low]) [k + 1..<n] low ! (i * n + k) = f i low'"
proof -
  let ?g = "\<lambda>row low. low[row * n + k := f row low]"
  let ?Q = "\<lambda>m low'. length low' = n * n \<and> (\<forall>i < n. \<forall>p < n. \<not> (p = k \<and> k < i \<and> i < m) \<longrightarrow> low' ! (i * n + p) = low ! (i * n + p)) \<and>
     (\<forall>i. k < i \<and> i < m \<longrightarrow> (\<exists>low''. length low'' = n * n \<and> (\<forall>i' < n. \<forall>p < n. p \<noteq> k \<longrightarrow> low'' ! (i' * n + p) = low ! (i' * n + p)) \<and>
        low' ! (i * n + k) = f i low''))"
  have "?Q m (fold ?g [k + 1..<m] low)" if "k + 1 \<le> m" "m \<le> n" for m
    using that
  proof (induction m)
    case (Suc m)
    show ?case
    proof (cases "k + 1 \<le> m")
      case False
      then have "m = k" using Suc.prems by simp
      then show ?thesis using assms(1) by auto
    next
      case True
      let ?l = "fold ?g [k + 1..<m] low"
      have IH: "?Q m ?l" using Suc True by simp
      have fold_eq: "fold ?g [k + 1..<Suc m] low = ?l[m * n + k := f m ?l]" using True by simp
      have idx: "m * n + k < n * n" using Suc.prems assms(2) row_major_less by simp
      have ne: "i * n + p = m * n + k \<longleftrightarrow> i = m \<and> p = k" if "p < n" for i p using row_major_eq[of p n k i m] that assms(2) by auto
      show ?thesis unfolding fold_eq
      proof (intro conjI allI impI)
        show "length (?l[m * n + k := f m ?l]) = n * n" using IH by simp
        show "?l[m * n + k := f m ?l] ! (i * n + p) = low ! (i * n + p)" if "i < n" "p < n" "\<not> (p = k \<and> k < i \<and> i < Suc m)" for i p
          using that IH True ne[of p i] by (auto simp: nth_list_update less_Suc_eq)
        show "\<exists>low''. length low'' = n * n \<and> (\<forall>i' < n. \<forall>p < n. p \<noteq> k \<longrightarrow> low'' ! (i' * n + p) = low ! (i' * n + p)) \<and>
            ?l[m * n + k := f m ?l] ! (i * n + k) = f i low''" if "k < i \<and> i < Suc m" for i
        proof (cases "i = m")
          case True
          then show ?thesis using IH idx by (intro exI[of _ ?l]) auto
        next
          case False
          then show ?thesis using IH that ne[of k i] assms(2) by (auto simp: nth_list_update)
        qed
      qed
    qed
  qed (use assms in simp)
  from this[of n] assms(2)
  show "length (fold ?g [k + 1..<n] low) = n * n"
    "\<And>i p. i < n \<Longrightarrow> p < n \<Longrightarrow> \<not> (p = k \<and> k < i) \<Longrightarrow> fold ?g [k + 1..<n] low ! (i * n + p) = low ! (i * n + p)"
    "\<And>i. k < i \<Longrightarrow> i < n \<Longrightarrow> \<exists>low'. length low' = n * n \<and> (\<forall>i' < n. \<forall>p < n. p \<noteq> k \<longrightarrow> low' ! (i' * n + p) = low ! (i' * n + p)) \<and>
       fold ?g [k + 1..<n] low ! (i * n + k) = f i low'"
    by simp_all
qed

lemma factor_step_result:
  assumes inv: "factor_inv M n k s" and k: "k < n"
  defines "A \<equiv> entry M n"
  shows "schur_at A k k k = 0 \<and> (\<exists>m. factor_step M n k s = Inl (Unsupported m)) \<or>
    schur_at A k k k \<noteq> 0 \<and> (\<exists>s'. factor_step M n k s = Inr s' \<and> factor_inv M n (Suc k) s')"
proof -
  let ?low = "(factor_lower s)[k * n + k := 1]"
  let ?pivot = "schur_at A k k k"
  have len: "length (factor_lower s) = n * n" "length (factor_diagonal s) = n" and
    old: "\<And>p. p < k \<Longrightarrow> schur_at A p p p \<noteq> 0 \<and> factor_diagonal s ! p = schur_at A p p p \<and>
        (\<forall>i. p \<le> i \<and> i < n \<longrightarrow> factor_lower s ! (i * n + p) = schur_at A p i p / schur_at A p p p)"
    using inv by (auto simp: factor_inv_def A_def)
  have low: "?low ! (i * n + p) = factor_lower s ! (i * n + p)" if "p < k" "i < n" for i p
    using that k len(1) by (simp add: nth_list_update)
  have pivot: "subtract_prior n ?low (factor_diagonal s) k k (M ! (k * n + k)) = ?pivot"
    unfolding A_def by (rule subtract_prior_schur) (use old low k in \<open>auto simp: A_def\<close>)
  show ?thesis
  proof (cases "?pivot = 0")
    case True
    then show ?thesis using pivot by (simp add: factor_step_def)
  next
    case False
    let ?d = "(factor_diagonal s)[k := ?pivot]"
    let ?f = "\<lambda>row low. subtract_prior n low ?d row k (M ! (row * n + k)) / ?d ! k"
    let ?L = "fold (\<lambda>row low. low[row * n + k := ?f row low]) [k + 1..<n] ?low"
    have dk: "?d ! k = ?pivot" using k len(2) by simp
    have llen: "length ?low = n * n" using len(1) by simp
    note col = column_update[where f = ?f, OF llen k]
    have above: "?L ! (i * n + p) = schur_at A p i p / schur_at A p p p" if "p < k" "p \<le> i" "i < n" for i p
      using col(2)[of i p] low[of p i] old[of p] that k by auto
    have diag: "?L ! (k * n + k) = 1" using col(2)[of k k] k len(1) row_major_less[OF k k] by simp
    have new: "?L ! (i * n + k) = schur_at A k i k / ?pivot" if i: "k < i" "i < n" for i
    proof -
      obtain low' where low': "\<forall>i' < n. \<forall>p < n. p \<noteq> k \<longrightarrow> low' ! (i' * n + p) = ?low ! (i' * n + p)" "?L ! (i * n + k) = ?f i low'"
        using col(3)[OF i] by blast
      have "subtract_prior n low' ?d i k (M ! (i * n + k)) = schur_at A k i k"
        unfolding A_def by (rule subtract_prior_schur) (use old low low'(1) k i in \<open>auto simp: A_def\<close>)
      then show ?thesis using low'(2) dk by simp
    qed
    let ?s = "\<lparr>factor_lower = ?L, factor_diagonal = ?d,
      factor_positive = (if 0 < ?pivot then factor_positive s + 1 else factor_positive s),
      factor_negative = (if 0 < ?pivot then factor_negative s else factor_negative s + 1)\<rparr>"
    have step: "factor_step M n k s = Inr ?s" using False pivot by (simp add: factor_step_def Let_def)
    have sets: "{p. p < Suc k \<and> 0 < schur_at A p p p} = (if 0 < ?pivot then insert k else id) {p. p < k \<and> 0 < schur_at A p p p}"
      "{p. p < Suc k \<and> schur_at A p p p < 0} = (if 0 < ?pivot then id else insert k) {p. p < k \<and> schur_at A p p p < 0}"
      using False by (auto simp: less_Suc_eq)
    have "factor_inv M n (Suc k) ?s"
      unfolding factor_inv_def A_def[symmetric] sets
      using inv col(1) len(2) above diag new False old k
      by (auto simp: factor_inv_def A_def[symmetric] less_Suc_eq dk le_less nth_list_update)
    then show ?thesis using step False by blast
  qed
qed

lemma fold_result_snoc: "fold_result f (xs @ [x]) s = bind_result (fold_result f xs s) (f x)"
proof (induction xs arbitrary: s)
  case Nil
  show ?case by (cases "f x s") auto
next
  case (Cons y ys)
  then show ?case by (cases "f y s") auto
qed

lemma factor_loop:
  fixes M :: "rat list"
  assumes "m \<le> n"
  defines "A \<equiv> entry M n" and "s0 \<equiv> \<lparr>factor_lower = replicate (n * n) 0, factor_diagonal = replicate n 0, factor_positive = 0, factor_negative = 0\<rparr>"
  shows "(\<exists>s. fold_result (factor_step M n) [0..<m] s0 = Inr s \<and> factor_inv M n m s) \<or>
    (\<exists>k e. k < m \<and> (\<forall>p < k. schur_at A p p p \<noteq> 0) \<and> schur_at A k k k = 0 \<and> fold_result (factor_step M n) [0..<m] s0 = Inl (Unsupported e))"
  using assms(1)
proof (induction m)
  case 0
  then show ?case by (simp add: factor_inv_def s0_def)
next
  case (Suc m)
  have app: "fold_result (factor_step M n) [0..<Suc m] s0 = bind_result (fold_result (factor_step M n) [0..<m] s0) (factor_step M n m)"
    by (simp add: fold_result_snoc)
  from Suc consider s where "fold_result (factor_step M n) [0..<m] s0 = Inr s" "factor_inv M n m s"
    | k e where "k < m" "\<forall>p < k. schur_at A p p p \<noteq> 0" "schur_at A k k k = 0" "fold_result (factor_step M n) [0..<m] s0 = Inl (Unsupported e)"
    by auto
  then show ?case
  proof cases
    case 1
    have "\<forall>p < m. schur_at A p p p \<noteq> 0" using 1(2) by (simp add: factor_inv_def A_def)
    then show ?thesis using factor_step_result[OF 1(2)] Suc.prems 1(1) unfolding app A_def[symmetric] by auto
  next
    case 2
    then show ?thesis unfolding app by (auto intro!: exI[of _ k])
  qed
qed

section \<open>Signature and singularity\<close>

lemma schur_signature:
  fixes R :: "nat \<Rightarrow> nat \<Rightarrow> real"
  assumes "symmetric_on n R" "\<And>p. p < n \<Longrightarrow> schur_at R p p p \<noteq> 0" "k \<le> n"
  shows "signature {k..<n} (mform {k..<n} (schur_at R k)) (card {p. k \<le> p \<and> p < n \<and> 0 < schur_at R p p p}) (card {p. k \<le> p \<and> p < n \<and> schur_at R p p p < 0})"
  using assms(3)
proof (induction rule: inc_induct)
  case base
  have none: "{p. n \<le> p \<and> p < n \<and> b p} = {}" for b by auto
  show ?case unfolding none using signature_empty by (simp add: mform_def[abs_def])
next
  case (step k)
  have "symmetric_on n (schur_at R k)" using schur_at_sym[of n R k] assms(1) step(2) by (auto simp: symmetric_on_def)
  moreover have "schur1 k (schur_at R k) = schur_at R (Suc k)" by (intro ext) (simp add: schur1_def)
  ultimately have sig: "signature {k..<n} (mform {k..<n} (schur_at R k))
      (card {p. Suc k \<le> p \<and> p < n \<and> 0 < schur_at R p p p} + (if 0 < schur_at R k k k then 1 else 0))
      (card {p. Suc k \<le> p \<and> p < n \<and> schur_at R p p p < 0} + (if schur_at R k k k < 0 then 1 else 0))"
    using signature_schur1[of n "schur_at R k" k] step assms(2)[of k] by (simp del: schur_at.simps)
  have head: "{p. k \<le> p \<and> p < n \<and> b p} = (if b k then insert k else id) {p. Suc k \<le> p \<and> p < n \<and> b p}" for b
    using step(2) by (auto simp: Suc_le_eq le_less)
  show ?case using sig unfolding head[of "\<lambda>p. 0 < schur_at R p p p"] head[of "\<lambda>p. schur_at R p p p < 0"]
    by (cases "0 < schur_at R k k k"; cases "schur_at R k k k < 0") simp_all
qed

text \<open>A zero pivot means that a leading submatrix is singular: \<open>k\<close> equations always leave a nonzero vector of \<open>k + 1\<close> entries that all
  earlier factor columns annihilate, and what is left of the matrix annihilates it too.\<close>

lemma zero_pivot_singular:
  fixes R :: "nat \<Rightarrow> nat \<Rightarrow> real"
  assumes sym: "\<And>i j. i < n \<Longrightarrow> j < n \<Longrightarrow> R i j = R j i" and k: "k < n" and piv: "\<And>p. p < k \<Longrightarrow> schur_at R p p p \<noteq> 0" "schur_at R k k k = 0"
  shows "\<exists>x. (\<exists>i \<le> k. x i \<noteq> 0) \<and> (\<forall>i \<le> k. (\<Sum>j \<le> k. R i j * x j) = 0)"
proof -
  let ?eqs = "map (\<lambda>p j. schur_at R p j p) [0..<k]"
  have "length ?eqs < card {..k}" by simp
  from homogeneous_solution[OF finite_atMost this]
  obtain x where x: "\<exists>i \<in> {..k}. x i \<noteq> 0" and eqs: "\<forall>a \<in> set ?eqs. (\<Sum>j \<le> k. a j * x j) = 0" by blast
  have x0: "(\<Sum>j \<le> k. schur_at R p j p * x j) = 0" if "p < k" for p using eqs that by simp
  have "(\<Sum>j \<le> k. R i j * x j) = 0" if i: "i \<le> k" for i
  proof -
    have row: "schur_at R k i j = 0" if j: "j \<le> k" for j
    proof (cases "i < k \<or> j < k")
      case True
      then show ?thesis
        using schur_at_zero[where A = R and n = n and k = k and i = i and j = j, OF sym] schur_at_zero[where A = R and n = n and k = k and i = j and j = i, OF sym]
          schur_at_sym[where A = R and n = n and k = k and i = i and j = j, OF sym] i j k piv(1) by force
    next
      case False
      then show ?thesis using i j piv(2) by simp
    qed
    have "R i j = (\<Sum>p < k. schur_at R p i p * schur_at R p j p / schur_at R p p p)" if "j \<le> k" for j
      using schur_at_sum[of R k i j] row[OF that] by simp
    then have "(\<Sum>j \<le> k. R i j * x j) = (\<Sum>j \<le> k. \<Sum>p < k. schur_at R p i p / schur_at R p p p * (schur_at R p j p * x j))"
      by (intro sum.cong) (auto simp: sum_distrib_right intro!: sum.cong)
    also have "\<dots> = (\<Sum>p < k. \<Sum>j \<le> k. schur_at R p i p / schur_at R p p p * (schur_at R p j p * x j))" by (rule sum.swap)
    also have "\<dots> = (\<Sum>p < k. schur_at R p i p / schur_at R p p p * (\<Sum>j \<le> k. schur_at R p j p * x j))" by (simp only: sum_distrib_left)
    also have "\<dots> = 0" using x0 by simp
    finally show ?thesis .
  qed
  then show ?thesis using x by auto
qed

section \<open>Properties\<close>

text \<open>C24. The exact \<open>LDL\<^sup>T\<close> inertia is exact. It rejects a matrix as invalid exactly when the size is wrong or it is not symmetric. When it
  returns, the counts add up to the dimension and are the inertia of the matrix: the signature of its quadratic form and the numbers of positive
  and negative eigenvalues, none being zero. When it gives up on a zero pivot, a leading submatrix is indeed singular.\<close>

theorem exact_ldlt_inertia_correct:
  fixes M :: "rat list" and n :: nat
  defines "R \<equiv> \<lambda>i j. real_of_rat (M ! (i * n + j))"
  assumes "fits_slice M"
  shows "((\<exists>m. exact_symmetric_ldlt_inertia M n = Inl (InvalidCertificate m)) \<longleftrightarrow>
      n = 0 \<or> length M \<noteq> n * n \<or> (\<exists>i < n. \<exists>j < i. M ! (i * n + j) \<noteq> M ! (j * n + i))) \<and>
    (\<forall>r. exact_symmetric_ldlt_inertia M n = Inr r \<longrightarrow> ei_positive r + ei_negative r = n \<and> ei_zero_or_unresolved r = 0 \<and>
      signature {..<n} (mform {..<n} R) (ei_positive r) (ei_negative r) \<and>
      (\<forall>v lam. eigenbasis n R v lam \<longrightarrow> card {k. k < n \<and> 0 < lam k} = ei_positive r \<and> card {k. k < n \<and> lam k < 0} = ei_negative r \<and>
        (\<forall>k < n. lam k \<noteq> 0))) \<and>
    (\<forall>m. exact_symmetric_ldlt_inertia M n = Inl (Unsupported m) \<longrightarrow>
      (\<exists>k < n. \<exists>x. (\<exists>i \<le> k. x i \<noteq> 0) \<and> (\<forall>i \<le> k. (\<Sum>j \<le> k. R i j * x j) = 0))) \<and>
    exact_symmetric_ldlt_inertia M n \<noteq> Inl (VerificationFailed m')"
proof (cases "n = 0 \<or> length M \<noteq> n * n \<or> (\<exists>i < n. \<exists>j < i. M ! (i * n + j) \<noteq> M ! (j * n + i))")
  case True
  have "\<exists>m. exact_symmetric_ldlt_inertia M n = Inl (InvalidCertificate m)"
  proof (cases "n = 0 \<or> length M \<noteq> saturating_mul n n")
    case False
    then have "\<exists>i < n. \<exists>j < i. M ! (i * n + j) \<noteq> M ! (j * n + i)" using True saturating_mul_slice[OF assms(2)] by auto
    then have "symmetric_rows n M (lower_pairs n) \<noteq> None" unfolding symmetric_rows_lower by (metis less_trans)
    then show ?thesis using False by (auto simp: exact_symmetric_ldlt_inertia_def)
  qed (auto simp: exact_symmetric_ldlt_inertia_def)
  then show ?thesis using True by auto
next
  case False
  then have len: "length M = saturating_mul n n" "0 < n" and "symmetric_rows n M (lower_pairs n) = None"
    using assms(2) unfolding symmetric_rows_None by (auto simp: saturating_mul_def fits_slice_def isize_max_def usize_max_def lower_pairs_set)
  moreover then have sym: "M ! (i * n + j) = M ! (j * n + i)" if "i < n" "j < n" for i j using that unfolding symmetric_rows_lower by blast
  ultimately have run: "exact_symmetric_ldlt_inertia M n = bind_result (fold_result (factor_step M n) [0..<n]
      \<lparr>factor_lower = replicate (n * n) 0, factor_diagonal = replicate n 0, factor_positive = 0, factor_negative = 0\<rparr>)
      (\<lambda>s. Inr \<lparr>ei_positive = factor_positive s, ei_negative = factor_negative s, ei_zero_or_unresolved = 0\<rparr>)"
    by (simp add: exact_symmetric_ldlt_inertia_def)
  have R: "R = (\<lambda>i j. real_of_rat (entry M n i j))" by (simp add: R_def entry_def)
  have symR: "R i j = R j i" if "i < n" "j < n" for i j using sym that by (simp add: R_def)
  consider s where "exact_symmetric_ldlt_inertia M n = Inr \<lparr>ei_positive = factor_positive s, ei_negative = factor_negative s, ei_zero_or_unresolved = 0\<rparr>"
      "factor_inv M n n s"
    | k e where "exact_symmetric_ldlt_inertia M n = Inl (Unsupported e)" "k < n" "\<forall>p < k. schur_at R p p p \<noteq> 0" "schur_at R k k k = 0"
    using factor_loop[of n n M] unfolding run R schur_at_of_rat by auto
  then show ?thesis
  proof cases
    case 1
    have piv: "schur_at R p p p \<noteq> 0" if "p < n" for p using 1(2) that unfolding R schur_at_of_rat factor_inv_def by auto
    have counts: "factor_positive s = card {p. 0 \<le> p \<and> p < n \<and> 0 < schur_at R p p p}" "factor_negative s = card {p. 0 \<le> p \<and> p < n \<and> schur_at R p p p < 0}"
      using 1(2) unfolding R schur_at_of_rat factor_inv_def by simp_all
    have "signature {..<n} (mform {..<n} R) (factor_positive s) (factor_negative s)"
    proof -
      have "schur_at R 0 = R" by (intro ext) simp
      then show ?thesis using schur_signature[of n R 0] symR piv unfolding counts by (simp add: symmetric_on_def lessThan_atLeast0)
    qed
    then show ?thesis using 1(1) False signature_eigenvalues[of n R "factor_positive s" "factor_negative s"] by (auto simp: signature_def)
  next
    case 2
    then show ?thesis using False zero_pivot_singular[of n R k] symR by auto
  qed
qed

definition sample_matrix :: "rat list" where
  "sample_matrix = [2, 1, 1, -1]"

theorem exact_ldlt_inertia_correct_witness:
  "exact_symmetric_ldlt_inertia sample_matrix 2 = Inr \<lparr>ei_positive = 1, ei_negative = 1, ei_zero_or_unresolved = 0\<rparr> \<and>
   signature {..<2} (mform {..<2} (\<lambda>i j. real_of_rat (sample_matrix ! (i * 2 + j)))) 1 1"
proof -
  have "fold_result (factor_step sample_matrix 2) [0..<2] \<lparr>factor_lower = [0, 0, 0, 0], factor_diagonal = [0, 0], factor_positive = 0, factor_negative = 0\<rparr>
      = Inr \<lparr>factor_lower = [1, 0, 1/2, 1], factor_diagonal = [2, -3/2], factor_positive = 1, factor_negative = 1\<rparr>"
    "symmetric_rows 2 sample_matrix (lower_pairs 2) = None" by code_simp+
  moreover have "length sample_matrix = saturating_mul 2 2" "fits_slice sample_matrix"
    by (simp_all add: sample_matrix_def saturating_mul_def usize_max_def fits_slice_def isize_max_def)
  ultimately have run: "exact_symmetric_ldlt_inertia sample_matrix 2 = Inr \<lparr>ei_positive = 1, ei_negative = 1, ei_zero_or_unresolved = 0\<rparr>"
    and fits: "fits_slice sample_matrix"
    by (simp_all add: exact_symmetric_ldlt_inertia_def numeral_eq_Suc)
  then show ?thesis using exact_ldlt_inertia_correct[OF fits, of 2] by simp
qed

end
