(* ===== verification/Modular_Product.thy ===== *)
theory Modular_Product
  imports XC_Prelude
begin

text \<open>
  Exact integer matrix products by small prime residues and Chinese remaindering, \<open>crates/xc-numerics/src/modular_product.rs\<close>, in the build
  without the \<open>cuda-product\<close> feature: the choice of the primes, the product tree with its residues and reconstruction, the residue
  products, \<open>multiply\<close> with its admission checks, and the limb products of \<open>multiply_wide_entries\<close>.

  \<open>BigInt\<close> is \<open>int\<close> and \<open>BigUint\<close> is \<open>nat\<close>. Arithmetic in u16, u64, u128 and i64 wraps at its width, written out with \<open>mod\<close>; the admission
  arithmetic in u128 is on \<open>nat\<close>, its operands being bounded by powers of two far below \<open>2\<^sup>128\<close>. A slice of an array with its length is
  a list. The extended Euclidean algorithm of \<open>num_integer\<close> and the thread pool of \<open>rayon\<close> are operations of \<open>product_env\<close>; parallel maps
  are maps. Timings and messages are left out.
\<close>

section \<open>Definitions\<close>

datatype ProductError = ProductFailure string | ModularWorkspaceLimit string nat nat | ReconstructionCapacity string

type_synonym 'a product_result = "ProductError fault + 'a"

record ProductLimits =
  max_workspace_bytes :: nat
  max_input_bits :: nat
  max_modular_scalar_products :: nat
  workers :: nat

record product_env =
  extended_gcd :: "int \<Rightarrow> int \<Rightarrow> int \<times> int \<times> int"
  build_pool :: "nat \<Rightarrow> string + unit"

record ExactModularProduct =
  product_entries :: "int list"
  product_rows :: nat
  product_columns :: nat
  moduli :: nat
  reconstruction_bits :: nat
  required_bound_bits :: nat
  estimated_workspace_bytes :: nat

definition ensure :: "bool \<Rightarrow> string \<Rightarrow> unit product_result" where
  "ensure b message = (if b then Inr () else Inl (Raised (ProductFailure message)))"

definition admit_workspace :: "nat \<Rightarrow> nat \<Rightarrow> string \<Rightarrow> unit product_result" where
  "admit_workspace required available stage =
     (if available < required then Inl (Raised (ModularWorkspaceLimit stage required available)) else Inr ())"

definition wrap_i64 :: "int \<Rightarrow> int" where
  "wrap_i64 x = (x + 9223372036854775808) mod 18446744073709551616 - 9223372036854775808"

subsection \<open>The product tree\<close>

datatype Tree =
    Small (leaf_index: nat) (leaf_primes: "nat list") (leaf_coefficients: "nat list") (small_product: nat) (leaf_product: nat)
  | Branch Tree Tree nat nat

fun tree_product :: "Tree \<Rightarrow> nat" where
  "tree_product (Small index primes coefficients small p) = p"
| "tree_product (Branch l r p inv_l) = p"

definition crt_coefficient :: "product_env \<Rightarrow> nat \<Rightarrow> nat \<Rightarrow> nat" where
  "crt_coefficient E small p =
     (let quotient = small div p;
          (gcd, x, y) = extended_gcd E (int (quotient mod p)) (int p) in
      (quotient * nat (x mod int p)) mod 18446744073709551616)"

definition build_leaf :: "product_env \<Rightarrow> nat list \<Rightarrow> nat \<Rightarrow> Tree" where
  "build_leaf E primes offset =
     (let small = foldl (\<lambda>product p. product * p mod 18446744073709551616) 1 primes in
      Small offset primes (map (crt_coefficient E small) primes) small small)"

definition middle :: "nat list \<Rightarrow> nat" where
  "middle primes = ((length primes + 3) div 4 div 2) * 4"

lemma middle_bounds: "4 < length primes \<Longrightarrow> 0 < middle primes \<and> middle primes < length primes"
  unfolding middle_def by linarith

text \<open>The slices of the recursive calls are nonempty, so the assertion of \<open>build\<close> concerns the outer call only.\<close>

function build_tree :: "product_env \<Rightarrow> nat list \<Rightarrow> nat \<Rightarrow> Tree" where
  "build_tree E primes offset =
     (if length primes \<le> 4 then build_leaf E primes offset
      else
        let l = build_tree E (take (middle primes) primes) offset;
            r = build_tree E (drop (middle primes) primes) (offset + middle primes);
            (gcd, x, y) = extended_gcd E (int (tree_product l)) (int (tree_product r)) in
        Branch l r (tree_product l * tree_product r) (nat (x mod int (tree_product r))))"
  by pat_completeness auto
termination
  by (relation "measure (\<lambda>(E, primes, offset). length primes)") (auto simp: not_le dest: middle_bounds)

declare build_tree.simps [simp del]

definition build :: "product_env \<Rightarrow> nat list \<Rightarrow> nat \<Rightarrow> Tree product_result" where
  "build E primes offset =
     (if primes = [] then Inl (Panicked ''assertion failed: !primes.is_empty()'') else Inr (build_tree E primes offset))"

definition residue_of :: "nat \<Rightarrow> bool \<Rightarrow> nat \<Rightarrow> nat" where
  "residue_of v negative prime =
     (let r = (v mod prime) mod 4294967296 in (if negative \<and> r \<noteq> 0 then prime - r else r) mod 65536)"

definition leaf_residues :: "nat \<Rightarrow> nat list \<Rightarrow> nat \<Rightarrow> nat \<Rightarrow> bool \<Rightarrow> nat list \<Rightarrow> nat list" where
  "leaf_residues index primes small v negative output =
     (let v = (if v < 18446744073709551616 then if v < small then v else v mod small else v mod small) in
      foldl (\<lambda>output (i, prime). output[index + i := residue_of v negative prime]) output (enumerate 0 primes))"

fun tree_residues :: "Tree \<Rightarrow> nat \<Rightarrow> bool \<Rightarrow> nat list \<Rightarrow> nat list" where
  "tree_residues (Small index primes coefficients small p) v negative output = leaf_residues index primes small v negative output"
| "tree_residues (Branch l r p inv_l) v negative output =
     tree_residues r (v mod tree_product r) negative (tree_residues l (v mod tree_product l) negative output)"

definition leaf_reconstruct :: "nat \<Rightarrow> nat list \<Rightarrow> nat \<Rightarrow> nat list list \<Rightarrow> nat \<Rightarrow> nat" where
  "leaf_reconstruct index coefficients small residues entry =
     (let weighted = foldl (\<lambda>acc (i, coefficient).
            (acc + residues ! (index + i) ! entry * coefficient) mod 340282366920938463463374607431768211456) 0 (enumerate 0 coefficients) in
      (weighted mod small) mod 18446744073709551616)"

definition combine :: "nat \<Rightarrow> nat \<Rightarrow> nat \<Rightarrow> nat \<Rightarrow> nat \<Rightarrow> nat" where
  "combine left_product right_product inv_l a b =
     (let a_mod = a mod right_product;
          difference = (if a_mod \<le> b then b - a_mod else right_product - (a_mod - b));
          correction = (difference * inv_l) mod right_product in
      a + left_product * correction)"

fun reconstruct :: "Tree \<Rightarrow> nat list list \<Rightarrow> nat \<Rightarrow> nat" where
  "reconstruct (Small index primes coefficients small p) residues entry = leaf_reconstruct index coefficients small residues entry"
| "reconstruct (Branch l r p inv_l) residues entry =
     combine (tree_product l) (tree_product r) inv_l (reconstruct l residues entry) (reconstruct r residues entry)"

subsection \<open>The primes\<close>

text \<open>\<open>prime\<close> is called with at most 16191, so \<open>d * d\<close> does not overflow u32.\<close>

function trial_division :: "nat \<Rightarrow> nat \<Rightarrow> bool" where
  "trial_division p d =
     (if d * d \<le> p then (if p mod d = 0 then False else trial_division p (d + 2)) else 3 \<le> p \<and> p mod 2 = 1)"
  by pat_completeness auto
termination
proof (relation "measure (\<lambda>(p, d). Suc p - d)")
  show "((p, d + 2), p, d) \<in> measure (\<lambda>(p, d). Suc p - d)" if "d * d \<le> p" for p d :: nat
    using le_trans[OF le_square that] by simp
qed simp

declare trial_division.simps [simp del]

definition prime_u32 :: "nat \<Rightarrow> bool" where
  "prime_u32 p = trial_division p 3"

fun choose_loop :: "nat \<Rightarrow> nat \<Rightarrow> nat list \<Rightarrow> nat \<Rightarrow> nat list \<times> nat" where
  "choose_loop bound 0 primes product = (primes, product)"
| "choose_loop bound (Suc p) primes product =
     (if Suc p < 3 then (primes, product)
      else if \<not> prime_u32 (Suc p) then choose_loop bound p primes product
      else if primes \<noteq> [] \<and> bound < product then (primes, product)
      else choose_loop bound p (primes @ [Suc p]) (product * Suc p))"

definition choose_primes :: "nat \<Rightarrow> (nat list \<times> nat) product_result" where
  "choose_primes bound =
     (let (primes, product) = choose_loop bound 16191 [] 1 in
      if product \<le> bound
      then Inl (Raised (ReconstructionCapacity ''input exceeds the exact small-prime reconstruction capacity''))
      else Inr (primes, product))"

definition reconstruction_capacity :: "nat \<times> nat" where
  "reconstruction_capacity =
     (let primes = filter prime_u32 [3..<16192];
          product = foldl (\<lambda>product p. product * p) 1 primes in
      (significant_bits_nat product - 1, length primes))"

definition maximum_reconstruction_bits :: nat where
  "maximum_reconstruction_bits = fst reconstruction_capacity"

subsection \<open>Residue products\<close>

definition centered :: "nat \<Rightarrow> nat \<Rightarrow> int" where
  "centered v prime = (if prime div 2 < v then int v - int prime else int v)"

definition cpu_residue_product :: "nat list \<Rightarrow> nat list \<Rightarrow> nat \<Rightarrow> nat \<Rightarrow> nat \<Rightarrow> nat \<Rightarrow> nat list" where
  "cpu_residue_product a b m k n p =
     (let aa = map (\<lambda>v. centered v p) a; bb = map (\<lambda>v. centered v p) b in
      map (\<lambda>entry.
          let i = entry div n; j = entry mod n;
              dot = fold (\<lambda>t dot. wrap_i64 (dot + wrap_i64 (aa ! (i * k + t) * bb ! (t * n + j)))) [0..<k] 0 in
          nat (dot mod int p) mod 65536)
        [0..<m * n])"

definition converted :: "int list \<Rightarrow> Tree \<Rightarrow> nat \<Rightarrow> nat list list" where
  "converted values tree primes = map (\<lambda>v. tree_residues tree (nat \<bar>v\<bar>) (v < 0) (replicate primes 0)) values"

subsection \<open>The product\<close>

text \<open>\<open>iter().map(BigInt::magnitude).max().expect("positive shape")\<close>\<close>

definition max_magnitude :: "int list \<Rightarrow> nat product_result" where
  "max_magnitude values =
     (case map (\<lambda>v. nat \<bar>v\<bar>) values of [] \<Rightarrow> Inl (Panicked ''positive shape'') | v # vs \<Rightarrow> Inr (foldl max v vs))"

definition context_option :: "'a option \<Rightarrow> string \<Rightarrow> 'a product_result" where
  "context_option r message = (case r of None \<Rightarrow> Inl (Raised (ProductFailure message)) | Some x \<Rightarrow> Inr x)"

text \<open>The shape and kernel-domain checks, which \<open>multiply\<close> and the limb product share word for word; the number of output entries.\<close>

definition check_shape :: "int list \<Rightarrow> int list \<Rightarrow> nat \<Rightarrow> nat \<Rightarrow> nat \<Rightarrow> ProductLimits \<Rightarrow> nat product_result" where
  "check_shape left right rows inner columns limits =
     bind_result (ensure (0 < rows \<and> 0 < inner \<and> 0 < columns) ''matrix dimensions must be positive'') (\<lambda>_.
     bind_result (ensure (0 < workers limits) ''workers must be positive'') (\<lambda>_.
     bind_result (ensure (checked_mul rows inner = Some (length left) \<and> checked_mul inner columns = Some (length right))
       ''matrix storage does not match shape'') (\<lambda>_.
     bind_result (context_option (checked_mul rows columns) ''product shape overflow'') (\<lambda>count.
     bind_result (ensure (rows \<le> 2147483647 \<and> columns \<le> 2147483647) ''matrix exceeds kernel index domain'') (\<lambda>_.
     bind_result (context_option (checked_add inner 3) ''inner dimension overflow'') (\<lambda>k.
     let padded_k = k div 4 * 4 in
     bind_result (ensure (padded_k * 127 * 127 \<le> 2147483647) ''integer accumulation domain exceeded'') (\<lambda>_.
     bind_result (ensure (padded_k * (4096 + 128 * (16129 + 4096 + 3969) + 16384 * 3969) \<le> 9223372036854775807)
       ''integer recombination domain exceeded'') (\<lambda>_. Inr count))))))))"

text \<open>The admission of a product: the bound, the primes, their product and the workspace.\<close>

definition plan :: "int list \<Rightarrow> int list \<Rightarrow> nat \<Rightarrow> nat \<Rightarrow> nat \<Rightarrow> ProductLimits \<Rightarrow> nat \<Rightarrow> (nat \<times> nat list \<times> nat \<times> nat) product_result" where
  "plan left right rows inner columns limits count =
     bind_result (max_magnitude left) (\<lambda>max_a.
     bind_result (max_magnitude right) (\<lambda>max_b.
     bind_result (ensure (significant_bits_nat max_a \<le> max_input_bits limits \<and> significant_bits_nat max_b \<le> max_input_bits limits)
       ''input precision budget exceeded'') (\<lambda>_.
     let total_entries = length left + length right + count in
     bind_result (admit_workspace (total_entries * 32) (max_workspace_bytes limits) ''product'') (\<lambda>_.
     bind_result (admit_workspace ((max_input_bits limits + 7) div 8) (max_workspace_bytes limits) ''product input width'') (\<lambda>_.
     let bound_bits = significant_bits_nat max_a + significant_bits_nat max_b + significant_bits_nat inner + 1 in
     if 32768 < bound_bits then Inl (Raised (ReconstructionCapacity ''input exceeds the small-prime planning domain''))
     else
     bind_result (admit_workspace ((bound_bits + 7) div 8 * 64 + total_entries * 64) (max_workspace_bytes limits) ''product planning'') (\<lambda>_.
     let bound = max_a * max_b * inner * 2 in
     bind_result (choose_primes bound) (\<lambda>(primes, modulus).
     bind_result (ensure (rows * inner * columns * length primes \<le> max_modular_scalar_products limits) ''modular operation budget exceeded'') (\<lambda>_.
     let bit_storage = (significant_bits_nat modulus + 7) div 8;
         workspace = total_entries * (4 * length primes + 64) + count * (bit_storage + 64) * 2 +
           workers limits * (bit_storage * 128 + length primes * 128) + bit_storage * length primes * 32 + workers limits * 2097152 in
     bind_result (admit_workspace workspace (max_workspace_bytes limits) ''product'') (\<lambda>_.
     Inr (bound, primes, modulus, workspace))))))))))"

definition residue_products :: "nat list list \<Rightarrow> nat list list \<Rightarrow> nat \<Rightarrow> nat \<Rightarrow> nat \<Rightarrow> nat list \<Rightarrow> nat list list" where
  "residue_products a b rows inner columns primes =
     map (\<lambda>(index, p). cpu_residue_product (map (\<lambda>v. v ! index) a) (map (\<lambda>v. v ! index) b) rows inner columns p) (enumerate 0 primes)"

definition signed_entry :: "nat \<Rightarrow> nat \<Rightarrow> int" where
  "signed_entry modulus v = (if modulus div 2 < v then int v - int modulus else int v)"

definition multiply :: "product_env \<Rightarrow> int list \<Rightarrow> int list \<Rightarrow> nat \<Rightarrow> nat \<Rightarrow> nat \<Rightarrow> ProductLimits \<Rightarrow> ExactModularProduct product_result" where
  "multiply E left right rows inner columns limits =
     bind_result (check_shape left right rows inner columns limits) (\<lambda>count.
     bind_result (plan left right rows inner columns limits count) (\<lambda>(bound, primes, modulus, workspace).
     bind_result (build E primes 0) (\<lambda>tree.
     bind_result (map_err (\<lambda>e. Raised (ProductFailure e)) (build_pool E (workers limits))) (\<lambda>_.
     let a = converted left tree (length primes);
         b = converted right tree (length primes);
         residues = residue_products a b rows inner columns primes;
         entries = map (\<lambda>entry. signed_entry modulus (reconstruct tree residues entry)) [0..<count] in
     if list_ex (\<lambda>v. bound div 2 < nat \<bar>v\<bar>) entries
     then Inl (Raised (ProductFailure ''reconstructed product violates its proved magnitude bound''))
     else Inr \<lparr>product_entries = entries, product_rows = rows, product_columns = columns, moduli = length primes,
       reconstruction_bits = significant_bits_nat modulus, required_bound_bits = significant_bits_nat bound,
       estimated_workspace_bytes = workspace mod 18446744073709551616\<rparr>))))"

subsection \<open>Limb products\<close>

definition limb :: "nat \<Rightarrow> int list \<Rightarrow> nat \<Rightarrow> int list product_result" where
  "limb width values index =
     bind_result (context_option (checked_mul index width) ''limb shift overflow'') (\<lambda>shift.
     Inr (map (\<lambda>v. sgn v * int (nat \<bar>v\<bar> div 2 ^ shift mod 2 ^ width)) values))"

definition add_limb_product ::
  "(int list \<Rightarrow> int list \<Rightarrow> int list product_result) \<Rightarrow> nat \<Rightarrow> nat \<Rightarrow> int list \<Rightarrow> nat \<Rightarrow> int list \<Rightarrow> nat \<Rightarrow> int list \<Rightarrow> int list product_result" where
  "add_limb_product product width count right a_index a b_index output =
     bind_result (limb width right b_index) (\<lambda>b.
     bind_result (product a b) (\<lambda>entries.
     bind_result (ensure (length entries = count) ''limb backend output shape mismatch'') (\<lambda>_.
     bind_result (context_option (Option.bind (checked_add a_index b_index) (\<lambda>i. checked_mul i width)) ''product limb shift overflow'') (\<lambda>shift.
     Inr (map (\<lambda>(s, entry). s + entry * 2 ^ shift) (zip output entries))))))"

definition add_limb_row ::
  "(int list \<Rightarrow> int list \<Rightarrow> int list product_result) \<Rightarrow> nat \<Rightarrow> nat \<Rightarrow> int list \<Rightarrow> int list \<Rightarrow> nat \<Rightarrow> nat \<Rightarrow> int list \<Rightarrow> int list product_result" where
  "add_limb_row product width count left right b_limbs a_index output =
     bind_result (limb width left a_index) (\<lambda>a.
     fold_result (add_limb_product product width count right a_index a) [0..<b_limbs] output)"

text \<open>\<open>left.iter().map(BigInt::bits).max().unwrap_or(0)\<close>\<close>

definition max_bits :: "int list \<Rightarrow> nat" where
  "max_bits values = foldl max 0 (map (\<lambda>v. significant_bits_nat (nat \<bar>v\<bar>)) values)"

definition limb_width :: "nat \<Rightarrow> nat product_result" where
  "limb_width inner =
     bind_result (context_option (checked_sub (fst reconstruction_capacity) (significant_bits_nat inner + 2)) ''inner dimension exceeds limb domain'') (\<lambda>c.
     bind_result (ensure (0 < c div 2) ''empty reconstruction limb domain'') (\<lambda>_. Inr (c div 2)))"

definition multiply_wide_entries_with ::
  "int list \<Rightarrow> int list \<Rightarrow> nat \<Rightarrow> nat \<Rightarrow> nat \<Rightarrow> ProductLimits \<Rightarrow>
     (int list \<Rightarrow> int list \<Rightarrow> ProductLimits \<Rightarrow> int list product_result) \<Rightarrow> int list product_result" where
  "multiply_wide_entries_with left right rows inner columns limits product =
     bind_result (check_shape left right rows inner columns limits) (\<lambda>count.
     let a_bits = max_bits left; b_bits = max_bits right in
     bind_result (ensure (a_bits \<le> max_input_bits limits \<and> b_bits \<le> max_input_bits limits) ''input precision budget exceeded'') (\<lambda>_.
     let inner_bits = significant_bits_nat inner in
     bind_result (limb_width inner) (\<lambda>width.
     let a_limbs = (max a_bits 1 + width - 1) div width; b_limbs = (max b_bits 1 + width - 1) div width;
         operations = rows * inner * columns * a_limbs * b_limbs * snd reconstruction_capacity in
     if 340282366920938463463374607431768211456 \<le> operations then Inl (Raised (ProductFailure ''limb operation count overflow''))
     else
     bind_result (ensure (operations \<le> max_modular_scalar_products limits) ''modular limb operation budget exceeded'') (\<lambda>_.
     bind_result (context_option (Option.bind (checked_add a_bits b_bits) (\<lambda>v. checked_add v inner_bits)) ''limb output width overflow'') (\<lambda>output_bits.
     let output_bytes = (output_bits + 7) div 8 + 64;
         limb_bytes = (width + 7) div 8 + 64;
         input_bytes = (max a_bits b_bits + 7) div 8 + 64;
         retained = count * output_bytes * 4 + (length left + length right) * limb_bytes * 4 + 8 * (input_bytes + output_bytes + limb_bytes) in
     bind_result (admit_workspace retained (max_workspace_bytes limits) ''wide product retained'') (\<lambda>_.
     let child_limits = limits\<lparr>max_workspace_bytes := max_workspace_bytes limits - retained, max_input_bits := width\<rparr> in
     fold_result (add_limb_row (\<lambda>a b. product a b child_limits) width count left right b_limbs) [0..<a_limbs] (replicate count 0)))))))"

definition multiply_wide_entries ::
  "product_env \<Rightarrow> int list \<Rightarrow> int list \<Rightarrow> nat \<Rightarrow> nat \<Rightarrow> nat \<Rightarrow> ProductLimits \<Rightarrow> int list product_result" where
  "multiply_wide_entries E left right rows inner columns limits =
     multiply_wide_entries_with left right rows inner columns limits
       (\<lambda>a b limits. map_ok product_entries (multiply E a b rows inner columns limits))"

section \<open>Residues\<close>

lemma trial_division_sound:
  "trial_division p d \<Longrightarrow> odd d \<Longrightarrow> 3 \<le> p \<and> odd p \<and> (\<forall>e \<ge> d. odd e \<longrightarrow> e * e \<le> p \<longrightarrow> \<not> e dvd p)"
proof (induction p d rule: trial_division.induct)
  case (1 p d)
  show ?case
  proof (cases "d * d \<le> p")
    case True
    then have d: "\<not> d dvd p" "trial_division p (d + 2)"
      using "1.prems"(1) by (auto simp: trial_division.simps[of p d] dvd_eq_mod_eq_0 split: if_splits)
    then have "3 \<le> p \<and> odd p \<and> (\<forall>e \<ge> d + 2. odd e \<longrightarrow> e * e \<le> p \<longrightarrow> \<not> e dvd p)" using 1 True by (simp add: dvd_eq_mod_eq_0)
    moreover have "e = d \<or> d + 2 \<le> e" if "d \<le> e" "odd e" for e using that "1.prems"(2) by presburger
    ultimately show ?thesis using d(1) by blast
  next
    case False
    have "\<not> e * e \<le> p" if "d \<le> e" for e using False mult_le_mono[OF that that] by linarith
    then show ?thesis using False "1.prems"(1) by (auto simp: trial_division.simps[of p d] odd_iff_mod_2_eq_one)
  qed
qed

lemma prime_divisor:
  assumes "prime_u32 p" "e dvd p"
  shows "e = 1 \<or> e = p"
proof (rule ccontr)
  assume other: "\<not> (e = 1 \<or> e = p)"
  have p: "3 \<le> p" "odd p" "\<And>e. 3 \<le> e \<Longrightarrow> odd e \<Longrightarrow> e * e \<le> p \<Longrightarrow> \<not> e dvd p"
    using trial_division_sound[of p 3] assms(1) by (auto simp: prime_u32_def)
  obtain f where f: "p = e * f" using assms(2) by blast
  have odd: "odd e" "odd f" using p(2) f by auto
  have "e \<noteq> 1" "f \<noteq> 1" using other f by auto
  then have ge: "3 \<le> e" "3 \<le> f" using odd by presburger+
  show False
  proof (cases "e \<le> f")
    case True
    then show False using p(3)[OF ge(1) odd(1)] f assms(2) mult_le_mono2[OF True, of e] by simp
  next
    case False
    then show False using p(3)[OF ge(2) odd(2)] f mult_le_mono1[of f e f] by simp
  qed
qed

lemma primes_coprime: "prime_u32 p \<Longrightarrow> prime_u32 q \<Longrightarrow> p \<noteq> q \<Longrightarrow> coprime p q"
  using prime_divisor[of p "gcd p q"] prime_divisor[of q "gcd p q"] by (auto simp: coprime_iff_gcd_eq_1)

definition good_primes :: "nat list \<Rightarrow> bool" where
  "good_primes ps \<longleftrightarrow> distinct ps \<and> (\<forall>p \<in> set ps. prime_u32 p \<and> 3 \<le> p \<and> p \<le> 16191)"

lemma choose_loop_grows: "choose_loop bound p ps product = (ps', M) \<Longrightarrow> \<exists>more. ps' = ps @ more"
  by (induction bound p ps product rule: choose_loop.induct) (auto split: if_splits)

lemma choose_loop_good:
  assumes "choose_loop bound p ps product = (ps', M)" "good_primes ps" "\<forall>q \<in> set ps. p < q" "product = prod_list ps" "p \<le> 16191"
  shows "good_primes ps' \<and> M = prod_list ps'"
  using assms
proof (induction bound p ps product rule: choose_loop.induct)
  case (2 bound p ps product)
  consider "Suc p < 3" | "\<not> Suc p < 3" "\<not> prime_u32 (Suc p)" | "\<not> Suc p < 3" "prime_u32 (Suc p)" "ps \<noteq> [] \<and> bound < product"
    | "\<not> Suc p < 3" "prime_u32 (Suc p)" "\<not> (ps \<noteq> [] \<and> bound < product)" by blast
  then show ?case
  proof cases
    case 4
    then have "good_primes (ps @ [Suc p])" "\<forall>q \<in> set (ps @ [Suc p]). p < q" using "2.prems" by (auto simp: good_primes_def)
    moreover have "choose_loop bound p (ps @ [Suc p]) (product * Suc p) = (ps', M)" using "2.prems"(1) 4 by auto
    ultimately show ?thesis using "2.prems" 4 by (intro "2.IH"(2)) (auto simp del: mult_Suc_right)
  qed (use "2.IH"(1) "2.prems" in \<open>auto simp: Suc_lessD\<close>)
qed auto

lemma prime_three: "prime_u32 3"
  by (simp add: prime_u32_def trial_division.simps)

lemma choose_loop_nonempty:
  "choose_loop bound p ps product = (ps', M) \<Longrightarrow> ps \<noteq> [] \<or> 3 \<le> p \<Longrightarrow> ps' \<noteq> []"
proof (induction bound p ps product rule: choose_loop.induct)
  case (2 bound p ps product)
  note run = "2.prems"(1)[unfolded choose_loop.simps]
  show ?case
  proof (cases "prime_u32 (Suc p)")
    case True
    then show ?thesis using run "2.prems"(2) by (auto split: if_splits dest!: choose_loop_grows)
  next
    case False
    then have "Suc p \<noteq> 3" using prime_three by metis
    then show ?thesis using False run "2.prems"(2) "2.IH"(1) by (auto split: if_splits)
  qed
qed auto

lemma choose_primes_good:
  assumes "choose_primes bound = Inr (ps, M)"
  shows "good_primes ps" "ps \<noteq> []" "M = prod_list ps" "bound < M"
proof -
  have run: "choose_loop bound 16191 [] 1 = (ps, M)" and M: "bound < M"
    using assms by (auto simp: choose_primes_def Let_def split: prod.splits if_splits)
  show "good_primes ps" "M = prod_list ps" using choose_loop_good[OF run] by (auto simp: good_primes_def)
  show "ps \<noteq> []" using choose_loop_nonempty[OF run] by simp
  show "bound < M" by (rule M)
qed

section \<open>Chinese remaindering\<close>

lemma coprime_prod_list: "(\<And>q. q \<in> set qs \<Longrightarrow> coprime p q) \<Longrightarrow> coprime p (prod_list qs)" for p :: nat
  by (induction qs) auto

lemma good_coprime: "good_primes (p # ps) \<Longrightarrow> coprime p (prod_list ps)"
  by (rule coprime_prod_list) (auto simp: good_primes_def intro: primes_coprime)

lemma good_append_coprime: "good_primes (ps @ qs) \<Longrightarrow> coprime (prod_list ps) (prod_list qs)"
proof (induction ps)
  case (Cons p ps)
  have "coprime p (prod_list qs)" using Cons.prems by (intro coprime_prod_list) (auto simp: good_primes_def intro: primes_coprime)
  moreover have "coprime (prod_list ps) (prod_list qs)" using Cons by (auto simp: good_primes_def)
  ultimately show ?case by simp
qed simp

lemma good_product_pos: "good_primes ps \<Longrightarrow> 0 < prod_list ps"
  by (induction ps) (auto simp: good_primes_def)

text \<open>An integer is determined modulo a product of coprime moduli.\<close>

lemma same_residues:
  assumes "good_primes ps" "\<And>p. p \<in> set ps \<Longrightarrow> a mod int p = b mod int p"
  shows "a mod int (prod_list ps) = b mod int (prod_list ps)"
proof -
  have "int (prod_list ps) dvd a - b" using assms
  proof (induction ps)
    case (Cons p ps)
    have "int p dvd a - b" using Cons.prems(2)[of p] by (simp add: mod_eq_dvd_iff)
    moreover have "int (prod_list ps) dvd a - b" using Cons by (auto simp: good_primes_def)
    moreover have "coprime (int p) (int (prod_list ps))" using good_coprime[OF Cons.prems(1)] by (simp add: coprime_int_iff)
    ultimately show ?case by (simp add: divides_mult)
  qed simp
  then show ?thesis by (simp add: mod_eq_dvd_iff)
qed

lemma two_residues:
  assumes "coprime L R" "x mod int L = a mod int L" "x mod int R = a mod int R" "0 \<le> x" "x < int (L * R)"
  shows "x = a mod int (L * R)"
proof -
  have "int L dvd x - a" "int R dvd x - a" using assms(2,3) by (simp_all add: mod_eq_dvd_iff)
  then have "int (L * R) dvd x - a" using assms(1) by (simp add: divides_mult coprime_int_iff)
  then have "x mod int (L * R) = a mod int (L * R)" by (simp add: mod_eq_dvd_iff)
  then show ?thesis using assms(4,5) by simp
qed

text \<open>The documented contract of \<open>num_integer::Integer::extended_gcd\<close>.\<close>

locale bezout =
  fixes E :: product_env
  assumes bezout: "extended_gcd E a b = (g, x, y) \<Longrightarrow> g = gcd a b \<and> a * x + b * y = g"
begin

lemma modular_inverse:
  assumes "extended_gcd E (int a) (int b) = (g, x, y)" "coprime a b" "0 < b"
  shows "(int a * (x mod int b)) mod int b = 1 mod int b" "0 \<le> x mod int b" "x mod int b < int b"
proof -
  have "gcd (int a) (int b) = 1" using assms(2) by (metis coprime_iff_gcd_eq_1 coprime_int_iff)
  then have "int a * x + int b * y = 1" using bezout[OF assms(1)] by simp
  then have "(int a * x) mod int b = 1 mod int b" by (metis mod_mult_self2)
  then show "(int a * (x mod int b)) mod int b = 1 mod int b" by (simp add: mod_mult_right_eq)
qed (use assms(3) in simp_all)

lemma combine_correct:
  assumes inv: "(int L * int inv_l) mod int R = 1 mod int R" and co: "coprime L R" and pos: "0 < L" "0 < R"
    and a: "a = nat (X mod int L)" and b: "b = nat (X mod int R)"
  shows "combine L R inv_l a b = nat (X mod int (L * R))"
proof -
  define difference where "difference = (if a mod R \<le> b then b - a mod R else R - (a mod R - b))"
  define correction where "correction = difference * inv_l mod R"
  have ab: "int a = X mod int L" "int b = X mod int R" using a b pos by simp_all
  have "b < R" using ab(2) pos(2) by (metis of_nat_less_iff of_nat_0_less_iff pos_mod_bound)
  then have "int difference = int b - int (a mod R) \<or> int difference = int R + (int b - int (a mod R))"
    using mod_less_divisor[OF pos(2), of a] unfolding difference_def by (cases "a mod R \<le> b") (simp_all add: nat_diff_split zdiff_int_split)
  then have diff: "int difference mod int R = (int b - int a) mod int R"
    by (auto simp: zmod_int mod_diff_right_eq)
  have lt: "a < L" using ab(1) pos(1) by (metis of_nat_less_iff of_nat_0_less_iff pos_mod_bound)
  have "correction < R" using pos(2) by (simp add: correction_def)
  then have "a + L * correction < L * R" using lt mult_le_mono2[of "Suc correction" R L] by simp
  moreover have "int (a + L * correction) mod int L = X mod int L" using ab(1) by simp
  moreover have "int (a + L * correction) mod int R = X mod int R"
  proof -
    have "(int L * int correction) mod int R = (int difference * (int L * int inv_l)) mod int R"
      unfolding correction_def by (simp add: zmod_int mod_mult_right_eq mult.assoc mult.left_commute)
    also have "\<dots> = (int b - int a) mod int R" using inv diff by (metis mod_mult_cong mult.right_neutral)
    finally have "(int a + int L * int correction) mod int R = (int a + (int b - int a)) mod int R" by (metis mod_add_right_eq)
    then show ?thesis using ab(2) by simp
  qed
  ultimately have "int (a + L * correction) = X mod int (L * R)" by (intro two_residues[OF co]) (simp_all only: of_nat_less_iff of_nat_0_le_iff)
  then have "a + L * correction = nat (X mod int (L * R))" by (metis nat_int)
  then show ?thesis by (simp only: combine_def Let_def difference_def correction_def)
qed

text \<open>The leaves: at most four primes, whose product and coefficients fit 56 bits, so nothing wraps.\<close>

lemma small_product_exact:
  "(\<forall>p \<in> set ps. p \<le> 16191) \<Longrightarrow> acc * 16191 ^ length ps < 18446744073709551616 \<Longrightarrow>
     foldl (\<lambda>product p. product * p mod 18446744073709551616) acc ps = acc * prod_list ps" for ps :: "nat list"
proof (induction ps arbitrary: acc)
  case (Cons p ps)
  have le: "acc * p * 16191 ^ length ps \<le> acc * 16191 ^ length (p # ps)" using Cons.prems(1) by simp
  moreover have "acc * p \<le> acc * p * 16191 ^ length ps" by simp
  ultimately have "acc * p < 18446744073709551616" "acc * p * 16191 ^ length ps < 18446744073709551616" using Cons.prems(2) by linarith+
  then show ?case using Cons.IH[of "acc * p"] Cons.prems(1) by (simp add: mult.assoc)
qed simp

lemma prod_list_bound: "(\<forall>p \<in> set ps. p \<le> 16191) \<Longrightarrow> prod_list ps \<le> 16191 ^ length ps" for ps :: "nat list"
  by (induction ps) (auto intro: mult_le_mono)

lemma leaf_small:
  assumes "good_primes ps" "length ps \<le> 4"
  shows "foldl (\<lambda>product p. product * p mod 18446744073709551616) 1 ps = prod_list ps" "prod_list ps < 2 ^ 56"
proof -
  have "(16191 :: nat) ^ length ps \<le> 16191 ^ 4" using assms(2) by (intro power_increasing) auto
  then show "foldl (\<lambda>product p. product * p mod 18446744073709551616) 1 ps = prod_list ps" "prod_list ps < 2 ^ 56"
    using small_product_exact[of ps 1] prod_list_bound[of ps] assms(1) by (auto simp: good_primes_def)
qed

lemma quotient_coprime:
  assumes "good_primes ps" "p \<in> set ps"
  shows "prod_list ps = p * (prod_list ps div p)" "coprime (prod_list ps div p) p" "\<And>q. q \<in> set ps \<Longrightarrow> q \<noteq> p \<Longrightarrow> q dvd prod_list ps div p" "0 < p"
proof -
  obtain xs ys where ps: "ps = xs @ p # ys" using split_list[OF assms(2)] by blast
  have p: "0 < p" using assms by (auto simp: good_primes_def)
  have div: "prod_list ps div p = prod_list (xs @ ys)" using p by (simp add: ps mult.left_commute)
  show "prod_list ps = p * (prod_list ps div p)" unfolding div by (simp add: ps mult.left_commute)
  have "coprime p (prod_list (xs @ ys))" using assms(1) by (intro coprime_prod_list) (auto simp: ps good_primes_def intro!: primes_coprime)
  then show "coprime (prod_list ps div p) p" unfolding div by (simp add: coprime_commute)
  show "q dvd prod_list ps div p" if "q \<in> set ps" "q \<noteq> p" for q
    unfolding div using that by (auto simp: ps dest!: split_list)
qed (use assms in \<open>auto simp: good_primes_def\<close>)

lemma coefficient_correct:
  assumes good: "good_primes ps" and len: "length ps \<le> 4" and p: "p \<in> set ps"
  shows "crt_coefficient E (prod_list ps) p < 2 ^ 56" "int (crt_coefficient E (prod_list ps) p) mod int p = 1"
    "\<And>q. q \<in> set ps \<Longrightarrow> q \<noteq> p \<Longrightarrow> int (crt_coefficient E (prod_list ps) p) mod int q = 0"
proof -
  let ?Q = "prod_list ps div p"
  note Q = quotient_coprime[OF good p]
  obtain g x y where e: "extended_gcd E (int (?Q mod p)) (int p) = (g, x, y)" by (metis prod_cases3)
  have "coprime (?Q mod p) p" using Q(2,4) by simp
  note inv = modular_inverse[OF e this Q(4)]
  have "?Q * nat (x mod int p) \<le> ?Q * p" using inv(2,3) by (intro mult_le_mono2) linarith
  also have "\<dots> = prod_list ps" using Q(1) by (simp add: mult.commute)
  finally have bound: "?Q * nat (x mod int p) < 2 ^ 56" using leaf_small(2)[OF good len] by linarith
  then have c: "crt_coefficient E (prod_list ps) p = ?Q * nat (x mod int p)" using e by (simp add: crt_coefficient_def Let_def)
  then show "crt_coefficient E (prod_list ps) p < 2 ^ 56" using bound by simp
  have "3 \<le> p" using good p by (auto simp: good_primes_def)
  then have "(int ?Q * (x mod int p)) mod int p = 1" using inv(1) by (simp add: zmod_int mod_mult_left_eq)
  then show "int (crt_coefficient E (prod_list ps) p) mod int p = 1" using c inv(2) by simp
  show "int (crt_coefficient E (prod_list ps) p) mod int q = 0" if "q \<in> set ps" "q \<noteq> p" for q
    using Q(3)[OF that] unfolding c by (metis dvd_mult2 mod_0_imp_dvd dvd_imp_mod_0 of_nat_dvd_iff)
qed

lemma weighted_sum_exact:
  assumes "\<And>i. i < length cs \<Longrightarrow> f (k + i) * cs ! i < B" "acc + length cs * B < W"
  shows "foldl (\<lambda>acc (i, c). (acc + f i * c) mod W) acc (enumerate k cs) = acc + (\<Sum>i < length cs. f (k + i) * cs ! i)"
  using assms
proof (induction cs arbitrary: k acc)
  case (Cons c cs)
  have first: "f k * c < B" using Cons.prems(1)[of 0] by simp
  have rest: "f (Suc k + i) * cs ! i < B" if "i < length cs" for i using Cons.prems(1)[of "Suc i"] that by simp
  have small: "acc + f k * c < W" "acc + f k * c + length cs * B < W" using Cons.prems(2) first by simp_all
  then show ?case using Cons.IH[of "Suc k" "acc + f k * c"] rest by (simp add: sum.lessThan_Suc_shift add.assoc del: sum.lessThan_Suc)
qed simp

lemma sum_mod_single:
  assumes "finite A" "j \<in> A" "\<And>i. i \<in> A \<Longrightarrow> i \<noteq> j \<Longrightarrow> m dvd g i"
  shows "(\<Sum>i \<in> A. g i) mod m = g j mod (m :: int)"
proof -
  have "m dvd (\<Sum>i \<in> A - {j}. g i)" using assms(3) by (intro dvd_sum) auto
  then show ?thesis using sum.remove[OF assms(1,2), of g] by (simp add: mod_eq_dvd_iff)
qed

lemma leaf_reconstruct_correct:
  assumes good: "good_primes ps" and len: "length ps \<le> 4"
    and res: "\<And>i. i < length ps \<Longrightarrow> residues ! (off + i) ! entry = nat (X mod int (ps ! i))"
  shows "leaf_reconstruct off (map (crt_coefficient E (prod_list ps)) ps) (prod_list ps) residues entry = nat (X mod int (prod_list ps))"
proof -
  let ?c = "\<lambda>i. crt_coefficient E (prod_list ps) (ps ! i)" and ?r = "\<lambda>i. residues ! (off + i) ! entry"
  have p: "ps ! i \<in> set ps" "3 \<le> ps ! i" "ps ! i \<le> 16191" if "i < length ps" for i using that good by (auto simp: good_primes_def)
  have r: "int (?r i) = X mod int (ps ! i)" "?r i < 2 ^ 14" if "i < length ps" for i
  proof -
    show eq: "int (?r i) = X mod int (ps ! i)" using res[OF that] p(2)[OF that] by simp
    have "X mod int (ps ! i) < int (ps ! i)" using p(2)[OF that] by (intro pos_mod_bound) simp
    then show "?r i < 2 ^ 14" using eq p(3)[OF that] by simp
  qed
  have "?r i * ?c i < 2 ^ 14 * 2 ^ 56" if "i < length ps" for i
    using r(2)[OF that] coefficient_correct(1)[OF good len p(1)[OF that]] by (intro mult_strict_mono) auto
  then have exact: "foldl (\<lambda>acc (i, c). (acc + ?r i * c) mod 340282366920938463463374607431768211456) 0
      (enumerate 0 (map (crt_coefficient E (prod_list ps)) ps)) = (\<Sum>i < length ps. ?r i * ?c i)"
    using weighted_sum_exact[of "map (crt_coefficient E (prod_list ps)) ps" ?r 0 "2 ^ 14 * 2 ^ 56" 0] len by simp
  have "int (\<Sum>i < length ps. ?r i * ?c i) mod int q = X mod int q" if q: "q \<in> set ps" for q
  proof -
    obtain j where j: "j < length ps" "ps ! j = q" using q by (auto simp: in_set_conv_nth)
    have "int q dvd int (?r i * ?c i)" if "i < length ps" "i \<noteq> j" for i
    proof -
      have "q \<noteq> ps ! i" using good j that by (auto simp: good_primes_def nth_eq_iff_index_eq)
      then have "int (?c i) mod int q = 0" using coefficient_correct(3)[OF good len p(1)[OF that(1)] q] by simp
      then have "int q dvd int (?c i)" by (rule mod_0_imp_dvd)
      then show ?thesis by simp
    qed
    then have "int (\<Sum>i < length ps. ?r i * ?c i) mod int q = int (?r j * ?c j) mod int q"
      unfolding of_nat_sum using j(1) by (intro sum_mod_single) auto
    also have "\<dots> = (int (?r j) * (int (?c j) mod int q)) mod int q" by (simp add: mod_mult_right_eq)
    also have "\<dots> = X mod int q" using coefficient_correct(2)[OF good len p(1)[OF j(1)]] r(1)[OF j(1)] j(2) by simp
    finally show ?thesis .
  qed
  then have "int (\<Sum>i < length ps. ?r i * ?c i) mod int (prod_list ps) = X mod int (prod_list ps)" by (intro same_residues[OF good]) auto
  then have "(\<Sum>i < length ps. ?r i * ?c i) mod prod_list ps = nat (X mod int (prod_list ps))" by (metis nat_int zmod_int)
  moreover have "nat (X mod int (prod_list ps)) < 18446744073709551616"
  proof -
    have "X mod int (prod_list ps) < int (prod_list ps)" using good_product_pos[OF good] by (intro pos_mod_bound) simp
    then show ?thesis using leaf_small(2)[OF good len] by simp
  qed
  ultimately show ?thesis unfolding leaf_reconstruct_def exact Let_def by simp
qed

lemma residue_of_correct:
  assumes "3 \<le> p" "p \<le> 16191"
  shows "int (residue_of v negative p) = (if negative then - int v else int v) mod int p"
proof -
  have r: "v mod p < p" using assms(1) by simp
  then have "v mod p mod 4294967296 = v mod p" using assms(2) by (intro mod_less) linarith
  then have "residue_of v negative p = (if negative \<and> v mod p \<noteq> 0 then p - v mod p else v mod p)"
    using r assms(2) by (simp add: residue_of_def Let_def)
  moreover have "int v mod int p = int (v mod p)" by (simp add: zmod_int)
  ultimately show ?thesis using r by (simp add: zmod_zminus1_eq_if of_nat_diff)
qed

lemma write_residues:
  assumes "off + k + length ps \<le> length buffer"
  shows "length (foldl (\<lambda>buffer (i, prime). buffer[off + i := g prime]) buffer (enumerate k ps)) = length buffer \<and>
    (\<forall>j < length buffer. foldl (\<lambda>buffer (i, prime). buffer[off + i := g prime]) buffer (enumerate k ps) ! j =
       (if off + k \<le> j \<and> j < off + k + length ps then g (ps ! (j - off - k)) else buffer ! j))"
  using assms
proof (induction ps arbitrary: k buffer)
  case (Cons p ps)
  show ?case using Cons.IH[of "Suc k" "buffer[off + k := g p]"] Cons.prems
    by (auto simp: nth_list_update nth_Cons' Suc_diff_le)
qed auto

text \<open>The whole tree: its product, the residues it writes and the integer it reconstructs.\<close>

definition tree_correct :: "Tree \<Rightarrow> nat list \<Rightarrow> nat \<Rightarrow> bool" where
  "tree_correct T ps off \<longleftrightarrow> tree_product T = prod_list ps \<and>
     (\<forall>X residues entry. (\<forall>i < length ps. residues ! (off + i) ! entry = nat (X mod int (ps ! i))) \<longrightarrow>
        reconstruct T residues entry = nat (X mod int (prod_list ps))) \<and>
     (\<forall>v negative buffer. off + length ps \<le> length buffer \<longrightarrow> length (tree_residues T v negative buffer) = length buffer \<and>
        (\<forall>j < length buffer. tree_residues T v negative buffer ! j =
           (if off \<le> j \<and> j < off + length ps then residue_of v negative (ps ! (j - off)) else buffer ! j)))"

lemma residue_of_reduced: "p dvd P \<Longrightarrow> residue_of (v mod P) negative p = residue_of v negative p"
  by (simp add: residue_of_def mod_mod_cancel)

lemma leaf_correct:
  assumes good: "good_primes ps" and len: "length ps \<le> 4"
  shows "tree_correct (build_leaf E ps off) ps off"
proof -
  let ?P = "prod_list ps"
  have leaf: "build_leaf E ps off = Small off ps (map (crt_coefficient E ?P) ps) ?P ?P"
    by (simp only: build_leaf_def leaf_small(1)[OF good len] Let_def)
  have dvd: "ps ! i dvd ?P" if "i < length ps" for i using quotient_coprime(1)[OF good nth_mem[OF that]] by (metis dvd_triv_left)
  have "length (tree_residues (build_leaf E ps off) v negative buffer) = length buffer \<and>
      (\<forall>j < length buffer. tree_residues (build_leaf E ps off) v negative buffer ! j =
         (if off \<le> j \<and> j < off + length ps then residue_of v negative (ps ! (j - off)) else buffer ! j))"
    if "off + length ps \<le> length buffer" for v negative buffer
  proof -
    let ?v = "if v < 18446744073709551616 then if v < ?P then v else v mod ?P else v mod ?P"
    have "?v = v mod ?P" by simp
    then show ?thesis using write_residues[of off 0 ps buffer "residue_of (v mod ?P) negative"] that dvd
      by (auto simp: leaf leaf_residues_def Let_def residue_of_reduced)
  qed
  then show ?thesis using leaf_reconstruct_correct[OF good len, of _ off] by (simp add: tree_correct_def leaf)
qed

lemma branch_correct:
  assumes good: "good_primes (ps @ qs)" and l: "tree_correct l ps off" and r: "tree_correct r qs (off + length ps)"
    and inv: "(int (prod_list ps) * int inv_l) mod int (prod_list qs) = 1 mod int (prod_list qs)"
  shows "tree_correct (Branch l r (tree_product l * tree_product r) inv_l) (ps @ qs) off"
proof -
  have prods: "tree_product l = prod_list ps" "tree_product r = prod_list qs" using l r by (simp_all add: tree_correct_def)
  have goods: "good_primes ps" "good_primes qs" using good by (auto simp: good_primes_def)
  have "reconstruct (Branch l r (tree_product l * tree_product r) inv_l) residues entry = nat (X mod int (prod_list (ps @ qs)))"
    if res: "\<forall>i < length (ps @ qs). residues ! (off + i) ! entry = nat (X mod int ((ps @ qs) ! i))" for X residues entry
  proof -
    have "\<forall>i < length ps. residues ! (off + i) ! entry = nat (X mod int (ps ! i))" using res by (auto simp: nth_append)
    then have a: "reconstruct l residues entry = nat (X mod int (prod_list ps))" using l by (simp add: tree_correct_def)
    have "\<forall>i < length qs. residues ! (off + length ps + i) ! entry = nat (X mod int (qs ! i))"
      using res[rule_format, of "length ps + i" for i] by (simp add: add.assoc)
    then have b: "reconstruct r residues entry = nat (X mod int (prod_list qs))" using r by (simp add: tree_correct_def)
    show ?thesis
      using combine_correct[OF inv good_append_coprime[OF good] good_product_pos[OF goods(1)] good_product_pos[OF goods(2)] a b] by (simp add: prods)
  qed
  moreover have "length (tree_residues (Branch l r (tree_product l * tree_product r) inv_l) v negative buffer) = length buffer \<and>
      (\<forall>j < length buffer. tree_residues (Branch l r (tree_product l * tree_product r) inv_l) v negative buffer ! j =
         (if off \<le> j \<and> j < off + length (ps @ qs) then residue_of v negative ((ps @ qs) ! (j - off)) else buffer ! j))"
    if len: "off + length (ps @ qs) \<le> length buffer" for v negative buffer
  proof -
    let ?first = "tree_residues l (v mod prod_list ps) negative buffer"
    have dvd: "ps ! i dvd prod_list ps" if "i < length ps" for i using quotient_coprime(1)[OF goods(1) nth_mem[OF that]] by (metis dvd_triv_left)
    have dvd': "qs ! i dvd prod_list qs" if "i < length qs" for i using quotient_coprime(1)[OF goods(2) nth_mem[OF that]] by (metis dvd_triv_left)
    have first: "length ?first = length buffer" "\<And>j. j < length buffer \<Longrightarrow> ?first ! j =
        (if off \<le> j \<and> j < off + length ps then residue_of v negative (ps ! (j - off)) else buffer ! j)"
      using l len dvd by (auto simp: tree_correct_def residue_of_reduced)
    have "length (tree_residues r (v mod prod_list qs) negative ?first) = length buffer"
      "\<And>j. j < length buffer \<Longrightarrow> tree_residues r (v mod prod_list qs) negative ?first ! j =
        (if off + length ps \<le> j \<and> j < off + length ps + length qs then residue_of v negative (qs ! (j - (off + length ps))) else ?first ! j)"
      using r len first(1) dvd' by (auto simp: tree_correct_def residue_of_reduced)
    then show ?thesis using first by (auto simp: prods nth_append)
  qed
  ultimately show ?thesis by (simp add: tree_correct_def prods)
qed

lemma build_tree_correct: "good_primes ps \<Longrightarrow> tree_correct (build_tree E ps off) ps off"
proof (induction "length ps" arbitrary: ps off rule: less_induct)
  case less
  show ?case
  proof (cases "length ps \<le> 4")
    case True
    then show ?thesis using leaf_correct[OF less.prems] by (simp add: build_tree.simps)
  next
    case False
    let ?xs = "take (middle ps) ps" and ?ys = "drop (middle ps) ps"
    have mid: "0 < middle ps" "middle ps < length ps" using False middle_bounds by auto
    have good: "good_primes (?xs @ ?ys)" "good_primes ?xs" "good_primes ?ys"
      using less.prems by (auto simp: good_primes_def dest: in_set_takeD in_set_dropD)
    define l where "l = build_tree E ?xs off"
    define r where "r = build_tree E ?ys (off + middle ps)"
    have l: "tree_correct l ?xs off" unfolding l_def using mid good by (intro less.hyps) auto
    have r: "tree_correct r ?ys (off + length ?xs)" unfolding r_def using mid good less.hyps[of ?ys "off + middle ps"] by simp
    obtain g x y where e: "extended_gcd E (int (tree_product l)) (int (tree_product r)) = (g, x, y)" by (metis prod_cases3)
    have prods: "tree_product l = prod_list ?xs" "tree_product r = prod_list ?ys" using l r by (simp_all add: tree_correct_def)
    note inv = modular_inverse[OF e[unfolded prods] good_append_coprime[OF good(1)] good_product_pos[OF good(3)]]
    have "build_tree E ps off = Branch l r (tree_product l * tree_product r) (nat (x mod int (tree_product r)))"
      using False e by (simp add: build_tree.simps[of E ps] l_def r_def Let_def)
    then show ?thesis using branch_correct[OF good(1) l r, of "nat (x mod int (tree_product r))"] inv by (simp add: prods)
  qed
qed

end

section \<open>Matrix products\<close>

definition dot_product :: "int list \<Rightarrow> int list \<Rightarrow> nat \<Rightarrow> nat \<Rightarrow> nat \<Rightarrow> nat \<Rightarrow> int" where
  "dot_product left right inner columns i j = (\<Sum>t < inner. left ! (i * inner + t) * right ! (t * columns + j))"

definition is_product :: "int list \<Rightarrow> int list \<Rightarrow> nat \<Rightarrow> nat \<Rightarrow> nat \<Rightarrow> int list \<Rightarrow> bool" where
  "is_product left right rows inner columns entries \<longleftrightarrow> length entries = rows * columns \<and>
     (\<forall>i < rows. \<forall>j < columns. entries ! (i * columns + j) = dot_product left right inner columns i j)"

lemma wrap_i64_id: "- 9223372036854775808 \<le> x \<Longrightarrow> x < 9223372036854775808 \<Longrightarrow> wrap_i64 x = x"
  by (simp add: wrap_i64_def)

lemma centered_correct:
  assumes "int v = X mod int p" "3 \<le> p" "p \<le> 16191"
  shows "centered v p mod int p = X mod int p" "\<bar>centered v p\<bar> \<le> 8095"
proof -
  have "X mod int p < int p" using assms(2) by (intro pos_mod_bound) simp
  then have "v < p" using assms(1) by linarith
  then have bound: "- 8095 \<le> centered v p" "centered v p \<le> 8095" using assms(3) unfolding centered_def by (cases "p div 2 < v", simp_all) linarith+
  then show "\<bar>centered v p\<bar> \<le> 8095" by simp
  have "(int v - int p) mod int p = int v mod int p" by simp
  then show "centered v p mod int p = X mod int p" using assms(1) by (simp add: centered_def)
qed

lemma dot_exact:
  assumes "\<And>t. t < k \<Longrightarrow> \<bar>f t\<bar> \<le> 8095 \<and> \<bar>g t\<bar> \<le> 8095" "k \<le> 133144"
  shows "fold (\<lambda>t dot. wrap_i64 (dot + wrap_i64 (f t * g t))) [0..<k] 0 = (\<Sum>t < k. f t * g t) \<and> \<bar>\<Sum>t < k. f t * g t\<bar> \<le> int k * 65529025"
  using assms
proof (induction k)
  case (Suc k)
  have "\<bar>f k * g k\<bar> \<le> 8095 * 8095" unfolding abs_mult using Suc.prems(1)[of k] by (intro mult_mono) auto
  then have term_bound: "\<bar>f k * g k\<bar> \<le> 65529025" by simp
  have IH: "fold (\<lambda>t dot. wrap_i64 (dot + wrap_i64 (f t * g t))) [0..<k] 0 = (\<Sum>t < k. f t * g t)" "\<bar>\<Sum>t < k. f t * g t\<bar> \<le> int k * 65529025"
    using Suc by auto
  have "int k * 65529025 \<le> 133143 * 65529025" using Suc.prems(2) by simp
  then have "\<bar>(\<Sum>t < k. f t * g t) + f k * g k\<bar> < 9223372036854775808" using IH(2) term_bound by linarith
  then have "wrap_i64 ((\<Sum>t < k. f t * g t) + wrap_i64 (f k * g k)) = (\<Sum>t < k. f t * g t) + f k * g k"
    using term_bound by (simp add: wrap_i64_id)
  then show ?case using IH term_bound by (simp add: algebra_simps)
qed simp

lemma residue_product_correct:
  assumes p: "3 \<le> p" "p \<le> 16191" and k: "k \<le> 133144" and len: "length a = m * k" "length b = k * n" "length left = m * k" "length right = k * n"
    and a: "\<And>q. q < length a \<Longrightarrow> int (a ! q) = left ! q mod int p" and b: "\<And>q. q < length b \<Longrightarrow> int (b ! q) = right ! q mod int p"
    and ij: "i < m" "j < n"
  shows "cpu_residue_product a b m k n p ! (i * n + j) = nat (dot_product left right k n i j mod int p)"
proof -
  have entry: "i * n + j < m * n" using ij mult_le_mono1[of "Suc i" m n] by simp
  let ?f = "\<lambda>t. centered (a ! (i * k + t)) p" and ?g = "\<lambda>t. centered (b ! (t * n + j)) p"
  have left: "i * k + t < length a" and right: "t * n + j < length b" if "t < k" for t
    using that ij len mult_le_mono1[of "Suc i" m k] mult_le_mono1[of "Suc t" k n] by simp_all
  have f: "?f t mod int p = left ! (i * k + t) mod int p" "\<bar>?f t\<bar> \<le> 8095" if "t < k" for t
    using centered_correct[OF a[OF left[OF that]] p] by auto
  have g: "?g t mod int p = right ! (t * n + j) mod int p" "\<bar>?g t\<bar> \<le> 8095" if "t < k" for t
    using centered_correct[OF b[OF right[OF that]] p] by auto
  have "fold (\<lambda>t dot. wrap_i64 (dot + wrap_i64 (map (\<lambda>v. centered v p) a ! (i * k + t) * map (\<lambda>v. centered v p) b ! (t * n + j)))) [0..<k] 0 =
      fold (\<lambda>t dot. wrap_i64 (dot + wrap_i64 (?f t * ?g t))) [0..<k] 0"
    by (intro fold_cong) (use left right in auto)
  also have "\<dots> = (\<Sum>t < k. ?f t * ?g t)" using dot_exact[of k ?f ?g] f g k by blast
  finally have dot: "fold (\<lambda>t dot. wrap_i64 (dot + wrap_i64 (map (\<lambda>v. centered v p) a ! (i * k + t) * map (\<lambda>v. centered v p) b ! (t * n + j)))) [0..<k] 0 =
      (\<Sum>t < k. ?f t * ?g t)" .
  have "(\<Sum>t < k. ?f t * ?g t) mod int p = (\<Sum>t < k. (?f t * ?g t) mod int p) mod int p" by (rule mod_sum_eq[symmetric])
  also have "\<dots> = (\<Sum>t < k. (left ! (i * k + t) * right ! (t * n + j)) mod int p) mod int p"
    using mod_mult_cong[OF f(1) g(1)] by simp
  also have "\<dots> = dot_product left right k n i j mod int p" unfolding dot_product_def by (rule mod_sum_eq)
  finally have eq: "(\<Sum>t < k. ?f t * ?g t) mod int p = dot_product left right k n i j mod int p" .
  have "dot_product left right k n i j mod int p < int p" using p by (intro pos_mod_bound) simp
  then have "nat (dot_product left right k n i j mod int p) < 65536" using p by linarith
  then show ?thesis using entry ij dot eq by (simp add: cpu_residue_product_def Let_def)
qed

subsection \<open>Admission\<close>

lemma ensure_Inr [result_simps]: "ensure b message = Inr u \<longleftrightarrow> b"
  by (simp add: ensure_def)

lemma admit_Inr [result_simps]: "admit_workspace required available stage = Inr u \<longleftrightarrow> required \<le> available"
  by (auto simp: admit_workspace_def)

lemma context_Inr [result_simps]: "context_option r message = Inr x \<longleftrightarrow> r = Some x"
  by (auto simp: context_option_def split: option.splits)

lemma check_shape_Inr:
  assumes "check_shape left right rows inner columns limits = Inr count"
  shows "count = rows * columns" "length left = rows * inner" "length right = inner * columns" "inner \<le> 133144"
    "0 < rows" "0 < inner" "0 < columns"
  using assms by (auto simp: check_shape_def result_simps Let_def)

lemma foldl_max_ge: "x = m \<or> x \<in> set ms \<Longrightarrow> x \<le> foldl max m ms" for m :: nat
proof (induction ms arbitrary: m x)
  case (Cons a ms)
  have "max m a \<le> foldl max (max m a) ms" using Cons.IH[of "max m a" "max m a"] by simp
  then show ?case using Cons.IH[of x "max m a"] Cons.prems by auto
qed auto

lemma max_magnitude_Inr:
  assumes "max_magnitude values = Inr m" "x \<in> set values"
  shows "\<bar>x\<bar> \<le> int m"
proof -
  obtain v vs where vs: "map (\<lambda>v. nat \<bar>v\<bar>) values = v # vs" "m = foldl max v vs"
    using assms(1) by (auto simp: max_magnitude_def split: list.splits)
  have "nat \<bar>x\<bar> \<in> set (map (\<lambda>v. nat \<bar>v\<bar>) values)" using assms(2) by simp
  then have "nat \<bar>x\<bar> \<le> m" unfolding vs by (intro foldl_max_ge) simp
  then show ?thesis by simp
qed

lemma plan_Inr:
  assumes "plan left right rows inner columns limits count = Inr (bound, primes, modulus, workspace)"
  shows "\<exists>max_a max_b. max_magnitude left = Inr max_a \<and> max_magnitude right = Inr max_b \<and> bound = max_a * max_b * inner * 2 \<and>
    choose_primes bound = Inr (primes, modulus) \<and> workspace \<le> max_workspace_bytes limits"
  using assms by (auto simp: plan_def result_simps Let_def split: if_splits)

lemma dot_bound:
  assumes "\<And>x. x \<in> set left \<Longrightarrow> \<bar>x\<bar> \<le> int a" "\<And>x. x \<in> set right \<Longrightarrow> \<bar>x\<bar> \<le> int b" "length left = rows * k" "length right = k * n" "i < rows" "j < n"
  shows "\<bar>dot_product left right k n i j\<bar> \<le> int (a * b * k)"
proof -
  have "\<bar>left ! (i * k + t) * right ! (t * n + j)\<bar> \<le> int (a * b)" if "t < k" for t
  proof -
    have "i * k + t < length left" "t * n + j < length right"
      using that assms(3-6) mult_le_mono1[of "Suc i" rows k] mult_le_mono1[of "Suc t" k n] by simp_all
    then show ?thesis unfolding abs_mult of_nat_mult using assms(1,2) by (intro mult_mono) auto
  qed
  then have "\<bar>dot_product left right k n i j\<bar> \<le> (\<Sum>t < k. int (a * b))"
    unfolding dot_product_def by (intro order_trans[OF sum_abs] sum_mono) auto
  then show ?thesis by (simp add: mult.commute)
qed

lemma signed_entry_correct:
  assumes "2 * \<bar>S\<bar> < int M"
  shows "signed_entry M (nat (S mod int M)) = S"
proof (cases "0 \<le> S")
  case True
  then have "S mod int M = S" "\<not> M div 2 < nat S" using assms by auto
  then show ?thesis using True by (simp add: signed_entry_def)
next
  case False
  then have "(S + int M) mod int M = S + int M" using assms by (intro mod_pos_pos_trivial) auto
  then have "S mod int M = S + int M" by simp
  moreover have "M div 2 < nat (S + int M)" using False assms by linarith
  ultimately show ?thesis using assms by (simp add: signed_entry_def)
qed

context bezout
begin

lemma admitted_product:
  assumes shape: "check_shape left right rows inner columns limits = Inr count"
    and plan: "plan left right rows inner columns limits count = Inr (bound, primes, modulus, workspace)"
  shows "\<exists>entries. map (\<lambda>entry. signed_entry modulus (reconstruct (build_tree E primes 0)
      (residue_products (converted left (build_tree E primes 0) (length primes)) (converted right (build_tree E primes 0) (length primes))
        rows inner columns primes) entry)) [0..<count] = entries \<and>
    is_product left right rows inner columns entries \<and> (\<forall>v \<in> set entries. nat \<bar>v\<bar> \<le> bound div 2)"
proof -
  let ?T = "build_tree E primes 0" and ?n = "length primes"
  let ?R = "residue_products (converted left ?T ?n) (converted right ?T ?n) rows inner columns primes"
  note dims = check_shape_Inr[OF shape]
  obtain max_a max_b where mags: "max_magnitude left = Inr max_a" "max_magnitude right = Inr max_b" and bound: "bound = max_a * max_b * inner * 2"
    and chosen: "choose_primes bound = Inr (primes, modulus)" using plan_Inr[OF plan] by blast
  note good = choose_primes_good[OF chosen]
  have tree: "tree_correct ?T primes 0" by (rule build_tree_correct[OF good(1)])
  have p: "3 \<le> primes ! i" "primes ! i \<le> 16191" if "i < ?n" for i using good(1) that by (auto simp: good_primes_def)
  have conv: "int (map (\<lambda>v. v ! k) (converted xs ?T ?n) ! q) = xs ! q mod int (primes ! k)" if "q < length xs" "k < ?n" for xs q k
    using that tree residue_of_correct[OF p[OF that(2)], of "nat \<bar>xs ! q\<bar>" "xs ! q < 0"]
    by (auto simp: converted_def tree_correct_def split: if_splits)
  have entry: "signed_entry modulus (reconstruct ?T ?R (i * columns + j)) = dot_product left right inner columns i j"
    "nat \<bar>dot_product left right inner columns i j\<bar> \<le> bound div 2" if ij: "i < rows" "j < columns" for i j
  proof -
    have "?R ! k ! (i * columns + j) = nat (dot_product left right inner columns i j mod int (primes ! k))" if k: "k < ?n" for k
      using residue_product_correct[OF p[OF k] dims(4), of "map (\<lambda>v. v ! k) (converted left ?T ?n)" rows
          "map (\<lambda>v. v ! k) (converted right ?T ?n)" columns left right i j] conv dims ij k
      by (simp add: residue_products_def converted_def nth_enumerate_eq)
    then have recovered: "reconstruct ?T ?R (i * columns + j) = nat (dot_product left right inner columns i j mod int modulus)"
      using tree good(3) by (simp add: tree_correct_def)
    have small: "\<bar>dot_product left right inner columns i j\<bar> \<le> int (max_a * max_b * inner)"
      using max_magnitude_Inr[OF mags(1)] max_magnitude_Inr[OF mags(2)] dims ij by (intro dot_bound) auto
    then have "2 * \<bar>dot_product left right inner columns i j\<bar> < int modulus"
    proof -
      have "int bound < int modulus" using good(4) by (rule of_nat_less_iff[THEN iffD2])
      moreover have "int bound = 2 * int (max_a * max_b * inner)" using bound by simp
      ultimately show ?thesis using small by linarith
    qed
    then show "signed_entry modulus (reconstruct ?T ?R (i * columns + j)) = dot_product left right inner columns i j"
      unfolding recovered by (rule signed_entry_correct)
    have "bound div 2 = max_a * max_b * inner" using bound by simp
    then show "nat \<bar>dot_product left right inner columns i j\<bar> \<le> bound div 2" using small by (simp only: nat_le_iff)
  qed
  let ?entries = "map (\<lambda>entry. signed_entry modulus (reconstruct ?T ?R entry)) [0..<count]"
  have index: "i * columns + j < count" if "i < rows" "j < columns" for i j
    using that dims(1) mult_le_mono1[of "Suc i" rows columns] by simp
  have "is_product left right rows inner columns ?entries" using entry(1) index dims(1) by (simp add: is_product_def)
  moreover have "nat \<bar>v\<bar> \<le> bound div 2" if v: "v \<in> set ?entries" for v
  proof -
    obtain q where q: "q < count" "v = signed_entry modulus (reconstruct ?T ?R q)" using v by auto
    have "q div columns < rows" "q mod columns < columns" using q(1) dims by (auto simp: less_mult_imp_div_less)
    then show ?thesis using entry[of "q div columns" "q mod columns"] q(2) by simp
  qed
  ultimately show ?thesis by blast
qed

lemma multiply_Inr:
  assumes "multiply E left right rows inner columns limits = Inr r"
  shows "is_product left right rows inner columns (product_entries r)" "product_rows r = rows" "product_columns r = columns"
    "\<exists>w \<le> max_workspace_bytes limits. estimated_workspace_bytes r = w mod 18446744073709551616"
proof -
  obtain count bound primes modulus workspace where run: "check_shape left right rows inner columns limits = Inr count"
      "plan left right rows inner columns limits count = Inr (bound, primes, modulus, workspace)" "primes \<noteq> []"
    using assms by (auto simp: multiply_def result_simps build_def split: if_splits)
  note entries = admitted_product[OF run(1,2)]
  show "is_product left right rows inner columns (product_entries r)" "product_rows r = rows" "product_columns r = columns"
    using assms entries run by (auto simp: multiply_def result_simps build_def Let_def split: if_splits)
  have "workspace \<le> max_workspace_bytes limits" using plan_Inr[OF run(2)] by blast
  then show "\<exists>w \<le> max_workspace_bytes limits. estimated_workspace_bytes r = w mod 18446744073709551616"
    using assms run by (auto simp: multiply_def result_simps build_def Let_def split: if_splits)
qed

lemma multiply_admitted:
  assumes "check_shape left right rows inner columns limits = Inr count" "plan left right rows inner columns limits count = Inr admitted"
    "build_pool E (workers limits) = Inr ()"
  shows "\<exists>r. multiply E left right rows inner columns limits = Inr r"
proof -
  obtain bound primes modulus workspace where a: "admitted = (bound, primes, modulus, workspace)" by (cases admitted) auto
  have "primes \<noteq> []" using plan_Inr[OF assms(2)[unfolded a]] choose_primes_good(2) by blast
  then show ?thesis using admitted_product[OF assms(1) assms(2)[unfolded a]] assms
    by (auto simp: multiply_def a build_def Let_def list_ex_iff not_less)
qed

end

lemma no_panic [simp]:
  "\<not> panics (ensure b message)" "\<not> panics (admit_workspace n m stage)" "\<not> panics (context_option r message)" "\<not> panics (choose_primes bound)"
  by (auto simp: ensure_def admit_workspace_def context_option_def choose_primes_def Let_def split: option.splits prod.splits)

lemma check_shape_no_panic [simp]: "\<not> panics (check_shape left right rows inner columns limits)"
  by (simp add: check_shape_def panics_bind Let_def)

lemma max_magnitude_no_panic: "values \<noteq> [] \<Longrightarrow> \<not> panics (max_magnitude values)"
  by (cases "values") (auto simp: max_magnitude_def)

lemma multiply_no_panic: "\<not> panics (multiply E left right rows inner columns limits)"
proof -
  have "\<not> panics (plan left right rows inner columns limits count)" if "check_shape left right rows inner columns limits = Inr count" for count
  proof -
    have "left \<noteq> []" "right \<noteq> []" using check_shape_Inr[OF that] by auto
    then show ?thesis using max_magnitude_no_panic by (auto simp: plan_def panics_bind Let_def split: prod.splits)
  qed
  moreover have "\<not> panics (build E primes 0)" if "plan left right rows inner columns limits count = Inr (bound, primes, modulus, workspace)" for count bound primes modulus workspace
    using plan_Inr[OF that] choose_primes_good(2) by (auto simp: build_def)
  moreover have "\<not> panics (map_err (\<lambda>e. Raised (ProductFailure e)) r)" for r :: "string + unit" by (cases r) auto
  ultimately show ?thesis by (auto simp: multiply_def panics_bind Let_def split: if_splits)
qed

section \<open>Limb products\<close>

lemma below_bits: "n < 2 ^ significant_bits_nat n"
proof (induction n rule: significant_bits_nat.induct)
  case (1 n)
  show ?case
  proof (cases "n = 0")
    case False
    then have "n div 2 < 2 ^ significant_bits_nat (n div 2)" using 1 by blast
    then show ?thesis using False by (simp add: significant_bits_nat.simps[of n])
  qed simp
qed

definition limb_of :: "nat \<Rightarrow> nat \<Rightarrow> int \<Rightarrow> int" where
  "limb_of width i v = sgn v * int (nat \<bar>v\<bar> div 2 ^ (i * width) mod 2 ^ width)"

lemma limb_Inr [result_simps]:
  "limb width values i = Inr xs \<longleftrightarrow> i * width \<le> usize_max \<and> xs = map (limb_of width i) values"
  by (auto simp: limb_def limb_of_def result_simps)

lemma digits_sum: "(\<Sum>i < n. (x div 2 ^ (i * w) mod 2 ^ w) * 2 ^ (i * w)) = x mod 2 ^ (n * w)" for x :: nat
proof (induction n)
  case (Suc n)
  have "x mod 2 ^ (Suc n * w) = 2 ^ (n * w) * (x div 2 ^ (n * w) mod 2 ^ w) + x mod 2 ^ (n * w)"
    using mod_mult2_eq[of x "2 ^ (n * w)" "2 ^ w"] by (simp add: power_add mult.commute)
  then show ?case using Suc by (simp add: mult.commute)
qed simp

lemma limbs_sum:
  assumes "nat \<bar>v\<bar> < 2 ^ (n * w)"
  shows "(\<Sum>i < n. limb_of w i v * 2 ^ (i * w)) = v"
proof -
  have "(\<Sum>i < n. limb_of w i v * 2 ^ (i * w)) = sgn v * int (\<Sum>i < n. (nat \<bar>v\<bar> div 2 ^ (i * w) mod 2 ^ w) * 2 ^ (i * w))"
    by (simp add: limb_of_def sum_distrib_left mult.assoc)
  also have "\<dots> = sgn v * \<bar>v\<bar>" using assms by (simp add: digits_sum)
  finally show ?thesis by (simp add: sgn_mult_abs)
qed

lemma limbs_cover:
  assumes "x \<in> set values" "0 < w"
  shows "nat \<bar>x\<bar> < 2 ^ ((max (max_bits values) 1 + w - 1) div w * w)"
proof -
  let ?b = "max (max_bits values) 1"
  have "significant_bits_nat (nat \<bar>x\<bar>) \<le> max_bits values" unfolding max_bits_def using assms(1) by (intro foldl_max_ge) auto
  moreover have "b \<le> (b + w - 1) div w * w" for b
    using div_mult_mod_eq[of "b + w - 1" w] mod_less_divisor[OF assms(2), of "b + w - 1"] by linarith
  from this[of ?b] have "?b \<le> (?b + w - 1) div w * w" .
  ultimately have "(2 :: nat) ^ significant_bits_nat (nat \<bar>x\<bar>) \<le> 2 ^ ((?b + w - 1) div w * w)" by (intro power_increasing) linarith+
  then show ?thesis using below_bits[of "nat \<bar>x\<bar>"] by linarith
qed

text \<open>The dot product of two matrices is the sum of the shifted dot products of their limbs.\<close>

lemma dot_limbs:
  assumes "i < rows" "j < columns" "length left = rows * inner" "length right = inner * columns"
    and a: "\<And>x. x \<in> set left \<Longrightarrow> nat \<bar>x\<bar> < 2 ^ (m * w)" and b: "\<And>x. x \<in> set right \<Longrightarrow> nat \<bar>x\<bar> < 2 ^ (n * w)"
  shows "(\<Sum>s < m. \<Sum>u < n. dot_product (map (limb_of w s) left) (map (limb_of w u) right) inner columns i j * 2 ^ ((s + u) * w)) =
    dot_product left right inner columns i j"
proof -
  have index: "i * inner + t < length left" "t * columns + j < length right" if "t < inner" for t
    using that assms(1-4) mult_le_mono1[of "Suc i" rows inner] mult_le_mono1[of "Suc t" inner columns] by simp_all
  let ?l = "\<lambda>s t. limb_of w s (left ! (i * inner + t)) * 2 ^ (s * w)" and ?r = "\<lambda>u t. limb_of w u (right ! (t * columns + j)) * 2 ^ (u * w)"
  have "dot_product (map (limb_of w s) left) (map (limb_of w u) right) inner columns i j * 2 ^ ((s + u) * w) = (\<Sum>t < inner. ?l s t * ?r u t)" for s u
    unfolding dot_product_def sum_distrib_right using index by (intro sum.cong) (auto simp: power_add distrib_right)
  then have "(\<Sum>s < m. \<Sum>u < n. dot_product (map (limb_of w s) left) (map (limb_of w u) right) inner columns i j * 2 ^ ((s + u) * w)) =
      (\<Sum>s < m. \<Sum>u < n. \<Sum>t < inner. ?l s t * ?r u t)" by simp
  also have "\<dots> = (\<Sum>s < m. \<Sum>t < inner. \<Sum>u < n. ?l s t * ?r u t)" by (intro sum.cong refl sum.swap)
  also have "\<dots> = (\<Sum>t < inner. \<Sum>s < m. \<Sum>u < n. ?l s t * ?r u t)" by (rule sum.swap)
  also have "\<dots> = (\<Sum>t < inner. (\<Sum>s < m. ?l s t) * (\<Sum>u < n. ?r u t))" by (simp add: sum_product)
  also have "\<dots> = dot_product left right inner columns i j"
    unfolding dot_product_def using index a b by (intro sum.cong) (auto simp: limbs_sum)
  finally show ?thesis .
qed

lemma is_product_entry:
  assumes "is_product a b rows inner columns entries" "e < rows * columns"
  shows "entries ! e = dot_product a b inner columns (e div columns) (e mod columns)"
proof -
  have "0 < columns" using assms(2) by (cases columns) auto
  then have "e div columns < rows" "e mod columns < columns" using assms(2) by (simp_all add: less_mult_imp_div_less)
  then show ?thesis using assms(1) unfolding is_product_def by (metis div_mult_mod_eq)
qed

text \<open>What the limb products need of the product they call, provided by \<open>multiply\<close>.\<close>

locale exact_products =
  fixes product :: "int list \<Rightarrow> int list \<Rightarrow> int list product_result" and rows inner columns :: nat
  assumes exact: "product a b = Inr entries \<Longrightarrow> is_product a b rows inner columns entries"
begin

lemma limb_products:
  assumes "fold_result (add_limb_product product w (rows * columns) right s a) [0..<n] start = Inr out" "length start = rows * columns"
  shows "length out = rows * columns \<and> (\<forall>e < rows * columns. out ! e = start ! e +
    (\<Sum>u < n. dot_product a (map (limb_of w u) right) inner columns (e div columns) (e mod columns) * 2 ^ ((s + u) * w)))"
proof (rule fold_result_upt_inv[OF assms(1)])
  fix u t t'
  assume t: "length t = rows * columns \<and> (\<forall>e < rows * columns. t ! e = start ! e +
      (\<Sum>u < u. dot_product a (map (limb_of w u) right) inner columns (e div columns) (e mod columns) * 2 ^ ((s + u) * w)))"
    and step: "add_limb_product product w (rows * columns) right s a u t = Inr t'"
  then obtain entries where entries: "product a (map (limb_of w u) right) = Inr entries" "length entries = rows * columns"
      "t' = map (\<lambda>(x, entry). x + entry * 2 ^ ((s + u) * w)) (zip t entries)"
    by (auto simp: add_limb_product_def result_simps split: bind_splits)
  then show "length t' = rows * columns \<and> (\<forall>e < rows * columns. t' ! e = start ! e +
      (\<Sum>u < Suc u. dot_product a (map (limb_of w u) right) inner columns (e div columns) (e mod columns) * 2 ^ ((s + u) * w)))"
    using t is_product_entry[OF exact[OF entries(1)]] by simp
qed (use assms(2) in auto)

lemma limb_rows:
  assumes "fold_result (add_limb_row product w (rows * columns) left right n) [0..<m] (replicate (rows * columns) 0) = Inr out"
  shows "length out = rows * columns \<and> (\<forall>e < rows * columns. out ! e = (\<Sum>s < m. \<Sum>u < n.
    dot_product (map (limb_of w s) left) (map (limb_of w u) right) inner columns (e div columns) (e mod columns) * 2 ^ ((s + u) * w)))"
proof (rule fold_result_upt_inv[OF assms])
  fix s t t'
  assume t: "length t = rows * columns \<and> (\<forall>e < rows * columns. t ! e = (\<Sum>s < s. \<Sum>u < n.
      dot_product (map (limb_of w s) left) (map (limb_of w u) right) inner columns (e div columns) (e mod columns) * 2 ^ ((s + u) * w)))"
    and step: "add_limb_row product w (rows * columns) left right n s t = Inr t'"
  then have "fold_result (add_limb_product product w (rows * columns) right s (map (limb_of w s) left)) [0..<n] t = Inr t'"
    by (auto simp: add_limb_row_def result_simps)
  then show "length t' = rows * columns \<and> (\<forall>e < rows * columns. t' ! e = (\<Sum>s < Suc s. \<Sum>u < n.
      dot_product (map (limb_of w s) left) (map (limb_of w u) right) inner columns (e div columns) (e mod columns) * 2 ^ ((s + u) * w)))"
    using limb_products t by simp
qed auto

end

sublocale bezout \<subseteq> limb_multiply: exact_products "\<lambda>a b. map_ok product_entries (multiply E a b rows inner columns child)" rows inner columns
  for rows inner columns child
  by unfold_locales (auto simp: result_simps intro: multiply_Inr(1))

context bezout
begin

lemma wide_product_correct:
  assumes run: "multiply_wide_entries E left right rows inner columns limits = Inr out"
  shows "is_product left right rows inner columns out"
proof -
  obtain count w child where shape: "check_shape left right rows inner columns limits = Inr count" and w: "limb_width inner = Inr w"
    and loop: "fold_result (add_limb_row (\<lambda>a b. map_ok product_entries (multiply E a b rows inner columns child)) w count left right
        ((max (max_bits right) 1 + w - 1) div w)) [0..<(max (max_bits left) 1 + w - 1) div w] (replicate count 0) = Inr out"
    using run by (auto simp: multiply_wide_entries_def multiply_wide_entries_with_def result_simps Let_def split: if_splits)
  note dims = check_shape_Inr[OF shape]
  have pos: "0 < w" using w by (auto simp: limb_width_def result_simps)
  let ?m = "(max (max_bits left) 1 + w - 1) div w" and ?n = "(max (max_bits right) 1 + w - 1) div w"
  note out = limb_multiply.limb_rows[OF loop[unfolded dims(1)]]
  have "out ! (i * columns + j) = dot_product left right inner columns i j" if ij: "i < rows" "j < columns" for i j
  proof -
    have "i * columns + j < rows * columns" using ij mult_le_mono1[of "Suc i" rows columns] by simp
    moreover have "(i * columns + j) div columns = i" "(i * columns + j) mod columns = j" using ij by auto
    ultimately show ?thesis using out dot_limbs[OF ij dims(2,3) limbs_cover[OF _ pos] limbs_cover[OF _ pos]] by simp
  qed
  then show ?thesis using out by (simp add: is_product_def)
qed

end

lemma fold_result_no_panic: "(\<And>x s. \<not> panics (f x s)) \<Longrightarrow> \<not> panics (fold_result f xs s)"
  by (induction xs arbitrary: s) (auto simp: panics_bind)

lemma limb_row_no_panic:
  assumes "\<And>a b. \<not> panics (product a b)"
  shows "\<not> panics (add_limb_row product w count left right n s out)"
proof -
  have limb: "\<not> panics (limb w xs i)" for xs i by (simp add: limb_def panics_bind)
  have "\<not> panics (add_limb_product product w count right s a u t)" for a u t
    using limb assms by (auto simp: add_limb_product_def panics_bind)
  then have "\<not> panics (fold_result (add_limb_product product w count right s a) us t)" for a us t by (rule fold_result_no_panic)
  then show ?thesis using limb by (auto simp: add_limb_row_def panics_bind)
qed

lemma wide_product_no_panic: "\<not> panics (multiply_wide_entries E left right rows inner columns limits)"
proof -
  have "\<not> panics (map_ok product_entries (multiply E a b rows inner columns child))" for a b child
    using multiply_no_panic[of E a b rows inner columns child] by (cases "multiply E a b rows inner columns child") (auto elim: panics.elims)
  then have "\<not> panics (fold_result (add_limb_row (\<lambda>a b. map_ok product_entries (multiply E a b rows inner columns child)) w count left right n) xs t)"
    for child w count n xs t by (intro fold_result_no_panic limb_row_no_panic)
  moreover have "\<not> panics (limb_width inner)" by (simp add: limb_width_def panics_bind)
  ultimately show ?thesis
    by (simp add: multiply_wide_entries_def multiply_wide_entries_with_def panics_bind Let_def)
qed

section \<open>A reference for the extended Euclidean algorithm\<close>

function reference_egcd :: "int \<Rightarrow> int \<Rightarrow> int \<times> int \<times> int" where
  "reference_egcd a b =
     (if b = 0 then (\<bar>a\<bar>, sgn a, 0) else case reference_egcd b (a mod b) of (g, x, y) \<Rightarrow> (g, y, x - (a div b) * y))"
  by pat_completeness auto
termination
  by (relation "measure (\<lambda>(a, b). nat \<bar>b\<bar>)") (auto intro: abs_mod_less)

declare reference_egcd.simps [simp del]

lemma reference_egcd_correct: "reference_egcd a b = (g, x, y) \<Longrightarrow> g = gcd a b \<and> a * x + b * y = g"
proof (induction a b arbitrary: g x y rule: reference_egcd.induct)
  case (1 a b)
  show ?case
  proof (cases "b = 0")
    case True
    then show ?thesis using "1.prems" by (auto simp: reference_egcd.simps[of a 0] abs_sgn)
  next
    case False
    obtain g' x' y' where rec: "reference_egcd b (a mod b) = (g', x', y')" by (metis prod_cases3)
    then have IH: "g' = gcd b (a mod b)" "b * x' + (a mod b) * y' = g'" using "1.IH"[OF False] by auto
    have res: "g = g'" "x = y'" "y = x' - (a div b) * y'" using "1.prems" False rec by (auto simp: reference_egcd.simps[of a b])
    have "a * x + b * y = b * x' + (a - a div b * b) * y'" unfolding res by (simp add: algebra_simps)
    also have "\<dots> = g" using IH(2) res by (simp add: minus_div_mult_eq_mod)
    finally show ?thesis using IH(1) res gcd_red_int[of a b] by (simp only: simp_thms)
  qed
qed

definition reference_product_env :: product_env where
  "reference_product_env = \<lparr>extended_gcd = reference_egcd, build_pool = (\<lambda>_. Inr ())\<rparr>"

interpretation reference_product: bezout reference_product_env
  by unfold_locales (auto simp: reference_product_env_def dest: reference_egcd_correct)

section \<open>Properties\<close>

text \<open>C25. The exact modular product: with an extended Euclidean algorithm that returns Bezout coefficients, a product that passes the
  admission checks is always returned, it is the integer matrix product, and its recorded workspace is within the limit (the check of the
  reconstructed magnitudes never fires); nothing panics, although residues, coefficients and dot products are computed in 16, 64 and 128 bits.\<close>

theorem modular_product_exact:
  assumes "\<forall>a b g x y. extended_gcd E a b = (g, x, y) \<longrightarrow> g = gcd a b \<and> a * x + b * y = g"
  shows "\<not> panics (multiply E left right rows inner columns limits) \<and>
    (\<forall>r. multiply E left right rows inner columns limits = Inr r \<longrightarrow>
       is_product left right rows inner columns (product_entries r) \<and> product_rows r = rows \<and> product_columns r = columns \<and>
       (max_workspace_bytes limits \<le> usize_max \<longrightarrow> estimated_workspace_bytes r \<le> max_workspace_bytes limits)) \<and>
    (\<forall>count admitted. check_shape left right rows inner columns limits = Inr count \<and>
       plan left right rows inner columns limits count = Inr admitted \<and> build_pool E (workers limits) = Inr () \<longrightarrow>
       (\<exists>r. multiply E left right rows inner columns limits = Inr r))"
proof (intro conjI allI impI)
  have E: "bezout E" using assms by unfold_locales blast+
  show "\<not> panics (multiply E left right rows inner columns limits)" by (rule multiply_no_panic)
  { fix r assume r: "multiply E left right rows inner columns limits = Inr r"
    note parts = bezout.multiply_Inr[OF E r]
    show "is_product left right rows inner columns (product_entries r)" "product_rows r = rows" "product_columns r = columns" by (rule parts)+
    show "estimated_workspace_bytes r \<le> max_workspace_bytes limits" using parts(4) by (metis le_trans mod_less_eq_dividend) }
  fix count admitted
  assume "check_shape left right rows inner columns limits = Inr count \<and>
    plan left right rows inner columns limits count = Inr admitted \<and> build_pool E (workers limits) = Inr ()"
  then show "\<exists>r. multiply E left right rows inner columns limits = Inr r" using bezout.multiply_admitted[OF E] by blast
qed

text \<open>C26. The limb product for wider integers: what \<open>multiply_wide_entries\<close> returns, cutting both matrices into signed limbs, multiplying
  every pair of them modularly and adding the shifted products, is the integer matrix product; and it does not panic.\<close>

theorem wide_product_exact:
  assumes "\<forall>a b g x y. extended_gcd E a b = (g, x, y) \<longrightarrow> g = gcd a b \<and> a * x + b * y = g"
  shows "\<not> panics (multiply_wide_entries E left right rows inner columns limits) \<and>
    (\<forall>entries. multiply_wide_entries E left right rows inner columns limits = Inr entries \<longrightarrow> is_product left right rows inner columns entries)"
proof -
  have E: "bezout E" using assms by unfold_locales blast+
  show ?thesis using wide_product_no_panic bezout.wide_product_correct[OF E] by blast
qed

section \<open>Sample\<close>

definition sample_product_limits :: ProductLimits where
  "sample_product_limits = \<lparr>max_workspace_bytes = 1073741824, max_input_bits = 64, max_modular_scalar_products = 1000, workers = 1\<rparr>"

lemma choose_loop_unfold:
  "0 < n \<Longrightarrow> choose_loop bound n primes product =
     (if n < 3 then (primes, product)
      else if \<not> prime_u32 n then choose_loop bound (n - 1) primes product
      else if primes \<noteq> [] \<and> bound < product then (primes, product)
      else choose_loop bound (n - 1) (primes @ [n]) (product * n))"
  by (cases n) auto

lemma sample_primes: "prime_u32 16189" "prime_u32 16187" "\<not> prime_u32 16188" "\<not> prime_u32 16190" "\<not> prime_u32 16191"
  by (simp_all add: prime_u32_def trial_division.simps)

lemma sample_bits: "significant_bits_nat 2 = 2" "significant_bits_nat 3 = 2" "significant_bits_nat 7 = 3" "significant_bits_nat 16189 = 14"
  by (simp_all add: significant_bits_nat.simps)

lemma sample_choice: "b < 16189 \<Longrightarrow> choose_primes b = Inr ([16189], 16189)"
proof -
  assume b: "b < 16189"
  have "choose_loop b 16191 [] 1 = choose_loop b 16190 [] 1" by (subst choose_loop_unfold) (simp_all only: sample_primes, simp_all)
  also have "\<dots> = choose_loop b 16189 [] 1" by (subst choose_loop_unfold) (simp_all only: sample_primes, simp_all)
  also have "\<dots> = choose_loop b 16188 [16189] 16189" by (subst choose_loop_unfold) (simp_all only: sample_primes, simp_all)
  also have "\<dots> = choose_loop b 16187 [16189] 16189" by (subst choose_loop_unfold) (simp_all only: sample_primes, simp_all)
  also have "\<dots> = ([16189], 16189)" using b by (subst choose_loop_unfold) (simp_all only: sample_primes, simp_all)
  finally show ?thesis using b by (simp only: choose_primes_def Let_def prod.case) simp
qed

theorem modular_product_exact_witness:
  "\<exists>r. multiply reference_product_env [2, - 3] [5, 7] 1 2 1 sample_product_limits = Inr r \<and> product_entries r = [- 11]"
proof -
  have law: "\<forall>a b g x y. extended_gcd reference_product_env a b = (g, x, y) \<longrightarrow> g = gcd a b \<and> a * x + b * y = g"
    using reference_product.bezout by blast
  have shape: "check_shape [2, - 3] [5, 7] 1 2 1 sample_product_limits = Inr 1"
    by (simp add: check_shape_def ensure_def context_option_def checked_mul_def checked_add_def usize_max_def sample_product_limits_def Let_def)
  obtain admitted where plan: "plan [2, - 3] [5, 7] 1 2 1 sample_product_limits 1 = Inr admitted"
    using sample_choice[of 84] by (simp add: plan_def max_magnitude_def ensure_def admit_workspace_def sample_product_limits_def sample_bits Let_def)
  have pool: "build_pool reference_product_env (workers sample_product_limits) = Inr ()" by (simp add: reference_product_env_def)
  obtain r where r: "multiply reference_product_env [2, - 3] [5, 7] 1 2 1 sample_product_limits = Inr r"
    using modular_product_exact[OF law] shape plan pool by blast
  have "is_product [2, - 3] [5, 7] 1 2 1 (product_entries r)" using modular_product_exact[OF law] r by blast
  then have "length (product_entries r) = 1" "product_entries r ! 0 = - 11"
    by (simp_all add: is_product_def dot_product_def lessThan_Suc numeral_2_eq_2)
  then have "product_entries r = [- 11]" by (simp add: length_Suc_conv)  (auto)
  then show ?thesis using r by blast
qed

text \<open>The capacity of the prime family, far from tight but enough for a small limb product.\<close>

lemma bits_le: "n < 2 ^ k \<Longrightarrow> significant_bits_nat n \<le> k"
proof (induction k arbitrary: n)
  case (Suc k)
  then have "n div 2 < 2 ^ k" by simp
  then show ?case using Suc.IH by (simp add: significant_bits_nat.simps[of n])
qed (simp add: significant_bits_nat.simps)

lemma capacity_bounds: "13 \<le> fst reconstruction_capacity" "fst reconstruction_capacity \<le> 226660" "snd reconstruction_capacity \<le> 16189"
proof -
  define ps where "ps = filter prime_u32 [3..<16192]"
  have prod: "foldl (\<lambda>product p. product * p) a xs = a * prod_list xs" for a and xs :: "nat list"
    by (induction xs arbitrary: a) auto
  have good: "good_primes ps" by (auto simp: ps_def good_primes_def simp del: upt_rec_numeral)
  have mem: "16189 \<in> set ps" using sample_primes(1) by (simp add: ps_def del: upt_rec_numeral)
  have len: "length ps \<le> 16189" using length_filter_le[of prime_u32 "[3..<16192]"] by (simp add: ps_def del: upt_rec_numeral)
  have "0 < prod_list ps" by (rule good_product_pos[OF good])
  moreover have "prod_list ps = 16189 * (prod_list ps div 16189)" by (rule reference_product.quotient_coprime(1)[OF good mem])
  ultimately have large: "16189 \<le> prod_list ps" by (metis dvd_imp_le dvd_triv_left)
  have "prod_list ps \<le> 16191 ^ length ps" by (rule reference_product.prod_list_bound) (auto simp: ps_def simp del: upt_rec_numeral)
  also have "(16191 :: nat) ^ length ps \<le> (2 ^ 14) ^ length ps" by (rule power_mono) simp_all
  also have "(2 ^ 14 :: nat) ^ length ps < (2 ^ 14) ^ (length ps + 1)" by (rule power_strict_increasing) (simp_all only: less_add_one, simp)
  finally have "significant_bits_nat (prod_list ps) \<le> 14 * (length ps + 1)" by (intro bits_le) (simp only: power_mult)
  moreover have "14 \<le> significant_bits_nat (prod_list ps)"
  proof (rule ccontr)
    assume "\<not> 14 \<le> significant_bits_nat (prod_list ps)"
    then have "(2 :: nat) ^ significant_bits_nat (prod_list ps) \<le> 2 ^ 13" by (intro power_increasing) auto
    then show False using below_bits[of "prod_list ps"] large by simp
  qed
  moreover have cap: "reconstruction_capacity = (significant_bits_nat (prod_list ps) - 1, length ps)"
    unfolding reconstruction_capacity_def Let_def prod ps_def by (simp del: upt_rec_numeral)
  ultimately show "13 \<le> fst reconstruction_capacity" "fst reconstruction_capacity \<le> 226660" "snd reconstruction_capacity \<le> 16189"
    using len unfolding cap fst_conv snd_conv by auto
qed

lemma sample_child:
  assumes "5 \<le> w" "w \<le> 120000" "536870912 \<le> W" "0 < max_modular_scalar_products limits" "workers limits = 1"
  shows "map_ok product_entries (multiply reference_product_env [2] [3] 1 1 1 (limits\<lparr>max_workspace_bytes := W, max_input_bits := w\<rparr>)) = Inr [6]"
proof -
  let ?limits = "limits\<lparr>max_workspace_bytes := W, max_input_bits := w\<rparr>"
  have shape: "check_shape [2] [3] 1 1 1 ?limits = Inr 1"
    using assms by (simp add: check_shape_def ensure_def context_option_def checked_mul_def checked_add_def usize_max_def Let_def)
  have one: "significant_bits_nat (Suc 0) = 1" by (simp add: significant_bits_nat.simps)
  have "\<not> W < (w + 7) div 8" using assms by linarith
  then obtain admitted where plan: "plan [2] [3] 1 1 1 ?limits 1 = Inr admitted"
    using sample_choice[of 12] assms by (simp add: plan_def max_magnitude_def ensure_def admit_workspace_def sample_bits one Let_def)
  obtain r where r: "multiply reference_product_env [2] [3] 1 1 1 ?limits = Inr r"
    using reference_product.multiply_admitted[OF shape plan] by (auto simp: reference_product_env_def)
  have "length (product_entries r) = 1" "product_entries r ! 0 = 6"
    using reference_product.multiply_Inr(1)[OF r] by (simp_all add: is_product_def dot_product_def)
  then have "product_entries r = [6]" by (cases "product_entries r") auto
  then show ?thesis using r by simp
qed

theorem wide_product_exact_witness:
  "multiply_wide_entries reference_product_env [2] [3] 1 1 1 (sample_product_limits\<lparr>max_modular_scalar_products := 100000\<rparr>) = Inr [6] \<and>
   is_product [2] [3] 1 1 1 [6]"
proof -
  let ?limits = "sample_product_limits\<lparr>max_modular_scalar_products := 100000\<rparr>"
  have law: "\<forall>a b g x y. extended_gcd reference_product_env a b = (g, x, y) \<longrightarrow> g = gcd a b \<and> a * x + b * y = g"
    using reference_product.bezout by blast
  define w where "w = (fst reconstruction_capacity - 3) div 2"
  have w: "5 \<le> w" "w \<le> 113329" using capacity_bounds(1,2) unfolding w_def by linarith+
  have one: "significant_bits_nat (Suc 0) = 1" by (simp add: significant_bits_nat.simps)
  have width: "limb_width 1 = Inr w"
    using capacity_bounds(1) w by (simp add: limb_width_def context_option_def checked_sub_def ensure_def one w_def)
  have shape: "check_shape [2] [3] 1 1 1 ?limits = Inr 1"
    by (simp add: check_shape_def ensure_def context_option_def checked_mul_def checked_add_def usize_max_def sample_product_limits_def Let_def)
  have limbs: "(max 2 1 + w - 1) div w = 1" using w by (simp add: div_nat_eqI)
  have bits: "max_bits [2] = 2" "max_bits [3] = 2" by (simp_all add: max_bits_def sample_bits)
  have power: "(2 :: nat) ^ 5 \<le> 2 ^ w" using w by (intro power_increasing) auto
  have limb: "limb w [2] 0 = Inr [2]" "limb w [3] 0 = Inr [3]" using power by (simp_all add: limb_def context_option_def checked_mul_def)
  have fields: "max_workspace_bytes ?limits = 1073741824" "max_input_bits ?limits = 64" "max_modular_scalar_products ?limits = 100000" "workers ?limits = 1"
    by (simp_all add: sample_product_limits_def)
  let ?retained = "1 * ((5 + 7) div 8 + 64) * 4 + (1 + 1) * ((w + 7) div 8 + 64) * 4 + 8 * ((2 + 7) div 8 + 64 + ((5 + 7) div 8 + 64) + ((w + 7) div 8 + 64)) :: nat"
  have retained: "?retained \<le> 536870912" using w by simp
  then have child: "map_ok product_entries (multiply reference_product_env [2] [3] 1 1 1
      (?limits\<lparr>max_workspace_bytes := 1073741824 - ?retained, max_input_bits := w\<rparr>)) = Inr [6]"
    using w by (intro sample_child) (simp_all only: fields, simp_all)
  have row: "fold_result (add_limb_row (\<lambda>a b. map_ok product_entries (multiply reference_product_env a b 1 1 1
      (?limits\<lparr>max_workspace_bytes := 1073741824 - ?retained, max_input_bits := w\<rparr>))) w 1 [2] [3] 1) [0..<1] (replicate 1 0) = Inr [6]"
    using child limb by (simp add: add_limb_row_def add_limb_product_def ensure_def context_option_def checked_add_def checked_mul_def)
  have "\<not> 340282366920938463463374607431768211456 \<le> snd reconstruction_capacity" "snd reconstruction_capacity \<le> 100000"
    using capacity_bounds(3) by linarith+
  moreover have sizes: "length [2 :: int] = 1" "length [3 :: int] = 1" "(2 :: nat) \<le> 64" by simp_all
  moreover have "significant_bits_nat 1 = 1" by (simp add: one)
  moreover have "context_option (Option.bind (checked_add 2 2) (\<lambda>v. checked_add v 1)) ''limb output width overflow'' = Inr 5"
    by (simp add: context_option_def checked_add_def usize_max_def)
  moreover have "admit_workspace ?retained 1073741824 ''wide product retained'' = Inr ()" using retained by (simp only: admit_Inr)
  ultimately have "multiply_wide_entries reference_product_env [2] [3] 1 1 1 ?limits = Inr [6]"
    unfolding multiply_wide_entries_def multiply_wide_entries_with_def
    by (simp only: shape bind_result.simps Let_def bits fields width limbs ensure_def mult_1 mult_1_right if_True if_False max.idem
        sizes row[unfolded mult_1] simp_thms)
  then show ?thesis using wide_product_exact[OF law] by blast
qed

end
