(* ===== verification/Cache_Manifest.thy ===== *)
theory Cache_Manifest
  imports Certificate_Records Toolkit_Version
begin

text \<open>
  Manifests and policies of \<open>crates/xc-cache/src/lib.rs\<close>: quality grades, artifact keys, the manifest of a cached artifact and its
  validation, the acceptance policy, the promotion policy, and the choice of a repository shard for a write.

  A u64 is a natural number with the bound written out by \<open>checked_add\<close> and \<open>saturating_add\<close> (the bound of usize). A tag map is the list of
  its entries in key order. The compatibility tables (\<open>family_for_artifact_kind\<close> with \<open>artifact_compatibility_policy\<close>) and the check of a
  retained canonical manifest, which parses JSON, are operations of \<open>policy_env\<close>.
\<close>

section \<open>Definitions\<close>

subsection \<open>Quality and visibility\<close>

datatype CacheQuality = Quarantined | Staged | Validated | CrossChecked | Certified | Published | Deprecated

datatype CacheVisibility = LocalOnly | PrivateOnly | TeamOnly | PublicAll

fun admissible_rank :: "CacheQuality \<Rightarrow> nat" where
  "admissible_rank Quarantined = 0"
| "admissible_rank Deprecated = 0"
| "admissible_rank Published = 0"
| "admissible_rank Staged = 1"
| "admissible_rank Validated = 2"
| "admissible_rank CrossChecked = 3"
| "admissible_rank Certified = 4"

definition satisfies :: "CacheQuality \<Rightarrow> CacheQuality \<Rightarrow> bool" where
  "satisfies q minimum =
     (if q \<in> {Quarantined, Deprecated} then False
      else if minimum \<in> {Quarantined, Deprecated} then False
      else if q = Published \<and> minimum = Published then True
      else if q = Published \<or> minimum = Published then False
      else admissible_rank minimum \<le> admissible_rank q)"

definition combined_minimum :: "CacheQuality \<Rightarrow> CacheQuality \<Rightarrow> CacheQuality option" where
  "combined_minimum q other =
     (if q \<in> {Quarantined, Deprecated} \<or> other \<in> {Quarantined, Deprecated} then None
      else if q = Published \<or> other = Published then (if q = other then Some Published else None)
      else Some (if admissible_rank other \<le> admissible_rank q then q else other))"

text \<open>The derived \<open>Debug\<close> names.\<close>

fun debug_quality :: "CacheQuality \<Rightarrow> string" where
  "debug_quality Quarantined = ''Quarantined''"
| "debug_quality Staged = ''Staged''"
| "debug_quality Validated = ''Validated''"
| "debug_quality CrossChecked = ''CrossChecked''"
| "debug_quality Certified = ''Certified''"
| "debug_quality Published = ''Published''"
| "debug_quality Deprecated = ''Deprecated''"

fun debug_visibility :: "CacheVisibility \<Rightarrow> string" where
  "debug_visibility LocalOnly = ''Local''"
| "debug_visibility PrivateOnly = ''Private''"
| "debug_visibility TeamOnly = ''Team''"
| "debug_visibility PublicAll = ''Public''"

definition debug_version :: "ToolkitVersion \<Rightarrow> string" where
  "debug_version v = ''ToolkitVersion { major: '' @ show_nat (unat (major v)) @ '', minor: '' @ show_nat (unat (minor v)) @
     '', patch: '' @ show_nat (unat (patch v)) @ '', prerelease: '' @
     (case prerelease v of None \<Rightarrow> ''None'' | Some label \<Rightarrow> ''Some('' @ debug_text label @ '')'') @ '' }''"

subsection \<open>Keys and manifests\<close>

record ArtifactKey =
  kind :: string
  logical_key :: string
  parameters_digest :: ContentDigest

definition key_validate :: "ArtifactKey \<Rightarrow> CacheError + unit" where
  "key_validate k =
     (if blank (kind k) \<or> blank (logical_key k) \<or> \<not> digest_validate (parameters_digest k)
      then Inl (InvalidManifest ''artifact key requires nonempty fields and a SHA-256 parameter digest'') else Inr ())"

definition key_new :: "(string \<Rightarrow> ContentDigest) \<Rightarrow> string \<Rightarrow> string \<Rightarrow> string \<Rightarrow> CacheError + ArtifactKey" where
  "key_new sha256 k l canonical_parameters =
     (if blank k \<or> blank l then Inl (InvalidManifest ''artifact kind and logical key must be nonempty'')
      else Inr \<lparr>kind = k, logical_key = l, parameters_digest = sha256 canonical_parameters\<rparr>)"

record DependencyRef =
  dependency_key :: ArtifactKey
  dependency_digest :: ContentDigest
  required_quality :: CacheQuality

record CacheObjectRef =
  object_digest :: ContentDigest
  object_size :: nat

record ArtifactManifest =
  manifest_schema :: nat
  manifest_key :: ArtifactKey
  content_digest :: ContentDigest
  size_bytes :: nat
  objects :: "CacheObjectRef list"
  created_unix_seconds :: nat
  producer_toolkit_version :: ToolkitVersion
  minimum_reader_version :: ToolkitVersion
  maximum_reader_version :: "ToolkitVersion option"
  quality :: CacheQuality
  visibility :: CacheVisibility
  immutable :: bool
  dependencies :: "DependencyRef list"
  tags :: "(string \<times> string) list"
  provenance_digest :: "ContentDigest option"

type_synonym identity = "string \<times> string \<times> ContentDigest \<times> ContentDigest"

definition dependency_identity :: "DependencyRef \<Rightarrow> identity" where
  "dependency_identity d =
     (kind (dependency_key d), logical_key (dependency_key d), parameters_digest (dependency_key d), dependency_digest d)"

text \<open>The derived order of the identity tuple.\<close>

definition identity_cmp :: "identity \<Rightarrow> identity \<Rightarrow> Ordering" where
  "identity_cmp x y =
     (case (x, y) of ((k, l, p, c), (k', l', p', c')) \<Rightarrow>
        then_with (str_cmp k k') (then_with (str_cmp l l')
          (then_with (str_cmp (digest_text p) (digest_text p')) (str_cmp (digest_text c) (digest_text c')))))"

definition check_dependency :: "DependencyRef \<Rightarrow> identity option \<Rightarrow> CacheError + identity option" where
  "check_dependency d previous =
     bind_result (key_validate (dependency_key d)) (\<lambda>_.
     if \<not> digest_validate (dependency_digest d) \<or> \<not> digest_validate (parameters_digest (dependency_key d))
     then Inl (InvalidManifest ''manifest contains an invalid dependency digest'')
     else if (case previous of None \<Rightarrow> False | Some p \<Rightarrow> identity_cmp p (dependency_identity d) \<noteq> Less)
     then Inl (InvalidManifest ''manifest dependencies must be unique and canonically ordered'')
     else Inr (Some (dependency_identity d)))"

definition add_object :: "CacheObjectRef \<Rightarrow> nat \<Rightarrow> CacheError + nat" where
  "add_object x bytes_total =
     (if \<not> digest_validate (object_digest x) then Inl (InvalidManifest ''manifest contains an invalid object digest'')
      else case checked_add bytes_total (object_size x) of
        None \<Rightarrow> Inl (InvalidManifest ''object sizes overflow u64'')
      | Some t \<Rightarrow> Inr t)"

definition zip_json :: "ArtifactManifest \<Rightarrow> bool" where
  "zip_json m \<longleftrightarrow> map_of (tags m) ''xc_storage_encoding'' = Some ''zip-json-entry-v1''"

definition check_versions :: "ArtifactManifest \<Rightarrow> CacheError + unit" where
  "check_versions m =
     bind_result (version_validate (producer_toolkit_version m)) (\<lambda>_.
     bind_result (version_validate (minimum_reader_version m)) (\<lambda>_.
     case maximum_reader_version m of None \<Rightarrow> Inr () | Some maximum \<Rightarrow> version_validate maximum))"

definition check_objects :: "ArtifactManifest \<Rightarrow> CacheError + unit" where
  "check_objects m =
     (if objects m = [] then Inl (InvalidManifest ''manifest must explicitly list its immutable objects'')
      else bind_result (fold_result add_object (objects m) 0) (\<lambda>bytes_total.
        if \<not> zip_json m \<and> bytes_total \<noteq> size_bytes m
        then Inl (InvalidManifest (''object sizes total '' @ show_nat bytes_total @ '', expected '' @ show_nat (size_bytes m)))
        else Inr ()))"

definition manifest_validate :: "ArtifactManifest \<Rightarrow> CacheError + unit" where
  "manifest_validate m =
     bind_result (key_validate (manifest_key m)) (\<lambda>_.
     bind_result (check_versions m) (\<lambda>_.
     if manifest_schema m \<noteq> 1 then Inl (InvalidManifest ''only manifest schema_version 1 is supported'')
     else if \<not> digest_validate (content_digest m) \<or> \<not> digest_validate (parameters_digest (manifest_key m))
     then Inl (InvalidManifest ''manifest contains an invalid SHA-256 digest'')
     else bind_result (fold_result check_dependency (dependencies m) None) (\<lambda>_.
     if (case provenance_digest m of None \<Rightarrow> False | Some d \<Rightarrow> \<not> digest_validate d)
     then Inl (InvalidManifest ''manifest contains an invalid provenance digest'')
     else if blank (kind (manifest_key m)) \<or> blank (logical_key (manifest_key m))
     then Inl (InvalidManifest ''artifact key fields must be nonempty'')
     else bind_result (check_objects m) (\<lambda>_.
     if (case maximum_reader_version m of None \<Rightarrow> False | Some maximum \<Rightarrow> maximum < minimum_reader_version m)
     then Inl (InvalidManifest ''maximum_reader_version precedes minimum_reader_version'')
     else Inr ()))))"

subsection \<open>Acceptance\<close>

record CachePolicy =
  current_toolkit_version :: ToolkitVersion
  minimum_quality :: CacheQuality
  accepted_schema_versions :: "nat list"
  allow_deprecated :: bool
  allow_quarantined :: bool
  allowed_visibilities :: "CacheVisibility list"

record CacheAcceptanceDecision =
  accepted :: bool
  reasons :: "string list"
  decision_warnings :: "string list"

record policy_env =
  producer_floor :: "string \<Rightarrow> (CacheError + ToolkitVersion) option"
  adopted_check :: "ArtifactManifest \<Rightarrow> CacheError + unit"

definition remote_canonical_manifest_tag :: string where
  "remote_canonical_manifest_tag = ''xc.remote_canonical_manifest.v1''"

definition assess :: "policy_env \<Rightarrow> CachePolicy \<Rightarrow> ArtifactManifest \<Rightarrow> CacheAcceptanceDecision" where
  "assess E p m =
     (let reasons =
        (case version_validate (current_toolkit_version p) of
           Inl e \<Rightarrow> [''reader version validation failed: '' @ display_CacheError e] | Inr _ \<Rightarrow> []) @
        (case manifest_validate m of
           Inl e \<Rightarrow> [''manifest validation failed: '' @ display_CacheError e] | Inr _ \<Rightarrow> []) @
        (case producer_floor E (kind (manifest_key m)) of
           None \<Rightarrow> []
         | Some (Inr least) \<Rightarrow>
             if producer_toolkit_version m < least then [''producer precedes the artifact kind compatibility floor''] else []
         | Some (Inl e) \<Rightarrow> [''artifact compatibility policy failed: '' @ display_CacheError e]) @
        (if map_of (tags m) remote_canonical_manifest_tag \<noteq> None
         then case adopted_check E m of
             Inl e \<Rightarrow> [''retained canonical binding failed: '' @ display_CacheError e] | Inr _ \<Rightarrow> []
         else []) @
        (if manifest_schema m \<notin> set (accepted_schema_versions p)
         then [''schema version '' @ show_nat (manifest_schema m) @ '' is not accepted''] else []) @
        (if current_toolkit_version p < minimum_reader_version m
         then [''current toolkit '' @ debug_version (current_toolkit_version p) @ '' precedes minimum reader '' @
           debug_version (minimum_reader_version m)] else []) @
        (case maximum_reader_version m of
           None \<Rightarrow> []
         | Some maximum \<Rightarrow>
             if maximum < current_toolkit_version p
             then [''current toolkit '' @ debug_version (current_toolkit_version p) @ '' exceeds maximum reader '' @
               ''Some('' @ debug_version maximum @ '')''] else []) @
        (if visibility m \<notin> set (allowed_visibilities p)
         then [''visibility '' @ debug_visibility (visibility m) @ '' is not allowed by this resolver''] else []) @
        (if quality m = Deprecated \<and> \<not> allow_deprecated p then [''deprecated artifacts are disabled'']
         else if quality m = Quarantined \<and> \<not> allow_quarantined p then [''quarantined artifacts are disabled''] else []) @
        (if \<not> satisfies (quality m) (minimum_quality p)
         then [''artifact quality '' @ debug_quality (quality m) @ '' does not satisfy required '' @ debug_quality (minimum_quality p)] else []) in
      \<lparr>accepted = (reasons = []), reasons = reasons,
       decision_warnings =
         (if quality m = Deprecated \<and> allow_deprecated p
          then [''legacy allow_deprecated flag does not restore validation evidence'']
          else if quality m = Quarantined \<and> allow_quarantined p
          then [''legacy allow_quarantined flag does not restore validation evidence''] else [])\<rparr>)"

definition accepts :: "policy_env \<Rightarrow> CachePolicy \<Rightarrow> ArtifactManifest \<Rightarrow> bool" where
  "accepts E p m = accepted (assess E p m)"

subsection \<open>Promotion\<close>

record PromotionReview =
  reviewer :: string
  approved :: bool
  review_evidence :: "ContentDigest option"
  review_notes :: string

record CachePromotionRequest =
  source_manifest_digest :: ContentDigest
  source_quality :: CacheQuality
  target_quality :: CacheQuality
  source_visibility :: CacheVisibility
  target_visibility :: CacheVisibility
  reviews :: "PromotionReview list"

record CachePromotionPolicy =
  minimum_unique_approvals :: nat
  require_certified_before_publication :: bool
  allow_private_to_public :: bool

definition approvals :: "CachePromotionRequest \<Rightarrow> string list" where
  "approvals r = remdups (map reviewer (filter (\<lambda>v. approved v \<and> \<not> blank (reviewer v)) (reviews r)))"

definition validate_request :: "CachePromotionPolicy \<Rightarrow> CachePromotionRequest \<Rightarrow> CacheError + unit" where
  "validate_request p r =
     (if \<not> digest_validate (source_manifest_digest r)
      then Inl (InvalidManifest ''promotion source manifest digest is invalid'')
      else if target_quality r \<in> {Quarantined, Deprecated}
      then Inl (InvalidManifest ''quarantine and deprecation are governance actions, not promotions'')
      else if source_quality r = Published \<and> target_quality r \<noteq> Published
      then Inl (InvalidManifest ''a legacy publication record does not retain source validation evidence'')
      else if target_quality r \<noteq> Published \<and> admissible_rank (target_quality r) < admissible_rank (source_quality r)
      then Inl (InvalidManifest ''promotion target quality is below source quality'')
      else if source_visibility r \<noteq> PublicAll \<and> target_visibility r = PublicAll \<and> \<not> allow_private_to_public p
      then Inl (InvalidManifest ''policy does not allow private-to-public promotion'')
      else if require_certified_before_publication p \<and> target_quality r = Published \<and> \<not> satisfies (source_quality r) Certified
      then Inl (InvalidManifest ''publication policy requires a certified source artifact'')
      else if length (approvals r) < minimum_unique_approvals p
      then Inl (InvalidManifest (''promotion has '' @ show_nat (length (approvals r)) @ '' unique approvals, requires '' @
        show_nat (minimum_unique_approvals p)))
      else if list_ex (\<lambda>v. case review_evidence v of None \<Rightarrow> False | Some d \<Rightarrow> \<not> digest_validate d) (reviews r)
      then Inl (InvalidManifest ''promotion review contains an invalid evidence digest'')
      else Inr ())"

subsection \<open>Repository shards\<close>

record RepositoryShard =
  shard_id :: string
  repository :: string
  shard_visibility :: CacheVisibility
  artifact_kinds :: "string list"
  reachable_payload_bytes :: nat
  estimated_history_bytes :: nat
  safe_payload_limit_bytes :: nat
  shard_writable :: bool

definition projected_total_bytes :: "RepositoryShard \<Rightarrow> nat \<Rightarrow> nat \<Rightarrow> nat" where
  "projected_total_bytes s new_payload new_history =
     saturating_add (saturating_add (saturating_add (reachable_payload_bytes s) (estimated_history_bytes s)) new_payload) new_history"

definition can_accept :: "RepositoryShard \<Rightarrow> string \<Rightarrow> CacheVisibility \<Rightarrow> nat \<Rightarrow> nat \<Rightarrow> bool" where
  "can_accept s artifact_kind vis new_payload new_history \<longleftrightarrow>
     shard_writable s \<and> shard_visibility s = vis \<and> (artifact_kinds s = [] \<or> artifact_kind \<in> set (artifact_kinds s)) \<and>
     (case Option.bind (Option.bind (checked_add (reachable_payload_bytes s) (estimated_history_bytes s))
         (\<lambda>t. checked_add t new_payload)) (\<lambda>t. checked_add t new_history) of
       None \<Rightarrow> False | Some t \<Rightarrow> t \<le> safe_payload_limit_bytes s)"

text \<open>\<open>max_by_key\<close> returns the last of the greatest elements.\<close>

fun max_by_key :: "('a \<Rightarrow> nat) \<Rightarrow> 'a list \<Rightarrow> 'a option" where
  "max_by_key f [] = None"
| "max_by_key f (x # xs) = (case max_by_key f xs of None \<Rightarrow> Some x | Some y \<Rightarrow> Some (if f y < f x then x else y))"

definition select_write_shard :: "RepositoryShard list \<Rightarrow> string \<Rightarrow> CacheVisibility \<Rightarrow> nat \<Rightarrow> nat \<Rightarrow> CacheError + RepositoryShard" where
  "select_write_shard shards artifact_kind vis new_payload new_history =
     (case max_by_key (\<lambda>s. projected_total_bytes s new_payload new_history)
         (filter (\<lambda>s. can_accept s artifact_kind vis new_payload new_history) shards) of
        Some s \<Rightarrow> Inr s
      | None \<Rightarrow> Inl (NoWritableShard (''kind='' @ artifact_kind @ '', visibility='' @ debug_visibility vis @ '', payload='' @
          show_nat new_payload @ '', history='' @ show_nat new_history)))"

section \<open>Quality\<close>

lemma satisfies_iff:
  "satisfies q minimum \<longleftrightarrow> q \<notin> {Quarantined, Deprecated} \<and> minimum \<notin> {Quarantined, Deprecated} \<and>
     (q = Published \<longleftrightarrow> minimum = Published) \<and> admissible_rank minimum \<le> admissible_rank q"
  by (cases q; cases minimum) (simp_all add: satisfies_def)

lemma combined_minimum_meet:
  "combined_minimum a b = Some m \<Longrightarrow> satisfies q m \<longleftrightarrow> satisfies q a \<and> satisfies q b"
  "combined_minimum a b = None \<Longrightarrow> \<not> (satisfies q a \<and> satisfies q b)"
  by (cases a; cases b; cases q; auto simp: combined_minimum_def satisfies_iff)+

lemma grade_kept:
  assumes "target \<notin> {Quarantined, Deprecated, Published}" "source \<noteq> Published"
  shows "(\<forall>needed. satisfies source needed \<longrightarrow> satisfies target needed) \<longleftrightarrow> admissible_rank source \<le> admissible_rank target"
proof
  assume "\<forall>needed. satisfies source needed \<longrightarrow> satisfies target needed"
  then have "satisfies source source \<longrightarrow> satisfies target source" by blast
  then show "admissible_rank source \<le> admissible_rank target" using assms by (cases source) (auto simp: satisfies_iff)
qed (use assms in \<open>auto simp: satisfies_iff\<close>)

lemma rank_inject:
  "satisfies q a \<Longrightarrow> satisfies q' a' \<Longrightarrow> admissible_rank q = admissible_rank q' \<Longrightarrow> q = q'"
  by (cases q; cases q') (auto simp: satisfies_iff)

section \<open>Manifests\<close>

interpretation digest: comparison "\<lambda>x y. str_cmp (digest_text x) (digest_text y)"
  by (rule str.inj_comparison) (auto intro!: injI simp: ContentDigest.expand)

interpretation identity: comparison identity_cmp
proof -
  have "comparison (\<lambda>x y :: identity. then_with (str_cmp (fst x) (fst y)) (then_with (str_cmp (fst (snd x)) (fst (snd y)))
      (then_with (str_cmp (digest_text (fst (snd (snd x)))) (digest_text (fst (snd (snd y))))) (str_cmp (digest_text (snd (snd (snd x)))) (digest_text (snd (snd (snd y))))))))"
    by (intro then_with_comparison[where p = fst and q = snd] str.comparison_axioms
        then_with_comparison[where p = "fst" and q = "snd", OF str.comparison_axioms]
        then_with_comparison[OF digest.comparison_axioms digest.comparison_axioms, where p = "fst" and q = "snd"]) (auto simp: prod_eq_iff)
  then show "comparison identity_cmp" by (simp add: identity_cmp_def[abs_def] case_prod_beta')
qed

definition valid_key :: "ArtifactKey \<Rightarrow> bool" where
  "valid_key k \<longleftrightarrow> \<not> blank (kind k) \<and> \<not> blank (logical_key k) \<and> digest_validate (parameters_digest k)"

lemma key_validate_Inr [result_simps]: "key_validate k = Inr u \<longleftrightarrow> valid_key k"
  by (auto simp: key_validate_def valid_key_def)

definition valid_dependency :: "DependencyRef \<Rightarrow> bool" where
  "valid_dependency d \<longleftrightarrow> valid_key (dependency_key d) \<and> digest_validate (dependency_digest d)"

abbreviation identity_less :: "identity \<Rightarrow> identity \<Rightarrow> bool" where
  "identity_less x y \<equiv> identity_cmp x y = Less"

lemma check_dependency_Inr:
  "check_dependency d prev = Inr r \<longleftrightarrow> valid_dependency d \<and> (\<forall>p. prev = Some p \<longrightarrow> identity_less p (dependency_identity d)) \<and> r = Some (dependency_identity d)"
  by (auto simp: check_dependency_def result_simps valid_dependency_def valid_key_def split: option.splits)

lemma check_dependencies_Inr:
  "(\<exists>r. fold_result check_dependency ds prev = Inr r) \<longleftrightarrow> (\<forall>d \<in> set ds. valid_dependency d) \<and>
     (\<forall>p. prev = Some p \<longrightarrow> (\<forall>d \<in> set ds. identity_less p (dependency_identity d))) \<and> sorted_wrt identity_less (map dependency_identity ds)"
proof (induction ds arbitrary: prev)
  case (Cons d ds)
  have "(\<exists>r. fold_result check_dependency (d # ds) prev = Inr r) \<longleftrightarrow> valid_dependency d \<and>
      (\<forall>p. prev = Some p \<longrightarrow> identity_less p (dependency_identity d)) \<and> (\<exists>r. fold_result check_dependency ds (Some (dependency_identity d)) = Inr r)"
    by (auto simp: result_simps check_dependency_Inr)
  also have "\<dots> \<longleftrightarrow> (\<forall>d \<in> set (d # ds). valid_dependency d) \<and>
     (\<forall>p. prev = Some p \<longrightarrow> (\<forall>d \<in> set (d # ds). identity_less p (dependency_identity d))) \<and> sorted_wrt identity_less (map dependency_identity (d # ds))"
  proof -
    have "identity_less p (dependency_identity e)" if "identity_less p (dependency_identity d)" "identity_less (dependency_identity d) (dependency_identity e)" for p e
      using that by (rule identity.less_trans)
    then show ?thesis unfolding Cons.IH by (cases prev) auto
  qed
  finally show ?case .
qed simp

lemma add_objects_Inr:
  "fold_result add_object os t = Inr t' \<and> t \<le> usize_max \<longleftrightarrow> (\<forall>x \<in> set os. digest_validate (object_digest x)) \<and>
     t' = t + (\<Sum>x \<leftarrow> os. object_size x) \<and> t' \<le> usize_max"
proof (induction os arbitrary: t)
  case (Cons x os)
  have "fold_result add_object (x # os) t = Inr t' \<longleftrightarrow> digest_validate (object_digest x) \<and> t + object_size x \<le> usize_max \<and>
      fold_result add_object os (t + object_size x) = Inr t'"
    by (auto simp: result_simps add_object_def checked_add_def)
  then show ?case using Cons[of "t + object_size x"] by auto
qed auto

lemma check_versions_Inr: "check_versions m = Inr u \<longleftrightarrow> version_validate (producer_toolkit_version m) = Inr () \<and>
    version_validate (minimum_reader_version m) = Inr () \<and> (\<forall>v. maximum_reader_version m = Some v \<longrightarrow> version_validate v = Inr ())"
  by (auto simp: check_versions_def result_simps split: option.splits)

lemma check_objects_Inr: "check_objects m = Inr u \<longleftrightarrow> objects m \<noteq> [] \<and> (\<forall>x \<in> set (objects m). digest_validate (object_digest x)) \<and>
    (\<Sum>x \<leftarrow> objects m. object_size x) \<le> usize_max \<and> (zip_json m \<or> (\<Sum>x \<leftarrow> objects m. object_size x) = size_bytes m)"
  using add_objects_Inr[of "objects m" 0] by (auto simp: check_objects_def result_simps)

lemma accepts_iff:
  "accepts E p m \<longleftrightarrow> version_validate (current_toolkit_version p) = Inr () \<and> manifest_validate m = Inr () \<and>
     (case producer_floor E (kind (manifest_key m)) of None \<Rightarrow> True | Some (Inl e) \<Rightarrow> False | Some (Inr v) \<Rightarrow> v \<le> producer_toolkit_version m) \<and>
     (map_of (tags m) remote_canonical_manifest_tag = None \<or> adopted_check E m = Inr ()) \<and>
     manifest_schema m \<in> set (accepted_schema_versions p) \<and> minimum_reader_version m \<le> current_toolkit_version p \<and>
     (\<forall>v. maximum_reader_version m = Some v \<longrightarrow> current_toolkit_version p \<le> v) \<and>
     visibility m \<in> set (allowed_visibilities p) \<and> satisfies (quality m) (minimum_quality p)"
proof -
  have single: "(case r of Inl e \<Rightarrow> [f e] | Inr u \<Rightarrow> []) = [] \<longleftrightarrow> r = Inr ()" for r :: "CacheError + unit" and f :: "CacheError \<Rightarrow> string"
    by (cases r) auto
  have disposition: "satisfies (quality m) (minimum_quality p) \<Longrightarrow> quality m \<noteq> Deprecated \<and> quality m \<noteq> Quarantined" by (auto simp: satisfies_iff)
  show ?thesis
    using disposition unfolding accepts_def assess_def Let_def CacheAcceptanceDecision.simps append_is_Nil_conv single
    by (auto simp: not_less split: option.splits sum.splits if_splits)
qed

text \<open>A stronger quality requirement only narrows what is accepted.\<close>

lemma accepts_combined:
  assumes "combined_minimum (minimum_quality p) q = Some c"
  shows "accepts E (p\<lparr>minimum_quality := c\<rparr>) m \<longleftrightarrow> accepts E p m \<and> satisfies (quality m) q"
  using combined_minimum_meet(1)[OF assms] by (auto simp: accepts_iff)

lemma validate_request_iff:
  "validate_request p r = Inr () \<longleftrightarrow>
     digest_validate (source_manifest_digest r) \<and> target_quality r \<notin> {Quarantined, Deprecated} \<and>
     (target_quality r \<noteq> Published \<longrightarrow> source_quality r \<noteq> Published \<and> admissible_rank (source_quality r) \<le> admissible_rank (target_quality r)) \<and>
     (require_certified_before_publication p \<and> target_quality r = Published \<longrightarrow> satisfies (source_quality r) Certified) \<and>
     (target_visibility r = PublicAll \<longrightarrow> source_visibility r = PublicAll \<or> allow_private_to_public p) \<and>
     minimum_unique_approvals p \<le> length (approvals r) \<and>
     (\<forall>v \<in> set (reviews r). \<forall>d. review_evidence v = Some d \<longrightarrow> digest_validate d)"
  unfolding validate_request_def by (auto simp: list_ex_iff not_less split: if_split_asm option.splits)

section \<open>Properties\<close>

text \<open>C36. Manifest validation accepts exactly the well-formed manifests: a valid key and valid versions, schema 1, valid digests
  everywhere, dependencies that are valid and strictly increasing in the order of their identities (so no two are the same), at least one object,
  object sizes whose sum does not overflow 64 bits and, unless the payload is stored as a ZIP entry, equals the declared size, and a reader window
  that is not empty.\<close>

theorem manifest_validate_correct:
  "manifest_validate m = Inr () \<longleftrightarrow>
     valid_key (manifest_key m) \<and> manifest_schema m = 1 \<and> digest_validate (content_digest m) \<and>
     (\<forall>d. provenance_digest m = Some d \<longrightarrow> digest_validate d) \<and>
     version_validate (producer_toolkit_version m) = Inr () \<and> version_validate (minimum_reader_version m) = Inr () \<and>
     (\<forall>v. maximum_reader_version m = Some v \<longrightarrow> version_validate v = Inr () \<and> minimum_reader_version m \<le> v) \<and>
     (\<forall>d \<in> set (dependencies m). valid_dependency d) \<and> sorted_wrt identity_less (map dependency_identity (dependencies m)) \<and>
     distinct (map dependency_identity (dependencies m)) \<and>
     objects m \<noteq> [] \<and> (\<forall>x \<in> set (objects m). digest_validate (object_digest x)) \<and>
     (\<Sum>x \<leftarrow> objects m. object_size x) \<le> usize_max \<and> (zip_json m \<or> (\<Sum>x \<leftarrow> objects m. object_size x) = size_bytes m)"
proof -
  have sorted_distinct: "sorted_wrt identity_less xs \<Longrightarrow> distinct xs" for xs by (induction xs) auto
  have "manifest_validate m = Inr () \<longleftrightarrow> valid_key (manifest_key m) \<and> check_versions m = Inr () \<and> manifest_schema m = 1 \<and>
      digest_validate (content_digest m) \<and> (\<exists>r. fold_result check_dependency (dependencies m) None = Inr r) \<and>
      (\<forall>d. provenance_digest m = Some d \<longrightarrow> digest_validate d) \<and> check_objects m = Inr () \<and>
      (\<forall>v. maximum_reader_version m = Some v \<longrightarrow> minimum_reader_version m \<le> v)"
    unfolding manifest_validate_def by (auto simp: result_simps valid_key_def not_less split: option.splits)
  then show ?thesis unfolding check_versions_Inr check_dependencies_Inr check_objects_Inr using sorted_distinct by blast
qed

text \<open>C38. The write shard is the fullest one that can take the artifact: it is in the registry, accepts the kind and visibility, and its exact
  total, computed without overflow, stays within its safe limit; no other acceptable shard would be fuller; and the selection fails exactly when no
  shard is acceptable.\<close>

theorem select_write_shard_correct:
  "(\<forall>s. select_write_shard shards k vis payload history = Inr s \<longrightarrow> s \<in> set shards \<and> can_accept s k vis payload history \<and>
      reachable_payload_bytes s + estimated_history_bytes s + payload + history \<le> min usize_max (safe_payload_limit_bytes s) \<and>
      projected_total_bytes s payload history = reachable_payload_bytes s + estimated_history_bytes s + payload + history \<and>
      (\<forall>t \<in> set shards. can_accept t k vis payload history \<longrightarrow>
         reachable_payload_bytes t + estimated_history_bytes t \<le> reachable_payload_bytes s + estimated_history_bytes s)) \<and>
    ((\<exists>e. select_write_shard shards k vis payload history = Inl e) \<longleftrightarrow> (\<forall>t \<in> set shards. \<not> can_accept t k vis payload history))"
proof -
  have max: "case max_by_key f xs of None \<Rightarrow> xs = [] | Some y \<Rightarrow> y \<in> set xs \<and> (\<forall>x \<in> set xs. f x \<le> f y)" for f :: "RepositoryShard \<Rightarrow> nat" and xs
    by (induction xs) (auto split: option.splits)
  have exact: "can_accept s k vis payload history \<Longrightarrow>
      reachable_payload_bytes s + estimated_history_bytes s + payload + history \<le> min usize_max (safe_payload_limit_bytes s) \<and>
      projected_total_bytes s payload history = reachable_payload_bytes s + estimated_history_bytes s + payload + history" for s
    by (auto simp: can_accept_def projected_total_bytes_def saturating_add_def split: option.splits bind_splits)
  let ?f = "\<lambda>s. projected_total_bytes s payload history" and ?xs = "filter (\<lambda>s. can_accept s k vis payload history) shards"
  show ?thesis
  proof (cases "max_by_key ?f ?xs")
    case None
    then show ?thesis using max[where f = ?f and xs = ?xs] by (auto simp: select_write_shard_def filter_empty_conv)
  next
    case (Some s)
    then have s: "s \<in> set ?xs" "\<forall>t \<in> set ?xs. ?f t \<le> ?f s" using max[where f = ?f and xs = ?xs] by auto
    have "reachable_payload_bytes t + estimated_history_bytes t \<le> reachable_payload_bytes s + estimated_history_bytes s"
      if "t \<in> set shards" "can_accept t k vis payload history" for t
      using s that exact[of s] exact[of t] by fastforce
    then show ?thesis using Some s(1) exact by (auto simp: select_write_shard_def)
  qed
qed

text \<open>C37. Quality requirements combine as a conjunction: a grade meets the combined minimum exactly when it meets both, and two minima that
  do not combine are met by no grade. No policy flag makes a quarantined or deprecated artifact acceptable; what is accepted is valid, meets the
  minimum, is visible to the policy and lies in its reader window. A promotion is approved exactly when its digests are valid and it
  targets no quarantine or deprecation, when a target grade other than \<open>Published\<close> meets every requirement that the source grade meets and the source is
  not a publication, when a publication the policy restricts has a certified source, when nothing becomes public against the policy, and when there are enough
  distinct named approvers. Publication is a disposition and not a grade: \<open>Published\<close> meets the requirement \<open>Published\<close> and no other, so a
  promotion to it gives up the grade of its source.\<close>

theorem quality_gates:
  "(\<forall>c. combined_minimum a b = Some c \<longrightarrow> (satisfies q c \<longleftrightarrow> satisfies q a \<and> satisfies q b)) \<and>
   (combined_minimum a b = None \<longrightarrow> \<not> (satisfies q a \<and> satisfies q b)) \<and>
   (accepts E p m \<longrightarrow> manifest_validate m = Inr () \<and> quality m \<noteq> Quarantined \<and> quality m \<noteq> Deprecated \<and>
      satisfies (quality m) (minimum_quality p) \<and> visibility m \<in> set (allowed_visibilities p) \<and>
      minimum_reader_version m \<le> current_toolkit_version p \<and> (\<forall>v. maximum_reader_version m = Some v \<longrightarrow> current_toolkit_version p \<le> v)) \<and>
   (validate_request pp r = Inr () \<longleftrightarrow>
      digest_validate (source_manifest_digest r) \<and> target_quality r \<noteq> Quarantined \<and> target_quality r \<noteq> Deprecated \<and>
      (target_quality r \<noteq> Published \<longrightarrow> source_quality r \<noteq> Published \<and>
         (\<forall>needed. satisfies (source_quality r) needed \<longrightarrow> satisfies (target_quality r) needed)) \<and>
      (require_certified_before_publication pp \<and> target_quality r = Published \<longrightarrow> source_quality r = Certified) \<and>
      (target_visibility r = PublicAll \<longrightarrow> source_visibility r = PublicAll \<or> allow_private_to_public pp) \<and>
      minimum_unique_approvals pp \<le> card {reviewer v |v. v \<in> set (reviews r) \<and> approved v \<and> \<not> blank (reviewer v)} \<and>
      (\<forall>v \<in> set (reviews r). \<forall>d. review_evidence v = Some d \<longrightarrow> digest_validate d)) \<and>
   (satisfies Published q \<longleftrightarrow> q = Published)"
proof (intro conjI allI impI)
  show "combined_minimum a b = Some c \<Longrightarrow> satisfies q c \<longleftrightarrow> satisfies q a \<and> satisfies q b" for c by (rule combined_minimum_meet)
  show "combined_minimum a b = None \<Longrightarrow> \<not> (satisfies q a \<and> satisfies q b)" by (rule combined_minimum_meet)
  { assume "accepts E p m"
    then show "manifest_validate m = Inr ()" "quality m \<noteq> Quarantined" "quality m \<noteq> Deprecated" "satisfies (quality m) (minimum_quality p)"
      "visibility m \<in> set (allowed_visibilities p)" "minimum_reader_version m \<le> current_toolkit_version p"
      "\<And>v. maximum_reader_version m = Some v \<Longrightarrow> current_toolkit_version p \<le> v"
      by (auto simp: accepts_iff satisfies_iff) }
  have approvals: "length (approvals r) = card {reviewer v |v. v \<in> set (reviews r) \<and> approved v \<and> \<not> blank (reviewer v)}"
    unfolding approvals_def length_remdups_card_conv by (rule arg_cong[where f = card]) auto
  have certified: "satisfies (source_quality r) Certified \<longleftrightarrow> source_quality r = Certified"
    by (cases "source_quality r") (simp_all add: satisfies_def)
  have grade: "(\<forall>needed. satisfies (source_quality r) needed \<longrightarrow> satisfies (target_quality r) needed) \<longleftrightarrow>
      admissible_rank (source_quality r) \<le> admissible_rank (target_quality r)"
    if "target_quality r \<notin> {Quarantined, Deprecated, Published}" "source_quality r \<noteq> Published"
    using that by (rule grade_kept)
  show "validate_request pp r = Inr () \<longleftrightarrow>
      digest_validate (source_manifest_digest r) \<and> target_quality r \<noteq> Quarantined \<and> target_quality r \<noteq> Deprecated \<and>
      (target_quality r \<noteq> Published \<longrightarrow> source_quality r \<noteq> Published \<and>
         (\<forall>needed. satisfies (source_quality r) needed \<longrightarrow> satisfies (target_quality r) needed)) \<and>
      (require_certified_before_publication pp \<and> target_quality r = Published \<longrightarrow> source_quality r = Certified) \<and>
      (target_visibility r = PublicAll \<longrightarrow> source_visibility r = PublicAll \<or> allow_private_to_public pp) \<and>
      minimum_unique_approvals pp \<le> card {reviewer v |v. v \<in> set (reviews r) \<and> approved v \<and> \<not> blank (reviewer v)} \<and>
      (\<forall>v \<in> set (reviews r). \<forall>d. review_evidence v = Some d \<longrightarrow> digest_validate d)"
    unfolding validate_request_iff approvals certified using grade by blast
  show "satisfies Published q \<longleftrightarrow> q = Published" by (cases q) (simp_all add: satisfies_def)
qed

section \<open>Sample\<close>

definition sample_key :: ArtifactKey where
  "sample_key = \<lparr>kind = ''quadrature_rule'', logical_key = ''gauss'', parameters_digest = ContentDigest (replicate 64 CHR ''a'')\<rparr>"

definition sample_manifest :: ArtifactManifest where
  "sample_manifest = \<lparr>manifest_schema = 1, manifest_key = sample_key, content_digest = ContentDigest (replicate 64 CHR ''0''), size_bytes = 7,
     objects = [\<lparr>object_digest = ContentDigest (replicate 64 CHR ''0''), object_size = 7\<rparr>], created_unix_seconds = 0,
     producer_toolkit_version = ToolkitVersion 0 17 0 None, minimum_reader_version = ToolkitVersion 0 17 0 None, maximum_reader_version = None,
     quality = Validated, visibility = LocalOnly, immutable = True, dependencies = [], tags = [], provenance_digest = None\<rparr>"

lemma sample_manifest_parts:
  "valid_key sample_key" "digest_validate (ContentDigest (replicate 64 CHR ''0''))" "version_validate (ToolkitVersion 0 17 0 None) = Inr ()"
  by (simp add: valid_key_def sample_key_def, code_simp) (code_simp, simp add: version_validate_def)

lemma sample_manifest_valid: "manifest_validate sample_manifest = Inr ()"
  using sample_manifest_parts
  by (simp add: manifest_validate_def sample_manifest_def check_versions_def check_objects_def add_object_def checked_add_def usize_max_def
      key_validate_def valid_key_def)

theorem manifest_validate_correct_witness:
  "manifest_validate sample_manifest = Inr () \<and> distinct (map dependency_identity (dependencies sample_manifest))"
  using sample_manifest_parts manifest_validate_correct[of sample_manifest] by (simp add: sample_manifest_def usize_max_def)

definition sample_shard :: "nat \<Rightarrow> RepositoryShard" where
  "sample_shard used = \<lparr>shard_id = ''s'', repository = ''r'', shard_visibility = TeamOnly, artifact_kinds = [], reachable_payload_bytes = used,
     estimated_history_bytes = 0, safe_payload_limit_bytes = 10, shard_writable = True\<rparr>"

theorem select_write_shard_correct_witness:
  "select_write_shard [sample_shard 3, sample_shard 5, sample_shard 9] ''k'' TeamOnly 2 1 = Inr (sample_shard 5) \<and>
   projected_total_bytes (sample_shard 5) 2 1 = 8"
proof -
  have run: "select_write_shard [sample_shard 3, sample_shard 5, sample_shard 9] ''k'' TeamOnly 2 1 = Inr (sample_shard 5)"
    by (simp add: select_write_shard_def can_accept_def sample_shard_def checked_add_def usize_max_def projected_total_bytes_def saturating_add_def)
  then show ?thesis using select_write_shard_correct[THEN conjunct1, rule_format, OF run] by (simp add: sample_shard_def)
qed

definition sample_policy_env :: policy_env where
  "sample_policy_env = \<lparr>producer_floor = (\<lambda>_. None), adopted_check = (\<lambda>_. Inr ())\<rparr>"

definition sample_policy :: CachePolicy where
  "sample_policy = \<lparr>current_toolkit_version = ToolkitVersion 0 17 0 None, minimum_quality = Staged, accepted_schema_versions = [1],
     allow_deprecated = False, allow_quarantined = False, allowed_visibilities = [LocalOnly]\<rparr>"

lemma sample_accepted: "accepts sample_policy_env (sample_policy\<lparr>minimum_quality := Validated\<rparr>) sample_manifest"
  unfolding accepts_iff using sample_manifest_valid sample_manifest_parts(3)
  by (simp add: sample_policy_def sample_policy_env_def satisfies_iff) (simp add: sample_manifest_def satisfies_iff)

text \<open>The publication of a certified artifact with two approvals, one of them given twice.\<close>

definition sample_promotion :: CachePromotionRequest where
  "sample_promotion = (let review = \<lambda>name. \<lparr>reviewer = name, approved = True, review_evidence = None, review_notes = []\<rparr> in
     \<lparr>source_manifest_digest = ContentDigest (replicate 64 CHR ''a''), source_quality = Certified, target_quality = Published,
      source_visibility = TeamOnly, target_visibility = TeamOnly, reviews = [review ''a'', review ''b'', review ''a'']\<rparr>)"

definition sample_promotion_policy :: CachePromotionPolicy where
  "sample_promotion_policy = \<lparr>minimum_unique_approvals = 2, require_certified_before_publication = True, allow_private_to_public = False\<rparr>"

theorem quality_gates_witness:
  "combined_minimum Validated CrossChecked = Some CrossChecked \<and> satisfies Certified CrossChecked \<and> satisfies Certified Validated \<and>
   accepts sample_policy_env (sample_policy\<lparr>minimum_quality := Validated\<rparr>) sample_manifest \<and> manifest_validate sample_manifest = Inr () \<and>
   validate_request sample_promotion_policy sample_promotion = Inr () \<and> source_quality sample_promotion = Certified \<and>
   2 \<le> card {reviewer v |v. v \<in> set (reviews sample_promotion) \<and> approved v \<and> \<not> blank (reviewer v)} \<and>
   \<not> satisfies (target_quality sample_promotion) Staged"
proof -
  have c: "combined_minimum Validated CrossChecked = Some CrossChecked" "satisfies Certified CrossChecked" by code_simp+
  have r: "validate_request sample_promotion_policy sample_promotion = Inr ()" by code_simp
  have t: "target_quality sample_promotion = Published" "require_certified_before_publication sample_promotion_policy"
    "minimum_unique_approvals sample_promotion_policy = 2"
    by (simp_all add: sample_promotion_def sample_promotion_policy_def)
  note gates = quality_gates[of Validated CrossChecked Certified sample_policy_env "sample_policy\<lparr>minimum_quality := Validated\<rparr>" sample_manifest
      sample_promotion_policy sample_promotion]
    quality_gates[of Validated CrossChecked Staged sample_policy_env sample_policy sample_manifest sample_promotion_policy sample_promotion]
  have "satisfies Certified Validated" using gates(1) c by blast
  moreover have "manifest_validate sample_manifest = Inr ()" using gates(1) sample_accepted by blast
  moreover have "source_quality sample_promotion = Certified" using gates(1) r t(1,2) by blast
  moreover have "2 \<le> card {reviewer v |v. v \<in> set (reviews sample_promotion) \<and> approved v \<and> \<not> blank (reviewer v)}"
    using gates(1)[THEN conjunct2, THEN conjunct2, THEN conjunct2, THEN conjunct1] r unfolding t(3) by blast
  moreover have "\<not> satisfies (target_quality sample_promotion) Staged" using gates(2) t(1) by simp
  ultimately show ?thesis using c r sample_accepted by blast
qed

end
