(* ===== verification/Cache_Store.thy ===== *)
theory Cache_Store
  imports Cache_Manifest
begin

text \<open>
  The bounded session store of \<open>crates/xc-cache/src/ephemeral_store.rs\<close> with the evidence records of
  \<open>crates/xc-cache/src/execution_cache.rs\<close>, and the read-only overlay with a read budget.

  A byte string is a \<open>string\<close>. SHA-256 and the JSON encoder are operations of \<open>store_env\<close>; of an encoding the store uses the length only. The
  semantic key of a produced record is compared and encoded but never inspected, so its type is a parameter. Every operation takes the lock of
  the shared state once and holds it to its end, and everything before it depends on the arguments only; the calls of clones on
  several threads are therefore a sequence of the atomic steps below. A poisoned lock, which needs a panic while the lock is held, does not occur.
\<close>

section \<open>Definitions\<close>

subsection \<open>Drafts and assurance records\<close>

record ArtifactDraft =
  draft_schema :: nat
  draft_key :: ArtifactKey
  draft_producer_toolkit_version :: ToolkitVersion
  draft_minimum_reader_version :: ToolkitVersion
  draft_maximum_reader_version :: "ToolkitVersion option"
  draft_quality :: CacheQuality
  draft_visibility :: CacheVisibility
  draft_immutable :: bool
  draft_dependencies :: "DependencyRef list"
  draft_tags :: "(string \<times> string) list"
  draft_provenance_digest :: "ContentDigest option"

datatype ArtifactAssuranceState = UncheckedState | StructurallyValidatedState | ComputedState | CrossCheckedState | CertifiedState

record ArtifactProductionAssessment =
  assessment_assurance :: ArtifactAssuranceState
  assessment_digests :: "ContentDigest list"

record ArtifactAssuranceAttestation =
  attestation_schema :: nat
  attestation_key :: ArtifactKey
  attestation_digest :: ContentDigest
  attested_assurance :: ArtifactAssuranceState
  attestation_evidence :: "ContentDigest list"

record ArtifactAssuranceRequirement =
  requirement_schema :: nat
  requirement_key :: ArtifactKey
  requirement_digest :: ContentDigest
  required_assurance :: ArtifactAssuranceState

record 'k ProducedArtifactRecord =
  produced_operation :: string
  produced_semantic_key :: 'k
  produced_logical_key :: string
  produced_manifest :: ArtifactManifest
  produced_assurance :: ArtifactAssuranceState
  produced_evidence :: "ContentDigest list"
  produced_payload :: string

definition digest_less :: "ContentDigest \<Rightarrow> ContentDigest \<Rightarrow> bool" where
  "digest_less x y \<longleftrightarrow> str_cmp (digest_text x) (digest_text y) = Less"

definition assessment_validate :: "ArtifactProductionAssessment \<Rightarrow> CacheError + unit" where
  "assessment_validate a =
     (if list_ex (\<lambda>d. \<not> digest_validate d) (assessment_digests a) \<or>
         list_ex (\<lambda>(x, y). \<not> digest_less x y) (zip (assessment_digests a) (tl (assessment_digests a))) \<or>
         (assessment_assurance a = CrossCheckedState \<and> length (assessment_digests a) < 2) \<or>
         (assessment_assurance a = CertifiedState \<and> assessment_digests a = [])
      then Inl (InvalidManifest ''artifact assurance is not supported by canonical ordered evidence'') else Inr ())"

definition requirement_validate :: "ArtifactAssuranceRequirement \<Rightarrow> CacheError + unit" where
  "requirement_validate r =
     bind_result (key_validate (requirement_key r)) (\<lambda>_.
     if requirement_schema r \<noteq> 1 \<or> \<not> digest_validate (requirement_digest r) \<or> required_assurance r = ComputedState
     then Inl (InvalidManifest ''artifact assurance requirement is invalid or redundant'') else Inr ())"

definition attestation_validate :: "ArtifactAssuranceAttestation \<Rightarrow> CacheError + unit" where
  "attestation_validate a =
     bind_result (key_validate (attestation_key a)) (\<lambda>_.
     if attestation_schema a \<noteq> 1 \<or> \<not> digest_validate (attestation_digest a)
     then Inl (InvalidManifest ''artifact assurance attestation identity is invalid'')
     else assessment_validate \<lparr>assessment_assurance = attested_assurance a, assessment_digests = attestation_evidence a\<rparr>)"

subsection \<open>The state and its budget\<close>

record 'k StoreState =
  artifacts :: "(ArtifactManifest \<times> string) list"
  produced :: "'k ProducedArtifactRecord list"
  attestations :: "ArtifactAssuranceAttestation list"
  requirements :: "ArtifactAssuranceRequirement list"
  evidence :: "(ContentDigest \<times> string) list"
  accounted_bytes :: nat

record 'k store_env =
  store_sha256 :: "string \<Rightarrow> ContentDigest"
  manifest_json :: "ArtifactManifest \<Rightarrow> CacheError + nat"
  produced_json :: "'k ProducedArtifactRecord \<Rightarrow> CacheError + nat"
  requirement_json :: "ArtifactAssuranceRequirement \<Rightarrow> CacheError + nat"
  attestation_json :: "ArtifactAssuranceAttestation \<Rightarrow> CacheError + nat"

type_synonym ('a, 'k) store_result = "(CacheError + 'a) \<times> 'k StoreState"

definition and_then :: "('a, 'k) store_result \<Rightarrow> ('a \<Rightarrow> 'k StoreState \<Rightarrow> ('b, 'k) store_result) \<Rightarrow> ('b, 'k) store_result" where
  "and_then r f = (case fst r of Inl e \<Rightarrow> (Inl e, snd r) | Inr x \<Rightarrow> f x (snd r))"

definition maximum_records :: nat where
  "maximum_records = 8192"

definition default_state :: "'k StoreState" where
  "default_state = \<lparr>artifacts = [], produced = [], attestations = [], requirements = [], evidence = [], accounted_bytes = 0\<rparr>"

definition ephemeral_new :: "nat \<Rightarrow> CacheError + 'k StoreState" where
  "ephemeral_new maximum_bytes = (if maximum_bytes = 0 then Inl (ResourceLimit ''ephemeral memory budget is zero'') else Inr default_state)"

definition reserve :: "nat \<Rightarrow> 'k StoreState \<Rightarrow> nat \<Rightarrow> nat \<Rightarrow> (unit, 'k) store_result" where
  "reserve maximum_bytes s bytes count =
     (case checked_add (accounted_bytes s) bytes of
        None \<Rightarrow> (Inl (ResourceLimit ''ephemeral memory accounting overflow''), s)
      | Some next_bytes \<Rightarrow>
          if maximum_bytes < next_bytes \<or> maximum_records \<le> count
          then (Inl (ResourceLimit ''ephemeral cache budget exhausted''), s)
          else (Inr (), s\<lparr>accounted_bytes := next_bytes\<rparr>))"

definition metadata_bytes :: "CacheError + nat \<Rightarrow> CacheError + nat" where
  "metadata_bytes encoded =
     bind_result encoded (\<lambda>bytes.
     case Option.bind (checked_mul bytes 2) (\<lambda>v. checked_add v 1024) of
       None \<Rightarrow> Inl (ResourceLimit ''ephemeral metadata accounting overflow'')
     | Some v \<Rightarrow> Inr v)"

definition check_evidence :: "'k StoreState \<Rightarrow> ContentDigest list \<Rightarrow> CacheError + unit" where
  "check_evidence s digests =
     (if list_ex (\<lambda>digest. \<not> list_ex (\<lambda>(d, _). d = digest) (evidence s)) digests
      then Inl (InvalidManifest ''ephemeral assurance references missing evidence'') else Inr ())"

subsection \<open>The store\<close>

definition draft_manifest :: "'k store_env \<Rightarrow> ArtifactDraft \<Rightarrow> string \<Rightarrow> ArtifactManifest" where
  "draft_manifest E d payload =
     (let digest = store_sha256 E payload; size = length payload in
      \<lparr>manifest_schema = draft_schema d, manifest_key = draft_key d, content_digest = digest, size_bytes = size,
       objects = [\<lparr>object_digest = digest, object_size = size\<rparr>], created_unix_seconds = 0,
       producer_toolkit_version = draft_producer_toolkit_version d, minimum_reader_version = draft_minimum_reader_version d,
       maximum_reader_version = draft_maximum_reader_version d, quality = draft_quality d, visibility = draft_visibility d,
       immutable = draft_immutable d, dependencies = draft_dependencies d, tags = draft_tags d, provenance_digest = draft_provenance_digest d\<rparr>)"

definition put :: "'k store_env \<Rightarrow> nat \<Rightarrow> ArtifactDraft \<Rightarrow> string \<Rightarrow> 'k StoreState \<Rightarrow> (ArtifactManifest, 'k) store_result" where
  "put E maximum_bytes d payload s =
     (if draft_visibility d \<noteq> LocalOnly then (Inl (InvalidManifest ''ephemeral drafts must be local''), s)
      else let m = draft_manifest E d payload in
      and_then (manifest_validate m, s) (\<lambda>_ s.
      and_then (metadata_bytes (manifest_json E m), s) (\<lambda>metadata s.
      case checked_add metadata (length payload) of
        None \<Rightarrow> (Inl (ResourceLimit ''ephemeral payload accounting overflow''), s)
      | Some bytes \<Rightarrow>
          if list_ex (\<lambda>(m', _). m' = m) (artifacts s) then (Inr m, s)
          else and_then (reserve maximum_bytes s bytes (length (artifacts s))) (\<lambda>_ s.
            (Inr m, s\<lparr>artifacts := artifacts s @ [(m, payload)]\<rparr>)))))"

definition candidates :: "'k StoreState \<Rightarrow> ArtifactKey \<Rightarrow> CacheError + ArtifactManifest list" where
  "candidates s key =
     bind_result (key_validate key) (\<lambda>_. Inr (map fst (filter (\<lambda>(m, _). manifest_key m = key) (artifacts s))))"

fun collect_keys :: "string \<Rightarrow> string \<Rightarrow> nat \<Rightarrow> (ArtifactManifest \<times> string) list \<Rightarrow> ArtifactKey list \<Rightarrow> ArtifactKey list" where
  "collect_keys wanted_kind prefix maximum [] keys = keys"
| "collect_keys wanted_kind prefix maximum ((m, _) # rest) keys =
     (let key = manifest_key m in
      if kind key = wanted_kind \<and> take (length prefix) (logical_key key) = prefix \<and> key \<notin> set keys
      then (if maximum \<le> length keys then keys else collect_keys wanted_kind prefix maximum rest (keys @ [key]))
      else collect_keys wanted_kind prefix maximum rest keys)"

definition matching_keys :: "'k StoreState \<Rightarrow> string \<Rightarrow> string \<Rightarrow> nat \<Rightarrow> CacheError + ArtifactKey list" where
  "matching_keys s wanted_kind prefix maximum = Inr (collect_keys wanted_kind prefix maximum (artifacts s) [])"

definition read_payload :: "'k store_env \<Rightarrow> 'k StoreState \<Rightarrow> ArtifactManifest \<Rightarrow> CacheError + string" where
  "read_payload E s m =
     bind_result (manifest_validate m) (\<lambda>_.
     case find (\<lambda>(m', _). m' = m) (artifacts s) of
       None \<Rightarrow> Inl (CacheNotFound ''ephemeral manifest'')
     | Some (_, payload) \<Rightarrow>
         if length payload \<noteq> size_bytes m \<or> store_sha256 E payload \<noteq> content_digest m
         then Inl (InvalidManifest ''ephemeral payload binding failed'') else Inr payload)"

definition read_payload_to :: "'k store_env \<Rightarrow> 'k StoreState \<Rightarrow> ArtifactManifest \<Rightarrow> (string \<Rightarrow> CacheError + 'w) \<Rightarrow> CacheError + 'w" where
  "read_payload_to E s m write_all =
     bind_result (manifest_validate m) (\<lambda>_.
     case find (\<lambda>(m', _). m' = m) (artifacts s) of
       None \<Rightarrow> Inl (CacheNotFound ''ephemeral manifest'')
     | Some (_, payload) \<Rightarrow>
         if length payload \<noteq> size_bytes m \<or> store_sha256 E payload \<noteq> content_digest m
         then Inl (InvalidManifest ''ephemeral payload binding failed'') else write_all payload)"

subsection \<open>The production sink\<close>

definition record_produced :: "'k store_env \<Rightarrow> nat \<Rightarrow> 'k ProducedArtifactRecord \<Rightarrow> 'k StoreState \<Rightarrow> (unit, 'k) store_result" where
  "record_produced E maximum_bytes a s =
     and_then (manifest_validate (produced_manifest a), s) (\<lambda>_ s.
     if store_sha256 E (produced_payload a) \<noteq> content_digest (produced_manifest a) \<or>
        length (produced_payload a) \<noteq> size_bytes (produced_manifest a)
     then (Inl (InvalidManifest ''ephemeral production payload binding failed''), s)
     else and_then (assessment_validate \<lparr>assessment_assurance = produced_assurance a, assessment_digests = produced_evidence a\<rparr>, s) (\<lambda>_ s.
     let a = a\<lparr>produced_payload := []\<rparr> in
     and_then (metadata_bytes (produced_json E a), s) (\<lambda>bytes s.
     and_then (check_evidence s (produced_evidence a), s) (\<lambda>_ s.
     if a \<in> set (produced s) then (Inr (), s)
     else and_then (reserve maximum_bytes s bytes (length (produced s))) (\<lambda>_ s.
       (Inr (), s\<lparr>produced := produced s @ [a]\<rparr>))))))"

definition contains_artifact :: "'k StoreState \<Rightarrow> ArtifactKey \<Rightarrow> ContentDigest \<Rightarrow> CacheError + bool" where
  "contains_artifact s key digest =
     Inr (list_ex (\<lambda>p. manifest_key (produced_manifest p) = key \<and> content_digest (produced_manifest p) = digest) (produced s))"

definition retained_assurance :: "'k StoreState \<Rightarrow> ArtifactKey \<Rightarrow> ContentDigest \<Rightarrow> CacheError + ArtifactProductionAssessment option" where
  "retained_assurance s key digest =
     (case find (\<lambda>a. attestation_key a = key \<and> attestation_digest a = digest) (rev (attestations s)) of
        Some a \<Rightarrow> Inr (Some \<lparr>assessment_assurance = attested_assurance a, assessment_digests = attestation_evidence a\<rparr>)
      | None \<Rightarrow> Inr (map_option (\<lambda>p. \<lparr>assessment_assurance = produced_assurance p, assessment_digests = produced_evidence p\<rparr>)
          (find (\<lambda>p. manifest_key (produced_manifest p) = key \<and> content_digest (produced_manifest p) = digest) (rev (produced s)))))"

definition record_assurance_requirement ::
  "'k store_env \<Rightarrow> nat \<Rightarrow> ArtifactAssuranceRequirement \<Rightarrow> 'k StoreState \<Rightarrow> (unit, 'k) store_result" where
  "record_assurance_requirement E maximum_bytes r s =
     and_then (requirement_validate r, s) (\<lambda>_ s.
     and_then (metadata_bytes (requirement_json E r), s) (\<lambda>bytes s.
     if r \<in> set (requirements s) then (Inr (), s)
     else and_then (reserve maximum_bytes s bytes (length (requirements s))) (\<lambda>_ s.
       (Inr (), s\<lparr>requirements := requirements s @ [r]\<rparr>))))"

definition record_assurance :: "'k store_env \<Rightarrow> nat \<Rightarrow> ArtifactAssuranceAttestation \<Rightarrow> 'k StoreState \<Rightarrow> (unit, 'k) store_result" where
  "record_assurance E maximum_bytes a s =
     and_then (attestation_validate a, s) (\<lambda>_ s.
     and_then (metadata_bytes (attestation_json E a), s) (\<lambda>bytes s.
     and_then (check_evidence s (attestation_evidence a), s) (\<lambda>_ s.
     if a \<in> set (attestations s) then (Inr (), s)
     else and_then (reserve maximum_bytes s bytes (length (attestations s))) (\<lambda>_ s.
       (Inr (), s\<lparr>attestations := attestations s @ [a]\<rparr>)))))"

definition evidence_kind_char :: "char \<Rightarrow> bool" where
  "evidence_kind_char c \<longleftrightarrow> is_ascii_alphanumeric c \<or> c = CHR ''_'' \<or> c = CHR ''-'' \<or> c = CHR ''.''"

definition record_evidence :: "'k store_env \<Rightarrow> nat \<Rightarrow> string \<Rightarrow> string \<Rightarrow> 'k StoreState \<Rightarrow> (ContentDigest, 'k) store_result" where
  "record_evidence E maximum_bytes evidence_kind bytes s =
     (if evidence_kind = [] \<or> 128 < length evidence_kind \<or> \<not> list_all evidence_kind_char evidence_kind
      then (Inl (InvalidManifest ''ephemeral evidence kind is invalid''), s)
      else let digest = store_sha256 E bytes in
      if list_ex (\<lambda>(d, _). d = digest) (evidence s) then (Inr digest, s)
      else and_then (reserve maximum_bytes s (saturating_add (length bytes) 1024) (length (evidence s))) (\<lambda>_ s.
        (Inr digest, s\<lparr>evidence := evidence s @ [(digest, bytes)]\<rparr>)))"

subsection \<open>The store interface and the read-only overlay\<close>

text \<open>What a \<open>dyn CacheStore\<close> offers to a reader, at one moment.\<close>

record CacheStore =
  store_name :: string
  store_writable :: bool
  store_visibility :: CacheVisibility
  store_candidates :: "ArtifactKey \<Rightarrow> CacheError + ArtifactManifest list"
  store_matching_keys :: "string \<Rightarrow> string \<Rightarrow> nat \<Rightarrow> CacheError + ArtifactKey list"
  store_read_payload :: "ArtifactManifest \<Rightarrow> CacheError + string"

definition ephemeral_store :: "'k store_env \<Rightarrow> 'k StoreState \<Rightarrow> CacheStore" where
  "ephemeral_store E s =
     \<lparr>store_name = ''ephemeral'', store_writable = True, store_visibility = LocalOnly,
      store_candidates = candidates s, store_matching_keys = matching_keys s, store_read_payload = read_payload E s\<rparr>"

definition add_encoded :: "CacheObjectRef \<Rightarrow> nat \<Rightarrow> CacheError + nat" where
  "add_encoded x encoded =
     (case checked_add encoded (object_size x) of
        None \<Rightarrow> Inl (ResourceLimit ''read-only encoded size overflow'') | Some t \<Rightarrow> Inr t)"

definition check_read :: "nat \<Rightarrow> ArtifactManifest \<Rightarrow> CacheError + unit" where
  "check_read maximum_read_bytes m =
     bind_result (manifest_validate m) (\<lambda>_.
     bind_result (fold_result add_encoded (objects m) 0) (\<lambda>encoded.
     case checked_add (size_bytes m) encoded of
       None \<Rightarrow> Inl (ResourceLimit ''read-only payload size overflow'')
     | Some bytes \<Rightarrow>
         if maximum_read_bytes < bytes
         then Inl (ResourceLimit ''read-only overlay payload and encoded object exceed the session read budget'') else Inr ()))"

definition seekable_read_buffer_bytes :: nat where
  "seekable_read_buffer_bytes = 2097152"

definition check_streaming_read :: "nat \<Rightarrow> nat option \<Rightarrow> ArtifactManifest \<Rightarrow> nat \<Rightarrow> CacheError + nat" where
  "check_streaming_read maximum_read_bytes maximum_scratch_bytes m maximum_decoded_bytes =
     bind_result (manifest_validate m) (\<lambda>_.
     if maximum_read_bytes < seekable_read_buffer_bytes
     then Inl (ResourceLimit ''read-only streaming buffers exceed the session memory budget'')
     else let scratch_limit = (case maximum_scratch_bytes of
         None \<Rightarrow> maximum_decoded_bytes | Some limit \<Rightarrow> min limit maximum_decoded_bytes) in
       if scratch_limit < size_bytes m
       then Inl (ResourceLimit ''read-only decoded payload exceeds the caller or temporary-disk scratch allowance'')
       else Inr scratch_limit)"

definition read_only_put :: "CacheStore \<Rightarrow> ArtifactDraft \<Rightarrow> string \<Rightarrow> CacheError + ArtifactManifest" where
  "read_only_put inner d payload = Inl (ReadOnlyLayer (store_name inner))"

definition read_only_budgeted :: "CacheStore \<Rightarrow> nat \<Rightarrow> CacheStore" where
  "read_only_budgeted inner maximum_read_bytes =
     \<lparr>store_name = store_name inner, store_writable = False, store_visibility = store_visibility inner,
      store_candidates = store_candidates inner, store_matching_keys = store_matching_keys inner,
      store_read_payload = (\<lambda>m. bind_result (check_read maximum_read_bytes m) (\<lambda>_. store_read_payload inner m))\<rparr>"

subsection \<open>Sessions\<close>

text \<open>One atomic call of an operation that may change the state, and the states a session reaches with any number of them.\<close>

inductive store_step :: "'k store_env \<Rightarrow> nat \<Rightarrow> 'k StoreState \<Rightarrow> 'k StoreState \<Rightarrow> bool" for E :: "'k store_env" and maximum_bytes :: nat where
  step_put: "put E maximum_bytes d payload s = (r, s') \<Longrightarrow> store_step E maximum_bytes s s'"
| step_produced: "record_produced E maximum_bytes a s = (r, s') \<Longrightarrow> store_step E maximum_bytes s s'"
| step_requirement: "record_assurance_requirement E maximum_bytes q s = (r, s') \<Longrightarrow> store_step E maximum_bytes s s'"
| step_assurance: "record_assurance E maximum_bytes t s = (r, s') \<Longrightarrow> store_step E maximum_bytes s s'"
| step_evidence: "record_evidence E maximum_bytes k bytes s = (r, s') \<Longrightarrow> store_step E maximum_bytes s s'"

inductive_cases store_step_cases: "store_step E maximum_bytes s s'"

inductive session :: "'k store_env \<Rightarrow> nat \<Rightarrow> 'k StoreState \<Rightarrow> bool" for E :: "'k store_env" and maximum_bytes :: nat where
  session_new: "ephemeral_new maximum_bytes = Inr s \<Longrightarrow> session E maximum_bytes s"
| session_step: "session E maximum_bytes s \<Longrightarrow> store_step E maximum_bytes s s' \<Longrightarrow> session E maximum_bytes s'"

subsection \<open>The invariant\<close>

definition metadata_charge :: "CacheError + nat \<Rightarrow> nat" where
  "metadata_charge r = (case r of Inl _ \<Rightarrow> 0 | Inr n \<Rightarrow> 2 * n + 1024)"

definition charged :: "'k store_env \<Rightarrow> 'k StoreState \<Rightarrow> nat" where
  "charged E s =
     (\<Sum>(m, payload) \<leftarrow> artifacts s. metadata_charge (manifest_json E m) + length payload) +
     (\<Sum>a \<leftarrow> produced s. metadata_charge (produced_json E a)) +
     (\<Sum>a \<leftarrow> attestations s. metadata_charge (attestation_json E a)) +
     (\<Sum>r \<leftarrow> requirements s. metadata_charge (requirement_json E r)) +
     (\<Sum>(d, bytes) \<leftarrow> evidence s. saturating_add (length bytes) 1024)"

definition retained :: "'k StoreState \<Rightarrow> ContentDigest list \<Rightarrow> bool" where
  "retained s ds \<longleftrightarrow> set ds \<subseteq> fst ` set (evidence s)"

definition bounded_counts :: "'k StoreState \<Rightarrow> bool" where
  "bounded_counts s \<longleftrightarrow> length (artifacts s) \<le> maximum_records \<and> length (produced s) \<le> maximum_records \<and>
     length (attestations s) \<le> maximum_records \<and> length (requirements s) \<le> maximum_records \<and> length (evidence s) \<le> maximum_records"

definition unique_records :: "'k StoreState \<Rightarrow> bool" where
  "unique_records s \<longleftrightarrow> distinct (map fst (artifacts s)) \<and> distinct (produced s) \<and> distinct (attestations s) \<and>
     distinct (requirements s) \<and> distinct (map fst (evidence s))"

definition bound_payloads :: "'k store_env \<Rightarrow> 'k StoreState \<Rightarrow> bool" where
  "bound_payloads E s \<longleftrightarrow>
     (\<forall>(m, payload) \<in> set (artifacts s). manifest_validate m = Inr () \<and> visibility m = LocalOnly \<and>
        length payload = size_bytes m \<and> store_sha256 E payload = content_digest m) \<and>
     (\<forall>(d, bytes) \<in> set (evidence s). store_sha256 E bytes = d)"

definition supported_records :: "'k StoreState \<Rightarrow> bool" where
  "supported_records s \<longleftrightarrow>
     (\<forall>a \<in> set (produced s). manifest_validate (produced_manifest a) = Inr () \<and> produced_payload a = [] \<and> retained s (produced_evidence a) \<and>
        assessment_validate \<lparr>assessment_assurance = produced_assurance a, assessment_digests = produced_evidence a\<rparr> = Inr ()) \<and>
     (\<forall>a \<in> set (attestations s). attestation_validate a = Inr () \<and> retained s (attestation_evidence a)) \<and>
     (\<forall>r \<in> set (requirements s). requirement_validate r = Inr ())"

definition store_inv :: "'k store_env \<Rightarrow> nat \<Rightarrow> 'k StoreState \<Rightarrow> bool" where
  "store_inv E maximum_bytes s \<longleftrightarrow> accounted_bytes s = charged E s \<and> accounted_bytes s \<le> maximum_bytes \<and> bounded_counts s \<and>
     unique_records s \<and> bound_payloads E s \<and> supported_records s"

definition extends :: "'k StoreState \<Rightarrow> 'k StoreState \<Rightarrow> bool" where
  "extends s s' \<longleftrightarrow> (\<exists>xs. artifacts s' = artifacts s @ xs) \<and> (\<exists>xs. produced s' = produced s @ xs) \<and>
     (\<exists>xs. attestations s' = attestations s @ xs) \<and> (\<exists>xs. requirements s' = requirements s @ xs) \<and> (\<exists>xs. evidence s' = evidence s @ xs)"

section \<open>Operations\<close>

lemma and_then_pair [simp]:
  "and_then (Inl e, s) f = (Inl e, s)" "and_then (Inr x, s) f = f x s"
  by (simp_all add: and_then_def)

lemma and_then_Inr [result_simps]:
  "and_then (r, s) f = (Inr y, s') \<longleftrightarrow> (\<exists>x. r = Inr x \<and> f x s = (Inr y, s'))"
  by (cases r) auto

lemma and_then_reserve:
  "and_then (reserve M s bytes count) f = (Inr y, s') \<longleftrightarrow>
     accounted_bytes s + bytes \<le> usize_max \<and> accounted_bytes s + bytes \<le> M \<and> count < maximum_records \<and>
     f () (s\<lparr>accounted_bytes := accounted_bytes s + bytes\<rparr>) = (Inr y, s')"
  by (auto simp: reserve_def checked_add_def)

lemma metadata_bytes_Inr [result_simps]:
  "metadata_bytes r = Inr b \<longleftrightarrow> (\<exists>n. r = Inr n) \<and> b = metadata_charge r \<and> b \<le> usize_max"
  by (auto simp: metadata_bytes_def metadata_charge_def result_simps checked_mul_def checked_add_def split: option.splits bind_splits)

lemma check_evidence_Inr [result_simps]: "check_evidence s ds = Inr u \<longleftrightarrow> retained s ds"
  by (auto simp: check_evidence_def retained_def list_ex_iff image_iff) force+

lemma list_ex_key: "list_ex (\<lambda>(k, _). k = x) xs \<longleftrightarrow> x \<in> fst ` set xs"
  by (auto simp: list_ex_iff image_iff) force

text \<open>What a successful call does to the state: nothing when the record is already there, and otherwise one record is appended and charged.\<close>

lemma put_Inr:
  assumes "put E M d payload s = (Inr m, s')"
  shows "draft_visibility d = LocalOnly \<and> m = draft_manifest E d payload \<and> manifest_validate m = Inr () \<and>
     (let bytes = metadata_charge (manifest_json E m) + length payload in
      if m \<in> fst ` set (artifacts s) then s' = s
      else accounted_bytes s + bytes \<le> M \<and> length (artifacts s) < maximum_records \<and>
        s' = s\<lparr>accounted_bytes := accounted_bytes s + bytes, artifacts := artifacts s @ [(m, payload)]\<rparr>)"
  using assms by (auto simp: put_def Let_def result_simps and_then_reserve list_ex_key split: if_splits option.splits)

lemma record_produced_Inr:
  assumes "record_produced E M a s = (Inr u, s')"
  shows "(let a' = a\<lparr>produced_payload := []\<rparr>; bytes = metadata_charge (produced_json E a') in
     manifest_validate (produced_manifest a) = Inr () \<and> retained s (produced_evidence a) \<and>
     assessment_validate \<lparr>assessment_assurance = produced_assurance a, assessment_digests = produced_evidence a\<rparr> = Inr () \<and>
     (if a' \<in> set (produced s) then s' = s
      else accounted_bytes s + bytes \<le> M \<and> length (produced s) < maximum_records \<and>
        s' = s\<lparr>accounted_bytes := accounted_bytes s + bytes, produced := produced s @ [a']\<rparr>))"
  using assms by (auto simp: record_produced_def Let_def result_simps and_then_reserve split: if_splits)

lemma record_requirement_Inr:
  assumes "record_assurance_requirement E M r s = (Inr u, s')"
  shows "requirement_validate r = Inr () \<and> (let bytes = metadata_charge (requirement_json E r) in
     if r \<in> set (requirements s) then s' = s
     else accounted_bytes s + bytes \<le> M \<and> length (requirements s) < maximum_records \<and>
       s' = s\<lparr>accounted_bytes := accounted_bytes s + bytes, requirements := requirements s @ [r]\<rparr>)"
  using assms by (auto simp: record_assurance_requirement_def Let_def result_simps and_then_reserve split: if_splits)

lemma record_assurance_Inr:
  assumes "record_assurance E M a s = (Inr u, s')"
  shows "attestation_validate a = Inr () \<and> retained s (attestation_evidence a) \<and> (let bytes = metadata_charge (attestation_json E a) in
     if a \<in> set (attestations s) then s' = s
     else accounted_bytes s + bytes \<le> M \<and> length (attestations s) < maximum_records \<and>
       s' = s\<lparr>accounted_bytes := accounted_bytes s + bytes, attestations := attestations s @ [a]\<rparr>)"
  using assms by (auto simp: record_assurance_def Let_def result_simps and_then_reserve split: if_splits)

lemma record_evidence_Inr:
  assumes "record_evidence E M k bytes s = (Inr d, s')"
  shows "d = store_sha256 E bytes \<and> (if d \<in> fst ` set (evidence s) then s' = s
     else accounted_bytes s + saturating_add (length bytes) 1024 \<le> M \<and> length (evidence s) < maximum_records \<and>
       s' = s\<lparr>accounted_bytes := accounted_bytes s + saturating_add (length bytes) 1024, evidence := evidence s @ [(d, bytes)]\<rparr>)"
  using assms by (auto simp: record_evidence_def Let_def result_simps and_then_reserve list_ex_key split: if_splits)

text \<open>A failed call changes nothing: the reservation is the first change and the last thing that can fail.\<close>

lemma reserve_unchanged: "fst (reserve M s bytes count) = Inl e \<Longrightarrow> snd (reserve M s bytes count) = s"
  by (auto simp: reserve_def checked_add_def split: if_splits)

lemma and_then_unchanged:
  assumes "and_then r f = (Inl e, s')" "\<And>e. fst r = Inl e \<Longrightarrow> snd r = s" "\<And>x t. r = (Inr x, t) \<Longrightarrow> f x t = (Inl e, s') \<Longrightarrow> s' = s"
  shows "s' = s"
proof (cases r)
  case (Pair q t)
  show ?thesis
  proof (cases q)
    case (Inl d)
    then show ?thesis using Pair assms(1) assms(2)[of d] by simp
  next
    case (Inr x)
    then show ?thesis using Pair assms(1) assms(3)[of x t] by simp
  qed
qed

lemma put_failure: "put E M d payload s = (Inl e, s') \<Longrightarrow> s' = s"
  by (auto simp: put_def Let_def split: if_splits option.splits elim!: and_then_unchanged intro: reserve_unchanged)

lemma record_produced_failure: "record_produced E M a s = (Inl e, s') \<Longrightarrow> s' = s"
  by (auto simp: record_produced_def Let_def split: if_splits elim!: and_then_unchanged dest!: reserve_unchanged)

lemma record_requirement_failure: "record_assurance_requirement E M r s = (Inl e, s') \<Longrightarrow> s' = s"
  by (auto simp: record_assurance_requirement_def split: if_splits elim!: and_then_unchanged intro: reserve_unchanged)

lemma record_assurance_failure: "record_assurance E M a s = (Inl e, s') \<Longrightarrow> s' = s"
  by (auto simp: record_assurance_def split: if_splits elim!: and_then_unchanged intro: reserve_unchanged)

lemma record_evidence_failure: "record_evidence E M k bytes s = (Inl e, s') \<Longrightarrow> s' = s"
  by (auto simp: record_evidence_def Let_def split: if_splits elim!: and_then_unchanged intro: reserve_unchanged)

section \<open>The contract of an operation\<close>

lemma extends_refl [simp]: "extends s s"
  by (simp add: extends_def)

lemma extends_trans: "extends s t \<Longrightarrow> extends t u \<Longrightarrow> extends s u"
  by (auto simp: extends_def)

text \<open>Every operation of the store leaves the state alone when it fails, and otherwise keeps the invariant and appends to the records.\<close>

locale session_operation =
  fixes E :: "'k store_env" and M :: nat and call :: "'k StoreState \<Rightarrow> ('r, 'k) store_result"
  assumes failure: "call s = (Inl e, s') \<Longrightarrow> s' = s"
    and success: "store_inv E M s \<Longrightarrow> call s = (Inr x, s') \<Longrightarrow> store_inv E M s'"
    and grows: "call s = (Inr x, s') \<Longrightarrow> extends s s'"
begin

lemma keeps_inv: "store_inv E M s \<Longrightarrow> call s = (r, s') \<Longrightarrow> store_inv E M s'"
  using failure success by (cases r) auto

lemma only_grows: "call s = (r, s') \<Longrightarrow> extends s s'"
  using failure[of s _ s'] grows[of s _ s'] by (cases r) auto

end

lemmas inv_defs = store_inv_def charged_def bounded_counts_def unique_records_def bound_payloads_def supported_records_def retained_def

interpretation put_op: session_operation E M "put E M d payload" for E M d payload
proof unfold_locales
  show "put E M d payload s = (Inl e, s') \<Longrightarrow> s' = s" for s s' e by (rule put_failure)
  show "put E M d payload s = (Inr x, s') \<Longrightarrow> extends s s'" for s s' x
    by (auto dest!: put_Inr simp: extends_def Let_def split: if_splits)
  show "store_inv E M s'" if "store_inv E M s" "put E M d payload s = (Inr x, s')" for s s' x
    using that(1) put_Inr[OF that(2)] unfolding inv_defs
    by (auto simp: Let_def draft_manifest_def split: if_splits)
qed

interpretation produced_op: session_operation E M "record_produced E M a" for E M a
proof unfold_locales
  show "record_produced E M a s = (Inl e, s') \<Longrightarrow> s' = s" for s s' e by (rule record_produced_failure)
  show "record_produced E M a s = (Inr x, s') \<Longrightarrow> extends s s'" for s s' x
    by (auto dest!: record_produced_Inr simp: extends_def Let_def split: if_splits)
  show "store_inv E M s'" if "store_inv E M s" "record_produced E M a s = (Inr x, s')" for s s' x
    using that(1) record_produced_Inr[OF that(2)] unfolding inv_defs by (auto simp: Let_def split: if_splits)
qed

interpretation requirement_op: session_operation E M "record_assurance_requirement E M r" for E M r
proof unfold_locales
  show "record_assurance_requirement E M r s = (Inl e, s') \<Longrightarrow> s' = s" for s s' e by (rule record_requirement_failure)
  show "record_assurance_requirement E M r s = (Inr x, s') \<Longrightarrow> extends s s'" for s s' x
    by (auto dest!: record_requirement_Inr simp: extends_def Let_def split: if_splits)
  show "store_inv E M s'" if "store_inv E M s" "record_assurance_requirement E M r s = (Inr x, s')" for s s' x
    using that(1) record_requirement_Inr[OF that(2)] unfolding inv_defs by (auto simp: Let_def split: if_splits)
qed

interpretation assurance_op: session_operation E M "record_assurance E M a" for E M a
proof unfold_locales
  show "record_assurance E M a s = (Inl e, s') \<Longrightarrow> s' = s" for s s' e by (rule record_assurance_failure)
  show "record_assurance E M a s = (Inr x, s') \<Longrightarrow> extends s s'" for s s' x
    by (auto dest!: record_assurance_Inr simp: extends_def Let_def split: if_splits)
  show "store_inv E M s'" if "store_inv E M s" "record_assurance E M a s = (Inr x, s')" for s s' x
    using that(1) record_assurance_Inr[OF that(2)] unfolding inv_defs by (auto simp: Let_def split: if_splits)
qed

interpretation evidence_op: session_operation E M "record_evidence E M k bytes" for E M k bytes
proof unfold_locales
  show "record_evidence E M k bytes s = (Inl e, s') \<Longrightarrow> s' = s" for s s' e by (rule record_evidence_failure)
  show "record_evidence E M k bytes s = (Inr x, s') \<Longrightarrow> extends s s'" for s s' x
    by (auto dest!: record_evidence_Inr simp: extends_def split: if_splits)
  show "store_inv E M s'" if "store_inv E M s" "record_evidence E M k bytes s = (Inr x, s')" for s s' x
    using that(1) record_evidence_Inr[OF that(2)] unfolding inv_defs by (auto split: if_splits)
qed

lemmas steps_keep_inv = put_op.keeps_inv produced_op.keeps_inv requirement_op.keeps_inv assurance_op.keeps_inv evidence_op.keeps_inv
lemmas steps_only_grow = put_op.only_grows produced_op.only_grows requirement_op.only_grows assurance_op.only_grows evidence_op.only_grows

lemma store_step_inv: "store_step E M s s' \<Longrightarrow> store_inv E M s \<Longrightarrow> store_inv E M s'"
  by (erule store_step_cases) (blast intro: steps_keep_inv)+

lemma store_step_extends: "store_step E M s s' \<Longrightarrow> extends s s'"
  by (erule store_step_cases) (blast intro: steps_only_grow)+

lemma store_steps_extends: "(store_step E M)\<^sup>*\<^sup>* s s' \<Longrightarrow> extends s s'"
  by (induction rule: rtranclp_induct) (auto intro: extends_trans store_step_extends)

lemma session_inv: "session E M s \<Longrightarrow> store_inv E M s"
proof (induction rule: session.induct)
  case (session_new s)
  then show ?case by (auto simp: ephemeral_new_def default_state_def inv_defs split: if_splits)
qed (rule store_step_inv)

lemma session_steps: "(store_step E M)\<^sup>*\<^sup>* s s' \<Longrightarrow> session E M s \<Longrightarrow> session E M s'"
  by (induction rule: rtranclp_induct) (auto intro: session_step)

lemma read_retained:
  assumes "store_inv E M s" "(m, payload) \<in> set (artifacts s)"
  shows "read_payload E s m = Inr payload"
proof -
  have inv: "distinct (map fst (artifacts s))" "manifest_validate m = Inr ()" "length payload = size_bytes m" "store_sha256 E payload = content_digest m"
    using assms by (auto simp: inv_defs)
  have "find (\<lambda>(m', _). m' = m) xs = Some (m, payload)" if "distinct (map fst xs)" "(m, payload) \<in> set xs" for xs
    using that by (induction xs) (auto simp: image_iff)
  from this[OF inv(1) assms(2)] show ?thesis using inv by (simp add: read_payload_def)
qed

lemma candidates_retained:
  assumes "store_inv E M s" "(m, payload) \<in> set (artifacts s)"
  shows "\<exists>ms. candidates s (manifest_key m) = Inr ms \<and> m \<in> set ms"
proof -
  have "manifest_validate m = Inr ()" using assms by (auto simp: inv_defs)
  then have "key_validate (manifest_key m) = Inr ()" by (auto simp: manifest_validate_def result_simps)
  then show ?thesis using assms(2) by (force simp: candidates_def)
qed

lemma collect_keys_correct:
  fixes k p xs defines "wanted ys \<equiv> set (filter (\<lambda>key. kind key = k \<and> take (length p) (logical_key key) = p) (map (\<lambda>x. manifest_key (fst x)) ys))"
  assumes "distinct keys" "length keys \<le> n"
  shows "distinct (collect_keys k p n xs keys) \<and> length (collect_keys k p n xs keys) \<le> n \<and>
    set keys \<subseteq> set (collect_keys k p n xs keys) \<and> set (collect_keys k p n xs keys) \<subseteq> set keys \<union> wanted xs \<and>
    (length (collect_keys k p n xs keys) < n \<longrightarrow> wanted xs \<subseteq> set (collect_keys k p n xs keys))"
  using assms(2-)
proof (induction xs arbitrary: keys)
  case Nil
  then show ?case by (simp add: wanted_def)
next
  case (Cons x xs)
  let ?key = "manifest_key (fst x)"
  let ?new = "kind ?key = k \<and> take (length p) (logical_key ?key) = p"
  have w: "wanted (x # xs) = (if ?new then insert ?key (wanted xs) else wanted xs)" by (auto simp: wanted_def)
  consider "?new" "?key \<notin> set keys" "n \<le> length keys" | "?new" "?key \<notin> set keys" "length keys < n" | "\<not> (?new \<and> ?key \<notin> set keys)" by linarith
  then show ?case
  proof cases
    case 1
    then show ?thesis using Cons.prems by (cases x) auto
  next
    case 2
    then have "collect_keys k p n (x # xs) keys = collect_keys k p n xs (keys @ [?key])" by (cases x) auto
    then show ?thesis using Cons.IH[of "keys @ [?key]"] Cons.prems 2 unfolding w by auto
  next
    case 3
    then have "collect_keys k p n (x # xs) keys = collect_keys k p n xs keys" by (cases x) auto
    then show ?thesis using Cons.IH[of keys] Cons.prems 3 unfolding w by auto
  qed
qed

section \<open>Readers\<close>

text \<open>What the resolver and every other reader relies on: a store lists manifests under their own key only, and hands out a payload only
  with the size and digest of its manifest.\<close>

locale cache_layer =
  fixes sha256 :: "string \<Rightarrow> ContentDigest" and layer :: CacheStore
  assumes keyed: "store_candidates layer k = Inr ms \<Longrightarrow> m \<in> set ms \<Longrightarrow> manifest_key m = k"
    and bound: "store_read_payload layer m = Inr payload \<Longrightarrow> length payload = size_bytes m \<and> sha256 payload = content_digest m"
begin

lemma same_content:
  "store_read_payload layer m = Inr p \<Longrightarrow> store_read_payload layer m' = Inr p' \<Longrightarrow> content_digest m = content_digest m' \<Longrightarrow> sha256 p = sha256 p'"
  using bound[of m p] bound[of m' p'] by simp

end

interpretation ephemeral: cache_layer "store_sha256 E" "ephemeral_store E s" for E s
proof unfold_locales
  show "manifest_key m = k" if "store_candidates (ephemeral_store E s) k = Inr ms" "m \<in> set ms" for k ms m
    using that by (auto simp: ephemeral_store_def candidates_def result_simps)
  show "length p = size_bytes m \<and> store_sha256 E p = content_digest m" if "store_read_payload (ephemeral_store E s) m = Inr p" for m p
    using that by (auto simp: ephemeral_store_def read_payload_def result_simps split: option.splits if_splits)
qed

lemma add_encoded_Inr:
  "t \<le> usize_max \<Longrightarrow> fold_result add_encoded xs t = Inr t' \<longleftrightarrow> t' = t + (\<Sum>x \<leftarrow> xs. object_size x) \<and> t' \<le> usize_max"
proof (induction xs arbitrary: t)
  case (Cons x xs)
  have "fold_result add_encoded (x # xs) t = Inr t' \<longleftrightarrow> t + object_size x \<le> usize_max \<and> fold_result add_encoded xs (t + object_size x) = Inr t'"
    by (auto simp: result_simps add_encoded_def checked_add_def)
  then show ?case using Cons.IH[of "t + object_size x"] by auto
qed auto

lemma check_read_Inr:
  "check_read n m = Inr u \<longleftrightarrow> manifest_validate m = Inr () \<and> size_bytes m + (\<Sum>x \<leftarrow> objects m. object_size x) \<le> min usize_max n"
  by (auto simp: check_read_def result_simps add_encoded_Inr not_less checked_add_def split: option.splits)

text \<open>The overlay keeps the contract of the store inside and adds its own.\<close>

locale budgeted_layer = cache_layer +
  fixes maximum_read_bytes :: nat
begin

lemma within_budget:
  "store_read_payload (read_only_budgeted layer maximum_read_bytes) m = Inr payload \<Longrightarrow>
     manifest_validate m = Inr () \<and> length payload + (\<Sum>x \<leftarrow> objects m. object_size x) \<le> min usize_max maximum_read_bytes"
  using bound[of m payload] by (auto simp: read_only_budgeted_def result_simps check_read_Inr)

end

sublocale budgeted_layer \<subseteq> overlay: cache_layer sha256 "read_only_budgeted layer maximum_read_bytes"
proof unfold_locales
  show "store_candidates (read_only_budgeted layer maximum_read_bytes) k = Inr ms \<Longrightarrow> m \<in> set ms \<Longrightarrow> manifest_key m = k" for k ms m
    using keyed[of k ms m] by (simp add: read_only_budgeted_def)
  show "store_read_payload (read_only_budgeted layer maximum_read_bytes) m = Inr p \<Longrightarrow> length p = size_bytes m \<and> sha256 p = content_digest m" for m p
    using bound[of m p] by (auto simp: read_only_budgeted_def result_simps)
qed

interpretation budgeted_ephemeral: budgeted_layer "store_sha256 E" "ephemeral_store E s" n for E s n
  by unfold_locales

section \<open>Properties\<close>

text \<open>C39. Every state a session store reaches, by any sequence of atomic calls, failing or not, satisfies its invariant: the accounted bytes
  are exactly the charges of the retained records and never exceed the budget, no collection holds more than 8192 records or a record twice,
  every retained manifest is valid, local and bound to its payload, and every assurance record is valid and refers to retained
  evidence only. A failed \<open>put\<close> changes nothing. After a successful \<open>put\<close>, at every later moment the manifest is listed under its key and
  can be read, giving content of the same length and digest as the one stored.\<close>

theorem ephemeral_store_invariant:
  assumes "session E M s"
  shows "accounted_bytes s = charged E s \<and> charged E s \<le> M \<and> bounded_counts s \<and> unique_records s \<and> bound_payloads E s \<and> supported_records s \<and>
    (\<forall>d payload e s'. put E M d payload s = (Inl e, s') \<longrightarrow> s' = s) \<and>
    (\<forall>d payload m s' t. put E M d payload s = (Inr m, s') \<and> (store_step E M)\<^sup>*\<^sup>* s' t \<longrightarrow>
       (\<exists>kept. read_payload E t m = Inr kept \<and> length kept = length payload \<and> store_sha256 E kept = store_sha256 E payload) \<and>
       (\<exists>ms. candidates t (draft_key d) = Inr ms \<and> m \<in> set ms))"
proof (intro conjI allI impI)
  have inv: "store_inv E M s" by (rule session_inv[OF assms])
  then show "accounted_bytes s = charged E s" "charged E s \<le> M" "bounded_counts s" "unique_records s" "bound_payloads E s" "supported_records s"
    by (simp_all add: store_inv_def)
  show "put E M d payload s = (Inl e, s') \<Longrightarrow> s' = s" for d payload e s' by (rule put_failure)
  fix d payload m s' t
  assume run: "put E M d payload s = (Inr m, s') \<and> (store_step E M)\<^sup>*\<^sup>* s' t"
  have m: "m = draft_manifest E d payload" "m \<in> fst ` set (artifacts s')"
    using put_Inr[of E M d payload s m s'] run by (auto simp: Let_def split: if_splits)
  have "session E M s'" using assms run by (auto intro: session_step step_put)
  then have t: "store_inv E M t" using run by (auto intro: session_inv session_steps)
  obtain kept where kept: "(m, kept) \<in> set (artifacts t)"
  proof -
    have "set (artifacts s') \<subseteq> set (artifacts t)" using store_steps_extends[of E M s' t] run by (auto simp: extends_def)
    then show ?thesis using m(2) that by auto
  qed
  then have "length kept = size_bytes m" "store_sha256 E kept = content_digest m" using t by (auto simp: inv_defs)
  then show "\<exists>kept. read_payload E t m = Inr kept \<and> length kept = length payload \<and> store_sha256 E kept = store_sha256 E payload"
    using read_retained[OF t kept] m(1) by (auto simp: draft_manifest_def Let_def)
  show "\<exists>ms. candidates t (draft_key d) = Inr ms \<and> m \<in> set ms"
    using candidates_retained[OF t kept] m(1) by (simp add: draft_manifest_def Let_def)
qed

section \<open>Sample\<close>

definition sample_draft :: ArtifactDraft where
  "sample_draft = \<lparr>draft_schema = 1, draft_key = sample_key, draft_producer_toolkit_version = ToolkitVersion 0 17 0 None,
     draft_minimum_reader_version = ToolkitVersion 0 17 0 None, draft_maximum_reader_version = None, draft_quality = Validated,
     draft_visibility = LocalOnly, draft_immutable = True, draft_dependencies = [], draft_tags = [], draft_provenance_digest = None\<rparr>"

definition sample_store_env :: "unit store_env" where
  "sample_store_env = \<lparr>store_sha256 = (\<lambda>_. ContentDigest (replicate 64 CHR ''0'')), manifest_json = (\<lambda>_. Inr 400), produced_json = (\<lambda>_. Inr 500),
     requirement_json = (\<lambda>_. Inr 200), attestation_json = (\<lambda>_. Inr 200)\<rparr>"

lemma sample_put:
  "put sample_store_env 4096 sample_draft ''payload'' default_state =
     (Inr sample_manifest, default_state\<lparr>artifacts := [(sample_manifest, ''payload'')], accounted_bytes := 1831\<rparr>)"
proof -
  have m: "draft_manifest sample_store_env sample_draft ''payload'' = sample_manifest"
    by (simp add: draft_manifest_def sample_store_env_def sample_draft_def sample_manifest_def Let_def)
  have parts: "draft_visibility sample_draft = LocalOnly" "manifest_json sample_store_env sample_manifest = Inr 400"
    by (simp_all add: sample_draft_def sample_store_env_def)
  show ?thesis
    by (simp add: put_def m parts sample_manifest_valid metadata_bytes_def checked_mul_def checked_add_def usize_max_def
        reserve_def maximum_records_def default_state_def)
qed

theorem ephemeral_store_invariant_witness:
  "\<exists>s :: unit StoreState. session sample_store_env 4096 s \<and> read_payload sample_store_env s sample_manifest = Inr ''payload'' \<and>
     accounted_bytes s = charged sample_store_env s"
proof -
  let ?s = "default_state\<lparr>artifacts := [(sample_manifest, ''payload'')], accounted_bytes := 1831\<rparr> :: unit StoreState"
  have new: "session sample_store_env 4096 default_state" by (rule session_new) (simp add: ephemeral_new_def)
  then have s: "session sample_store_env 4096 ?s" using session_step step_put sample_put by blast
  have "read_payload sample_store_env ?s sample_manifest = Inr ''payload''"
    using read_retained[OF session_inv[OF s]] by simp
  then show ?thesis using s ephemeral_store_invariant[OF s] by blast
qed

end
