(* ===== verification/Cache_Resolver.thy ===== *)
theory Cache_Resolver
  imports Cache_Store "HOL-Library.While_Combinator"
begin

text \<open>
  The layered resolver of \<open>crates/xc-cache/src/lib.rs\<close> (\<open>CacheResolver\<close>): lookup in precedence order, exact lookup, key listing,
  and the dependency closure, a depth-first search with explicit frames. The stack of frames is a list with its last frame first; the ordered sets
  \<open>visited\<close> and \<open>active\<close> are used through membership, insertion and removal only and are sets here. The search loop is
  \<open>while_option\<close>, whose result is \<open>None\<close> when the loop does not end.
\<close>

section \<open>Definitions\<close>

record CacheLayer =
  precedence :: nat
  layer_store :: CacheStore

definition resolver_new :: "CacheLayer list \<Rightarrow> CacheLayer list" where
  "resolver_new layers = sort_key precedence layers"

definition first_writable :: "CacheLayer list \<Rightarrow> CacheVisibility \<Rightarrow> CacheStore option" where
  "first_writable layers vis = find (\<lambda>store. store_writable store \<and> store_visibility store = vis) (map layer_store layers)"

subsection \<open>Lookup\<close>

fun join_comma :: "string list \<Rightarrow> string" where
  "join_comma [] = []"
| "join_comma [x] = x"
| "join_comma (x # y # ys) = x @ '', '' @ join_comma (y # ys)"

definition rejection :: "CacheLayer \<Rightarrow> ArtifactManifest \<Rightarrow> string" where
  "rejection layer m = store_name (layer_store layer) @ '':'' @ digest_text (content_digest m) @ '':'' @ debug_quality (quality m)"

fun resolve_loop :: "policy_env \<Rightarrow> ArtifactKey \<Rightarrow> CachePolicy \<Rightarrow> CacheLayer list \<Rightarrow> string list \<Rightarrow> CacheError + string \<times> ArtifactManifest" where
  "resolve_loop E key policy [] rejected =
     Inl (CacheNotFound (kind key @ '' / '' @ logical_key key @ ''; rejected candidates: '' @ join_comma rejected))"
| "resolve_loop E key policy (layer # rest) rejected =
     bind_result (store_candidates (layer_store layer) key) (\<lambda>ms.
     case find (accepts E policy) ms of
       Some m \<Rightarrow> Inr (store_name (layer_store layer), m)
     | None \<Rightarrow> resolve_loop E key policy rest (rejected @ map (rejection layer) ms))"

definition resolve_manifest :: "policy_env \<Rightarrow> CacheLayer list \<Rightarrow> ArtifactKey \<Rightarrow> CachePolicy \<Rightarrow> CacheError + string \<times> ArtifactManifest" where
  "resolve_manifest E layers key policy = resolve_loop E key policy layers []"

definition exact_not_found :: "ArtifactKey \<Rightarrow> ContentDigest \<Rightarrow> CacheError" where
  "exact_not_found key digest = CacheNotFound (kind key @ '' / '' @ logical_key key @ '' with digest '' @ digest_text digest)"

definition exact_match :: "policy_env \<Rightarrow> ContentDigest \<Rightarrow> CachePolicy \<Rightarrow> ArtifactManifest \<Rightarrow> bool" where
  "exact_match E digest policy m \<longleftrightarrow> content_digest m = digest \<and> accepts E policy m"

fun read_exact_payload :: "policy_env \<Rightarrow> CacheLayer list \<Rightarrow> ArtifactKey \<Rightarrow> ContentDigest \<Rightarrow> CachePolicy \<Rightarrow> CacheError + string" where
  "read_exact_payload E [] key digest policy = Inl (exact_not_found key digest)"
| "read_exact_payload E (layer # rest) key digest policy =
     bind_result (store_candidates (layer_store layer) key) (\<lambda>ms.
     case find (exact_match E digest policy) ms of
       Some m \<Rightarrow> store_read_payload (layer_store layer) m
     | None \<Rightarrow> read_exact_payload E rest key digest policy)"

fun resolve_exact_manifest ::
  "policy_env \<Rightarrow> CacheLayer list \<Rightarrow> ArtifactKey \<Rightarrow> ContentDigest \<Rightarrow> CachePolicy \<Rightarrow> CacheError + string \<times> ArtifactManifest" where
  "resolve_exact_manifest E [] key digest policy = Inl (exact_not_found key digest)"
| "resolve_exact_manifest E (layer # rest) key digest policy =
     bind_result (store_candidates (layer_store layer) key) (\<lambda>ms.
     case find (exact_match E digest policy) ms of
       Some m \<Rightarrow> Inr (store_name (layer_store layer), m)
     | None \<Rightarrow> resolve_exact_manifest E rest key digest policy)"

fun add_keys :: "nat \<Rightarrow> ArtifactKey list \<Rightarrow> ArtifactKey list \<Rightarrow> ArtifactKey list \<times> bool" where
  "add_keys maximum [] keys = (keys, False)"
| "add_keys maximum (key # rest) keys =
     (if key \<in> set keys then add_keys maximum rest keys
      else if maximum \<le> length (keys @ [key]) then (keys @ [key], True)
      else add_keys maximum rest (keys @ [key]))"

fun matching_keys_loop :: "string \<Rightarrow> string \<Rightarrow> nat \<Rightarrow> CacheLayer list \<Rightarrow> ArtifactKey list \<Rightarrow> CacheError + ArtifactKey list" where
  "matching_keys_loop wanted_kind prefix maximum [] keys = Inr keys"
| "matching_keys_loop wanted_kind prefix maximum (layer # rest) keys =
     bind_result (store_matching_keys (layer_store layer) wanted_kind prefix maximum) (\<lambda>found.
     case add_keys maximum found keys of
       (keys, full) \<Rightarrow> if full then Inr keys else matching_keys_loop wanted_kind prefix maximum rest keys)"

definition resolver_matching_keys :: "CacheLayer list \<Rightarrow> string \<Rightarrow> string \<Rightarrow> nat \<Rightarrow> CacheError + ArtifactKey list" where
  "resolver_matching_keys layers wanted_kind prefix maximum = matching_keys_loop wanted_kind prefix maximum layers []"

subsection \<open>Dependency closure\<close>

definition node_identity :: "ArtifactManifest \<Rightarrow> identity" where
  "node_identity m =
     (kind (manifest_key m), logical_key (manifest_key m), parameters_digest (manifest_key m), content_digest m)"

definition resolve_edge :: "policy_env \<Rightarrow> CacheLayer list \<Rightarrow> CachePolicy \<Rightarrow> DependencyRef \<Rightarrow> CacheError + ArtifactManifest" where
  "resolve_edge E layers policy d =
     (case combined_minimum (minimum_quality policy) (required_quality d) of
        None \<Rightarrow> Inl (InvalidManifest ''cache policy and dependency require incompatible quality/disposition evidence'')
      | Some q \<Rightarrow>
          bind_result (resolve_exact_manifest E layers (dependency_key d) (dependency_digest d) (policy\<lparr>minimum_quality := q\<rparr>)) (\<lambda>(_, resolved).
          if \<not> satisfies (quality resolved) (required_quality d)
          then Inl (InvalidManifest ''resolved dependency does not satisfy its stated quality requirement'')
          else Inr resolved))"

record closure_state =
  visited :: "(identity \<times> nat) set"
  active :: "identity set"
  ordered :: "ArtifactManifest list"
  stack :: "(ArtifactManifest \<times> nat) list"

definition cycle_error :: CacheError where
  "cycle_error = InvalidManifest ''dependency closure contains a cycle''"

definition closure_step :: "policy_env \<Rightarrow> CacheLayer list \<Rightarrow> CachePolicy \<Rightarrow> closure_state \<Rightarrow> CacheError + closure_state" where
  "closure_step E layers policy c =
     (case stack c of
        [] \<Rightarrow> Inr c
      | (parent, position) # rest \<Rightarrow>
          if length (dependencies parent) \<le> position
          then Inr (c\<lparr>stack := rest, active := active c - {node_identity parent},
            ordered := (if rest \<noteq> [] then ordered c @ [parent] else ordered c)\<rparr>)
          else let dependency = dependencies parent ! position; c = c\<lparr>stack := (parent, position + 1) # rest\<rparr> in
            bind_result (resolve_edge E layers policy dependency) (\<lambda>resolved.
            let visit = (dependency_identity dependency, admissible_rank (quality resolved)) in
            if node_identity resolved \<in> active c then Inl cycle_error
            else if visit \<notin> visited c
            then Inr (c\<lparr>visited := insert visit (visited c), active := insert (node_identity resolved) (active c), stack := (resolved, 0) # stack c\<rparr>)
            else Inr c))"

definition closure_start :: "ArtifactManifest \<Rightarrow> closure_state" where
  "closure_start m = \<lparr>visited = {}, active = {node_identity m}, ordered = [], stack = [(m, 0)]\<rparr>"

definition closure_running :: "CacheError + closure_state \<Rightarrow> bool" where
  "closure_running r = (case r of Inl _ \<Rightarrow> False | Inr c \<Rightarrow> stack c \<noteq> [])"

definition closure_loop :: "policy_env \<Rightarrow> CacheLayer list \<Rightarrow> CachePolicy \<Rightarrow> CacheError + closure_state \<Rightarrow> (CacheError + closure_state) option" where
  "closure_loop E layers policy = while_option closure_running (\<lambda>r. bind_result r (closure_step E layers policy))"

definition validate_dependency_closure ::
  "policy_env \<Rightarrow> CacheLayer list \<Rightarrow> ArtifactManifest \<Rightarrow> CachePolicy \<Rightarrow> (CacheError + ArtifactManifest list) option" where
  "validate_dependency_closure E layers m policy =
     (case manifest_validate m of
        Inl e \<Rightarrow> Some (Inl e)
      | Inr _ \<Rightarrow> map_option (map_ok ordered) (closure_loop E layers policy (Inr (closure_start m))))"

subsection \<open>Specification\<close>

definition depends_on :: "policy_env \<Rightarrow> CacheLayer list \<Rightarrow> CachePolicy \<Rightarrow> ArtifactManifest \<Rightarrow> ArtifactManifest \<Rightarrow> bool" where
  "depends_on E layers policy m m' \<longleftrightarrow> (\<exists>d \<in> set (dependencies m). resolve_edge E layers policy d = Inr m')"

definition listed :: "CacheLayer list \<Rightarrow> ArtifactManifest set" where
  "listed layers = {m. \<exists>l \<in> set layers. \<exists>k ms. store_candidates (layer_store l) k = Inr ms \<and> m \<in> set ms}"

definition visit_of :: "ArtifactManifest \<Rightarrow> identity \<times> nat" where
  "visit_of m = (node_identity m, admissible_rank (quality m))"

definition provides :: "ArtifactManifest \<Rightarrow> DependencyRef \<Rightarrow> bool" where
  "provides m d \<longleftrightarrow> manifest_key m = dependency_key d \<and> content_digest m = dependency_digest d \<and> satisfies (quality m) (required_quality d)"

text \<open>The dependencies of a node that all resolve into a set, and the frames of the search: what a frame has already looked at is either
  complete or the frame above it.\<close>

definition grounded :: "(DependencyRef \<Rightarrow> CacheError + ArtifactManifest) \<Rightarrow> ArtifactManifest set \<Rightarrow> ArtifactManifest \<Rightarrow> bool" where
  "grounded res S m \<longleftrightarrow> (\<forall>d \<in> set (dependencies m). \<exists>m' \<in> S. res d = Inr m')"

fun frames_ok :: "(DependencyRef \<Rightarrow> CacheError + ArtifactManifest) \<Rightarrow> ArtifactManifest set \<Rightarrow> ArtifactManifest option \<Rightarrow>
    (ArtifactManifest \<times> nat) list \<Rightarrow> bool" where
  "frames_ok res S child [] = True"
| "frames_ok res S child ((m, i) # rest) =
     (i \<le> length (dependencies m) \<and>
      (\<forall>d \<in> set (take i (dependencies m)). \<exists>m'. res d = Inr m' \<and> (m' \<in> S \<or> child = Some m')) \<and> frames_ok res S (Some m) rest)"

definition closure_inv :: "policy_env \<Rightarrow> CacheLayer list \<Rightarrow> CachePolicy \<Rightarrow> ArtifactManifest \<Rightarrow> closure_state \<Rightarrow> bool" where
  "closure_inv E layers policy target c \<longleftrightarrow>
     (let res = resolve_edge E layers policy; nodes = map fst (stack c) in
      (stack c \<noteq> [] \<longrightarrow> last nodes = target) \<and> active c = node_identity ` set nodes \<and> distinct (map node_identity nodes) \<and>
      successively (\<lambda>child parent. depends_on E layers policy parent child) nodes \<and> frames_ok res (set (ordered c)) None (stack c) \<and>
      (\<forall>i < length (ordered c). grounded res (set (take i (ordered c))) (ordered c ! i)) \<and>
      (stack c = [] \<longrightarrow> grounded res (set (ordered c)) target) \<and>
      distinct (map visit_of (ordered c @ butlast nodes)) \<and> visit_of ` set (ordered c @ butlast nodes) = visited c \<and>
      (\<forall>m \<in> set (ordered c). node_identity m \<noteq> node_identity target) \<and>
      (\<forall>m \<in> set (ordered c @ butlast nodes). (depends_on E layers policy)\<^sup>+\<^sup>+ target m))"

section \<open>Lookup\<close>

lemma find_both:
  "find P xs = Some x \<Longrightarrow> find Q xs = Some y \<Longrightarrow> Q x \<Longrightarrow> P y \<Longrightarrow> x = y"
  by (induction xs) (auto split: if_splits)

lemma find_both_None: "find P xs = None \<Longrightarrow> find Q xs = Some y \<Longrightarrow> \<not> P y"
  by (auto simp: find_None_iff find_Some_iff)

lemma resolve_exact_Inr:
  "resolve_exact_manifest E layers k g p = Inr (n, m) \<Longrightarrow>
     \<exists>l \<in> set layers. \<exists>ms. store_candidates (layer_store l) k = Inr ms \<and> m \<in> set ms \<and> exact_match E g p m"
proof (induction layers)
  case (Cons l layers)
  then obtain ms where "store_candidates (layer_store l) k = Inr ms" by (auto simp: result_simps)
  then show ?case using Cons by (auto simp: find_Some_iff in_set_conv_nth split: option.splits)
qed simp

text \<open>Two exact lookups of one key and digest whose results pass both policies find the same manifest.\<close>

lemma resolve_exact_unique:
  "resolve_exact_manifest E layers k g p = Inr (n, m) \<Longrightarrow> resolve_exact_manifest E layers k g p' = Inr (n', m') \<Longrightarrow>
     exact_match E g p' m \<Longrightarrow> exact_match E g p m' \<Longrightarrow> m = m'"
proof (induction layers)
  case (Cons l layers)
  then obtain ms where ms: "store_candidates (layer_store l) k = Inr ms" by (auto simp: result_simps)
  show ?case
  proof (cases "find (exact_match E g p) ms"; cases "find (exact_match E g p') ms")
    assume "find (exact_match E g p) ms = None" "find (exact_match E g p') ms = None"
    then show ?thesis using Cons ms by simp
  qed (use Cons.prems ms find_both find_both_None in \<open>fastforce+\<close>)
qed simp

lemma resolve_edge_Inr:
  assumes "resolve_edge E layers policy d = Inr m"
  shows "\<exists>q n. combined_minimum (minimum_quality policy) (required_quality d) = Some q \<and>
    resolve_exact_manifest E layers (dependency_key d) (dependency_digest d) (policy\<lparr>minimum_quality := q\<rparr>) = Inr (n, m) \<and>
    satisfies (quality m) (required_quality d)"
  using assms by (auto simp: resolve_edge_def result_simps split: option.splits if_splits)

lemma resolve_edge_exact:
  assumes "resolve_edge E layers policy d = Inr m"
  shows "m \<in> listed layers" "content_digest m = dependency_digest d" "accepts E policy m" "satisfies (quality m) (required_quality d)"
    "\<exists>l \<in> set layers. \<exists>ms. store_candidates (layer_store l) (dependency_key d) = Inr ms \<and> m \<in> set ms"
proof -
  obtain q n where q: "combined_minimum (minimum_quality policy) (required_quality d) = Some q"
      "resolve_exact_manifest E layers (dependency_key d) (dependency_digest d) (policy\<lparr>minimum_quality := q\<rparr>) = Inr (n, m)"
      "satisfies (quality m) (required_quality d)"
    using resolve_edge_Inr[OF assms] by blast
  then show "satisfies (quality m) (required_quality d)" by simp
  obtain l ms where l: "l \<in> set layers" "store_candidates (layer_store l) (dependency_key d) = Inr ms" "m \<in> set ms"
      "exact_match E (dependency_digest d) (policy\<lparr>minimum_quality := q\<rparr>) m"
    using resolve_exact_Inr[OF q(2)] by blast
  then show "m \<in> listed layers" "\<exists>l \<in> set layers. \<exists>ms. store_candidates (layer_store l) (dependency_key d) = Inr ms \<and> m \<in> set ms"
    by (auto simp: listed_def)
  show "content_digest m = dependency_digest d" "accepts E policy m" using l(4) accepts_combined[OF q(1)] by (auto simp: exact_match_def)
qed

lemma resolve_edge_unique:
  assumes m: "resolve_edge E layers policy d = Inr m" and m': "resolve_edge E layers policy d' = Inr m'"
    and same: "dependency_identity d = dependency_identity d'" "admissible_rank (quality m) = admissible_rank (quality m')"
  shows "m = m'"
proof -
  have key: "dependency_key d' = dependency_key d" "dependency_digest d' = dependency_digest d"
    using same(1) by (auto simp: dependency_identity_def)
  have quality: "quality m = quality m'"
    using rank_inject[OF resolve_edge_exact(4)[OF m] resolve_edge_exact(4)[OF m'] same(2)] .
  obtain q n where q: "combined_minimum (minimum_quality policy) (required_quality d) = Some q"
      "resolve_exact_manifest E layers (dependency_key d) (dependency_digest d) (policy\<lparr>minimum_quality := q\<rparr>) = Inr (n, m)"
    using resolve_edge_Inr[OF m] by blast
  obtain q' n' where q': "combined_minimum (minimum_quality policy) (required_quality d') = Some q'"
      "resolve_exact_manifest E layers (dependency_key d) (dependency_digest d) (policy\<lparr>minimum_quality := q'\<rparr>) = Inr (n', m')"
    using resolve_edge_Inr[OF m'] unfolding key by blast
  show ?thesis
  proof (rule resolve_exact_unique[OF q(2) q'(2)])
    show "exact_match E (dependency_digest d) (policy\<lparr>minimum_quality := q'\<rparr>) m"
      "exact_match E (dependency_digest d) (policy\<lparr>minimum_quality := q\<rparr>) m'"
      using resolve_edge_exact(2-4)[OF m] resolve_edge_exact(2-4)[OF m'] accepts_combined[OF q(1)] accepts_combined[OF q'(1)] quality key
      by (auto simp: exact_match_def)
  qed
qed

section \<open>The search\<close>

lemma grounded_mono: "grounded res S m \<Longrightarrow> S \<subseteq> T \<Longrightarrow> grounded res T m"
  unfolding grounded_def by blast

lemma frames_ok_mono: "frames_ok res S child fs \<Longrightarrow> S \<subseteq> T \<Longrightarrow> (\<And>m. child = Some m \<Longrightarrow> child' = Some m \<or> m \<in> T) \<Longrightarrow> frames_ok res T child' fs"
  by (induction res S child fs arbitrary: child' rule: frames_ok.induct) (simp, fastforce)

lemma chain_reaches_last: "successively (\<lambda>child parent. R parent child) ms \<Longrightarrow> m \<in> set ms \<Longrightarrow> R\<^sup>*\<^sup>* m (hd ms)"
proof (induction ms)
  case (Cons x ms)
  show ?case
  proof (cases ms)
    case (Cons y zs)
    then show ?thesis using Cons.prems Cons.IH by (auto intro: rtranclp.rtrancl_into_rtrancl)
  qed (use Cons in auto)
qed simp

text \<open>What the closure needs of the layers: each lists manifests under their own key, and together they list finitely many.\<close>

locale layer_stack =
  fixes E :: policy_env and layers :: "CacheLayer list" and policy :: CachePolicy
  assumes keyed_layers: "l \<in> set layers \<Longrightarrow> store_candidates (layer_store l) k = Inr ms \<Longrightarrow> m \<in> set ms \<Longrightarrow> manifest_key m = k"
    and finite_layers: "finite (listed layers)"
begin

lemma edge_identity:
  assumes "resolve_edge E layers policy d = Inr m"
  shows "node_identity m = dependency_identity d" "visit_of m = (dependency_identity d, admissible_rank (quality m))"
  using resolve_edge_exact(2,5)[OF assms] keyed_layers by (auto simp: node_identity_def dependency_identity_def visit_of_def)

lemma same_visit:
  assumes "(depends_on E layers policy)\<^sup>+\<^sup>+ a m" "resolve_edge E layers policy d = Inr m'" "visit_of m = visit_of m'"
  shows "m = m'"
proof -
  obtain d' where d': "resolve_edge E layers policy d' = Inr m" using assms(1) by cases (auto simp: depends_on_def)
  show ?thesis using resolve_edge_unique[OF d' assms(2)] edge_identity[OF d'] edge_identity[OF assms(2)] assms(3) by simp
qed

lemma inv_start: "closure_inv E layers policy m (closure_start m)"
  by (simp add: closure_inv_def closure_start_def)

lemma inv_pop:
  assumes inv: "closure_inv E layers policy target c" and st: "stack c = (m, i) # rest" and finished: "length (dependencies m) \<le> i"
  shows "closure_inv E layers policy target (c\<lparr>stack := rest, active := active c - {node_identity m},
    ordered := (if rest \<noteq> [] then ordered c @ [m] else ordered c)\<rparr>)"
proof -
  let ?res = "resolve_edge E layers policy"
  have ground: "grounded ?res (set (ordered c)) m"
    using inv st finished by (auto simp: closure_inv_def Let_def grounded_def)
  have frames: "frames_ok ?res (set (ordered c)) (Some m) rest" using inv st by (simp add: closure_inv_def Let_def)
  show ?thesis
  proof (cases "rest = []")
    case True
    then show ?thesis using inv st ground by (auto simp: closure_inv_def Let_def)
  next
    case False
    have "frames_ok ?res (set (ordered c @ [m])) None rest" by (rule frames_ok_mono[OF frames]) auto
    moreover have "node_identity m \<noteq> node_identity target"
      using inv st False by (auto simp: closure_inv_def Let_def image_iff last_map)
    moreover have "\<forall>i < length (ordered c @ [m]). grounded ?res (set (take i (ordered c @ [m]))) ((ordered c @ [m]) ! i)"
      using inv ground by (auto simp: closure_inv_def Let_def nth_append less_Suc_eq)
    moreover have "active c - {node_identity m} = node_identity ` set (map fst rest)"
      using inv st by (auto simp: closure_inv_def Let_def) (auto simp: image_iff)
    ultimately show ?thesis using inv st False
      by (simp add: closure_inv_def Let_def successively_Cons)
  qed
qed

lemma advanced_frame:
  assumes frames: "frames_ok res S None ((m, i) # rest)" and i: "i < length (dependencies m)" and res: "res (dependencies m ! i) = Inr m'"
    and m': "m' \<in> S \<or> child = Some m'"
  shows "frames_ok res S child ((m, i + 1) # rest)"
  using frames res m' i by (auto simp: take_Suc_conv_app_nth)

lemma inv_skip:
  assumes inv: "closure_inv E layers policy target c" and st: "stack c = (m, i) # rest" and i: "i < length (dependencies m)"
    and res: "resolve_edge E layers policy (dependencies m ! i) = Inr m'"
    and idle: "node_identity m' \<notin> active c" and seen: "visit_of m' \<in> visited c"
  shows "closure_inv E layers policy target (c\<lparr>stack := (m, i + 1) # rest\<rparr>)"
proof -
  obtain n where n: "n \<in> set (ordered c @ butlast (map fst (stack c)))" "visit_of n = visit_of m'"
      "(depends_on E layers policy)\<^sup>+\<^sup>+ target n"
    using inv seen unfolding closure_inv_def Let_def by (metis (no_types, lifting) imageE)
  have "n = m'" by (rule same_visit[OF n(3) res n(2)])
  moreover have "m' \<notin> set (map fst (stack c))" using idle inv by (auto simp: closure_inv_def Let_def)
  ultimately have "m' \<in> set (ordered c)" using n(1) by (auto dest: in_set_butlastD)
  then have "frames_ok (resolve_edge E layers policy) (set (ordered c)) None ((m, i + 1) # rest)"
    using inv st i res by (intro advanced_frame) (auto simp: closure_inv_def Let_def)
  then show ?thesis using inv st by (auto simp: closure_inv_def Let_def)
qed

lemma inv_push:
  assumes inv: "closure_inv E layers policy target c" and st: "stack c = (m, i) # rest" and i: "i < length (dependencies m)"
    and res: "resolve_edge E layers policy (dependencies m ! i) = Inr m'"
    and idle: "node_identity m' \<notin> active c" and fresh: "visit_of m' \<notin> visited c"
  shows "closure_inv E layers policy target (c\<lparr>visited := insert (visit_of m') (visited c),
    active := insert (node_identity m') (active c), stack := (m', 0) # (m, i + 1) # rest\<rparr>)"
proof -
  have edge: "depends_on E layers policy m m'" using i res by (auto simp: depends_on_def)
  have "m = target \<or> (depends_on E layers policy)\<^sup>+\<^sup>+ target m"
    using inv st by (cases rest) (auto simp: closure_inv_def Let_def)
  then have "(depends_on E layers policy)\<^sup>+\<^sup>+ target m'" using edge by auto
  moreover have "frames_ok (resolve_edge E layers policy) (set (ordered c)) (Some m') ((m, i + 1) # rest)"
    using inv st i res by (intro advanced_frame) (auto simp: closure_inv_def Let_def)
  ultimately show ?thesis using inv st idle fresh edge
    by (auto simp: closure_inv_def Let_def)
qed

text \<open>One iteration: it pops, skips or pushes and keeps the invariant, or it fails on an unresolvable dependency or on a cycle of a
  node that the search can reach.\<close>

lemma reachable_frame:
  assumes "closure_inv E layers policy target c" "m \<in> set (map fst (stack c))"
  shows "(depends_on E layers policy)\<^sup>*\<^sup>* target m"
proof -
  have "x = last xs \<or> x \<in> set (butlast xs)" if "x \<in> set xs" for x :: ArtifactManifest and xs using that by (induction xs) auto
  from this[OF assms(2)] show ?thesis using assms by (auto simp: closure_inv_def Let_def intro: tranclp_into_rtranclp)
qed

definition failure_cause :: "ArtifactManifest \<Rightarrow> CacheError \<Rightarrow> bool" where
  "failure_cause target e \<longleftrightarrow>
     (\<exists>m. (depends_on E layers policy)\<^sup>*\<^sup>* target m \<and> (\<exists>d \<in> set (dependencies m). resolve_edge E layers policy d = Inl e)) \<or>
     e = cycle_error \<and> (\<exists>a b. (depends_on E layers policy)\<^sup>*\<^sup>* target a \<and> (depends_on E layers policy)\<^sup>+\<^sup>+ a b \<and> node_identity a = node_identity b)"

definition remaining :: "closure_state \<Rightarrow> nat \<times> nat" where
  "remaining c = (card (visit_of ` listed layers - visited c), \<Sum>(m, i) \<leftarrow> stack c. Suc (length (dependencies m) - i))"

lemma step_correct:
  assumes inv: "closure_inv E layers policy target c" and running: "stack c \<noteq> []"
  shows "case closure_step E layers policy c of Inl e \<Rightarrow> failure_cause target e
    | Inr c' \<Rightarrow> closure_inv E layers policy target c' \<and> (remaining c', remaining c) \<in> less_than <*lex*> less_than"
proof -
  obtain m i rest where st: "stack c = (m, i) # rest" using running by (cases "stack c") auto
  have m: "(depends_on E layers policy)\<^sup>*\<^sup>* target m" using reachable_frame[OF inv] st by simp
  show ?thesis
  proof (cases "length (dependencies m) \<le> i")
    case True
    then show ?thesis using inv_pop[OF inv st True] st by (simp add: closure_step_def remaining_def)
  next
    case False
    then have i: "i < length (dependencies m)" by simp
    let ?d = "dependencies m ! i"
    have d: "?d \<in> set (dependencies m)" using i by simp
    show ?thesis
    proof (cases "resolve_edge E layers policy ?d")
      case (Inl e)
      then show ?thesis using i st m d by (auto simp: closure_step_def failure_cause_def)
    next
      case (Inr m')
      have visit: "visit_of m' = (dependency_identity ?d, admissible_rank (quality m'))" by (rule edge_identity[OF Inr])
      consider "node_identity m' \<in> active c" | "node_identity m' \<notin> active c" "visit_of m' \<in> visited c"
        | "node_identity m' \<notin> active c" "visit_of m' \<notin> visited c" by blast
      then show ?thesis
      proof cases
        case 1
        have "active c = node_identity ` set (map fst (stack c))" using inv by (simp add: closure_inv_def Let_def)
        with 1 obtain a where a: "a \<in> set (map fst (stack c))" "node_identity a = node_identity m'" by (metis imageE)
        have "(depends_on E layers policy)\<^sup>*\<^sup>* a m"
          using chain_reaches_last[of "depends_on E layers policy" "map fst (stack c)" a] inv a st by (simp add: closure_inv_def Let_def)
        moreover have "depends_on E layers policy m m'" using d Inr by (auto simp: depends_on_def)
        ultimately have "failure_cause target cycle_error" using reachable_frame[OF inv a(1)] a(2) unfolding failure_cause_def
          by (blast intro: rtranclp_into_tranclp1)
        then show ?thesis using 1 i st Inr by (simp add: closure_step_def Let_def)
      next
        case 2
        then show ?thesis using inv_skip[OF inv st i Inr] i st Inr visit by (simp add: closure_step_def Let_def remaining_def)
      next
        case 3
        have "visit_of m' \<in> visit_of ` listed layers" using resolve_edge_exact(1)[OF Inr] by simp
        then have "card (visit_of ` listed layers - insert (visit_of m') (visited c)) < card (visit_of ` listed layers - visited c)"
          using 3 finite_layers by (intro psubset_card_mono) auto
        then show ?thesis using inv_push[OF inv st i Inr] 3 i st Inr visit by (simp add: closure_step_def Let_def remaining_def)
      qed
    qed
  qed
qed

lemma loop_correct:
  "\<exists>r. closure_loop E layers policy (Inr (closure_start m)) = Some r \<and>
     (case r of Inl e \<Rightarrow> failure_cause m e | Inr c \<Rightarrow> stack c = [] \<and> closure_inv E layers policy m c)"
proof -
  let ?P = "\<lambda>r. case r of Inl e \<Rightarrow> failure_cause m e | Inr c \<Rightarrow> closure_inv E layers policy m c"
  let ?step = "\<lambda>r. bind_result r (closure_step E layers policy)"
  let ?size = "\<lambda>r. case r of Inl e \<Rightarrow> (0, 0) | Inr c \<Rightarrow> remaining c"
  have step: "?P (?step r) \<and> (?size (?step r), ?size r) \<in> less_than <*lex*> less_than" if "?P r" "closure_running r" for r
  proof (cases r)
    case (Inr c)
    then have c: "closure_inv E layers policy m c" "stack c \<noteq> []" using that by (auto simp: closure_running_def)
    then have "0 < snd (remaining c)" by (cases "stack c") (auto simp: remaining_def)
    then show ?thesis using step_correct[OF c] Inr by (cases "remaining c") (auto split: sum.splits)
  qed (use that in \<open>simp add: closure_running_def\<close>)
  have start: "?P (Inr (closure_start m))" by (simp add: inv_start)
  have "wf {(t, s). (?P s \<and> closure_running s) \<and> t = ?step s}"
    by (rule wf_subset[OF wf_inv_image[where f = ?size, OF wf_lex_prod[OF wf_less_than wf_less_than]]]) (use step in \<open>auto simp: inv_image_def\<close>)
  then have "\<exists>r. while_option closure_running ?step (Inr (closure_start m)) = Some r"
    by (rule wf_while_option_Some[where P = ?P]) (use step start in auto)
  then obtain r where r: "closure_loop E layers policy (Inr (closure_start m)) = Some r" by (auto simp: closure_loop_def)
  have "?P r" "\<not> closure_running r"
    using while_option_rule[where P = ?P, OF _ r[unfolded closure_loop_def] start] step while_option_stop[OF r[unfolded closure_loop_def]] by auto
  then show ?thesis using r by (auto simp: closure_running_def split: sum.splits)
qed

text \<open>A completed search: what was collected is the set of reachable nodes, in an order in which a node comes after what it depends on.\<close>

lemma edge_provides: "resolve_edge E layers policy d = Inr m \<Longrightarrow> provides m d"
  using resolve_edge_exact(2,4,5) keyed_layers unfolding provides_def by metis

lemma completed_nodes:
  assumes inv: "closure_inv E layers policy target c" and empty: "stack c = []"
  shows "set (ordered c) = {m. (depends_on E layers policy)\<^sup>+\<^sup>+ target m}" "distinct (ordered c)" "target \<notin> set (ordered c)"
    "grounded (resolve_edge E layers policy) (set (ordered c)) target"
    "\<And>i. i < length (ordered c) \<Longrightarrow> grounded (resolve_edge E layers policy) (set (take i (ordered c))) (ordered c ! i)"
proof -
  show ground: "grounded (resolve_edge E layers policy) (set (ordered c)) target" "distinct (ordered c)" "target \<notin> set (ordered c)"
    "\<And>i. i < length (ordered c) \<Longrightarrow> grounded (resolve_edge E layers policy) (set (take i (ordered c))) (ordered c ! i)"
    using inv empty by (auto simp: closure_inv_def Let_def distinct_map)
  have closed: "m' \<in> set (ordered c)" if "m = target \<or> m \<in> set (ordered c)" "depends_on E layers policy m m'" for m m'
  proof -
    have "grounded (resolve_edge E layers policy) (set (ordered c)) m"
      using that(1) ground(1) ground(4) by (auto simp: in_set_conv_nth intro: grounded_mono dest: in_set_takeD)
    then show ?thesis using that(2) by (fastforce simp: grounded_def depends_on_def)
  qed
  have "m \<in> set (ordered c)" if "(depends_on E layers policy)\<^sup>+\<^sup>+ target m" for m
    using that by (induction rule: tranclp_induct) (auto intro: closed)
  then show "set (ordered c) = {m. (depends_on E layers policy)\<^sup>+\<^sup>+ target m}"
    using inv empty by (auto simp: closure_inv_def Let_def)
qed

lemma completed_acyclic:
  assumes inv: "closure_inv E layers policy target c" "stack c = []" and m: "(depends_on E layers policy)\<^sup>*\<^sup>* target m"
  shows "\<not> (depends_on E layers policy)\<^sup>+\<^sup>+ m m"
proof
  note nodes = completed_nodes[OF inv]
  assume cycle: "(depends_on E layers policy)\<^sup>+\<^sup>+ m m"
  then have "(depends_on E layers policy)\<^sup>+\<^sup>+ target m" using m by (rule rtranclp_tranclp_tranclp[rotated])
  then have "m \<in> set (ordered c)" using nodes(1) by simp
  then obtain i where i: "i < length (ordered c)" "ordered c ! i = m" by (meson in_set_conv_nth)
  have edge: "\<exists>k < j. ordered c ! k = b" if "j < length (ordered c)" "depends_on E layers policy (ordered c ! j) b" for j b
    using nodes(5)[OF that(1)] that by (fastforce simp: grounded_def depends_on_def in_set_conv_nth)
  have "\<exists>k < i. ordered c ! k = b" if "(depends_on E layers policy)\<^sup>+\<^sup>+ m b" for b
    using that
  proof (induction rule: tranclp_induct)
    case (base b)
    then show ?case using edge[OF i(1)] i(2) by simp
  next
    case (step a b)
    then obtain k where k: "k < i" "ordered c ! k = a" by blast
    then show ?case using edge[of k b] step(2) i(1) by (metis order.strict_trans)
  qed
  from this[OF cycle] show False using i nodes(2) by (auto simp: nth_eq_iff_index_eq)
qed

end

section \<open>Layers of a session\<close>

text \<open>A session resolves through its own store and a read-only overlay with a read budget.\<close>

definition session_layers :: "'k store_env \<Rightarrow> 'k StoreState \<Rightarrow> 'k StoreState \<Rightarrow> nat \<Rightarrow> CacheLayer list" where
  "session_layers S own shared budget = resolver_new
     [\<lparr>precedence = 1, layer_store = read_only_budgeted (ephemeral_store S shared) budget\<rparr>, \<lparr>precedence = 0, layer_store = ephemeral_store S own\<rparr>]"

lemma listed_ephemeral: "store_candidates (ephemeral_store S s) k = Inr ms \<Longrightarrow> set ms \<subseteq> fst ` set (artifacts s)"
  by (auto simp: ephemeral_store_def candidates_def result_simps)

interpretation session_closure: layer_stack E "session_layers S own shared budget" policy for E S own shared budget policy
proof unfold_locales
  show "manifest_key m = k"
    if "l \<in> set (session_layers S own shared budget)" "store_candidates (layer_store l) k = Inr ms" "m \<in> set ms" for l k ms m
    using that ephemeral.keyed budgeted_ephemeral.overlay.keyed by (auto simp: session_layers_def resolver_new_def)
  have "listed (session_layers S own shared budget) \<subseteq> fst ` set (artifacts own) \<union> fst ` set (artifacts shared)"
    using listed_ephemeral by (fastforce simp: listed_def session_layers_def resolver_new_def read_only_budgeted_def)
  then show "finite (listed (session_layers S own shared budget))" by (rule finite_subset) simp
qed

section \<open>Properties\<close>

text \<open>C40. The dependency closure of a manifest is always computed when the layers list finitely many manifests, each under its own
  key. A returned list holds exactly the manifests the target depends on, directly or through others, each once, all accepted by the
  policy, and after everything it depends on itself: every dependency of the target and of a returned manifest is provided, with its key, digest and
  quality, by a returned manifest, for the latter an earlier one. So no manifest reachable from the target depends on itself. A failure is the
  invalidity of the target, a dependency of a reachable manifest that does not resolve, or a path that returns to the identity of a
  manifest on it.\<close>

theorem dependency_closure_correct:
  assumes keyed: "\<forall>l \<in> set layers. \<forall>k ms. store_candidates (layer_store l) k = Inr ms \<longrightarrow> (\<forall>m \<in> set ms. manifest_key m = k)"
    and finite: "finite (listed layers)"
  shows "\<exists>r. validate_dependency_closure E layers target policy = Some r \<and>
    (\<forall>nodes. r = Inr nodes \<longrightarrow> manifest_validate target = Inr () \<and>
       set nodes = {m. (depends_on E layers policy)\<^sup>+\<^sup>+ target m} \<and> distinct nodes \<and> (\<forall>m \<in> set nodes. accepts E policy m) \<and>
       (\<forall>d \<in> set (dependencies target). \<exists>m \<in> set nodes. provides m d) \<and>
       (\<forall>i < length nodes. \<forall>d \<in> set (dependencies (nodes ! i)). \<exists>j < i. provides (nodes ! j) d) \<and>
       (\<forall>m. (depends_on E layers policy)\<^sup>*\<^sup>* target m \<longrightarrow> \<not> (depends_on E layers policy)\<^sup>+\<^sup>+ m m)) \<and>
    (\<forall>e. r = Inl e \<longrightarrow> manifest_validate target = Inl e \<or>
       (\<exists>m. (depends_on E layers policy)\<^sup>*\<^sup>* target m \<and> (\<exists>d \<in> set (dependencies m). resolve_edge E layers policy d = Inl e)) \<or>
       e = cycle_error \<and> (\<exists>a b. (depends_on E layers policy)\<^sup>*\<^sup>* target a \<and> (depends_on E layers policy)\<^sup>+\<^sup>+ a b \<and> node_identity a = node_identity b))"
proof -
  have stack: "layer_stack layers" using assms by unfold_locales auto
  obtain r where r: "closure_loop E layers policy (Inr (closure_start target)) = Some r"
    "case r of Inl e \<Rightarrow> layer_stack.failure_cause E layers policy target e | Inr c \<Rightarrow> stack c = [] \<and> closure_inv E layers policy target c"
    using layer_stack.loop_correct[OF stack] by blast
  consider e where "manifest_validate target = Inl e" | e where "manifest_validate target = Inr ()" "r = Inl e"
    | c where "manifest_validate target = Inr ()" "r = Inr c" by (cases "manifest_validate target"; cases r) auto
  then show ?thesis
  proof cases
    case 1
    then show ?thesis by (simp add: validate_dependency_closure_def)
  next
    case 2
    then show ?thesis using r layer_stack.failure_cause_def[OF stack, of E policy target e] by (simp add: validate_dependency_closure_def)
  next
    case 3
    then have c: "closure_inv E layers policy target c" "stack c = []" using r(2) by auto
    note nodes = layer_stack.completed_nodes[OF stack c]
    have provided: "\<exists>m \<in> S. provides m d" if "grounded (resolve_edge E layers policy) S m" "d \<in> set (dependencies m)" for S m d
      using that layer_stack.edge_provides[OF stack] by (fastforce simp: grounded_def)
    have accepted: "accepts E policy m" if "m \<in> set (ordered c)" for m
    proof -
      have "(depends_on E layers policy)\<^sup>+\<^sup>+ target m" using that nodes(1) by simp
      then show ?thesis by cases (auto simp: depends_on_def dest: resolve_edge_exact(3))
    qed
    have earlier: "\<exists>j < i. provides (ordered c ! j) d" if "i < length (ordered c)" "d \<in> set (dependencies (ordered c ! i))" for i d
      using provided[OF nodes(5)[OF that(1)] that(2)] that(1) by (auto simp: in_set_conv_nth) blast
    show ?thesis using 3 r(1) nodes(1,2) accepted provided[OF nodes(4)] earlier layer_stack.completed_acyclic[OF stack c]
      by (simp add: validate_dependency_closure_def)
  qed
qed

section \<open>Sample\<close>

definition sample_target :: ArtifactManifest where
  "sample_target = sample_manifest\<lparr>manifest_key := sample_key\<lparr>logical_key := ''rule''\<rparr>,
     dependencies := [\<lparr>dependency_key = sample_key, dependency_digest = ContentDigest (replicate 64 CHR ''0''), required_quality = Validated\<rparr>]\<rparr>"

definition sample_layers :: "CacheLayer list" where
  "sample_layers = session_layers sample_store_env (default_state\<lparr>artifacts := [(sample_manifest, ''payload'')]\<rparr>) default_state 100"

lemma sample_edge:
  "resolve_edge sample_policy_env sample_layers sample_policy
     \<lparr>dependency_key = sample_key, dependency_digest = ContentDigest (replicate 64 CHR ''0''), required_quality = Validated\<rparr> = Inr sample_manifest"
proof -
  have min: "combined_minimum (minimum_quality sample_policy) Validated = Some Validated" by (simp add: combined_minimum_def sample_policy_def)
  have key: "key_validate sample_key = Inr ()" using sample_manifest_parts(1) by (simp add: key_validate_def valid_key_def)
  have parts: "manifest_key sample_manifest = sample_key" "content_digest sample_manifest = ContentDigest (replicate 64 CHR ''0'')"
    "satisfies (quality sample_manifest) Validated" by (simp_all add: sample_manifest_def satisfies_iff)
  show ?thesis
    by (simp add: resolve_edge_def min sample_layers_def session_layers_def resolver_new_def ephemeral_store_def candidates_def key parts
        exact_match_def sample_accepted default_state_def)
qed

lemma sample_closure:
  "validate_dependency_closure sample_policy_env sample_layers sample_target sample_policy = Some (Inr [sample_manifest])"
proof -
  let ?dep = "\<lparr>dependency_key = sample_key, dependency_digest = ContentDigest (replicate 64 CHR ''0''), required_quality = Validated\<rparr>"
  have deps: "dependencies sample_target = [?dep]" "dependencies sample_manifest = []" by (simp_all add: sample_target_def sample_manifest_def)
  have apart: "node_identity sample_manifest \<noteq> node_identity sample_target"
    by (simp add: node_identity_def sample_target_def sample_manifest_def sample_key_def)
  have "valid_key (sample_key\<lparr>logical_key := ''rule''\<rparr>)" by (simp add: valid_key_def sample_key_def) code_simp
  then have valid: "manifest_validate sample_target = Inr ()"
    using sample_manifest_parts
    by (simp add: manifest_validate_def sample_target_def sample_manifest_def check_versions_def check_objects_def add_object_def checked_add_def
        usize_max_def key_validate_def valid_key_def check_dependency_def)
  show ?thesis
    by (simp add: validate_dependency_closure_def valid closure_loop_def closure_start_def while_option_unfold closure_running_def closure_step_def
        Let_def deps sample_edge apart)
qed

theorem dependency_closure_correct_witness:
  "validate_dependency_closure sample_policy_env sample_layers sample_target sample_policy = Some (Inr [sample_manifest]) \<and>
   \<not> (depends_on sample_policy_env sample_layers sample_policy)\<^sup>+\<^sup>+ sample_target sample_target"
proof -
  have keyed: "\<forall>l \<in> set sample_layers. \<forall>k ms. store_candidates (layer_store l) k = Inr ms \<longrightarrow> (\<forall>m \<in> set ms. manifest_key m = k)"
    unfolding sample_layers_def using session_closure.keyed_layers by blast
  have finite: "finite (listed sample_layers)" unfolding sample_layers_def by (rule session_closure.finite_layers)
  show ?thesis using dependency_closure_correct[OF keyed finite, of sample_policy_env sample_target sample_policy] sample_closure by auto
qed

end
