(* ===== verification/Spec2Isabelle.thy ===== *)
theory Spec2Isabelle
  imports Contour_Count Interval_Linear Sturm_Isolation Mpfr_Inertia Adaptive_Precision Portable_Inertia Exact_Ldlt Modular_Product Cache_Resolver
begin

text \<open>
  Verification of the exact core of the Xcelerator Toolkit, a Rust workspace of eleven crates for certified high-precision spectral computation.

  \<^bold>\<open>The program.\<close> Numerical results of the toolkit are turned into claims by code that computes exactly. \<open>crates/xc-numerics\<close> holds
  rational and directed MPFR interval arithmetic, exact polynomial root counting and the interval elimination kernels;
  \<open>crates/xc-certify\<close> builds and verifies certificates (inertia, eigenvalue counts and enclosures, spectral gaps) from them;
  \<open>crates/xc-core\<close> has decimal literals, targets and precision policies; \<open>crates/xc-cache\<close> stores artifacts under manifests, accepts
  them by policy and resolves them with their dependencies. The remaining crates (solvers, operators, spectral models, the command line) produce
  the numbers that these parts certify, store and replay.

  \<^bold>\<open>Theories and what they model.\<close>
  \<^item> \<open>XC_Prelude\<close>: result values (\<open>CacheError + 'a\<close> and the like, \<open>Inl\<close> the error), panics as the value \<open>Panicked\<close> of \<open>fault\<close>, loops over
    results (\<open>fold_result\<close>, \<open>collect_results\<close>), checked and saturating machine arithmetic with the bounds of usize, isize and u32
    written out, decimal printing, and the collections \<open>result_simps\<close>, \<open>wf_intros\<close> and \<open>enclosure_intros\<close>.
  \<^item> \<open>Rational_Interval\<close>, \<open>Interval_Polynomial\<close>, \<open>Contour_Count\<close>, \<open>Exact_Sturm\<close>, \<open>Sturm_Isolation\<close>, \<open>Interval_Linear\<close>: all of
    \<open>xc-numerics/src/interval.rs\<close>, in its order: intervals and complex balls, Horner evaluation, simple roots and circle dominance, contour
    subdivision and winding, Sturm counting and root isolation, dot products and Rayleigh quotients. \<open>Sturm_Chain\<close> and \<open>Euclidean_Chain\<close> prove
    Sturm's theorem for the chains the code builds.
  \<^item> \<open>Mpfr_Float\<close>, \<open>Mpfr_Interval\<close>, \<open>Mpfr_Inertia\<close>: \<open>mpfr_interval.rs\<close> and \<open>symmetric_inertia.rs\<close> over \<open>rug::Float\<close>, whose rounded
    operations are parameters with MPFR's documented rounding laws as the hypothesis of a locale.
  \<^item> \<open>Inertia_Algebra\<close>, \<open>Interval_Inertia\<close>, \<open>Exact_Ldlt\<close>, \<open>Eigenvalue_Count\<close>, \<open>Eigenvalue_Certificates\<close>, \<open>Portable_Inertia\<close>,
    \<open>Certificate_Records\<close>: \<open>xc-certify/src/lib.rs\<close> and \<open>interval_inertia.rs\<close>. \<open>Inertia_Algebra\<close> has the mathematics (signatures, Sylvester's
    law, ordered spectra); the others follow the code: the two eliminations, shifted-inertia boundaries, counts, the bisection for a
    selected eigenvalue, replaying verifiers, portable certificates, and the decimal and rational records.
  \<^item> \<open>Modular_Product\<close>: the CPU part of \<open>xc-numerics/src/modular_product.rs\<close>, exact integer matrix products by residues modulo small primes
    and Chinese remaindering, and the limb products for wider integers.
  \<^item> \<open>Decimal_Literal\<close>, \<open>Adaptive_Precision\<close>: \<open>xc-core/src/target.rs\<close> and \<open>precision.rs\<close>.
  \<^item> \<open>Toolkit_Version\<close>, \<open>Cache_Manifest\<close>, \<open>Cache_Store\<close>, \<open>Cache_Resolver\<close>: from \<open>xc-cache/src\<close> the versions and errors, manifests, policies,
    promotion and shards, the bounded session store with its assurance records, the read-only overlay, and the layered resolver with
    the dependency closure (\<open>lib.rs\<close>, \<open>ephemeral_store.rs\<close>, parts of \<open>execution_cache.rs\<close> and \<open>protocol.rs\<close>).

  \<^bold>\<open>Correspondence.\<close> Structs are records and enums datatypes with the source's constructors, renamed where HOL has the name. A \<open>BigRational\<close>
  is a \<open>rat\<close>, a u64 or usize a \<open>nat\<close> with its bound written out where the code checks or saturates, the components of a version are 64-bit words, a byte string is a
  \<open>string\<close>. Every early return is a branch with its message. State is passed explicitly; a parallel row update runs its jobs entry by entry on one
  array, in the order of an arbitrary schedule of the environment; the operations of the session store, which
  lock a shared state, are the rules of the step relation \<open>store_step\<close>. Serialisation, SHA-256, the MPFR library, the artifact compatibility tables and
  caller-supplied closures are arguments, collected in environment records (\<open>certify_env\<close>, \<open>portable_env\<close>, \<open>product_env\<close>, \<open>policy_env\<close>, \<open>store_env\<close>).

  \<^bold>\<open>What is shown.\<close> Interval operations enclose every value of their arguments and keep intervals well-formed; root counts, isolations and
  winding numbers are those of the polynomial; modular and limb products are the integer matrix products, with no overflow on the way; a conclusive inertia, count, enclosure or gap holds of every real symmetric matrix in the
  interval matrix, on both arithmetic routes, and the value does not depend on how the row jobs of the workers interleave; verifiers accept what the builders build, and what they accept
  is true; literals, records and versions are read back as written; the adaptive driver refines the replay of its finite schedule; a valid
  manifest is characterised, acceptance and promotion respect quality and visibility, the session store keeps its budget and its
  bindings, and the dependency closure ends and is a topological order of the reachable manifests. Panicking operations of the certificate code are shown not to panic.

  \<^bold>\<open>Interfaces.\<close> Locales state what one component relies on. \<open>integer_sqrt\<close>, \<open>directed_mpfr\<close> and \<open>rational_text\<close> are the documented laws of
  library operations, as is \<open>bezout\<close> for the extended Euclidean algorithm, each interpreted on a reference implementation. \<open>exact_products\<close> is what
  the limb products need of the product they call, provided by \<open>multiply\<close>. \<open>horner\<close> is the contract of the four polynomial evaluators,
  \<open>inertia_kernel\<close> that of an elimination, provided by the exact and the MPFR kernel alike, \<open>certify_context\<close> and \<open>portable_context\<close> that of
  the environments of the certificate code, \<open>comparison\<close> that of a three-way comparison. \<open>session_operation\<close> is what every store operation keeps,
  \<open>cache_layer\<close> with its extension \<open>budgeted_layer\<close> what a reader may assume of a store, and \<open>layer_stack\<close> what the dependency closure
  needs of the layers; they are interpreted on the operations of the session store and on the layers of a session.

  \<^bold>\<open>Loops and bounds.\<close> Loops over indices are folds; others are recursive functions with a measure (remainder degree, remaining depth, remaining
  precision, remaining bisection steps), so no fuel is used. The closure search is \<open>while_option\<close> and is shown to end on finite layers.

  \<^bold>\<open>Not modelled.\<close> Floating-point algorithms without an exactness claim (the eigensolvers and quadrature of \<open>xc-numerics\<close>, \<open>xc-solver\<close>, \<open>xc-root\<close>,
  \<open>xc-operator\<close>, \<open>xc-variational\<close>, \<open>xc-zeta\<close> and the models of \<open>xc-spectral\<close>): their results are rounded numbers whose error the code does not
  bound, except through the certificates above. Transcendental MPFR enclosures (pi, gamma, exp, ln, trigonometric functions), which rest on
  constants and series bounds of MPFR. File, archive, network and Git transports and the publication pipeline of \<open>xc-cache\<close>, which are sequences of
  effects on the outside world. JSON encoding. The argument principle (winding number equals zeros with multiplicity) is not proved.
  Parsing and printing of binary64 numbers. The CUDA backends. Configuration, progress, diagnostics, provenance records and the command line.
\<close>

end
